(* ===== verification/Prelude.thy ===== *)
theory Prelude
  imports Complex_Main "HOL-Library.Word" "HOL-Library.Monad_Syntax" "HOL-Library.Multiset"
begin

text \<open>
  Shared vocabulary of the development: the names of the machine types, the theorem
  collections the component theories fill and use, and generic facts on options, words
  and lists.
\<close>

section \<open>Machine types\<close>

type_synonym u8 = "8 word"      \<comment> \<open>\<open>unsigned char\<close>\<close>
type_synonym u32 = "32 word"    \<comment> \<open>\<open>unsigned int\<close>\<close>
type_synonym u64 = "64 word"    \<comment> \<open>\<open>size_t\<close>, \<open>unsigned long\<close>, \<open>unsigned long long\<close>\<close>
type_synonym addr = nat         \<comment> \<open>the address of a heap object\<close>

abbreviation (input) NULL :: addr where
  "NULL \<equiv> 0"

section \<open>Theorem collections\<close>

named_theorems heap_simps "how the heap primitives rewrite when memory is available"
named_theorems heap_frame "what an operation leaves unchanged"
named_theorems inv_intros "operations keep the invariant of their component"
named_theorems dbl_simps "evaluation of floating point operations"

section \<open>Options\<close>

lemma bind_Some_iff:
  "Option.bind m f = Some y \<longleftrightarrow> (\<exists>x. m = Some x \<and> f x = Some y)"
  by (cases m) simp_all

lemma bind_None_iff:
  "Option.bind m f = None \<longleftrightarrow> m = None \<or> (\<exists>x. m = Some x \<and> f x = None)"
  by (cases m) simp_all

section \<open>Words as natural numbers\<close>

lemma unat_of_nat_u64: "n < 2 ^ 64 \<Longrightarrow> unat (of_nat n :: u64) = n"
  by (simp add: unat_of_nat take_bit_nat_eq_self)

lemma unat_add_u64:
  "unat a + unat b < 2 ^ 64 \<Longrightarrow> unat (a + b :: u64) = unat a + unat b"
  using unat_add_lem [of a b] by simp

lemma unat_Suc_u64:
  "unat a + 1 < 2 ^ 64 \<Longrightarrow> unat (a + 1 :: u64) = unat a + 1"
  using unat_add_u64 [of a 1] by simp

lemma word_of_nat_Suc_u64: "of_nat (Suc n) = (of_nat n + 1 :: u64)"
  by simp

section \<open>Lists\<close>

lemma nth_append_snoc: "i < length xs \<Longrightarrow> (xs @ [x]) ! i = xs ! i"
  by (simp add: nth_append)

lemma take_append_eq: "n \<le> length xs \<Longrightarrow> take n (xs @ ys) = take n xs"
  by simp

end
