(* ===== verification/CMem.thy ===== *)
theory CMem
  imports Prelude
begin

text \<open>
  The part of the C run time the library stands on: the heap of NUL-terminated strings,
  \<open>malloc\<close>, \<open>strdup\<close>, \<open>free\<close> and \<open>strcmp\<close>.

  A result of type \<open>('a \<times> world) option\<close> is used throughout: \<open>None\<close> is undefined
  behaviour (an invalid or freed address is read, written or freed, NULL is dereferenced),
  or, for the one loop that may diverge, a loop that does not end. A NULL result and an error code are ordinary
  values. Addresses are never reissued, so that a read through a stale pointer is always
  seen as undefined.

  The field \<open>oom\<close> is the schedule of the allocator: the next allocation fails when it
  starts with True; past its end every allocation succeeds. It makes each
  \<open>if (p == NULL)\<close> branch of the code reachable.
\<close>

section \<open>State\<close>

record mem =
  strs :: "addr \<Rightarrow> string option"   \<comment> \<open>live heap strings\<close>
  brk :: addr                             \<comment> \<open>the next fresh address\<close>
  oom :: "bool list"                      \<comment> \<open>outcomes of the coming allocations\<close>

definition mem_ok :: "'z mem_scheme \<Rightarrow> bool" where
  "mem_ok w \<longleftrightarrow> 0 < brk w \<and> (\<forall>a. strs w a \<noteq> None \<longrightarrow> 0 < a \<and> a < brk w)"

section \<open>Primitives\<close>

definition malloc :: "'z mem_scheme \<Rightarrow> addr \<times> 'z mem_scheme" where
  "malloc w = (if oom w \<noteq> [] \<and> hd (oom w) then (NULL, w\<lparr>oom := tl (oom w)\<rparr>)
     else (brk w, w\<lparr>brk := Suc (brk w), oom := tl (oom w)\<rparr>))"

definition strdup :: "string \<Rightarrow> 'z mem_scheme \<Rightarrow> addr \<times> 'z mem_scheme" where
  "strdup s w = (let (a, w) = malloc w in
     if a = NULL then (NULL, w) else (a, w\<lparr>strs := (strs w)(a \<mapsto> s)\<rparr>))"

text \<open>\<open>free\<close> of a string: NULL is ignored, a dead address is undefined behaviour.\<close>

definition free_str :: "addr \<Rightarrow> 'z mem_scheme \<Rightarrow> 'z mem_scheme option" where
  "free_str a w = (if a = NULL then Some w
     else case strs w a of None \<Rightarrow> None
          | Some _ \<Rightarrow> Some (w\<lparr>strs := (strs w)(a := None)\<rparr>))"

definition load_str :: "addr \<Rightarrow> 'z mem_scheme \<Rightarrow> string option" where
  "load_str a w = strs w a"

text \<open>\<open>strcmp\<close>: bytes are compared as \<open>unsigned char\<close>; only the sign is specified.\<close>

fun strcmp :: "string \<Rightarrow> string \<Rightarrow> int" where
  "strcmp [] [] = 0"
| "strcmp [] (_ # _) = -1"
| "strcmp (_ # _) [] = 1"
| "strcmp (x # xs) (y # ys) =
     (if x = y then strcmp xs ys
      else if (of_char x :: nat) < of_char y then -1 else 1)"

lemma strcmp_eq_0 [simp]: "strcmp s t = 0 \<longleftrightarrow> s = t"
  by (induction s t rule: strcmp.induct) auto

section \<open>\<open>pthread_rwlock\<close>, as one thread sees it\<close>

text \<open>
  \<open>True\<close> stands for a lock this thread holds for writing. Locking it again is the
  error \<open>EDEADLK\<close> (35), unlocking a lock that is not held is \<open>EPERM\<close> (1).
\<close>

definition wrlock :: "bool \<Rightarrow> int \<times> bool" where
  "wrlock l = (if l then (35, l) else (0, True))"

definition rwunlock :: "bool \<Rightarrow> int \<times> bool" where
  "rwunlock l = (if l then (0, False) else (1, l))"

lemmas lock_defs = wrlock_def rwunlock_def

section \<open>When memory is available\<close>

text \<open>
  With an empty schedule every allocation succeeds. The component proofs work under
  \<open>oom w = []\<close> wherever they describe the successful run.
\<close>

lemma oom_upd_same: "oom w = bs \<Longrightarrow> w\<lparr>oom := bs\<rparr> = w"
  by auto

lemma malloc_ok [heap_simps]:
  "oom w = [] \<Longrightarrow> malloc w = (brk w, w\<lparr>brk := Suc (brk w)\<rparr>)"
  by (simp add: malloc_def oom_upd_same)

lemma strdup_ok [heap_simps]:
  "oom w = [] \<Longrightarrow> mem_ok w \<Longrightarrow>
   strdup s w = (brk w, w\<lparr>brk := Suc (brk w), strs := (strs w)(brk w \<mapsto> s)\<rparr>)"
  by (simp add: strdup_def malloc_ok mem_ok_def)

lemma mem_ok_fresh: "mem_ok w \<Longrightarrow> brk w \<le> a \<Longrightarrow> strs w a = None"
  by (auto simp: mem_ok_def dest!: spec [of _ a])

lemma mem_ok_brk_pos [simp]: "mem_ok w \<Longrightarrow> 0 < brk w"
  by (simp add: mem_ok_def)

lemma mem_ok_live: "mem_ok w \<Longrightarrow> strs w a = Some s \<Longrightarrow> 0 < a \<and> a < brk w"
  by (auto simp: mem_ok_def)

lemma mem_ok_NULL: "mem_ok w \<Longrightarrow> strs w NULL = None"
  using mem_ok_live [of w NULL] by (cases "strs w NULL") auto

lemma mem_ok_brk [inv_intros]: "mem_ok w \<Longrightarrow> brk w \<le> b \<Longrightarrow> mem_ok (w\<lparr>brk := b\<rparr>)"
  by (fastforce simp: mem_ok_def)

lemma mem_ok_store [inv_intros]:
  "mem_ok w \<Longrightarrow> brk w \<le> a \<Longrightarrow> a < b \<Longrightarrow>
   mem_ok (w\<lparr>brk := b, strs := (strs w)(a \<mapsto> s)\<rparr>)"
  by (fastforce simp: mem_ok_def)

lemma mem_ok_forget [inv_intros]:
  "mem_ok w \<Longrightarrow> mem_ok (w\<lparr>strs := (strs w)(a := None)\<rparr>)"
  by (auto simp: mem_ok_def)

section \<open>Whatever the allocator does\<close>

lemma malloc_cases:
  assumes "malloc w = (a, w')"
  obtains (fail) bs where "a = NULL" "w' = w\<lparr>oom := bs\<rparr>"
    | (ok) bs where "a = brk w" "w' = w\<lparr>brk := Suc (brk w), oom := bs\<rparr>"
  using assms by (auto simp: malloc_def split: if_splits)

lemma malloc_mem_ok: "malloc w = (a, w') \<Longrightarrow> mem_ok w \<Longrightarrow> mem_ok w'"
  by (erule malloc_cases) (fastforce simp: mem_ok_def)+

lemma strdup_cases:
  assumes "strdup s w = (a, w')" and "mem_ok w"
  obtains (fail) bs where "a = NULL" "w' = w\<lparr>oom := bs\<rparr>"
    | (ok) bs where "a = brk w"
        "w' = w\<lparr>brk := Suc (brk w), oom := bs, strs := (strs w)(brk w \<mapsto> s)\<rparr>"
  using assms by (auto simp: strdup_def malloc_def mem_ok_def split: if_splits)

lemma strdup_mem_ok: "strdup s w = (a, w') \<Longrightarrow> mem_ok w \<Longrightarrow> mem_ok w'"
  by (erule (1) strdup_cases) (fastforce simp: mem_ok_def)+

section \<open>Steps that only use up addresses\<close>

text \<open>
  \<open>grown w w'\<close>: between the two states memory was allocated (or an allocation failed)
  but no live object changed.
\<close>

definition grown :: "'z mem_scheme \<Rightarrow> 'z mem_scheme \<Rightarrow> bool" where
  "grown w w' \<longleftrightarrow> brk w \<le> brk w' \<and> w' = w\<lparr>brk := brk w', oom := oom w'\<rparr>"

lemma grown_refl [simp, intro!]: "grown w w"
  by (simp add: grown_def)

lemma grown_trans [trans]: "grown u v \<Longrightarrow> grown v w \<Longrightarrow> grown u w"
  by (cases u; cases v; cases w) (auto simp: grown_def)

lemma grown_strs [heap_frame]: "grown w w' \<Longrightarrow> strs w' = strs w"
  by (cases w; cases w') (auto simp: grown_def)

lemma grown_brk [heap_frame]: "grown w w' \<Longrightarrow> brk w \<le> brk w'"
  by (simp add: grown_def)

lemma grown_more [heap_frame]: "grown w w' \<Longrightarrow> mem.more w' = mem.more w"
  by (cases w; cases w') (auto simp: grown_def)

lemma grown_mem_ok [inv_intros]: "grown w w' \<Longrightarrow> mem_ok w \<Longrightarrow> mem_ok w'"
  unfolding mem_ok_def using grown_strs [of w w'] grown_brk [of w w'] by fastforce

lemma grown_upd [intro]: "brk w \<le> b \<Longrightarrow> grown w (w\<lparr>brk := b\<rparr>)"
  by (cases w) (simp add: grown_def)

lemma malloc_grown: "malloc w = (a, w') \<Longrightarrow> grown w w'"
  by (cases w) (auto simp: malloc_def grown_def split: if_splits)

lemma malloc_no_oom: "malloc w = (a, w') \<Longrightarrow> oom w = [] \<Longrightarrow> mem_ok w \<Longrightarrow> a \<noteq> 0 \<and> oom w' = []"
  by (auto simp: malloc_def mem_ok_def)

end
