(* ===== verification/LinkedList.thy ===== *)
theory LinkedList
  imports CMem
begin

text \<open>
  \<open>lib/prom/src/prom_linked_list.c\<close> on an explicit heap of nodes. \<open>self\<close> is the struct
  \<open>pll\<close> (None: the NULL pointer), items are \<open>void *\<close> addresses, and the two function
  pointers of the struct are HOL functions on the world. Traversals are partial functions:
  on a cyclic chain the C loops do not end either. \<open>lrep\<close> relates a struct to the list of
  its nodes; the theorems say that each operation acts on the list of items as its
  contract promises, for every outcome of the allocator. The value-level \<open>seq_append\<close>,
  which the hash map uses for its key list and buckets, is refined by \<open>pll_append\<close>.
\<close>

section \<open>Data\<close>

record pll_node =
  nxt :: addr
  item :: addr

record lmem = mem +
  nodes :: "addr \<Rightarrow> pll_node option"

record 'w pll =
  head :: addr
  tail :: addr
  lsize :: u64
  free_fn :: "(addr \<Rightarrow> 'w \<Rightarrow> 'w option) option"
  compare_fn :: "(addr \<Rightarrow> addr \<Rightarrow> 'w \<Rightarrow> int option) option"

type_synonym 'z lworld = "'z lmem_scheme"

section \<open>Operations\<close>

definition put_node :: "addr \<Rightarrow> pll_node \<Rightarrow> 'z lworld \<Rightarrow> 'z lworld" where
  "put_node a n w = w\<lparr>nodes := (nodes w)(a \<mapsto> n)\<rparr>"

definition free_node :: "addr \<Rightarrow> 'z lworld \<Rightarrow> 'z lworld option" where
  "free_node a w = (case nodes w a of None \<Rightarrow> None
     | Some _ \<Rightarrow> Some (w\<lparr>nodes := (nodes w)(a := None)\<rparr>))"

definition pll_new :: "'z lworld \<Rightarrow> 'z lworld pll option \<times> 'z lworld" where
  "pll_new w = (let (a, w) = malloc w in
     if a = NULL then (None, w)
     else (Some \<lparr>head = NULL, tail = NULL, lsize = 0, free_fn = None, compare_fn = None\<rparr>, w))"

text \<open>\<open>if (item != NULL) { if (free_fn) free_fn(item) else prom_free(item) }\<close>\<close>

definition release_item :: "'z lworld pll \<Rightarrow> addr \<Rightarrow> 'z lworld \<Rightarrow> 'z lworld option" where
  "release_item self x w = (if x = NULL then Some w
     else case free_fn self of Some f \<Rightarrow> f x w | None \<Rightarrow> free_str x w)"

partial_function (option) purge_loop ::
  "'z lworld pll \<Rightarrow> addr \<Rightarrow> 'z lworld \<Rightarrow> 'z lworld option" where
  "purge_loop self node w = (if node = NULL then Some w
     else do {
       n \<leftarrow> nodes w node;
       w \<leftarrow> release_item self (item n) w;
       w \<leftarrow> free_node node w;
       purge_loop self (nxt n) w
     })"

definition pll_purge ::
  "'z lworld pll option \<Rightarrow> 'z lworld \<Rightarrow> (int \<times> 'z lworld pll option \<times> 'z lworld) option" where
  "pll_purge self w = (case self of
       None \<Rightarrow> Some (1, None, w)
     | Some l \<Rightarrow> do {
         w \<leftarrow> purge_loop l (head l) w;
         Some (0, Some (l\<lparr>head := NULL, tail := NULL, lsize := 0\<rparr>), w)
       })"

text \<open>The struct itself is freed by the caller's view: no struct is returned.\<close>

definition pll_destroy :: "'z lworld pll option \<Rightarrow> 'z lworld \<Rightarrow> (int \<times> 'z lworld) option" where
  "pll_destroy self w = do { (_, _, w) \<leftarrow> pll_purge self w; Some (0, w) }"

definition pll_first :: "'z lworld pll \<Rightarrow> 'z lworld \<Rightarrow> addr option" where
  "pll_first self w = (if head self \<noteq> NULL then map_option item (nodes w (head self))
     else Some NULL)"

definition pll_last :: "'z lworld pll \<Rightarrow> 'z lworld \<Rightarrow> addr option" where
  "pll_last self w = (if tail self \<noteq> NULL then map_option item (nodes w (tail self))
     else Some NULL)"

definition pll_append :: "'z lworld pll option \<Rightarrow> addr \<Rightarrow> 'z lworld
    \<Rightarrow> (int \<times> 'z lworld pll option \<times> 'z lworld) option" where
  "pll_append self x w = (case self of
       None \<Rightarrow> Some (1, None, w)
     | Some l \<Rightarrow>
         (let (node, w) = malloc w in
          if node = NULL then Some (2, Some l, w)
          else do {
            (l, w) \<leftarrow> (if tail l \<noteq> NULL
               then do { t \<leftarrow> nodes w (tail l);
                         Some (l, put_node (tail l) (t\<lparr>nxt := node\<rparr>) w) }
               else Some (l\<lparr>head := node\<rparr>, w));
            Some (0, Some (l\<lparr>tail := node, lsize := lsize l + 1\<rparr>),
                  put_node node \<lparr>nxt = NULL, item = x\<rparr> w)
          }))"

definition pll_push :: "'z lworld pll option \<Rightarrow> addr \<Rightarrow> 'z lworld
    \<Rightarrow> (int \<times> 'z lworld pll option \<times> 'z lworld) option" where
  "pll_push self x w = (case self of
       None \<Rightarrow> Some (1, None, w)
     | Some l \<Rightarrow>
         (let (node, w) = malloc w in
          if node = NULL then Some (2, Some l, w)
          else Some (0, Some (l\<lparr>head := node,
                                tail := (if tail l = NULL then node else tail l),
                                lsize := lsize l + 1\<rparr>),
                     put_node node \<lparr>nxt = head l, item = x\<rparr> w)))"

text \<open>\<open>pll_pop\<close> returns the item it has just freed, and never frees the node.\<close>

definition pll_pop :: "'z lworld pll option \<Rightarrow> 'z lworld
    \<Rightarrow> (addr \<times> 'z lworld pll option \<times> 'z lworld) option" where
  "pll_pop self w = (case self of
       None \<Rightarrow> Some (NULL, None, w)
     | Some l \<Rightarrow>
         if head l = NULL then Some (NULL, Some l, w)
         else do {
           n \<leftarrow> nodes w (head l);
           let x = item n;
           let l' = l\<lparr>head := nxt n, tail := (if tail l = head l then NULL else tail l)\<rparr>;
           w \<leftarrow> release_item l x w;
           Some (x, Some (l'\<lparr>lsize := lsize l - 1\<rparr>), put_node (head l) (n\<lparr>item := NULL\<rparr>) w)
         })"

text \<open>The search of \<open>pll_remove\<close>: the node found (or NULL) and its predecessor.\<close>

partial_function (option) find_loop :: "'z lworld pll \<Rightarrow> addr \<Rightarrow> addr \<Rightarrow> addr \<Rightarrow> 'z lworld
    \<Rightarrow> (addr \<times> addr) option" where
  "find_loop self x node prev w = (if node = NULL then Some (NULL, prev)
     else do {
       n \<leftarrow> nodes w node;
       hit \<leftarrow> (case compare_fn self of
                Some f \<Rightarrow> map_option (\<lambda>c. c = 0) (f (item n) x w)
              | None \<Rightarrow> Some (item n = x));
       if hit then Some (node, prev) else find_loop self x (nxt n) node w
     })"

definition pll_remove :: "'z lworld pll option \<Rightarrow> addr \<Rightarrow> 'z lworld
    \<Rightarrow> (int \<times> 'z lworld pll option \<times> 'z lworld) option" where
  "pll_remove self x w = (case self of
       None \<Rightarrow> Some (1, None, w)
     | Some l \<Rightarrow> do {
         (node, prev) \<leftarrow> find_loop l x (head l) NULL w;
         if node = NULL then Some (0, Some l, w)
         else do {
           n \<leftarrow> nodes w node;
           (l', w) \<leftarrow> (if prev \<noteq> NULL
              then do { p \<leftarrow> nodes w prev; Some (l, put_node prev (p\<lparr>nxt := nxt n\<rparr>) w) }
              else Some (l\<lparr>head := nxt n\<rparr>, w));
           let l' = (if nxt n = NULL then l'\<lparr>tail := prev\<rparr> else l');
           w \<leftarrow> release_item l (item n) w;
           w \<leftarrow> free_node node w;
           Some (0, Some (l'\<lparr>lsize := lsize l - 1\<rparr>), w)
         }
       })"

definition pll_compare ::
  "'z lworld pll option \<Rightarrow> addr \<Rightarrow> addr \<Rightarrow> 'z lworld \<Rightarrow> int option" where
  "pll_compare self a b w = (case self of
       None \<Rightarrow> Some 1
     | Some l \<Rightarrow> (case compare_fn l of
          None \<Rightarrow> do { s \<leftarrow> load_str a w; t \<leftarrow> load_str b w; Some (strcmp s t) }
        | Some f \<Rightarrow> f a b w))"

definition pll_size :: "'z lworld pll \<Rightarrow> u64" where
  "pll_size self = lsize self"

definition pll_set_free_fn :: "'z lworld pll option \<Rightarrow> (addr \<Rightarrow> 'z lworld \<Rightarrow> 'z lworld option)
    \<Rightarrow> int \<times> 'z lworld pll option" where
  "pll_set_free_fn self f = (case self of None \<Rightarrow> (1, None)
     | Some l \<Rightarrow> (0, Some (l\<lparr>free_fn := Some f\<rparr>)))"

definition pll_set_compare_fn ::
  "'z lworld pll option \<Rightarrow> (addr \<Rightarrow> addr \<Rightarrow> 'z lworld \<Rightarrow> int option)
    \<Rightarrow> int \<times> 'z lworld pll option" where
  "pll_set_compare_fn self f = (case self of None \<Rightarrow> (1, None)
     | Some l \<Rightarrow> (0, Some (l\<lparr>compare_fn := Some f\<rparr>)))"

definition pll_no_op_free :: "addr \<Rightarrow> 'z lworld \<Rightarrow> 'z lworld option" where
  "pll_no_op_free x w = Some w"

section \<open>The chain of nodes\<close>

fun lseg :: "(addr \<Rightarrow> pll_node option) \<Rightarrow> addr \<Rightarrow> addr list \<Rightarrow> addr \<Rightarrow> bool" where
  "lseg h p [] q \<longleftrightarrow> p = q"
| "lseg h p (a # as) q \<longleftrightarrow> p = a \<and> a \<noteq> NULL \<and> (\<exists>n. h a = Some n \<and> lseg h (nxt n) as q)"

definition items_of :: "(addr \<Rightarrow> pll_node option) \<Rightarrow> addr list \<Rightarrow> addr list" where
  "items_of h as = map (\<lambda>a. case h a of Some n \<Rightarrow> item n | None \<Rightarrow> NULL) as"

text \<open>
  \<open>lrep l w as\<close>: the struct \<open>l\<close> is a well formed list whose nodes are \<open>as\<close>, in order,
  and its size field is their number.
\<close>

definition lrep :: "'z lworld pll \<Rightarrow> 'z lworld \<Rightarrow> addr list \<Rightarrow> bool" where
  "lrep l w as \<longleftrightarrow> lseg (nodes w) (head l) as NULL \<and> distinct as \<and>
     tail l = (if as = [] then NULL else last as) \<and> lsize l = of_nat (length as)"

lemma lseg_append:
  "lseg h p (as @ bs) q \<longleftrightarrow> (\<exists>r. lseg h p as r \<and> lseg h r bs q)"
  by (induction as arbitrary: p) auto

lemma lseg_upd: "a \<notin> set as \<Longrightarrow> lseg (h(a := n)) p as q = lseg h p as q"
  by (induction as arbitrary: p) auto

lemma lseg_live: "lseg h p as q \<Longrightarrow> a \<in> set as \<Longrightarrow> \<exists>n. h a = Some n"
  by (induction as arbitrary: p) auto

lemma lseg_nonnull: "lseg h p as q \<Longrightarrow> a \<in> set as \<Longrightarrow> a \<noteq> NULL"
  by (induction as arbitrary: p) auto

lemma items_of_upd: "a \<notin> set as \<Longrightarrow> items_of (h(a := n)) as = items_of h as"
  by (induction as) (auto simp: items_of_def)

lemma items_of_append [simp]: "items_of h (as @ bs) = items_of h as @ items_of h bs"
  by (simp add: items_of_def)

lemma items_of_simps [simp]:
  "items_of h [] = []"
  "items_of h (a # as) = (case h a of Some n \<Rightarrow> item n | None \<Rightarrow> NULL) # items_of h as"
  by (simp_all add: items_of_def)

lemma length_items_of [simp]: "length (items_of h as) = length as"
  by (simp add: items_of_def)

lemma lseg_determ: "lseg h p as NULL \<Longrightarrow> lseg h p bs NULL \<Longrightarrow> as = bs"
proof (induction as arbitrary: p bs)
  case Nil
  then show ?case by (cases bs) auto
next
  case (Cons a as)
  then show ?case by (cases bs) auto
qed

text \<open>Fresh node addresses: the node heap lies below the break, like the string heap.\<close>

definition lmem_ok :: "'z lworld \<Rightarrow> bool" where
  "lmem_ok w \<longleftrightarrow> mem_ok w \<and> (\<forall>a. nodes w a \<noteq> None \<longrightarrow> 0 < a \<and> a < brk w)"

lemma lmem_ok_fresh: "lmem_ok w \<Longrightarrow> brk w \<le> a \<Longrightarrow> nodes w a = None"
  by (auto simp: lmem_ok_def dest!: spec [of _ a])

lemma malloc_lcases:
  assumes "malloc w = (a, w')" "lmem_ok w"
  obtains (fail) "a = NULL" "nodes w' = nodes w" "lmem_ok w'"
    | (ok) "a = brk w" "0 < a" "brk w' = Suc (brk w)" "nodes w' = nodes w" "lmem_ok w'"
      "nodes w a = None"
  using assms
proof (cases rule: malloc_cases [OF assms(1)])
  case (1 bs)
  then show thesis using assms(2) by (intro fail) (auto simp: lmem_ok_def mem_ok_def)
next
  case (2 bs)
  then show thesis using assms(2) lmem_ok_fresh [OF assms(2)]
    by (intro ok) (fastforce simp: lmem_ok_def mem_ok_def)+
qed

section \<open>Appending and pushing\<close>

text \<open>
  The value-level append: what the code that only iterates over a list sees. It uses the
  allocator exactly as \<open>pll_append\<close> does.
\<close>

definition seq_append :: "'a list \<Rightarrow> 'a \<Rightarrow> 'z mem_scheme \<Rightarrow> int \<times> 'a list \<times> 'z mem_scheme" where
  "seq_append xs x w = (let (a, w) = malloc w in
     if a = NULL then (2, xs, w) else (0, xs @ [x], w))"

lemma seq_append_ok [heap_simps]:
  "oom w = [] \<Longrightarrow> mem_ok w \<Longrightarrow> seq_append xs x w = (0, xs @ [x], w\<lparr>brk := Suc (brk w)\<rparr>)"
  by (simp add: seq_append_def malloc_ok mem_ok_def)

lemma lrep_last:
  assumes "lrep l w as" "as \<noteq> []"
  obtains bs n where "as = bs @ [tail l]" "tail l \<noteq> NULL" "nodes w (tail l) = Some n"
    "nxt n = NULL" "lseg (nodes w) (head l) bs (tail l)" "tail l \<notin> set bs"
proof -
  obtain bs a where as: "as = bs @ [a]" using assms(2) by (cases as rule: rev_cases) auto
  then have "tail l = a" using assms by (simp add: lrep_def)
  moreover obtain n where "lseg (nodes w) (head l) bs a" "a \<noteq> NULL" "nodes w a = Some n" "nxt n = NULL"
    using assms(1) as by (auto simp: lrep_def lseg_append)
  ultimately show thesis using as assms(1) by (intro that [of bs n]) (auto simp: lrep_def)
qed

lemma lrep_tail: "lrep l w as \<Longrightarrow> tail l = NULL \<longleftrightarrow> as = []"
  using lseg_nonnull [of "nodes w" "head l" as NULL "last as"] by (auto simp: lrep_def)

lemma lrep_cong:
  "lrep l w as \<Longrightarrow> nodes w' = nodes w \<Longrightarrow> lrep l w' as"
  by (simp add: lrep_def)

lemma lmem_ok_put:
  "lmem_ok w \<Longrightarrow> 0 < a \<Longrightarrow> a < brk w \<Longrightarrow> lmem_ok (put_node a n w)"
  by (auto simp: lmem_ok_def mem_ok_def put_node_def)

lemma pll_append_lrep:
  assumes rep: "lrep l w as" and ok: "lmem_ok w"
  shows "\<exists>r l' w' as'. pll_append (Some l) x w = Some (r, Some l', w') \<and> lmem_ok w' \<and>
     lrep l' w' as' \<and> fst (seq_append (items_of (nodes w) as) x w) = r \<and>
     fst (snd (seq_append (items_of (nodes w) as) x w)) = items_of (nodes w') as'"
proof -
  obtain a w1 where m: "malloc w = (a, w1)" by force
  from m ok show ?thesis
  proof (cases rule: malloc_lcases)
    case fail
    then show ?thesis using m rep by (auto simp: pll_append_def seq_append_def intro!: lrep_cong)
  next
    case ok: ok
    let ?n = "\<lparr>nxt = NULL, item = x\<rparr>"
    have a: "a \<notin> set as" "a \<noteq> NULL" "a < brk w1"
      using ok rep lseg_live [of "nodes w" "head l" as NULL a] by (auto simp: lrep_def)
    show ?thesis
    proof (cases "as = []")
      case True
      then have e: "pll_append (Some l) x w =
          Some (0, Some (l\<lparr>head := a, tail := a, lsize := lsize l + 1\<rparr>), put_node a ?n w1)"
        using m rep a by (simp add: pll_append_def lrep_def)
      have "lmem_ok (put_node a ?n w1)" using ok a by (simp add: lmem_ok_put)
      then show ?thesis using e True rep a ok m
        by (intro exI [of _ 0] exI [of _ "l\<lparr>head := a, tail := a, lsize := lsize l + 1\<rparr>"]
            exI [of _ "put_node a ?n w1"] exI [of _ "[a]"])
          (auto simp: lrep_def seq_append_def put_node_def items_of_def)
    next
      case False
      from rep False obtain bs n where b: "as = bs @ [tail l]" "tail l \<noteq> NULL"
          "nodes w (tail l) = Some n" "nxt n = NULL" "lseg (nodes w) (head l) bs (tail l)"
          "tail l \<notin> set bs"
        by (rule lrep_last)
      define w2 where "w2 = put_node a ?n (put_node (tail l) (n\<lparr>nxt := a\<rparr>) w1)"
      define l' where "l' = l\<lparr>tail := a, lsize := lsize l + 1\<rparr>"
      have e: "pll_append (Some l) x w = Some (0, Some l', w2)"
        using m b a ok by (simp add: pll_append_def w2_def l'_def)
      have nodes2: "nodes w2 = (nodes w)(tail l \<mapsto> n\<lparr>nxt := a\<rparr>, a \<mapsto> ?n)"
        using ok by (simp add: w2_def put_node_def)
      have ne: "tail l \<noteq> a" using a b by auto
      have rep': "lrep l' w2 (as @ [a])"
        using rep a b ne by (auto simp: lrep_def l'_def nodes2 lseg_append lseg_upd)
      have it: "items_of (nodes w2) (as @ [a]) = items_of (nodes w) as @ [x]"
        using a b ne by (simp add: nodes2 items_of_upd)
      have "tail l < brk w1" "0 < tail l"
        using assms(2) b(3) ok unfolding lmem_ok_def by (metis less_Suc_eq option.distinct(1))+
      then have "lmem_ok w2"
        using ok a unfolding w2_def by (intro lmem_ok_put) (auto simp: put_node_def)
      then show ?thesis using e rep' it m a by (auto simp: seq_append_def)
    qed
  qed
qed

lemma pll_push_lrep:
  assumes rep: "lrep l w as" and ok: "lmem_ok w"
  shows "\<exists>r l' w' as'. pll_push (Some l) x w = Some (r, Some l', w') \<and> lmem_ok w' \<and>
     lrep l' w' as' \<and> items_of (nodes w') as' =
       (if r = 0 then x # items_of (nodes w) as else items_of (nodes w) as) \<and>
     (r \<noteq> 0 \<longrightarrow> r = 2 \<and> fst (malloc w) = NULL)"
proof -
  obtain a w1 where m: "malloc w = (a, w1)" by force
  from m ok show ?thesis
  proof (cases rule: malloc_lcases)
    case fail
    then show ?thesis using m rep by (auto simp: pll_push_def intro!: lrep_cong)
  next
    case ok
    let ?n = "\<lparr>nxt = head l, item = x\<rparr>"
    have a: "a \<notin> set as" "a \<noteq> NULL" "a < brk w1"
      using ok rep lseg_live [of "nodes w" "head l" as NULL a] by (auto simp: lrep_def)
    define l' where "l' = l\<lparr>head := a, tail := (if tail l = NULL then a else tail l),
        lsize := lsize l + 1\<rparr>"
    define w2 where "w2 = put_node a ?n w1"
    have e: "pll_push (Some l) x w = Some (0, Some l', w2)"
      using m a by (simp add: pll_push_def l'_def w2_def)
    have "lrep l' w2 (a # as)"
      using rep a ok lrep_tail [OF rep]
      by (auto simp: lrep_def l'_def w2_def put_node_def lseg_upd)
    moreover have "items_of (nodes w2) (a # as) = x # items_of (nodes w) as"
      using a ok by (simp add: w2_def put_node_def items_of_upd)
    moreover have "lmem_ok w2" using ok a by (simp add: w2_def lmem_ok_put)
    ultimately show ?thesis using e
      by (intro exI [of _ 0] exI [of _ l'] exI [of _ w2] exI [of _ "a # as"]) simp
  qed
qed

section \<open>First, last, popping\<close>

lemma pll_first_lrep:
  "lrep l w as \<Longrightarrow> pll_first l w = Some (case items_of (nodes w) as of [] \<Rightarrow> NULL | x # _ \<Rightarrow> x)"
  by (cases as) (auto simp: lrep_def pll_first_def)

lemma pll_last_lrep:
  assumes rep: "lrep l w as"
  shows "pll_last l w = Some (if as = [] then NULL else last (items_of (nodes w) as))"
proof (cases "as = []")
  case True
  then show ?thesis using rep by (simp add: pll_last_def lrep_def)
next
  case False
  from rep False obtain bs n where "as = bs @ [tail l]" "tail l \<noteq> NULL"
      "nodes w (tail l) = Some n" "nxt n = NULL" "lseg (nodes w) (head l) bs (tail l)"
      "tail l \<notin> set bs"
    by (rule lrep_last)
  note split = this
  have "items_of (nodes w) as = items_of (nodes w) bs @ [item n]"
    by (subst split(1)) (simp add: split(3))
  then show ?thesis using split(2,3) False by (simp add: pll_last_def)
qed

text \<open>
  A free function \<open>releases\<close> an item when it ends without undefined behaviour and does not
  touch the nodes.
\<close>

definition releases :: "'z lworld pll \<Rightarrow> addr \<Rightarrow> 'z lworld \<Rightarrow> bool" where
  "releases l x w \<longleftrightarrow> (\<exists>w'. release_item l x w = Some w' \<and> nodes w' = nodes w)"

lemma pll_pop_lrep:
  assumes rep: "lrep l w (a # as)" and rel: "releases l x w"
    and x: "items_of (nodes w) (a # as) = x # xs"
  shows "\<exists>l' w'. pll_pop (Some l) w = Some (x, Some l', w') \<and> lrep l' w' as \<and>
     items_of (nodes w') as = xs \<and> nodes w' a \<noteq> None"
proof -
  obtain n where n: "head l = a" "a \<noteq> NULL" "nodes w a = Some n" "lseg (nodes w) (nxt n) as NULL"
    using rep by (auto simp: lrep_def)
  then have x': "x = item n" "xs = items_of (nodes w) as" using x by auto
  obtain w1 where w1: "release_item l x w = Some w1" "nodes w1 = nodes w"
    using rel by (auto simp: releases_def)
  have "tail l = a \<longleftrightarrow> as = []" 
  proof (cases "as = []")
    case False
    have "a \<notin> set as" using rep by (simp add: lrep_def)
    then have "last as \<noteq> a" using last_in_set [OF False] by blast
    then show ?thesis using rep False by (simp add: lrep_def)
  qed (use rep in \<open>simp add: lrep_def\<close>)
  then show ?thesis using n x' w1 rep
    by (auto simp: pll_pop_def Let_def put_node_def lrep_def lseg_upd items_of_upd)
qed

section \<open>Removing\<close>

text \<open>
  \<open>decides l x w eq\<close>: on every item the comparison of \<open>pll_remove\<close> is defined and equals
  the predicate \<open>eq\<close>.
\<close>

definition decides :: "'z lworld pll \<Rightarrow> addr \<Rightarrow> 'z lworld \<Rightarrow> (addr \<Rightarrow> bool) \<Rightarrow> addr list \<Rightarrow> bool" where
  "decides l x w eq ys \<longleftrightarrow> (\<forall>y \<in> set ys. case compare_fn l of
       None \<Rightarrow> eq y = (y = x) | Some f \<Rightarrow> map_option (\<lambda>c. c = 0) (f y x w) = Some (eq y))"

fun remove_first :: "('a \<Rightarrow> bool) \<Rightarrow> 'a list \<Rightarrow> 'a list" where
  "remove_first eq [] = []"
| "remove_first eq (y # ys) = (if eq y then ys else y # remove_first eq ys)"

lemma find_loop_step:
  assumes "decides l x w eq (item n # ys)" "nodes w a = Some n" "a \<noteq> NULL"
  shows "find_loop l x a prev w =
     (if eq (item n) then Some (a, prev) else find_loop l x (nxt n) a w)"
proof -
  have "(case compare_fn l of Some f \<Rightarrow> map_option (\<lambda>c. c = 0) (f (item n) x w)
      | None \<Rightarrow> Some (item n = x)) = Some (eq (item n))"
    using assms(1) by (auto simp: decides_def split: option.splits)
  then show ?thesis using assms(2,3) by (subst find_loop.simps) simp
qed

lemma find_loop_none:
  assumes "lseg (nodes w) p as NULL" "decides l x w eq (items_of (nodes w) as)"
    and "\<forall>y \<in> set (items_of (nodes w) as). \<not> eq y"
  shows "find_loop l x p prev w = Some (NULL, last (prev # as))"
  using assms
proof (induction as arbitrary: p prev)
  case Nil
  then show ?case by (subst find_loop.simps) simp
next
  case (Cons a as)
  then obtain n where n: "p = a" "a \<noteq> NULL" "nodes w a = Some n" "lseg (nodes w) (nxt n) as NULL"
    by auto
  then have d: "decides l x w eq (item n # items_of (nodes w) as)" using Cons.prems(2) by simp
  have "\<not> eq (item n)" using Cons.prems(3) n by simp
  then have "find_loop l x p prev w = find_loop l x (nxt n) a w"
    using find_loop_step [OF d n(3,2)] n(1) by simp
  also have "\<dots> = Some (NULL, last (a # as))"
    using Cons.prems(3) d by (intro Cons.IH n(4)) (auto simp: decides_def)
  finally show ?case by simp
qed

lemma find_loop_hit:
  assumes "lseg (nodes w) p (bs @ a # cs) NULL" "decides l x w eq (items_of (nodes w) (bs @ a # cs))"
    and "\<forall>y \<in> set (items_of (nodes w) bs). \<not> eq y" "nodes w a = Some n" "eq (item n)"
  shows "find_loop l x p prev w = Some (a, last (prev # bs))"
  using assms
proof (induction bs arbitrary: p prev)
  case Nil
  then have "decides l x w eq (item n # items_of (nodes w) cs)" by simp
  from find_loop_step [OF this] Nil.prems show ?case by auto
next
  case (Cons b bs)
  then obtain m where m: "p = b" "b \<noteq> NULL" "nodes w b = Some m"
      "lseg (nodes w) (nxt m) (bs @ a # cs) NULL"
    by auto
  then have d: "decides l x w eq (item m # items_of (nodes w) (bs @ a # cs))"
    using Cons.prems(2) by simp
  have "\<not> eq (item m)" using Cons.prems(3) m by simp
  then have "find_loop l x p prev w = find_loop l x (nxt m) b w"
    using find_loop_step [OF d m(3,2)] m(1) by simp
  also have "\<dots> = Some (a, last (b # bs))"
    using Cons.prems(3-5) d by (intro Cons.IH m(4)) (auto simp: decides_def)
  finally show ?case by simp
qed

lemma remove_first_none: "\<forall>y \<in> set ys. \<not> eq y \<Longrightarrow> remove_first eq ys = ys"
  by (induction ys) auto

lemma remove_first_hit: "\<forall>y \<in> set xs. \<not> eq y \<Longrightarrow> eq y \<Longrightarrow> remove_first eq (xs @ y # ys) = xs @ ys"
  by (induction xs) auto

lemma lseg_unlink:
  assumes "lseg h p (bs @ [b]) a" "b \<notin> set bs" "h b = Some m"
  shows "lseg (h(b \<mapsto> m\<lparr>nxt := q\<rparr>)) p (bs @ [b]) q"
  using assms by (auto simp: lseg_append lseg_upd)

text \<open>The chain after \<open>pll_remove\<close> has cut the node \<open>a\<close> out.\<close>

lemma lrep_cut:
  assumes rep: "lrep l w (bs @ a # cs)" and n: "nodes w a = Some n"
    and l': "l' = (if bs = [] then l\<lparr>head := nxt n\<rparr> else l)\<lparr>lsize := lsize l - 1,
        tail := (if nxt n = NULL then last (NULL # bs) else tail l)\<rparr>"
    and h: "h = (if bs = [] then nodes w
        else (nodes w)(last bs \<mapsto> (the (nodes w (last bs)))\<lparr>nxt := nxt n\<rparr>))(a := None)"
    and w': "nodes w' = h"
  shows "lrep l' w' (bs @ cs) \<and> items_of (nodes w') (bs @ cs) = items_of (nodes w) (bs @ cs)"
proof -
  have d: "distinct (bs @ a # cs)" and cs: "lseg (nodes w) (nxt n) cs NULL"
    and sz: "lsize l - 1 = of_nat (length (bs @ cs))"
    and tl: "tail l = last (a # cs)"
    using rep n by (auto simp: lrep_def lseg_append)
  have fin: "nxt n = NULL \<longleftrightarrow> cs = []"
    using cs by (cases cs) auto
  show ?thesis
  proof (cases bs rule: rev_cases)
    case Nil
    then show ?thesis using d cs sz tl fin w' h l'
      by (auto simp: lrep_def lseg_upd items_of_upd)
  next
    case (snoc as b)
    obtain m where m: "nodes w b = Some m" "lseg (nodes w) (head l) as b" "b \<noteq> NULL"
      using rep snoc by (auto simp: lrep_def lseg_append)
    have h': "nodes w' = (nodes w)(b \<mapsto> m\<lparr>nxt := nxt n\<rparr>, a := None)"
      using w' h snoc m by simp
    show ?thesis using d cs sz tl fin l' snoc m
      by (auto simp: lrep_def lseg_append lseg_upd items_of_upd h')
  qed
qed

lemma pll_remove_lrep:
  assumes rep: "lrep l w as" and dec: "decides l x w eq (items_of (nodes w) as)"
    and frees: "\<forall>y \<in> set (items_of (nodes w) as). \<forall>h. releases l y (w\<lparr>nodes := h\<rparr>)"
  shows "\<exists>l' w' as'. pll_remove (Some l) x w = Some (0, Some l', w') \<and> lrep l' w' as' \<and>
     items_of (nodes w') as' = remove_first eq (items_of (nodes w) as)"
proof (cases "\<exists>y \<in> set (items_of (nodes w) as). eq y")
  case False
  then have "find_loop l x (head l) NULL w = Some (NULL, last (NULL # as))"
    using rep dec by (intro find_loop_none) (auto simp: lrep_def)
  then show ?thesis using rep False by (auto simp: pll_remove_def remove_first_none)
next
  case True
  have live: "\<And>b. b \<in> set as \<Longrightarrow> \<exists>n. nodes w b = Some n"
    using rep lseg_live [of "nodes w" "head l" as NULL] by (auto simp: lrep_def)
  obtain c where c: "c \<in> set as" "eq (case nodes w c of Some n \<Rightarrow> item n | None \<Rightarrow> NULL)"
    using True unfolding items_of_def by auto
  then have "\<exists>a \<in> set as. eq (item (the (nodes w a)))"
    using live [OF c(1)] by (intro bexI [of _ c]) auto
  then obtain bs a cs where as: "as = bs @ a # cs" "eq (item (the (nodes w a)))"
      "\<forall>b \<in> set bs. \<not> eq (item (the (nodes w b)))"
    by (rule split_list_first_propE)
  obtain n where n: "nodes w a = Some n" "eq (item n)" using live [of a] as by auto
  have no: "\<forall>y \<in> set (items_of (nodes w) bs). \<not> eq y"
    using as live by (fastforce simp: items_of_def)
  have a0: "a \<noteq> NULL"
    using rep as lseg_nonnull [of "nodes w" "head l" as NULL a] by (auto simp: lrep_def)
  have find: "find_loop l x (head l) NULL w = Some (a, last (NULL # bs))"
    using rep dec no n unfolding as lrep_def by (intro find_loop_hit [where eq = eq]) auto
  have b0: "bs \<noteq> [] \<Longrightarrow> last bs \<noteq> NULL \<and> last bs \<noteq> a \<and> (\<exists>m. nodes w (last bs) = Some m)"
    using rep as live [of "last bs"] lseg_nonnull [of "nodes w" "head l" as NULL "last bs"]
      last_in_set [of bs] by (auto simp: lrep_def)
  define h where "h = (if bs = [] then nodes w
      else (nodes w)(last bs \<mapsto> (the (nodes w (last bs)))\<lparr>nxt := nxt n\<rparr>))"
  define l' where "l' = (if bs = [] then l\<lparr>head := nxt n\<rparr> else l)\<lparr>lsize := lsize l - 1,
      tail := (if nxt n = NULL then last (NULL # bs) else tail l)\<rparr>"
  obtain w1 where w1: "release_item l (item n) (w\<lparr>nodes := h\<rparr>) = Some w1" "nodes w1 = h"
    using frees as n by (fastforce simp: releases_def)
  have ha: "h a = Some n" using n b0 by (auto simp: h_def)
  have "pll_remove (Some l) x w = Some (0, Some l', w1\<lparr>nodes := h(a := None)\<rparr>)"
    using find n a0 b0 w1 ha
    by (auto simp: pll_remove_def put_node_def free_node_def h_def l'_def Let_def)
  moreover have "lrep l' (w1\<lparr>nodes := h(a := None)\<rparr>) (bs @ cs) \<and>
      items_of (nodes (w1\<lparr>nodes := h(a := None)\<rparr>)) (bs @ cs) = items_of (nodes w) (bs @ cs)"
    using rep as n by (intro lrep_cut) (auto simp: l'_def h_def)
  ultimately show ?thesis using as n no remove_first_hit [OF no n(2)]
    by (intro exI [of _ l'] exI [of _ "w1\<lparr>nodes := h(a := None)\<rparr>"] exI [of _ "bs @ cs"]) simp
qed

section \<open>Purging\<close>

text \<open>
  What \<open>pll_purge\<close> does to the items: each is released, in list order. A free function is
  \<open>node_blind\<close> when it neither reads nor writes list nodes; \<open>free\<close> and the no-op are.
\<close>

fun release_all :: "'z lworld pll \<Rightarrow> addr list \<Rightarrow> 'z lworld \<Rightarrow> 'z lworld option" where
  "release_all l [] w = Some w"
| "release_all l (x # xs) w = do { w \<leftarrow> release_item l x w; release_all l xs w }"

definition node_blind :: "'z lworld pll \<Rightarrow> bool" where
  "node_blind l \<longleftrightarrow> (\<forall>x w h. release_item l x (w\<lparr>nodes := h\<rparr>) =
     map_option (\<lambda>w. w\<lparr>nodes := h\<rparr>) (release_item l x w))"

lemma node_blind_free: "free_fn l = None \<Longrightarrow> node_blind l"
  by (auto simp: node_blind_def release_item_def free_str_def split: option.splits)

lemma node_blind_no_op: "free_fn l = Some pll_no_op_free \<Longrightarrow> node_blind l"
  by (auto simp: node_blind_def release_item_def pll_no_op_free_def)

lemma release_all_nodes:
  "node_blind l \<Longrightarrow> release_all l xs (w\<lparr>nodes := h\<rparr>) =
     map_option (\<lambda>w. w\<lparr>nodes := h\<rparr>) (release_all l xs w)"
proof (induction xs arbitrary: w)
  case (Cons x xs)
  then show ?case by (cases "release_item l x w") (auto simp: node_blind_def)
qed simp

lemma release_keeps_nodes:
  assumes "node_blind l" "release_item l x w = Some w'"
  shows "nodes w' = nodes w"
proof -
  have "release_item l x (w\<lparr>nodes := nodes w\<rparr>) = Some (w'\<lparr>nodes := nodes w\<rparr>)"
    using assms unfolding node_blind_def by (metis option.simps(9))
  then show ?thesis using assms(2) by (metis lmem.surjective lmem.update_convs(1) lmem.select_convs(1)
        option.inject)
qed

lemma restrict_map_UNIV': "h |` UNIV = h"
  by (auto simp: restrict_map_def)

lemma purge_loop_lseg:
  assumes "node_blind l" "lseg (nodes w) p as NULL" "distinct as"
    "release_all l (items_of (nodes w) as) w = Some w'"
  shows "purge_loop l p w = Some (w'\<lparr>nodes := nodes w |` (- set as)\<rparr>)"
  using assms
proof (induction as arbitrary: p w w')
  case Nil
  then show ?case by (subst purge_loop.simps) (simp add: restrict_map_UNIV')
next
  case (Cons a as)
  obtain n where n: "p = a" "a \<noteq> NULL" "nodes w a = Some n" "lseg (nodes w) (nxt n) as NULL"
    using Cons.prems(2) by auto
  obtain w1 where w1: "release_item l (item n) w = Some w1"
      "release_all l (items_of (nodes w) as) w1 = Some w'"
    using Cons.prems(4) n by (auto simp: bind_Some_iff)
  have nd: "nodes w1 = nodes w" using release_keeps_nodes [OF Cons.prems(1) w1(1)] .
  let ?h = "(nodes w)(a := None)"
  have "purge_loop l p w = purge_loop l (nxt n) (w1\<lparr>nodes := ?h\<rparr>)"
    using n w1(1) nd by (subst purge_loop.simps) (simp add: free_node_def)
  also have "\<dots> = Some ((w'\<lparr>nodes := ?h\<rparr>)\<lparr>nodes := nodes (w1\<lparr>nodes := ?h\<rparr>) |` (- set as)\<rparr>)"
  proof (rule Cons.IH [OF Cons.prems(1)])
    have a: "a \<notin> set as" "distinct as" using Cons.prems(3) by auto
    then show "lseg (nodes (w1\<lparr>nodes := ?h\<rparr>)) (nxt n) as NULL" "distinct as"
      using n(4) lseg_upd [of a as "nodes w" None] by simp_all
    have "items_of ?h as = items_of (nodes w) as" using a by (rule_tac items_of_upd)
    then show "release_all l (items_of (nodes (w1\<lparr>nodes := ?h\<rparr>)) as) (w1\<lparr>nodes := ?h\<rparr>) =
        Some (w'\<lparr>nodes := ?h\<rparr>)"
      using release_all_nodes [OF Cons.prems(1), where w = w1 and h = ?h] w1(2)
      by (metis (no_types) lmem.select_convs(1) lmem.surjective lmem.update_convs(1) option.simps(9))
  qed
  also have "(w'\<lparr>nodes := ?h\<rparr>)\<lparr>nodes := nodes (w1\<lparr>nodes := ?h\<rparr>) |` (- set as)\<rparr> =
      w'\<lparr>nodes := nodes w |` (- set (a # as))\<rparr>"
  proof -
    have "?h |` (- set as) = nodes w |` (- set (a # as))"
      by (auto simp: restrict_map_def fun_eq_iff)
    then show ?thesis by simp
  qed
  finally show ?case .
qed

lemma pll_purge_lrep:
  assumes "lrep l w as" "node_blind l" "release_all l (items_of (nodes w) as) w = Some w'"
  shows "\<exists>l' w''. pll_purge (Some l) w = Some (0, Some l', w'') \<and> lrep l' w'' [] \<and>
     w'' = w'\<lparr>nodes := nodes w |` (- set as)\<rparr>"
  using assms purge_loop_lseg [OF assms(2), of w "head l" as w']
  by (auto simp: lrep_def pll_purge_def)

section \<open>Properties\<close>

text \<open>Two nodes holding the items 10 and 11, for the witnesses; items are not freed.\<close>

definition two_nodes :: lmem where
  "two_nodes = \<lparr>strs = Map.empty, brk = 3, oom = [],
     nodes = [1 \<mapsto> \<lparr>nxt = 2, item = 10\<rparr>, 2 \<mapsto> \<lparr>nxt = 0, item = 11\<rparr>]\<rparr>"

definition two_list :: "lmem pll" where
  "two_list = \<lparr>head = 1, tail = 2, lsize = 2, free_fn = Some pll_no_op_free, compare_fn = None\<rparr>"

lemma two_ok: "lrep two_list two_nodes [1, 2]" "lmem_ok two_nodes"
  "items_of (nodes two_nodes) [1, 2] = [10, 11]" "node_blind two_list"
  "\<forall>h. releases two_list x (two_nodes\<lparr>nodes := h\<rparr>)"
  by (auto simp: lrep_def two_list_def two_nodes_def lmem_ok_def mem_ok_def items_of_def
      releases_def release_item_def pll_no_op_free_def intro!: node_blind_no_op split: if_splits)

text \<open>C27. For every outcome of the allocator \<open>pll_append\<close> keeps the list well formed and
  refines the append on sequences: on success the new item comes last, on a failed
  allocation it returns 2 and the items are unchanged.\<close>

theorem pll_append_refines:
  assumes "lrep l w as" "lmem_ok w"
  shows "\<exists>r l' w' as'. pll_append (Some l) x w = Some (r, Some l', w') \<and> lmem_ok w' \<and>
     lrep l' w' as' \<and> fst (seq_append (items_of (nodes w) as) x w) = r \<and>
     fst (snd (seq_append (items_of (nodes w) as) x w)) = items_of (nodes w') as'"
  using pll_append_lrep [OF assms] .

theorem pll_append_refines_witness:
  "\<exists>l' w' as'. pll_append (Some two_list) 12 two_nodes = Some (0, Some l', w') \<and>
     lrep l' w' as' \<and> items_of (nodes w') as' = [10, 11, 12]"
  using pll_append_refines [OF two_ok(1,2), of 12] two_ok(3)
  by (auto simp: seq_append_def malloc_def) (auto simp: two_nodes_def split: if_splits)

text \<open>C28. \<open>pll_remove\<close> removes exactly the first item its comparison accepts, and keeps the
  list well formed; without such an item it changes nothing and still returns 0.\<close>

theorem pll_remove_first_match:
  assumes "lrep l w as" "decides l x w eq (items_of (nodes w) as)"
    and "\<forall>y \<in> set (items_of (nodes w) as). \<forall>h. releases l y (w\<lparr>nodes := h\<rparr>)"
  shows "\<exists>l' w' as'. pll_remove (Some l) x w = Some (0, Some l', w') \<and> lrep l' w' as' \<and>
     items_of (nodes w') as' = remove_first eq (items_of (nodes w) as)"
  using pll_remove_lrep [OF assms] .

theorem pll_remove_first_match_witness:
  "\<exists>l' w' as'. pll_remove (Some two_list) 11 two_nodes = Some (0, Some l', w') \<and> lrep l' w' as' \<and>
     items_of (nodes w') as' = [10]"
  using pll_remove_first_match [OF two_ok(1), of 11 "\<lambda>y. y = 11"] two_ok(3,5)
  by (simp add: decides_def two_list_def)

text \<open>C29. \<open>pll_purge\<close> releases every item once, in list order, frees every node and nothing
  else, and leaves a well formed empty list.\<close>

theorem pll_purge_frees_all:
  assumes "lrep l w as" "node_blind l" "release_all l (items_of (nodes w) as) w = Some w'"
  shows "\<exists>l' w''. pll_purge (Some l) w = Some (0, Some l', w'') \<and> lrep l' w'' [] \<and>
     w'' = w'\<lparr>nodes := nodes w |` (- set as)\<rparr>"
  using pll_purge_lrep [OF assms] .

theorem pll_purge_frees_all_witness:
  "\<exists>l' w''. pll_purge (Some two_list) two_nodes = Some (0, Some l', w'') \<and> lrep l' w'' [] \<and>
     nodes w'' = Map.empty"
proof -
  have "release_all two_list [10, 11] two_nodes = Some two_nodes"
    by (simp add: release_item_def two_list_def pll_no_op_free_def)
  moreover have "nodes two_nodes |` (- {1, 2}) = Map.empty"
    by (auto simp: two_nodes_def restrict_map_def fun_eq_iff)
  ultimately show ?thesis
    using pll_purge_frees_all [OF two_ok(1,4), of two_nodes] two_ok(3) by auto
qed

text \<open>\<open>pll_pop\<close> takes the first item off the list, but hands back an item it has already
  freed (whenever the list frees its items with \<open>free\<close>) and never frees the list node.\<close>

theorem pll_pop_returns_freed:
  assumes "lrep l w (a # as)" "free_fn l = None" "items_of (nodes w) (a # as) = x # xs"
    and "strs w x \<noteq> None" "x \<noteq> NULL"
  shows "\<exists>l' w'. pll_pop (Some l) w = Some (x, Some l', w') \<and> lrep l' w' as \<and>
     items_of (nodes w') as = xs \<and> nodes w' a \<noteq> None \<and> load_str x w' = None"
proof -
  have "releases l x w"
    using assms(2,4,5) by (auto simp: releases_def release_item_def free_str_def)
  from pll_pop_lrep [OF assms(1) this assms(3)] obtain l' w' where
    e: "pll_pop (Some l) w = Some (x, Some l', w')" "lrep l' w' as" "items_of (nodes w') as = xs"
      "nodes w' a \<noteq> None"
    by blast
  obtain n where n: "head l = a" "a \<noteq> NULL" "nodes w a = Some n" "item n = x"
    using assms(1,3) by (auto simp: lrep_def)
  have "w' = put_node a (n\<lparr>item := NULL\<rparr>) (w\<lparr>strs := (strs w)(x := None)\<rparr>)"
    using e(1) n assms(2,4,5) by (auto simp: pll_pop_def release_item_def free_str_def Let_def)
  then have "strs w' x = None" by (simp add: put_node_def)
  then show ?thesis using e by (simp add: load_str_def)
qed

theorem pll_pop_returns_freed_witness:
  "\<exists>l' w'. pll_pop (Some (two_list\<lparr>free_fn := None\<rparr>)) (two_nodes\<lparr>strs := [10 \<mapsto> ''a'']\<rparr>) =
     Some (10, Some l', w') \<and> load_str 10 w' = None"
  using pll_pop_returns_freed [of "two_list\<lparr>free_fn := None\<rparr>" "two_nodes\<lparr>strs := [10 \<mapsto> ''a'']\<rparr>"
      1 "[2]" 10 "[11]"] two_ok
  by (auto simp: lrep_def two_list_def two_nodes_def items_of_def)

end
