(* ===== verification/PromMap.thy ===== *)
theory PromMap
  imports LinkedList
begin

text \<open>
  \<open>lib/prom/src/prom_map.c\<close>: the hash map from strings to \<open>void *\<close> values that metrics,
  collectors and the registry are built on. Buckets and the key list are the sequences of
  items of their \<open>pll\<close> (\<open>seq_append\<close>); a bucket is None when its pointer is NULL or
  dangling. Keys are addresses of heap strings, because the key list and the map nodes
  share them: a key freed through the one is dangling in the other. Values are addresses.
\<close>

section \<open>Data\<close>

text \<open>The C functions that are stored in \<open>free_value_fn\<close> fields.\<close>

datatype free_fn = No_Op | Str_Free | Sample_Free | Sample_Histogram_Free | Metric_Free | Collector_Free

record mnode =
  mkey :: addr
  mvalue :: addr
  mfree :: free_fn

type_synonym buckets = "mnode list option list"

record pmap =
  msize :: u64
  max_size :: u64
  keys :: "addr list"
  addrs :: buckets
  free_value_fn :: free_fn
  rwlock :: bool

text \<open>\<open>'w runner\<close>: what calling a stored function pointer does to the world.\<close>

type_synonym 'w runner = "free_fn \<Rightarrow> addr \<Rightarrow> 'w \<Rightarrow> 'w option"

definition map_initial_size :: u64 where
  "map_initial_size = 32"

section \<open>Map nodes\<close>

text \<open>None is the NULL result.\<close>

definition prom_map_node_new ::
  "string \<Rightarrow> addr \<Rightarrow> free_fn \<Rightarrow> 'z mem_scheme \<Rightarrow> mnode option \<times> 'z mem_scheme" where
  "prom_map_node_new key value fv w = (let (a, w) = malloc w in
     if a = NULL then (None, w)
     else let (k, w) = strdup key w in
       (Some \<lparr>mkey = k, mvalue = value, mfree = fv\<rparr>, w))"

definition prom_map_node_destroy :: "'z mem_scheme runner \<Rightarrow> mnode option \<Rightarrow> 'z mem_scheme
    \<Rightarrow> 'z mem_scheme option" where
  "prom_map_node_destroy run self w = (case self of None \<Rightarrow> Some w
     | Some n \<Rightarrow> do {
         w \<leftarrow> free_str (mkey n) w;
         if mvalue n \<noteq> NULL then run (mfree n) (mvalue n) w else Some w
       })"

text \<open>
  The first test of the C function, \<open>a == b\<close>, compares the node pointers: two equal
  pointers also have equal keys.
\<close>

definition prom_map_node_compare ::
  "mnode option \<Rightarrow> mnode option \<Rightarrow> 'z mem_scheme \<Rightarrow> int option" where
  "prom_map_node_compare a b w = (case (a, b) of
       (None, None) \<Rightarrow> Some 0
     | (None, Some _) \<Rightarrow> Some (-1)
     | (Some _, None) \<Rightarrow> Some 1
     | (Some n, Some m) \<Rightarrow>
         if mkey n = mkey m then Some 0
         else if mkey n = NULL then Some (-1)
         else if mkey m = NULL then Some 1
         else do { s \<leftarrow> load_str (mkey n) w; t \<leftarrow> load_str (mkey m) w; Some (strcmp s t) })"

section \<open>The hash function\<close>

text \<open>\<open>char\<close> is signed on the target and is sign-extended to \<open>size_t\<close>.\<close>

definition schar :: "char \<Rightarrow> u64" where
  "schar c = (if (of_char c :: nat) < 128 then of_nat (of_char c) else of_nat (of_char c) - 256)"

fun index_loop :: "u64 \<Rightarrow> u64 \<Rightarrow> u64 \<Rightarrow> string \<Rightarrow> u64" where
  "index_loop mx a index [] = index"
| "index_loop mx a index (c # cs) =
     index_loop mx (a * 27183 mod (mx - 1)) ((a * index + schar c) mod mx) cs"

definition prom_map_get_index_internal :: "string \<Rightarrow> u64 \<Rightarrow> u64" where
  "prom_map_get_index_internal key mx = index_loop mx 31415 0 key"

definition prom_map_get_index :: "pmap \<Rightarrow> string \<Rightarrow> u64" where
  "prom_map_get_index self key = prom_map_get_index_internal key (max_size self)"

text \<open>\<open>addrs[index]\<close>: out of range, NULL or dangling is undefined.\<close>

definition bucket_at :: "buckets \<Rightarrow> u64 \<Rightarrow> mnode list option" where
  "bucket_at bs i = (if unat i < length bs then bs ! unat i else None)"

section \<open>Construction and destruction\<close>

fun new_buckets :: "nat \<Rightarrow> 'z mem_scheme \<Rightarrow> buckets option \<times> 'z mem_scheme" where
  "new_buckets 0 w = (Some [], w)"
| "new_buckets (Suc n) w = (let (a, w) = malloc w in
     if a = NULL then (None, w)
     else let (bs, w) = new_buckets n w in (map_option (\<lambda>bs. Some [] # bs) bs, w))"

text \<open>
  The only failure that is not undefined is that of the first two allocations: every
  \<open>goto fail\<close> calls \<open>prom_map_destroy\<close>, which walks the \<open>addrs\<close> array (NULL or not yet
  filled) and destroys \<open>rwlock\<close> (NULL).
\<close>

definition prom_map_new :: "'z mem_scheme \<Rightarrow> (pmap option \<times> 'z mem_scheme) option" where
  "prom_map_new w = (let (self, w) = malloc w in
     if self = NULL then Some (None, w)
     else let (ks, w) = malloc w in
     if ks = NULL then Some (None, w)
     else let (ar, w) = malloc w in
     if ar = NULL then None
     else let (bs, w) = new_buckets (unat map_initial_size) w in
     case bs of None \<Rightarrow> None
     | Some bs \<Rightarrow>
         let (lock, w) = malloc w in
         if lock = NULL then None
         else Some (Some \<lparr>msize = 0, max_size = map_initial_size, keys = [], addrs = bs,
                          free_value_fn = No_Op, rwlock = False\<rparr>, w))"

fun destroy_nodes :: "'z mem_scheme runner \<Rightarrow> mnode list \<Rightarrow> 'z mem_scheme
    \<Rightarrow> 'z mem_scheme option" where
  "destroy_nodes run [] w = Some w"
| "destroy_nodes run (n # ns) w =
     do { w \<leftarrow> prom_map_node_destroy run (Some n) w; destroy_nodes run ns w }"

fun destroy_buckets :: "'z mem_scheme runner \<Rightarrow> buckets \<Rightarrow> 'z mem_scheme
    \<Rightarrow> 'z mem_scheme option" where
  "destroy_buckets run [] w = Some w"
| "destroy_buckets run (b # bs) w =
     do { ns \<leftarrow> b; w \<leftarrow> destroy_nodes run ns w; destroy_buckets run bs w }"

definition prom_map_destroy :: "'z mem_scheme runner \<Rightarrow> pmap option \<Rightarrow> 'z mem_scheme
    \<Rightarrow> (int \<times> 'z mem_scheme) option" where
  "prom_map_destroy run self w = (case self of None \<Rightarrow> Some (0, w)
     | Some m \<Rightarrow> do { w \<leftarrow> destroy_buckets run (addrs m) w; Some (0, w) })"

section \<open>Lookup\<close>

text \<open>The node found, None when the end of the bucket is reached.\<close>

fun search_bucket :: "mnode option \<Rightarrow> mnode list \<Rightarrow> 'z mem_scheme \<Rightarrow> mnode option option" where
  "search_bucket temp [] w = Some None"
| "search_bucket temp (n # ns) w = do {
     c \<leftarrow> prom_map_node_compare (Some n) temp w;
     if c = 0 then Some (Some n) else search_bucket temp ns w }"

definition prom_map_get_internal :: "'z mem_scheme runner \<Rightarrow> string option \<Rightarrow> u64 \<Rightarrow> buckets
    \<Rightarrow> free_fn \<Rightarrow> 'z mem_scheme \<Rightarrow> (addr \<times> 'z mem_scheme) option" where
  "prom_map_get_internal run key mx bs fv w = (case key of None \<Rightarrow> Some (NULL, w)
     | Some key \<Rightarrow> do {
         list \<leftarrow> bucket_at bs (prom_map_get_index_internal key mx);
         let (temp, w) = prom_map_node_new key NULL fv w;
         hit \<leftarrow> search_bucket temp list w;
         w \<leftarrow> prom_map_node_destroy run temp w;
         Some (case hit of None \<Rightarrow> NULL | Some n \<Rightarrow> mvalue n, w)
       })"

text \<open>The lock is taken and released again, the struct does not change.\<close>

definition prom_map_get :: "'z mem_scheme runner \<Rightarrow> pmap \<Rightarrow> string option \<Rightarrow> 'z mem_scheme
    \<Rightarrow> (addr \<times> 'z mem_scheme) option" where
  "prom_map_get run self key w = (case key of None \<Rightarrow> Some (NULL, w)
     | Some _ \<Rightarrow>
         let (r, l) = wrlock (rwlock self) in
         if r \<noteq> 0 then Some (NULL, w)
         else prom_map_get_internal run key (max_size self) (addrs self) (free_value_fn self) w)"

section \<open>Insertion\<close>

text \<open>\<open>current_node->item = map_node\<close> on a hit; None when there is no equal key.\<close>

fun replace_node :: "'z mem_scheme runner \<Rightarrow> free_fn \<Rightarrow> bool \<Rightarrow> mnode \<Rightarrow> mnode list
    \<Rightarrow> 'z mem_scheme \<Rightarrow> (mnode list option \<times> 'z mem_scheme) option" where
  "replace_node run fv destroy_current node [] w = Some (None, w)"
| "replace_node run fv destroy_current node (n # ns) w = do {
     c \<leftarrow> prom_map_node_compare (Some n) (Some node) w;
     if c \<noteq> 0 then do {
       (r, w) \<leftarrow> replace_node run fv destroy_current node ns w;
       Some (map_option ((#) n) r, w) }
     else do {
       w \<leftarrow> (if destroy_current then run fv (mvalue n) w else Some w);
       w \<leftarrow> free_str (mkey n) w;
       Some (Some (node # ns), w) } }"

text \<open>
  The in-out parameters \<open>sz\<close>, \<open>keys\<close> and \<open>addrs\<close> are returned. The results of the two
  \<open>pll_append\<close> calls are ignored, as in the code.
\<close>

definition prom_map_set_internal :: "'z mem_scheme runner \<Rightarrow> string \<Rightarrow> addr \<Rightarrow> u64 \<Rightarrow> u64
    \<Rightarrow> addr list \<Rightarrow> buckets \<Rightarrow> free_fn \<Rightarrow> bool \<Rightarrow> 'z mem_scheme
    \<Rightarrow> (int \<times> u64 \<times> addr list \<times> buckets \<times> 'z mem_scheme) option" where
  "prom_map_set_internal run key value sz mx ks bs fv destroy_current w =
     (let (node, w) = prom_map_node_new key value fv w in
      case node of None \<Rightarrow> Some (1, sz, ks, bs, w)
      | Some node \<Rightarrow> do {
          let index = prom_map_get_index_internal key mx;
          list \<leftarrow> bucket_at bs index;
          (r, w) \<leftarrow> replace_node run fv destroy_current node list w;
          case r of Some list' \<Rightarrow> Some (0, sz, ks, bs[unat index := Some list'], w)
          | None \<Rightarrow>
              let (_, list', w) = seq_append list node w;
                  (_, ks', w) = seq_append ks (mkey node) w
              in Some (0, sz + 1, ks', bs[unat index := Some list'], w)
        })"

text \<open>
  The loop over one old bucket. The result is the return code, how many old nodes are
  still there, and the new table.
\<close>

fun move_bucket :: "'z mem_scheme runner \<Rightarrow> free_fn \<Rightarrow> u64 \<Rightarrow> mnode list \<Rightarrow> u64 \<Rightarrow> addr list
    \<Rightarrow> buckets \<Rightarrow> 'z mem_scheme
    \<Rightarrow> (int \<times> nat \<times> u64 \<times> addr list \<times> buckets \<times> 'z mem_scheme) option" where
  "move_bucket run fv mx [] sz ks bs w = Some (0, 0, sz, ks, bs, w)"
| "move_bucket run fv mx (n # ns) sz ks bs w = do {
     key \<leftarrow> load_str (mkey n) w;
     (r, sz, ks, bs, w) \<leftarrow> prom_map_set_internal run key (mvalue n) sz mx ks bs fv False w;
     if r \<noteq> 0 then Some (5, length (n # ns), sz, ks, bs, w)
     else do {
       w \<leftarrow> free_str (mkey n) w;
       move_bucket run fv mx ns sz ks bs w } }"

text \<open>The old array is returned as the loop leaves it: its lists are freed one by one.\<close>

fun move_buckets :: "'z mem_scheme runner \<Rightarrow> free_fn \<Rightarrow> u64 \<Rightarrow> buckets \<Rightarrow> u64 \<Rightarrow> addr list
    \<Rightarrow> buckets \<Rightarrow> 'z mem_scheme
    \<Rightarrow> (int \<times> buckets \<times> u64 \<times> addr list \<times> buckets \<times> 'z mem_scheme) option" where
  "move_buckets run fv mx [] sz ks bs w = Some (0, [], sz, ks, bs, w)"
| "move_buckets run fv mx (b # old) sz ks bs w = do {
     ns \<leftarrow> b;
     (r, left, sz, ks, bs, w) \<leftarrow> move_bucket run fv mx ns sz ks bs w;
     if r \<noteq> 0 then Some (r, (if left = length ns then Some ns else None) # old, sz, ks, bs, w)
     else do {
       (r, old', sz, ks, bs, w) \<leftarrow> move_buckets run fv mx old sz ks bs w;
       Some (r, None # old', sz, ks, bs, w) } }"

text \<open>
  The loop counter \<open>i\<close> is an \<open>int\<close>: a table of more than \<open>2 ^ 31\<close> buckets overflows it.
  When the array cannot be allocated the code writes through NULL.
\<close>

definition prom_map_ensure_space :: "'z mem_scheme runner \<Rightarrow> pmap \<Rightarrow> 'z mem_scheme
    \<Rightarrow> (int \<times> pmap \<times> 'z mem_scheme) option" where
  "prom_map_ensure_space run self w =
     (if msize self \<le> drop_bit 1 (max_size self) then Some (0, self, w)
      else let new_max = push_bit 1 (max_size self); (ks, w) = malloc w in
        if ks = NULL then Some (1, self, w)
        else let (ar, w) = malloc w in
        if ar = NULL \<or> unat new_max > 2 ^ 31 then None
        else let (bs, w) = new_buckets (unat new_max) w in
        case bs of None \<Rightarrow> Some (3, self, w)
        | Some bs \<Rightarrow> do {
            (r, old, sz, ks, bs, w) \<leftarrow>
              move_buckets run (free_value_fn self) new_max (addrs self) 0 [] bs w;
            if r \<noteq> 0 then Some (r, self\<lparr>addrs := old\<rparr>, w)
            else Some (0, self\<lparr>msize := sz, max_size := new_max, keys := ks, addrs := bs\<rparr>, w)
          })"

definition prom_map_set :: "'z mem_scheme runner \<Rightarrow> pmap \<Rightarrow> string \<Rightarrow> addr \<Rightarrow> 'z mem_scheme
    \<Rightarrow> (int \<times> pmap \<times> 'z mem_scheme) option" where
  "prom_map_set run self key value w =
     (let (r, l) = wrlock (rwlock self) in
      if r \<noteq> 0 then Some (1, self, w)
      else do {
        (r, self, w) \<leftarrow> prom_map_ensure_space run (self\<lparr>rwlock := l\<rparr>) w;
        if r \<noteq> 0 then Some (2, self\<lparr>rwlock := snd (rwunlock (rwlock self))\<rparr>, w)
        else do {
          (r, sz, ks, bs, w) \<leftarrow> prom_map_set_internal run key value (msize self)
             (max_size self) (keys self) (addrs self) (free_value_fn self) True w;
          let self = self\<lparr>msize := sz, keys := ks, addrs := bs,
                          rwlock := snd (rwunlock (rwlock self))\<rparr>;
          Some (if r \<noteq> 0 then 3 else 0, self, w)
        }
      })"

section \<open>Deletion\<close>

text \<open>
  \<open>prom_map_delete_internal\<close> hands \<open>pll_remove\<close> the list node instead of the map node: the
  bucket's comparison then reads the first word of the list node, its \<open>next\<close> pointer, as a
  key. \<open>next\<close> is None for the last node; otherwise it is the string found in memory at the
  next list node, on which nothing can be relied.
\<close>

fun remove_misread :: "'z mem_scheme runner \<Rightarrow> string option \<Rightarrow> mnode list \<Rightarrow> 'z mem_scheme
    \<Rightarrow> (mnode list \<times> mnode option \<times> 'z mem_scheme) option" where
  "remove_misread run next [] w = Some ([], None, w)"
| "remove_misread run next (n # ns) w = do {
     c \<leftarrow> (if mkey n = NULL then Some (if next = None then 0 else -1)
          else case next of None \<Rightarrow> Some 1
               | Some t \<Rightarrow> map_option (\<lambda>s. strcmp s t) (load_str (mkey n) w));
     if c = 0 then do { w \<leftarrow> prom_map_node_destroy run (Some n) w; Some (ns, Some n, w) }
     else do { (ns, r, w) \<leftarrow> remove_misread run next ns w; Some (n # ns, r, w) } }"

text \<open>\<open>junk k\<close>: the bytes at the list node that follows the \<open>k\<close>-th node of the bucket.\<close>

fun position :: "mnode option \<Rightarrow> mnode list \<Rightarrow> 'z mem_scheme \<Rightarrow> nat option option" where
  "position temp [] w = Some None"
| "position temp (n # ns) w = do {
     c \<leftarrow> prom_map_node_compare (Some n) temp w;
     if c = 0 then Some (Some 0)
     else do { r \<leftarrow> position temp ns w; Some (map_option Suc r) } }"

definition prom_map_delete_internal :: "'z mem_scheme runner \<Rightarrow> (nat \<Rightarrow> string) \<Rightarrow> string \<Rightarrow> u64
    \<Rightarrow> u64 \<Rightarrow> addr list \<Rightarrow> buckets \<Rightarrow> free_fn \<Rightarrow> 'z mem_scheme
    \<Rightarrow> (int \<times> u64 \<times> addr list \<times> buckets \<times> 'z mem_scheme) option" where
  "prom_map_delete_internal run junk key sz mx ks bs fv w = do {
     let index = prom_map_get_index_internal key mx;
     list \<leftarrow> bucket_at bs index;
     let (temp, w) = prom_map_node_new key NULL fv w;
     hit \<leftarrow> position temp list w;
     case hit of
       None \<Rightarrow> do { w \<leftarrow> prom_map_node_destroy run temp w; Some (0, sz, ks, bs, w) }
     | Some k \<Rightarrow> do {
         (list', gone, w) \<leftarrow> remove_misread run
            (if Suc k = length list then None else Some (junk k)) list w;
         if gone = Some (list ! k) then None
         else do {
           w \<leftarrow> prom_map_node_destroy run temp w;
           Some (0, sz - 1, remove1 (mkey (list ! k)) ks, bs[unat index := Some list'], w)
         }
       } }"

definition prom_map_delete :: "'z mem_scheme runner \<Rightarrow> (nat \<Rightarrow> string) \<Rightarrow> pmap \<Rightarrow> string
    \<Rightarrow> 'z mem_scheme \<Rightarrow> (int \<times> pmap \<times> 'z mem_scheme) option" where
  "prom_map_delete run junk self key w =
     (let (r, l) = wrlock (rwlock self) in
      if r \<noteq> 0 then Some (1, self, w)
      else do {
        (_, sz, ks, bs, w) \<leftarrow> prom_map_delete_internal run junk key (msize self) (max_size self)
           (keys self) (addrs self) (free_value_fn self) w;
        Some (0, self\<lparr>msize := sz, keys := ks, addrs := bs,
                      rwlock := snd (rwunlock l)\<rparr>, w)
      })"

definition prom_map_set_free_value_fn :: "pmap \<Rightarrow> free_fn \<Rightarrow> int \<times> pmap" where
  "prom_map_set_free_value_fn self fv = (0, self\<lparr>free_value_fn := fv\<rparr>)"

definition prom_map_size :: "pmap \<Rightarrow> u64" where
  "prom_map_size self = msize self"

section \<open>Tables\<close>

text \<open>
  The nodes of a table in bucket order, and the key/value pairs they stand for. \<open>tab_ok\<close>:
  every bucket exists, every key is a live string in the bucket of its hash, and no two
  nodes have equal keys.
\<close>

definition entries :: "buckets \<Rightarrow> mnode list" where
  "entries bs = concat (map (\<lambda>b. case b of None \<Rightarrow> [] | Some ns \<Rightarrow> ns) bs)"

abbreviation key_of :: "'z mem_scheme \<Rightarrow> mnode \<Rightarrow> string option" where
  "key_of w n \<equiv> strs w (mkey n)"

definition pairs :: "'z mem_scheme \<Rightarrow> mnode list \<Rightarrow> (string option \<times> addr) list" where
  "pairs w ns = map (\<lambda>n. (key_of w n, mvalue n)) ns"

definition in_bucket :: "u64 \<Rightarrow> nat \<Rightarrow> 'z mem_scheme \<Rightarrow> mnode \<Rightarrow> bool" where
  "in_bucket mx i w n \<longleftrightarrow> (case key_of w n of None \<Rightarrow> False
     | Some s \<Rightarrow> unat (prom_map_get_index_internal s mx) = i)"

definition tab_ok :: "u64 \<Rightarrow> buckets \<Rightarrow> 'z mem_scheme \<Rightarrow> bool" where
  "tab_ok mx bs w \<longleftrightarrow> 0 < mx \<and> length bs = unat mx \<and>
     (\<forall>i < length bs. \<exists>ns. bs ! i = Some ns \<and> (\<forall>n \<in> set ns. in_bucket mx i w n)) \<and>
     distinct (map (key_of w) (entries bs))"

definition tlookup :: "'z mem_scheme \<Rightarrow> buckets \<Rightarrow> string \<Rightarrow> addr option" where
  "tlookup w bs s = map_of (pairs w (entries bs)) (Some s)"

lemma index_loop_bound: "0 < mx \<Longrightarrow> index < mx \<Longrightarrow> index_loop mx a index cs < mx"
  by (induction cs arbitrary: a index) (simp_all add: word_mod_less_divisor)

lemma index_bound: "0 < mx \<Longrightarrow> prom_map_get_index_internal s mx < mx"
  by (simp add: prom_map_get_index_internal_def index_loop_bound)

lemma entries_simps [simp]:
  "entries [] = []" "entries (Some ns # bs) = ns @ entries bs" "entries (None # bs) = entries bs"
  "entries (as @ bs) = entries as @ entries bs"
  by (simp_all add: entries_def)

lemma entries_fresh [simp]: "entries (replicate n (Some [])) = []"
  by (induction n) simp_all

lemma pairs_simps [simp]:
  "pairs w [] = []" "pairs w (n # ns) = (key_of w n, mvalue n) # pairs w ns"
  "pairs w (ns @ ms) = pairs w ns @ pairs w ms" "map fst (pairs w ns) = map (key_of w) ns"
  by (simp_all add: pairs_def)

lemma pairs_mem: "(k, v) \<in> set (pairs w ns) \<longleftrightarrow> (\<exists>n \<in> set ns. key_of w n = k \<and> mvalue n = v)"
  by (auto simp: pairs_def)

lemma entries_split:
  assumes "i < length bs" "bs ! i = Some ns"
  obtains A B where "entries bs = A @ ns @ B" "\<forall>ns'. entries (bs[i := Some ns']) = A @ ns' @ B"
proof (rule that)
  show "entries bs = entries (take i bs) @ ns @ entries (drop (Suc i) bs)"
    using assms by (subst id_take_nth_drop [OF assms(1)]) simp
  show "\<forall>ns'. entries (bs[i := Some ns']) = entries (take i bs) @ ns' @ entries (drop (Suc i) bs)"
    using assms by (simp add: upd_conv_take_nth_drop)
qed

lemma entries_mem: "n \<in> set (entries bs) \<longleftrightarrow> (\<exists>i < length bs. \<exists>ns. bs ! i = Some ns \<and> n \<in> set ns)"
  by (fastforce simp: entries_def in_set_conv_nth split: option.splits)

text \<open>The bucket a key hashes to.\<close>

lemma tab_ok_bucket:
  assumes "tab_ok mx bs w"
  obtains ns where "bucket_at bs (prom_map_get_index_internal s mx) = Some ns"
    "unat (prom_map_get_index_internal s mx) < length bs"
    "bs ! unat (prom_map_get_index_internal s mx) = Some ns"
    "\<forall>n \<in> set ns. in_bucket mx (unat (prom_map_get_index_internal s mx)) w n"
    "\<forall>n \<in> set (entries bs). key_of w n = Some s \<longrightarrow> n \<in> set ns"
proof -
  let ?i = "unat (prom_map_get_index_internal s mx)"
  have i: "?i < length bs"
    using assms index_bound [of mx s] by (simp add: tab_ok_def word_less_nat_alt)
  then obtain ns where ns: "bs ! ?i = Some ns" "\<forall>n \<in> set ns. in_bucket mx ?i w n"
    using assms by (auto simp: tab_ok_def)
  have "n \<in> set ns" if "n \<in> set (entries bs)" "key_of w n = Some s" for n
  proof -
    obtain j ms where j: "j < length bs" "bs ! j = Some ms" "n \<in> set ms"
      using \<open>n \<in> set (entries bs)\<close> by (auto simp: entries_mem)
    then have "in_bucket mx j w n" using assms by (fastforce simp: tab_ok_def)
    then have "j = ?i" using that(2) by (simp add: in_bucket_def)
    then show ?thesis using j ns by simp
  qed
  then show thesis using i ns by (intro that) (auto simp: bucket_at_def)
qed

lemma tab_ok_live: "tab_ok mx bs w \<Longrightarrow> n \<in> set (entries bs) \<Longrightarrow> \<exists>s. key_of w n = Some s"
  by (fastforce simp: tab_ok_def entries_mem in_bucket_def split: option.splits)

lemma tlookup_Some:
  "tab_ok mx bs w \<Longrightarrow>
   tlookup w bs s = Some v \<longleftrightarrow> (\<exists>n \<in> set (entries bs). key_of w n = Some s \<and> mvalue n = v)"
  by (subst tlookup_def, subst map_of_eq_Some_iff) (auto simp: tab_ok_def pairs_mem)

lemma tlookup_None:
  "tlookup w bs s = None \<longleftrightarrow> (\<forall>n \<in> set (entries bs). key_of w n \<noteq> Some s)"
  by (simp add: tlookup_def map_of_eq_None_iff pairs_def image_image image_iff
      eq_commute [of "Some s"])

lemma tlookup_mset:
  assumes "mset (pairs w (entries bs)) = mset (pairs w' (entries bs'))"
    and "distinct (map (key_of w) (entries bs))"
  shows "tlookup w bs = tlookup w' bs'"
proof
  fix s
  have d: "distinct (map fst (pairs w (entries bs)))" using assms(2) by simp
  have "mset (map fst (pairs w (entries bs))) = mset (map fst (pairs w' (entries bs')))"
    using arg_cong [OF assms(1), of "image_mset fst"] by (simp only: mset_map)
  then have d': "distinct (map fst (pairs w' (entries bs')))"
    using d mset_eq_imp_distinct_iff by blast
  have "map_of (pairs w (entries bs)) = map_of (pairs w' (entries bs'))"
    using d d' mset_eq_setD [OF assms(1)] by (simp add: map_of_inject_set)
  then show "tlookup w bs s = tlookup w' bs' s" by (simp add: tlookup_def)
qed

lemma tab_ok_cong:
  assumes "tab_ok mx bs w" "\<forall>n \<in> set (entries bs). key_of w' n = key_of w n"
  shows "tab_ok mx bs w'"
proof -
  have "map (key_of w') (entries bs) = map (key_of w) (entries bs)" using assms(2) by simp
  moreover have "in_bucket mx i w' n" if "i < length bs" "bs ! i = Some ns" "n \<in> set ns"
      "in_bucket mx i w n" for i ns n
  proof -
    have "n \<in> set (entries bs)" using that by (auto simp: entries_mem)
    then show ?thesis using that(4) assms(2) by (simp add: in_bucket_def)
  qed
  ultimately show ?thesis using assms(1) unfolding tab_ok_def by (metis (no_types, lifting))
qed

lemma tab_ok_fresh: "0 < mx \<Longrightarrow> tab_ok mx (replicate (unat mx) (Some [])) w"
  by (auto simp: tab_ok_def)

text \<open>The one change every insertion makes: bucket \<open>i\<close> becomes \<open>ns'\<close>.\<close>

lemma tab_ok_update:
  assumes "tab_ok mx bs w" "i < length bs"
    and "\<forall>n \<in> set (entries bs). n \<in> set (entries (bs[i := Some ns'])) \<longrightarrow> key_of w' n = key_of w n"
    and "\<forall>n \<in> set ns'. in_bucket mx i w' n"
    and "distinct (map (key_of w') (entries (bs[i := Some ns'])))"
  shows "tab_ok mx (bs[i := Some ns']) w'"
proof -
  have "\<exists>ms. bs[i := Some ns'] ! j = Some ms \<and> (\<forall>n \<in> set ms. in_bucket mx j w' n)"
    if j: "j < length bs" for j
  proof (cases "j = i")
    case True
    then show ?thesis using assms(2,4) by simp
  next
    case False
    obtain ms where ms: "bs ! j = Some ms" "\<forall>n \<in> set ms. in_bucket mx j w n"
      using assms(1) j by (auto simp: tab_ok_def)
    have "n \<in> set (entries bs)" "n \<in> set (entries (bs[i := Some ns']))" if "n \<in> set ms" for n
      using ms j that False by (force simp: entries_mem)+
    then have "\<forall>n \<in> set ms. in_bucket mx j w' n"
      using ms assms(3) by (auto simp: in_bucket_def)
    then show ?thesis using ms False by auto
  qed
  then show ?thesis using assms by (simp add: tab_ok_def)
qed

section \<open>Lookup is correct\<close>

lemma prom_map_node_new_ok:
  "oom w = [] \<Longrightarrow> mem_ok w \<Longrightarrow> prom_map_node_new key v fv w =
     (Some \<lparr>mkey = Suc (brk w), mvalue = v, mfree = fv\<rparr>,
      w\<lparr>brk := Suc (Suc (brk w)), strs := (strs w)(Suc (brk w) \<mapsto> key)\<rparr>)"
  by (simp add: prom_map_node_new_def malloc_ok strdup_ok inv_intros)

lemma key_nonnull: "mem_ok w \<Longrightarrow> key_of w n \<noteq> None \<Longrightarrow> mkey n \<noteq> NULL"
  using mem_ok_NULL [of w] by (cases "mkey n = NULL") simp_all

lemma compare_live:
  assumes "mem_ok w" "key_of w n = Some s" "key_of w m = Some t"
  shows "prom_map_node_compare (Some n) (Some m) w = Some (strcmp s t)"
proof -
  have "mkey n \<noteq> NULL" "mkey m \<noteq> NULL" using assms mem_ok_live by (metis less_irrefl)+
  then show ?thesis using assms by (auto simp: prom_map_node_compare_def load_str_def)
qed

lemma search_bucket_ok:
  assumes "mem_ok w" "key_of w temp = Some s" "\<forall>n \<in> set ns. key_of w n \<noteq> None"
  shows "search_bucket (Some temp) ns w = Some (find (\<lambda>n. key_of w n = Some s) ns)"
  using assms(3)
proof (induction ns)
  case (Cons n ns)
  then obtain t where "key_of w n = Some t" by auto
  then show ?case using Cons compare_live [OF assms(1) _ assms(2)] by simp
qed simp

lemma find_lookup:
  assumes t: "tab_ok mx bs w" and b: "bucket_at bs (prom_map_get_index_internal s mx) = Some ns"
  shows "map_option mvalue (find (\<lambda>n. key_of w n = Some s) ns) = tlookup w bs s"
proof -
  from t obtain ms where ms: "bucket_at bs (prom_map_get_index_internal s mx) = Some ms"
      "unat (prom_map_get_index_internal s mx) < length bs"
      "bs ! unat (prom_map_get_index_internal s mx) = Some ms"
      "\<forall>n \<in> set (entries bs). key_of w n = Some s \<longrightarrow> n \<in> set ms"
    by (rule tab_ok_bucket)
  have [simp]: "ms = ns" using ms b by simp
  have sub: "set ns \<subseteq> set (entries bs)"
    using ms(2,3) entries_mem [of _ bs] \<open>ms = ns\<close> by blast
  show ?thesis
  proof (cases "find (\<lambda>n. key_of w n = Some s) ns")
    case None
    then have "tlookup w bs s = None" using ms(4) by (auto simp: tlookup_None find_None_iff)
    then show ?thesis using None by simp
  next
    case (Some n)
    then have "n \<in> set ns" "key_of w n = Some s" by (auto simp: find_Some_iff)
    then have "tlookup w bs s = Some (mvalue n)" using sub t tlookup_Some by blast
    then show ?thesis using Some by simp
  qed
qed

lemma get_internal_ok:
  assumes t: "tab_ok mx bs w" and m: "mem_ok w" "oom w = []"
  shows "prom_map_get_internal run (Some s) mx bs fv w =
    Some (case tlookup w bs s of None \<Rightarrow> NULL | Some v \<Rightarrow> v, w\<lparr>brk := Suc (Suc (brk w))\<rparr>)"
proof -
  obtain ns where ns: "bucket_at bs (prom_map_get_index_internal s mx) = Some ns"
      "\<forall>n \<in> set ns. in_bucket mx (unat (prom_map_get_index_internal s mx)) w n"
    using t by (rule tab_ok_bucket)
  let ?w = "w\<lparr>brk := Suc (Suc (brk w)), strs := (strs w)(Suc (brk w) \<mapsto> s)\<rparr>"
  let ?n = "\<lparr>mkey = Suc (brk w), mvalue = NULL, mfree = fv\<rparr>"
  have old: "key_of ?w n = key_of w n" if "n \<in> set ns" for n
    using ns(2) that mem_ok_fresh [OF m(1), of "Suc (brk w)"]
    by (fastforce simp: in_bucket_def split: option.splits)
  have "search_bucket (Some ?n) ns ?w = Some (find (\<lambda>n. key_of ?w n = Some s) ns)"
    using ns(2) old m by (intro search_bucket_ok mem_ok_store) (auto simp: in_bucket_def split: option.splits)
  also have "find (\<lambda>n. key_of ?w n = Some s) ns = find (\<lambda>n. key_of w n = Some s) ns"
    using old by (intro find_cong) auto
  finally have s: "search_bucket (Some ?n) ns ?w = Some (find (\<lambda>n. key_of w n = Some s) ns)" .
  have fr: "(strs w)(Suc (brk w) := None) = strs w" using mem_ok_fresh [OF m(1), of "Suc (brk w)"] by auto
  have "prom_map_get_internal run (Some s) mx bs fv w = Some (case find (\<lambda>n. key_of w n = Some s) ns
      of None \<Rightarrow> NULL | Some n \<Rightarrow> mvalue n, w\<lparr>brk := Suc (Suc (brk w))\<rparr>)"
    using ns(1) s m fr
    by (simp add: prom_map_get_internal_def prom_map_node_new_ok prom_map_node_destroy_def free_str_def)
  then show ?thesis unfolding find_lookup [OF t ns(1), symmetric]
    by (cases "find (\<lambda>n. key_of w n = Some s) ns") simp_all
qed

section \<open>Insertion into a table\<close>

text \<open>A free function that leaves the string heap and the allocator alone.\<close>

definition spares_strings :: "'z mem_scheme runner \<Rightarrow> free_fn \<Rightarrow> bool" where
  "spares_strings run fv \<longleftrightarrow> (\<forall>v w. \<exists>w'. run fv v w = Some w' \<and> strs w' = strs w \<and>
     brk w' = brk w \<and> oom w' = oom w)"

lemma replace_miss:
  assumes "mem_ok w" "key_of w node = Some s" "\<forall>n \<in> set ns. key_of w n \<noteq> None \<and> key_of w n \<noteq> Some s"
  shows "replace_node run fv d node ns w = Some (None, w)"
  using assms(3)
proof (induction ns)
  case (Cons n ns)
  then obtain t where "key_of w n = Some t" "t \<noteq> s" by auto
  then show ?case using Cons compare_live [OF assms(1) _ assms(2)] by simp
qed simp

lemma replace_hit:
  assumes "mem_ok w" "key_of w node = Some s" "\<forall>n \<in> set xs. key_of w n \<noteq> None \<and> key_of w n \<noteq> Some s"
    and "key_of w n = Some s" "run fv (mvalue n) w = Some w1" "strs w1 = strs w"
  shows "replace_node run fv True node (xs @ n # ys) w =
    Some (Some (xs @ node # ys), w1\<lparr>strs := (strs w)(mkey n := None)\<rparr>)"
  using assms(3)
proof (induction xs)
  case Nil
  have "mkey n \<noteq> NULL" using assms(1,4) mem_ok_live by (metis less_irrefl)
  then show ?case using assms compare_live [OF assms(1,4,2)]
    by (simp add: free_str_def fun_upd_def)
next
  case (Cons m xs)
  then obtain t where "key_of w m = Some t" "t \<noteq> s" by auto
  then show ?case using Cons compare_live [OF assms(1) _ assms(2)] by simp
qed

lemma distinct_map_mid:
  "distinct (map f (xs @ ys @ zs)) \<Longrightarrow> f y \<notin> f ` set (xs @ ys @ zs) \<Longrightarrow>
   distinct (map f (xs @ (ys @ [y]) @ zs))"
  by auto

text \<open>A fresh key: the node goes to the end of its bucket, its key to the end of the list.\<close>

lemma set_internal_fresh:
  assumes t: "tab_ok mx bs w" and m: "mem_ok w" "oom w = []" and new: "tlookup w bs s = None"
  obtains bs' w' where "prom_map_set_internal run s v sz mx ks bs fv d w =
      Some (0, sz + 1, ks @ [Suc (brk w)], bs', w')"
    "w' = w\<lparr>brk := brk w + 4, strs := (strs w)(Suc (brk w) \<mapsto> s)\<rparr>"
    "tab_ok mx bs' w'"
    "mset (entries bs') = mset (entries bs) + {#\<lparr>mkey = Suc (brk w), mvalue = v, mfree = fv\<rparr>#}"
proof -
  let ?i = "unat (prom_map_get_index_internal s mx)"
  obtain ns where ns: "bucket_at bs (prom_map_get_index_internal s mx) = Some ns"
      "?i < length bs" "bs ! ?i = Some ns" "\<forall>n \<in> set ns. in_bucket mx ?i w n"
    using t by (rule tab_ok_bucket)
  obtain A B where AB: "entries bs = A @ ns @ B" "\<forall>ns'. entries (bs[?i := Some ns']) = A @ ns' @ B"
    using ns(2,3) by (rule entries_split)
  let ?w = "w\<lparr>brk := Suc (Suc (brk w)), strs := (strs w)(Suc (brk w) \<mapsto> s)\<rparr>"
  let ?n = "\<lparr>mkey = Suc (brk w), mvalue = v, mfree = fv\<rparr>"
  define w' where "w' = w\<lparr>brk := brk w + 4, strs := (strs w)(Suc (brk w) \<mapsto> s)\<rparr>"
  have old: "strs ?w (mkey n) = key_of w n \<and> key_of w n \<noteq> None \<and> key_of w n \<noteq> Some s"
    if "n \<in> set (entries bs)" for n
    using tab_ok_live [OF t that] mem_ok_fresh [OF m(1), of "Suc (brk w)"] new that
    by (auto simp: tlookup_None)
  have mok: "mem_ok ?w" using m by (intro mem_ok_store) auto
  have "replace_node run fv d ?n ns ?w = Some (None, ?w)"
  proof (rule replace_miss [OF mok, of _ s])
    show "\<forall>n \<in> set ns. key_of ?w n \<noteq> None \<and> key_of ?w n \<noteq> Some s"
      using old AB(1) by auto
  qed simp
  then have e: "prom_map_set_internal run s v sz mx ks bs fv d w =
      Some (0, sz + 1, ks @ [Suc (brk w)], bs[?i := Some (ns @ [?n])], w')"
    using ns(1) m mok by (simp add: prom_map_set_internal_def prom_map_node_new_ok
        seq_append_def malloc_ok w'_def)
  have "tab_ok mx (bs[?i := Some (ns @ [?n])]) w'"
  proof (rule tab_ok_update [OF t ns(2)])
    show "\<forall>n \<in> set (entries bs). n \<in> set (entries (bs[?i := Some (ns @ [?n])])) \<longrightarrow>
        key_of w' n = key_of w n"
      using old by (auto simp: w'_def)
    show "\<forall>n \<in> set (ns @ [?n]). in_bucket mx ?i w' n"
      using ns(4) old AB(1) by (auto simp: w'_def in_bucket_def)
    have same: "map (key_of w') (entries bs) = map (key_of w) (entries bs)"
      using old by (auto simp: w'_def)
    have "distinct (map (key_of w') (entries bs))"
      unfolding same using t by (simp add: tab_ok_def)
    moreover have "key_of w' n \<noteq> Some s" if "n \<in> set (entries bs)" for n
      using old [OF that] by (auto simp: w'_def)
    then have "key_of w' ?n \<notin> key_of w' ` set (entries bs)" by (force simp: w'_def)
    ultimately have "distinct (map (key_of w') (A @ (ns @ [?n]) @ B))"
      unfolding AB(1) by (rule distinct_map_mid)
    then show "distinct (map (key_of w') (entries (bs[?i := Some (ns @ [?n])])))"
      using AB(2) by simp
  qed
  moreover have "mset (entries (bs[?i := Some (ns @ [?n])])) = mset (entries bs) + {#?n#}"
    using AB by simp
  ultimately show thesis by (intro that [OF e w'_def])
qed

text \<open>
  A key that is there: its node is replaced in place and the old key string is freed. The
  key list is not touched, so it keeps the address of the freed string.
\<close>

lemma distinct_map_swap:
  "distinct (map f (xs @ y # ys)) \<Longrightarrow> f z = f y \<Longrightarrow> distinct (map f (xs @ z # ys))"
  by auto

lemma set_internal_hit:
  assumes t: "tab_ok mx bs w" and m: "mem_ok w" "oom w = []"
    and hit: "tlookup w bs s = Some u" and fv: "spares_strings run fv"
  obtains n bs' w' X Y where "prom_map_set_internal run s v sz mx ks bs fv True w =
      Some (0, sz, ks, bs', w')"
    "key_of w n = Some s" "mvalue n = u" "brk w' = Suc (Suc (brk w))" "oom w' = []"
    "strs w' = (strs w)(Suc (brk w) \<mapsto> s, mkey n := None)" "tab_ok mx bs' w'"
    "entries bs = X @ n # Y"
    "entries bs' = X @ \<lparr>mkey = Suc (brk w), mvalue = v, mfree = fv\<rparr> # Y"
proof -
  let ?i = "unat (prom_map_get_index_internal s mx)"
  obtain ns where ns: "bucket_at bs (prom_map_get_index_internal s mx) = Some ns"
      "?i < length bs" "bs ! ?i = Some ns" "\<forall>n \<in> set ns. in_bucket mx ?i w n"
      "\<forall>n \<in> set (entries bs). key_of w n = Some s \<longrightarrow> n \<in> set ns"
    using t by (rule tab_ok_bucket)
  obtain A B where AB: "entries bs = A @ ns @ B" "\<forall>ns'. entries (bs[?i := Some ns']) = A @ ns' @ B"
    using ns(2,3) by (rule entries_split)
  obtain n where n: "n \<in> set (entries bs)" "key_of w n = Some s" "mvalue n = u"
    using hit tlookup_Some [OF t] by blast
  then obtain xs ys where xy: "ns = xs @ n # ys" using ns(5) split_list by fast
  have d: "distinct (map (key_of w) (A @ (xs @ n # ys) @ B))"
    using t AB(1) xy by (simp only: tab_ok_def)
  have other: "key_of w k \<noteq> Some s" if "k \<in> set ((A @ xs) @ ys @ B)" for k
    using d that n(2) by (force simp: image_iff)
  let ?w = "w\<lparr>brk := Suc (Suc (brk w)), strs := (strs w)(Suc (brk w) \<mapsto> s)\<rparr>"
  let ?n = "\<lparr>mkey = Suc (brk w), mvalue = v, mfree = fv\<rparr>"
  have mok: "mem_ok ?w" using m by (intro mem_ok_store) auto
  have old: "strs ?w (mkey k) = key_of w k \<and> key_of w k \<noteq> None" if "k \<in> set (entries bs)" for k
    using tab_ok_live [OF t that] mem_ok_fresh [OF m(1), of "Suc (brk w)"] by auto
  have nmem: "n \<in> set (entries bs)" and xsmem: "set xs \<subseteq> set (entries bs)"
    using AB(1) xy by auto
  obtain w1 where w1: "run fv (mvalue n) ?w = Some w1" "strs w1 = strs ?w" "brk w1 = brk ?w"
      "oom w1 = oom ?w"
    using fv unfolding spares_strings_def by blast
  define w' where "w' = w1\<lparr>strs := (strs ?w)(mkey n := None)\<rparr>"
  have "replace_node run fv True ?n ns ?w = Some (Some (xs @ ?n # ys), w')"
    unfolding xy w'_def
  proof (rule replace_hit [OF mok, of _ s])
    show "\<forall>k \<in> set xs. key_of ?w k \<noteq> None \<and> key_of ?w k \<noteq> Some s"
      using old other xsmem by fastforce
  qed (use old [OF nmem] n(2) w1 in auto)
  then have e: "prom_map_set_internal run s v sz mx ks bs fv True w =
      Some (0, sz, ks, bs[?i := Some (xs @ ?n # ys)], w')"
    using ns(1) m by (simp add: prom_map_set_internal_def prom_map_node_new_ok)
  have strs': "strs w' = (strs w)(Suc (brk w) \<mapsto> s, mkey n := None)" by (simp add: w'_def)
  have nk: "mkey n < brk w" using n(2) mem_ok_live [OF m(1)] by blast
  have same: "key_of w' k = key_of w k" if "k \<in> set ((A @ xs) @ ys @ B)" for k
    using other [OF that] old [of k] that n(2) AB(1) xy by (auto simp: strs')
  have "tab_ok mx (bs[?i := Some (xs @ ?n # ys)]) w'"
  proof (rule tab_ok_update [OF t ns(2)])
    show "\<forall>k \<in> set (entries bs). k \<in> set (entries (bs[?i := Some (xs @ ?n # ys)])) \<longrightarrow>
        key_of w' k = key_of w k"
      using same AB nk n(2) mem_ok_fresh [OF m(1), of "Suc (brk w)"] old
      by (force simp: strs')
    show "\<forall>k \<in> set (xs @ ?n # ys). in_bucket mx ?i w' k"
    proof
      fix k
      assume k: "k \<in> set (xs @ ?n # ys)"
      show "in_bucket mx ?i w' k"
      proof (cases "k = ?n")
        case True
        then show ?thesis using nk by (simp add: in_bucket_def strs')
      next
        case False
        then have "key_of w' k = key_of w k" "k \<in> set ns" using k same xy by auto
        then show ?thesis using ns(4) by (simp add: in_bucket_def)
      qed
    qed
    have "map (key_of w') ((A @ xs) @ ?n # (ys @ B)) = map (key_of w) ((A @ xs) @ n # (ys @ B))"
      using same n(2) nk by (auto simp: strs')
    then have "distinct (map (key_of w') ((A @ xs) @ ?n # (ys @ B)))"
      using d by (simp only: append_assoc append_Cons)
    then show "distinct (map (key_of w') (entries (bs[?i := Some (xs @ ?n # ys)])))"
      using AB(2) by (simp only: append_assoc append_Cons)
  qed
  then show thesis using e n w1 m AB xy
    by (intro that [of "bs[?i := Some (xs @ ?n # ys)]" w' n "A @ xs" "ys @ B"])
      (simp_all add: w'_def)
qed

section \<open>Growing\<close>

lemma new_buckets_ok:
  "oom w = [] \<Longrightarrow> mem_ok w \<Longrightarrow>
   new_buckets n w = (Some (replicate n (Some [])), w\<lparr>brk := brk w + n\<rparr>)"
proof (induction n arbitrary: w)
  case (Suc n)
  then show ?case by (simp add: malloc_ok mem_ok_brk)
qed simp

text \<open>
  \<open>moved\<close>: how a table and its key list look after nodes \<open>ns\<close>, with pairwise different
  keys, were moved into it from an old table.
\<close>

definition moved :: "u64 \<Rightarrow> mnode list \<Rightarrow> addr list \<times> buckets \<times> 'z mem_scheme
    \<Rightarrow> addr list \<times> buckets \<times> 'z mem_scheme \<Rightarrow> bool" where
  "moved mx ns = (\<lambda>(ks, bs, w) (ks', bs', w').
     tab_ok mx bs' w' \<and> mem_ok w' \<and> oom w' = [] \<and> brk w \<le> brk w' \<and>
     mem.more w' = mem.more w \<and>
     mset (pairs w' (entries bs')) = mset (pairs w (entries bs)) + mset (pairs w ns) \<and>
     mset ks' + mset (map mkey (entries bs)) = mset ks + mset (map mkey (entries bs')) \<and>
     (\<forall>a < brk w. a \<notin> mkey ` set ns \<longrightarrow> strs w' a = strs w a) \<and>
     (\<forall>a \<in> mkey ` set (entries bs'). a \<in> mkey ` set (entries bs) \<or> brk w \<le> a))"

lemma moved_trans:
  assumes "moved mx ns (ks, bs, w) (ks1, bs1, w1)" "moved mx ms (ks1, bs1, w1) (ks2, bs2, w2)"
    and live: "\<forall>n \<in> set ms. mkey n < brk w \<and> mkey n \<notin> mkey ` set ns"
  shows "moved mx (ns @ ms) (ks, bs, w) (ks2, bs2, w2)"
proof -
  have p: "pairs w1 ms = pairs w ms"
    using assms(1) live by (auto simp: moved_def pairs_def)
  have "mset ks2 + mset (map mkey (entries bs)) = mset ks + mset (map mkey (entries bs2))"
  proof -
    have "mset ks2 + mset (map mkey (entries bs)) + mset (map mkey (entries bs1)) =
        mset ks + mset (map mkey (entries bs2)) + mset (map mkey (entries bs1))"
      using assms(1,2) unfolding moved_def prod.case
      by (metis (no_types, lifting) add.assoc add.commute)
    then show ?thesis by simp
  qed
  moreover have "mset (pairs w2 (entries bs2)) =
      mset (pairs w (entries bs)) + mset (pairs w (ns @ ms))"
    using assms(1,2) p by (simp add: moved_def)
  moreover have "strs w2 a = strs w a" if "a < brk w" "a \<notin> mkey ` set (ns @ ms)" for a
  proof -
    have "strs w2 a = strs w1 a" using assms(1,2) that by (simp add: moved_def image_Un)
    also have "\<dots> = strs w a" using assms(1) that by (simp add: moved_def image_Un)
    finally show ?thesis .
  qed
  moreover have "a \<in> mkey ` set (entries bs) \<or> brk w \<le> a" if "a \<in> mkey ` set (entries bs2)" for a
    using assms(1,2) that unfolding moved_def by (smt (verit) case_prod_conv le_trans)
  ultimately show ?thesis using assms(1,2) unfolding moved_def by simp
qed

text \<open>What is known of the nodes still to be moved.\<close>

definition movable :: "mnode list \<Rightarrow> buckets \<Rightarrow> 'z mem_scheme \<Rightarrow> bool" where
  "movable ns bs w \<longleftrightarrow> (\<forall>n \<in> set ns. key_of w n \<noteq> None) \<and>
     distinct (map (key_of w) (ns @ entries bs))"

lemma move_one:
  assumes t: "tab_ok mx bs w" and m: "mem_ok w" "oom w = []" and mv: "movable (n # ns) bs w"
  obtains ks' bs' w' s w1 where "key_of w n = Some s"
    "prom_map_set_internal run s (mvalue n) sz mx ks bs fv False w = Some (0, sz + 1, ks', bs', w1)"
    "free_str (mkey n) w1 = Some w'" "moved mx [n] (ks, bs, w) (ks', bs', w')" "movable ns bs' w'"
proof -
  obtain s where s: "key_of w n = Some s" using mv by (auto simp: movable_def)
  have new: "tlookup w bs s = None" using mv s by (force simp: movable_def tlookup_None image_iff)
  obtain bs' w1 where e: "prom_map_set_internal run s (mvalue n) sz mx ks bs fv False w =
      Some (0, sz + 1, ks @ [Suc (brk w)], bs', w1)"
    and w1: "w1 = w\<lparr>brk := brk w + 4, strs := (strs w)(Suc (brk w) \<mapsto> s)\<rparr>"
    and t1: "tab_ok mx bs' w1"
    and ent: "mset (entries bs') = mset (entries bs) +
        {#\<lparr>mkey = Suc (brk w), mvalue = mvalue n, mfree = fv\<rparr>#}"
    using set_internal_fresh [OF t m new] by metis
  have nk: "mkey n < brk w" "0 < mkey n" using s mem_ok_live [OF m(1)] by auto
  define w' where "w' = w1\<lparr>strs := (strs w1)(mkey n := None)\<rparr>"
  have free: "free_str (mkey n) w1 = Some w'"
    using nk s by (simp add: free_str_def w1 w'_def)
  have set': "set (entries bs') = insert \<lparr>mkey = Suc (brk w), mvalue = mvalue n, mfree = fv\<rparr>
      (set (entries bs))"
    using arg_cong [OF ent, of set_mset] by simp
  have key': "key_of w' k = key_of w k" if "key_of w k \<noteq> None" "key_of w k \<noteq> Some s" for k
    using that s mem_ok_live [OF m(1)] by (fastforce simp: w'_def w1)
  have notn: "mkey k \<noteq> mkey n" if "k \<in> set (entries bs) \<union> set ns" for k
    using mv s that by (force simp: movable_def image_iff)
  have keyb: "key_of w' k = key_of w k" if "k \<in> set (entries bs) \<union> set ns" for k
    using notn [OF that] that tab_ok_live [OF t, of k] mv mem_ok_live [OF m(1), of "mkey k"]
    by (fastforce simp: w'_def w1 movable_def)
  have "tab_ok mx bs' w'"
  proof (rule tab_ok_cong [OF t1])
    show "\<forall>k \<in> set (entries bs'). key_of w' k = key_of w1 k"
      using notn nk by (auto simp: set' w'_def)
  qed
  moreover have "mem_ok w'"
    unfolding w'_def w1 using m by (intro mem_ok_forget mem_ok_store) auto
  moreover have "mset (pairs w' (entries bs')) = mset (pairs w (entries bs)) + mset (pairs w [n])"
  proof -
    have "mset (pairs w' (entries bs')) = image_mset (\<lambda>k. (key_of w' k, mvalue k)) (mset (entries bs'))"
      by (simp add: pairs_def)
    also have "\<dots> = image_mset (\<lambda>k. (key_of w' k, mvalue k)) (mset (entries bs)) + {#(Some s, mvalue n)#}"
      using nk by (simp add: ent w'_def w1)
    also have "image_mset (\<lambda>k. (key_of w' k, mvalue k)) (mset (entries bs)) =
        image_mset (\<lambda>k. (key_of w k, mvalue k)) (mset (entries bs))"
      using keyb by (intro image_mset_cong) auto
    finally show ?thesis using s by (simp add: pairs_def)
  qed
  moreover have "mset (ks @ [Suc (brk w)]) + mset (map mkey (entries bs)) =
      mset ks + mset (map mkey (entries bs'))"
    by (simp add: ent)
  moreover have "\<forall>a < brk w. a \<notin> mkey ` set [n] \<longrightarrow> strs w' a = strs w a"
    by (simp add: w'_def w1)
  moreover have "\<forall>a \<in> mkey ` set (entries bs'). a \<in> mkey ` set (entries bs) \<or> brk w \<le> a"
    by (auto simp: set')
  ultimately have mo: "moved mx [n] (ks, bs, w) (ks @ [Suc (brk w)], bs', w')"
    using m by (simp add: moved_def) (simp add: w'_def w1)
  have "distinct (map (key_of w') (ns @ entries bs'))"
  proof -
    have "mset (map (key_of w') (ns @ entries bs')) =
        image_mset (key_of w') (mset (ns @ entries bs)) + {#Some s#}"
      using nk by (simp add: ent) (simp add: w'_def w1)
    also have "image_mset (key_of w') (mset (ns @ entries bs)) = image_mset (key_of w) (mset (ns @ entries bs))"
      using keyb by (intro image_mset_cong) auto
    finally have "mset (map (key_of w') (ns @ entries bs')) = mset (map (key_of w) ((n # ns) @ entries bs))"
      using s by simp
    then show ?thesis using mv mset_eq_imp_distinct_iff unfolding movable_def by blast
  qed
  moreover have "\<forall>k \<in> set ns. key_of w' k \<noteq> None"
    using keyb mv by (auto simp: movable_def)
  ultimately have "movable ns bs' w'" by (simp add: movable_def)
  then show thesis using that [OF s e free mo] by simp
qed

lemma move_bucket_ok:
  assumes "tab_ok mx bs w" "mem_ok w" "oom w = []" "movable (ns @ rest) bs w"
  shows "\<exists>ks' bs' w'. move_bucket run fv mx ns sz ks bs w =
      Some (0, 0, sz + of_nat (length ns), ks', bs', w') \<and>
    moved mx ns (ks, bs, w) (ks', bs', w') \<and> movable rest bs' w'"
  using assms
proof (induction ns arbitrary: sz ks bs w)
  case Nil
  then show ?case by (simp add: moved_def)
next
  case (Cons n ns)
  from Cons.prems(1-3) have "movable (n # ns @ rest) bs w" using Cons.prems(4) by simp
  with Cons.prems(1-3) obtain ks1 bs1 w1 s w0 where 1: "key_of w n = Some s"
    "prom_map_set_internal run s (mvalue n) sz mx ks bs fv False w = Some (0, sz + 1, ks1, bs1, w0)"
    "free_str (mkey n) w0 = Some w1" "moved mx [n] (ks, bs, w) (ks1, bs1, w1)"
    "movable (ns @ rest) bs1 w1"
    by (rule move_one)
  have "tab_ok mx bs1 w1" "mem_ok w1" "oom w1 = []" using 1(4) by (auto simp: moved_def)
  from Cons.IH [OF this 1(5)] obtain ks2 bs2 w2 where 2:
    "move_bucket run fv mx ns (sz + 1) ks1 bs1 w1 =
       Some (0, 0, sz + 1 + of_nat (length ns), ks2, bs2, w2)"
    "moved mx ns (ks1, bs1, w1) (ks2, bs2, w2)" "movable rest bs2 w2"
    by blast
  have "mkey k < brk w \<and> mkey k \<notin> mkey ` set [n]" if "k \<in> set ns" for k
  proof -
    have "key_of w k \<noteq> None" "key_of w k \<noteq> key_of w n"
      using Cons.prems(4) that by (force simp: movable_def image_iff)+
    then show ?thesis using mem_ok_live [OF Cons.prems(2)] by auto
  qed
  then have "moved mx ([n] @ ns) (ks, bs, w) (ks2, bs2, w2)"
    using moved_trans [OF 1(4) 2(2)] by blast
  then show ?case using 1 2 by (simp add: load_str_def add.assoc)
qed

lemma move_buckets_ok:
  assumes "tab_ok mx bs w" "mem_ok w" "oom w = []" "movable (entries old) bs w" "None \<notin> set old"
  shows "\<exists>old' ks' bs' w'. move_buckets run fv mx old sz ks bs w =
      Some (0, old', sz + of_nat (length (entries old)), ks', bs', w') \<and>
    moved mx (entries old) (ks, bs, w) (ks', bs', w')"
  using assms
proof (induction old arbitrary: sz ks bs w)
  case Nil
  then show ?case by (simp add: moved_def)
next
  case (Cons b old)
  then obtain ns where b: "b = Some ns" by (cases b) auto
  have mv: "movable (ns @ entries old) bs w" using Cons.prems(4) b by simp
  from move_bucket_ok [OF Cons.prems(1-3) mv] obtain ks1 bs1 w1 where 1:
    "move_bucket run fv mx ns sz ks bs w = Some (0, 0, sz + of_nat (length ns), ks1, bs1, w1)"
    "moved mx ns (ks, bs, w) (ks1, bs1, w1)" "movable (entries old) bs1 w1"
    by blast
  have "tab_ok mx bs1 w1" "mem_ok w1" "oom w1 = []" using 1(2) by (auto simp: moved_def)
  from Cons.IH [OF this 1(3)] Cons.prems(5) obtain old' ks2 bs2 w2 where 2:
    "move_buckets run fv mx old (sz + of_nat (length ns)) ks1 bs1 w1 =
       Some (0, old', sz + of_nat (length ns) + of_nat (length (entries old)), ks2, bs2, w2)"
    "moved mx (entries old) (ks1, bs1, w1) (ks2, bs2, w2)"
    by fastforce
  have "mkey k < brk w \<and> mkey k \<notin> mkey ` set ns" if "k \<in> set (entries old)" for k
  proof -
    have "key_of w k \<noteq> None" "key_of w k \<notin> key_of w ` set ns"
      using mv that by (auto simp: movable_def)
    then show ?thesis using mem_ok_live [OF Cons.prems(2)] by (auto simp: image_iff)
  qed
  then have "moved mx (ns @ entries old) (ks, bs, w) (ks2, bs2, w2)"
    using moved_trans [OF 1(2) 2(2)] by blast
  then show ?case using b 1 2 by (simp add: add.assoc)
qed

section \<open>The map\<close>

text \<open>
  \<open>map_ok\<close>: the table is well formed, its number of buckets is a power of two of at least
  32, \<open>size\<close> counts the entries and is at most one above half the buckets, the table was
  never doubled early, and the lock is free. \<open>keys_ok\<close>: the key list holds exactly the keys of the nodes.
\<close>

definition map_ok :: "pmap \<Rightarrow> 'z mem_scheme \<Rightarrow> bool" where
  "map_ok m w \<longleftrightarrow> tab_ok (max_size m) (addrs m) w \<and>
     (\<exists>k. 5 \<le> k \<and> k < 64 \<and> unat (max_size m) = 2 ^ k) \<and>
     unat (msize m) = length (entries (addrs m)) \<and>
     length (entries (addrs m)) \<le> unat (max_size m) div 2 + 1 \<and>
     (unat (max_size m) \<le> 32 \<or> unat (max_size m) < 4 * length (entries (addrs m))) \<and> \<not> rwlock m"

definition keys_ok :: "pmap \<Rightarrow> bool" where
  "keys_ok m \<longleftrightarrow> mset (keys m) = mset (map mkey (entries (addrs m)))"

definition lookup_map :: "'z mem_scheme \<Rightarrow> pmap \<Rightarrow> string \<Rightarrow> addr option" where
  "lookup_map w m = tlookup w (addrs m)"

text \<open>The strings a map owns, and what an operation on it may change.\<close>

definition owned :: "pmap \<Rightarrow> addr set" where
  "owned m = mkey ` set (entries (addrs m))"

definition map_frame :: "pmap \<Rightarrow> 'z mem_scheme \<Rightarrow> pmap \<Rightarrow> 'z mem_scheme \<Rightarrow> bool" where
  "map_frame m w m' w' \<longleftrightarrow> mem_ok w' \<and> oom w' = [] \<and> brk w \<le> brk w' \<and>
     (\<forall>a < brk w. a \<notin> owned m \<longrightarrow> strs w' a = strs w a) \<and>
     (\<forall>a \<in> owned m'. a \<in> owned m \<or> brk w \<le> a) \<and>
     free_value_fn m' = free_value_fn m"

lemma map_frame_trans:
  assumes "map_frame m w m1 w1" "map_frame m1 w1 m2 w2"
  shows "map_frame m w m2 w2"
proof -
  have "strs w2 a = strs w a" if "a < brk w" "a \<notin> owned m" for a
  proof -
    have "a < brk w1" "a \<notin> owned m1" using assms(1) that unfolding map_frame_def by fastforce+
    then have "strs w2 a = strs w1 a" using assms(2) by (simp add: map_frame_def)
    also have "\<dots> = strs w a" using assms(1) that by (simp add: map_frame_def)
    finally show ?thesis .
  qed
  moreover have "a \<in> owned m \<or> brk w \<le> a" if "a \<in> owned m2" for a
    using assms that unfolding map_frame_def by fastforce
  ultimately show ?thesis using assms unfolding map_frame_def by simp
qed

lemma map_ok_half:
  assumes "map_ok m w"
  shows "unat (drop_bit 1 (max_size m)) = unat (max_size m) div 2"
  by (simp add: drop_bit_eq_div unat_div)

lemma map_ok_no_None: "tab_ok mx bs w \<Longrightarrow> None \<notin> set bs"
  by (force simp: tab_ok_def in_set_conv_nth)

text \<open>
  Growing keeps every entry, leaves room for one more, and makes the key list agree with
  the nodes again. \<open>2 ^ 30\<close> buckets are the most that can still be doubled.
\<close>

lemma ensure_space_ok:
  assumes ok: "map_ok m w" and m: "mem_ok w" "oom w = []" and lim: "unat (max_size m) \<le> 2 ^ 30"
  shows "\<exists>m' w'. prom_map_ensure_space run m w = Some (0, m', w') \<and> map_ok m' w' \<and>
     length (entries (addrs m')) \<le> unat (max_size m') div 2 \<and>
     lookup_map w' m' = lookup_map w m \<and> length (entries (addrs m')) = length (entries (addrs m)) \<and>
     map_frame m w m' w' \<and> mem.more w' = mem.more w \<and>
     (if msize m \<le> drop_bit 1 (max_size m) then m' = m \<and> w' = w
      else keys_ok m' \<and> unat (max_size m') = 2 * unat (max_size m))"
proof (cases "msize m \<le> drop_bit 1 (max_size m)")
  case True
  then have "length (entries (addrs m)) \<le> unat (max_size m) div 2"
    using ok map_ok_half [OF ok] by (simp add: map_ok_def word_le_nat_alt)
  then show ?thesis using True ok m
    by (simp add: prom_map_ensure_space_def map_frame_def)
next
  case False
  obtain k where k: "5 \<le> k" "unat (max_size m) = 2 ^ k" using ok by (auto simp: map_ok_def)
  let ?mx = "push_bit 1 (max_size m)"
  have mx: "unat ?mx = 2 * unat (max_size m)"
    using lim unat_mult_lem [of "max_size m" 2] by (simp add: push_bit_eq_mult)
  let ?w = "w\<lparr>brk := Suc (Suc (brk w)) + unat ?mx\<rparr>"
  have nb: "new_buckets (unat ?mx) (w\<lparr>brk := Suc (Suc (brk w))\<rparr>) =
      (Some (replicate (unat ?mx) (Some [])), ?w)"
    using m by (subst new_buckets_ok) (auto intro: mem_ok_brk)
  have t: "tab_ok (max_size m) (addrs m) w" using ok by (simp add: map_ok_def)
  have mv: "movable (entries (addrs m)) (replicate (unat ?mx) (Some [])) ?w"
    using t tab_ok_live [OF t] by (auto simp: movable_def tab_ok_def)
  have mxpos: "0 < ?mx" using mx k by (simp add: word_less_nat_alt)
  have mw: "mem_ok ?w" "oom ?w = []" using m by (auto intro: mem_ok_brk)
  from move_buckets_ok [OF tab_ok_fresh [OF mxpos] mw mv map_ok_no_None [OF t],
      of run "free_value_fn m" 0 "[]"]
  obtain old' ks' bs' w' where mb: "move_buckets run (free_value_fn m) ?mx (addrs m) 0 []
        (replicate (unat ?mx) (Some [])) ?w =
      Some (0, old', of_nat (length (entries (addrs m))), ks', bs', w')"
    and mo: "moved ?mx (entries (addrs m)) ([], replicate (unat ?mx) (Some []), ?w) (ks', bs', w')"
    by auto
  define m' where "m' = m\<lparr>msize := of_nat (length (entries (addrs m))), max_size := ?mx,
      keys := ks', addrs := bs'\<rparr>"
  have e: "prom_map_ensure_space run m w = Some (0, m', w')"
    using False m lim mx nb mb by (simp add: prom_map_ensure_space_def malloc_ok m'_def Let_def)
  have p: "mset (pairs w' (entries bs')) = mset (pairs w (entries (addrs m)))"
    using mo by (simp add: moved_def pairs_def)
  have len: "length (entries bs') = length (entries (addrs m))"
    using arg_cong [OF p, of size] by (simp add: pairs_def)
  have small: "length (entries (addrs m)) \<le> unat (max_size m) div 2 + 1"
    using ok by (simp add: map_ok_def)
  have "(16::nat) \<le> 2 ^ k div 2" using k(1) power_increasing [of 5 k "2::nat"] by simp
  then have half: "length (entries (addrs m)) \<le> unat (max_size m)" using small k(2) by linarith
  have "(2::nat) ^ k \<le> 2 ^ 30" using lim k(2) by simp
  then have "k \<le> 30" by (rule power_le_imp_le_exp [rotated]) simp
  moreover have "unat (max_size m) div 2 < length (entries (addrs m))"
    using False ok map_ok_half [OF ok] by (simp add: map_ok_def word_le_nat_alt)
  then have "unat ?mx < 4 * length (entries (addrs m))" using mx by linarith
  ultimately have "map_ok m' w'"
    using ok mo len half lim mx k
    by (auto simp: map_ok_def m'_def moved_def unat_of_nat_u64 intro!: exI [of _ "Suc k"])
  moreover have "lookup_map w' m' = lookup_map w m"
    unfolding lookup_map_def m'_def
    using tlookup_mset [OF p [symmetric]] t by (simp add: tab_ok_def)
  moreover have "map_frame m w m' w'"
    using mo by (auto simp: map_frame_def moved_def m'_def owned_def)
  moreover have "keys_ok m'" using mo by (simp add: keys_ok_def m'_def moved_def)
  ultimately show ?thesis using e len half mx False mo by (auto simp: m'_def moved_def)
qed

text \<open>The table part of an insertion, for a key that is there and for a fresh one.\<close>

lemma set_internal_map:
  assumes ok: "map_ok m w" and m: "mem_ok w" "oom w = []"
    and room: "length (entries (addrs m)) \<le> unat (max_size m) div 2"
    and fv: "lookup_map w m s \<noteq> None \<longrightarrow> spares_strings run (free_value_fn m)"
  obtains sz ks bs w' where "prom_map_set_internal run s v (msize m) (max_size m) (keys m) (addrs m)
      (free_value_fn m) True w = Some (0, sz, ks, bs, w')"
    "map_ok (m\<lparr>msize := sz, keys := ks, addrs := bs\<rparr>) w'"
    "tlookup w' bs = (lookup_map w m)(s \<mapsto> v)"
    "map_frame m w (m\<lparr>msize := sz, keys := ks, addrs := bs\<rparr>) w'"
    "unat sz = (if lookup_map w m s = None then Suc (unat (msize m)) else unat (msize m))"
    "lookup_map w m s = None \<longrightarrow> mset ks + mset (map mkey (entries (addrs m))) =
       mset (keys m) + mset (map mkey (entries bs)) \<and> mem.more w' = mem.more w"
    "\<forall>n \<in> set (entries (addrs m)). key_of w n = Some s \<longrightarrow> ks = keys m \<and> strs w' (mkey n) = None"
proof (cases "lookup_map w m s")
  case None
  have t: "tab_ok (max_size m) (addrs m) w" using ok by (simp add: map_ok_def)
  let ?n = "\<lparr>mkey = Suc (brk w), mvalue = v, mfree = free_value_fn m\<rparr>"
  obtain bs w' where e: "prom_map_set_internal run s v (msize m) (max_size m) (keys m) (addrs m)
        (free_value_fn m) True w = Some (0, msize m + 1, keys m @ [Suc (brk w)], bs, w')"
    and w': "w' = w\<lparr>brk := brk w + 4, strs := (strs w)(Suc (brk w) \<mapsto> s)\<rparr>"
    and t': "tab_ok (max_size m) bs w'"
    and ent: "mset (entries bs) = mset (entries (addrs m)) + {#?n#}"
    using set_internal_fresh [OF t m None [unfolded lookup_map_def]] by metis
  have set': "set (entries bs) = insert ?n (set (entries (addrs m)))"
    using arg_cong [OF ent, of set_mset] by simp
  have len: "length (entries bs) = Suc (length (entries (addrs m)))"
    using arg_cong [OF ent, of size] by simp
  obtain k where "k < 64" "unat (max_size m) = 2 ^ k" using ok by (auto simp: map_ok_def)
  then have "unat (max_size m) \<le> 2 ^ 63" using power_increasing [of k 63 "2::nat"] by simp
  then have sz: "unat (msize m + 1) = Suc (unat (msize m))"
    using ok room by (subst unat_Suc_u64) (auto simp: map_ok_def)
  have same: "key_of w' n = key_of w n" if "n \<in> set (entries (addrs m))" for n
    using tab_ok_live [OF t that] mem_ok_fresh [OF m(1), of "Suc (brk w)"] by (auto simp: w')
  have "tlookup w' bs r = ((lookup_map w m)(s \<mapsto> v)) r" for r
  proof -
    have "tlookup w' bs r = Some u \<longleftrightarrow> ((lookup_map w m)(s \<mapsto> v)) r = Some u" for u
      using None same tlookup_Some [OF t, of r u] tlookup_Some [OF t', of r u]
      by (auto simp: set' lookup_map_def tlookup_None w')
    then show ?thesis by (metis not_None_eq)
  qed
  moreover have "map_ok (m\<lparr>msize := msize m + 1, keys := keys m @ [Suc (brk w)], addrs := bs\<rparr>) w'"
    using ok t' sz len room by (auto simp: map_ok_def)
  moreover have "map_frame m w (m\<lparr>msize := msize m + 1, keys := keys m @ [Suc (brk w)], addrs := bs\<rparr>) w'"
    using m by (auto simp: map_frame_def owned_def set' w' intro: mem_ok_store)
  ultimately show thesis
    using None by (intro that [OF e]) (auto simp: sz ent w' lookup_map_def tlookup_None)
next
  case (Some u)
  have t: "tab_ok (max_size m) (addrs m) w" using ok by (simp add: map_ok_def)
  let ?n = "\<lparr>mkey = Suc (brk w), mvalue = v, mfree = free_value_fn m\<rparr>"
  obtain n bs w' X Y where e: "prom_map_set_internal run s v (msize m) (max_size m) (keys m) (addrs m)
        (free_value_fn m) True w = Some (0, msize m, keys m, bs, w')"
    and n: "key_of w n = Some s" "mvalue n = u"
    and w': "brk w' = Suc (Suc (brk w))" "oom w' = []"
      "strs w' = (strs w)(Suc (brk w) \<mapsto> s, mkey n := None)"
    and t': "tab_ok (max_size m) bs w'"
    and XY: "entries (addrs m) = X @ n # Y" "entries bs = X @ ?n # Y"
    using set_internal_hit [OF t m Some [unfolded lookup_map_def], of run "free_value_fn m"] fv Some
    by (metis option.distinct(1))
  have nk: "mkey n < brk w" using n mem_ok_live [OF m(1)] by blast
  have d: "distinct (map (key_of w) (X @ n # Y))" using t XY by (simp add: tab_ok_def)
  have other: "key_of w k \<noteq> Some s \<and> key_of w' k = key_of w k" if "k \<in> set X \<union> set Y" for k
  proof
    show "key_of w k \<noteq> Some s" using d n(1) that by (force simp: image_iff)
    then have "mkey k \<noteq> mkey n" using n by auto
    moreover have "mkey k \<noteq> Suc (brk w)"
      using tab_ok_live [OF t, of k] that XY mem_ok_fresh [OF m(1), of "Suc (brk w)"] by auto
    ultimately show "key_of w' k = key_of w k" by (simp add: w')
  qed
  have "tlookup w' bs r = ((lookup_map w m)(s \<mapsto> v)) r" for r
  proof -
    have "tlookup w' bs r = Some x \<longleftrightarrow> ((lookup_map w m)(s \<mapsto> v)) r = Some x" for x
      using n other nk tlookup_Some [OF t, of r x] tlookup_Some [OF t', of r x]
      by (auto simp: XY lookup_map_def w')
    then show ?thesis by (metis not_None_eq)
  qed
  moreover have "map_ok (m\<lparr>msize := msize m, keys := keys m, addrs := bs\<rparr>) w'"
    using ok t' XY by (simp add: map_ok_def)
  moreover have "mem_ok w'"
    using m nk by (fastforce simp: mem_ok_def w')
  then have "map_frame m w (m\<lparr>msize := msize m, keys := keys m, addrs := bs\<rparr>) w'"
    by (auto simp: map_frame_def owned_def XY w')
  moreover have "strs w' (mkey k) = None" if "k \<in> set (entries (addrs m))" "key_of w k = Some s" for k
    using other that by (auto simp: XY w')
  ultimately show thesis
    using Some by (intro that [OF e]) auto
qed

text \<open>A map may hold this many entries before its growth is limited by the \<open>int\<close> counters.\<close>

definition map_limit :: nat where
  "map_limit = 2 ^ 28"

definition map_inv :: "'z mem_scheme runner \<Rightarrow> pmap \<Rightarrow> 'z mem_scheme \<Rightarrow> bool" where
  "map_inv run m w \<longleftrightarrow> map_ok m w \<and> mem_ok w \<and> oom w = [] \<and> spares_strings run (free_value_fn m)"

definition map_count :: "pmap \<Rightarrow> nat" where
  "map_count m = length (entries (addrs m))"

lemma map_count_size: "map_ok m w \<Longrightarrow> unat (prom_map_size m) = map_count m"
  by (simp add: map_ok_def map_count_def prom_map_size_def)

lemma ensure_space_lock:
  "prom_map_ensure_space run (m\<lparr>rwlock := b\<rparr>) w =
     map_option (\<lambda>(r, m', w'). (r, m'\<lparr>rwlock := b\<rparr>, w')) (prom_map_ensure_space run m w)"
  by (cases m) (auto simp: prom_map_ensure_space_def Let_def map_option_bind comp_def
      split: prod.splits option.splits if_splits intro!: bind_option_cong)

lemma set_map_ok:
  assumes ok: "map_ok m w" and m: "mem_ok w" "oom w = []" and lim: "map_count m < map_limit"
    and fv: "lookup_map w m s \<noteq> None \<longrightarrow> spares_strings run (free_value_fn m)"
  shows "\<exists>m' w'. prom_map_set run m s v w = Some (0, m', w') \<and> map_ok m' w' \<and>
     lookup_map w' m' = (lookup_map w m)(s \<mapsto> v) \<and> map_frame m w m' w' \<and>
     map_count m' = map_count m + (if lookup_map w m s = None then 1 else 0) \<and>
     (lookup_map w m s = None \<longrightarrow> (keys_ok m \<longrightarrow> keys_ok m') \<and> mem.more w' = mem.more w) \<and>
     (map_count m \<le> unat (max_size m) div 2 \<longrightarrow> max_size m' = max_size m)"
proof -
  have l: "rwlock m = False" using ok by (simp add: map_ok_def)
  then have same: "m\<lparr>rwlock := True\<rparr>\<lparr>rwlock := False\<rparr> = m" by (cases m) simp
  let ?m = "m\<lparr>rwlock := True\<rparr>"
  have lim': "unat (max_size m) \<le> 2 ^ 30"
    using ok lim by (auto simp: map_ok_def map_count_def map_limit_def)
  obtain m1 w1 where e: "prom_map_ensure_space run m w = Some (0, m1, w1)" "map_ok m1 w1"
      "length (entries (addrs m1)) \<le> unat (max_size m1) div 2"
      "lookup_map w1 m1 = lookup_map w m" "length (entries (addrs m1)) = length (entries (addrs m))"
      "map_frame m w m1 w1" "mem.more w1 = mem.more w" "keys_ok m \<longrightarrow> keys_ok m1"
      "msize m \<le> drop_bit 1 (max_size m) \<longrightarrow> m1 = m"
    using ensure_space_ok [OF ok m lim', of run] by (auto split: if_splits)
  have "max_size m1 = max_size m" if "map_count m \<le> unat (max_size m) div 2"
    using that e(9) ok map_ok_half [OF ok] by (simp add: map_ok_def map_count_def word_le_nat_alt)
  note noresize = this
  have el: "prom_map_ensure_space run ?m w = Some (0, m1\<lparr>rwlock := True\<rparr>, w1)"
    using e(1) by (simp add: ensure_space_lock)
  have m1: "mem_ok w1" "oom w1 = []" "free_value_fn m1 = free_value_fn m"
    using e(6) by (auto simp: map_frame_def)
  have "lookup_map w1 m1 s \<noteq> None \<longrightarrow> spares_strings run (free_value_fn m1)"
    using fv e(4) m1(3) by simp
  from set_internal_map [OF e(2) m1(1,2) e(3) this] obtain sz ks bs w2 where
    2: "prom_map_set_internal run s v (msize m1) (max_size m1) (keys m1) (addrs m1)
        (free_value_fn m1) True w1 = Some (0, sz, ks, bs, w2)"
      "map_ok (m1\<lparr>msize := sz, keys := ks, addrs := bs\<rparr>) w2"
      "tlookup w2 bs = (lookup_map w1 m1)(s \<mapsto> v)"
      "map_frame m1 w1 (m1\<lparr>msize := sz, keys := ks, addrs := bs\<rparr>) w2"
      "unat sz = (if lookup_map w1 m1 s = None then Suc (unat (msize m1)) else unat (msize m1))"
      "lookup_map w1 m1 s = None \<longrightarrow> mset ks + mset (map mkey (entries (addrs m1))) =
         mset (keys m1) + mset (map mkey (entries bs)) \<and> mem.more w2 = mem.more w1"
    by metis
  define m2 where "m2 = m1\<lparr>msize := sz, keys := ks, addrs := bs\<rparr>"
  have l1: "rwlock m1 = False" using e(2) by (simp add: map_ok_def)
  have "prom_map_set run m s v w = Some (0, m2, w2)"
    using el 2(1) l l1 by (simp add: prom_map_set_def lock_defs m2_def Let_def)
  moreover have "map_count m2 = map_count m + (if lookup_map w m s = None then 1 else 0)"
    using 2(2,5) e(2,4,5) by (auto simp: map_ok_def map_count_def m2_def)
  moreover have "keys_ok m2" if "lookup_map w m s = None" "keys_ok m"
    using 2(6) that e(4,8) by (simp add: keys_ok_def m2_def)
  ultimately show ?thesis
    using 2 e map_frame_trans [OF e(6) 2(4)] noresize
    by (intro exI [of _ m2] exI [of _ w2]) (simp add: m2_def lookup_map_def)
qed

lemma get_map_ok:
  assumes "map_ok m w" "mem_ok w" "oom w = []"
  shows "prom_map_get run m (Some s) w =
    Some (case lookup_map w m s of None \<Rightarrow> NULL | Some v \<Rightarrow> v, w\<lparr>brk := Suc (Suc (brk w))\<rparr>)"
  using assms get_internal_ok [of "max_size m" "addrs m" w]
  by (simp add: prom_map_get_def wrlock_def map_ok_def lookup_map_def)

lemma tab_ok_strs: "strs w' = strs w \<Longrightarrow> tab_ok mx bs w' = tab_ok mx bs w"
  by (rule iffI) (erule tab_ok_cong, simp)+

lemma map_ok_strs: "strs w' = strs w \<Longrightarrow> map_ok m w' = map_ok m w"
  using tab_ok_strs [of w' w] by (simp add: map_ok_def)

lemma lookup_strs: "strs w' = strs w \<Longrightarrow> lookup_map w' m = lookup_map w m"
  by (simp add: lookup_map_def tlookup_def pairs_def fun_eq_iff)

lemma new_map_ok:
  assumes m: "mem_ok w" "oom w = []"
  shows "\<exists>m w'. prom_map_new w = Some (Some m, w') \<and> map_ok m w' \<and> keys_ok m \<and>
    lookup_map w' m = Map.empty \<and> map_count m = 0 \<and> free_value_fn m = No_Op \<and> owned m = {} \<and>
    w' = w\<lparr>brk := brk w + 36\<rparr>"
proof -
  define bs :: buckets where "bs = replicate (unat map_initial_size) (Some [])"
  define m where "m = \<lparr>msize = 0, max_size = map_initial_size, keys = [], addrs = bs,
      free_value_fn = No_Op, rwlock = False\<rparr>"
  let ?w = "w\<lparr>brk := brk w + 36\<rparr>"
  have u: "unat map_initial_size = 32" by (simp add: map_initial_size_def)
  have nb: "new_buckets (unat map_initial_size) (w\<lparr>brk := Suc (Suc (Suc (brk w)))\<rparr>) =
      (Some bs, w\<lparr>brk := brk w + 35\<rparr>)"
    unfolding bs_def using m by (subst new_buckets_ok) (simp_all add: mem_ok_brk u)
  have new: "prom_map_new w = Some (Some m, ?w)"
    using m by (simp add: prom_map_new_def malloc_ok nb m_def)
  have none: "entries bs = []" by (simp add: bs_def)
  have "0 < map_initial_size" by (simp add: map_initial_size_def)
  then have "tab_ok map_initial_size bs ?w" unfolding bs_def by (rule tab_ok_fresh)
  moreover have "\<exists>k::nat. 5 \<le> k \<and> k < 64 \<and> 32 = (2::nat) ^ k" by (rule exI [of _ 5]) simp
  ultimately have "map_ok m ?w"
    by (simp add: map_ok_def m_def u none)
  then show ?thesis using new none
    by (simp add: keys_ok_def lookup_map_def tlookup_def map_count_def owned_def m_def fun_eq_iff)
qed

section \<open>The interface of a string map\<close>

text \<open>
  What a client of \<open>prom_map\<close> relies on. \<open>nil\<close> is the answer for an absent key.
\<close>

locale string_map =
  fixes init :: "'w \<Rightarrow> ('m option \<times> 'w) option"
    and get :: "'m \<Rightarrow> 'k \<Rightarrow> 'w \<Rightarrow> ('v \<times> 'w) option"
    and put :: "'m \<Rightarrow> 'k \<Rightarrow> 'v \<Rightarrow> 'w \<Rightarrow> (int \<times> 'm \<times> 'w) option"
    and ready :: "'w \<Rightarrow> bool"
    and inv :: "'m \<Rightarrow> 'w \<Rightarrow> bool"
    and look :: "'w \<Rightarrow> 'm \<Rightarrow> 'k \<Rightarrow> 'v option"
    and count :: "'m \<Rightarrow> nat"
    and bound :: nat
    and nil :: 'v
  assumes init_law: "ready w \<Longrightarrow>
      \<exists>m w'. init w = Some (Some m, w') \<and> inv m w' \<and> look w' m = Map.empty \<and> count m = 0"
    and get_law: "inv m w \<Longrightarrow> \<exists>w'. get m k w =
      Some (case look w m k of None \<Rightarrow> nil | Some v \<Rightarrow> v, w') \<and> inv m w' \<and> look w' m = look w m"
    and put_law: "inv m w \<Longrightarrow> count m < bound \<Longrightarrow> \<exists>m' w'. put m k v w = Some (0, m', w') \<and>
      inv m' w' \<and> look w' m' = (look w m)(k \<mapsto> v) \<and> count m' \<le> Suc (count m)"
begin

fun put_all :: "'m \<Rightarrow> ('k \<times> 'v) list \<Rightarrow> 'w \<Rightarrow> ('m \<times> 'w) option" where
  "put_all m [] w = Some (m, w)"
| "put_all m ((k, v) # kvs) w = (case put m k v w of
       Some (r, m, w) \<Rightarrow> if r = 0 then put_all m kvs w else None | None \<Rightarrow> None)"

lemma put_all_law:
  assumes "inv m w" "count m + length kvs \<le> bound"
  shows "\<exists>m' w'. put_all m kvs w = Some (m', w') \<and> inv m' w' \<and>
    look w' m' = look w m ++ map_of (rev kvs)"
  using assms
proof (induction kvs arbitrary: m w)
  case (Cons kv kvs)
  obtain k v where kv: "kv = (k, v)" by force
  obtain m1 w1 where 1: "put m k v w = Some (0, m1, w1)" "inv m1 w1"
      "look w1 m1 = (look w m)(k \<mapsto> v)" "count m1 \<le> Suc (count m)"
    using put_law [OF Cons.prems(1), of k v] Cons.prems(2) by auto
  then obtain m2 w2 where "put_all m1 kvs w1 = Some (m2, w2)" "inv m2 w2"
      "look w2 m2 = look w1 m1 ++ map_of (rev kvs)"
    using Cons.IH [OF 1(2)] Cons.prems(2) by fastforce
  then show ?case using kv 1 by (simp add: fun_eq_iff map_add_def split: option.splits)
qed (auto simp: map_add_def)

lemma get_after_puts:
  assumes "ready w" "length kvs \<le> bound"
  shows "\<exists>m w1 m' w2 w3. init w = Some (Some m, w1) \<and> put_all m kvs w1 = Some (m', w2) \<and>
    get m' k w2 = Some (case map_of (rev kvs) k of None \<Rightarrow> nil | Some v \<Rightarrow> v, w3)"
proof -
  obtain m w1 where 1: "init w = Some (Some m, w1)" "inv m w1" "look w1 m = Map.empty" "count m = 0"
    using init_law [OF assms(1)] by blast
  obtain m' w2 where 2: "put_all m kvs w1 = Some (m', w2)" "inv m' w2"
      "look w2 m' = map_of (rev kvs)"
    using put_all_law [OF 1(2), of kvs] 1 assms(2) by auto
  then show ?thesis using 1 2 get_law [OF 2(2), of k] by auto
qed

end

text \<open>\<open>prom_map\<close> keeps the contract, whatever its free functions do outside the string heap.\<close>

interpretation pm: string_map prom_map_new
  "\<lambda>m k w. prom_map_get run m (Some k) w" "\<lambda>m k v w. prom_map_set run m k v w"
  "\<lambda>w. mem_ok w \<and> oom w = [] \<and> spares_strings run No_Op"
  "map_inv run" lookup_map map_count map_limit NULL
  for run :: "'z mem_scheme runner"
proof unfold_locales
  fix w :: "'z mem_scheme"
  assume "mem_ok w \<and> oom w = [] \<and> spares_strings run No_Op"
  then show "\<exists>m w'. prom_map_new w = Some (Some m, w') \<and> map_inv run m w' \<and>
      lookup_map w' m = Map.empty \<and> map_count m = 0"
    using new_map_ok [of w] by (auto simp: map_inv_def mem_ok_brk)
next
  fix m k and w :: "'z mem_scheme"
  assume "map_inv run m w"
  then show "\<exists>w'. prom_map_get run m (Some k) w =
      Some (case lookup_map w m k of None \<Rightarrow> NULL | Some v \<Rightarrow> v, w') \<and>
      map_inv run m w' \<and> lookup_map w' m = lookup_map w m"
    using get_map_ok [of m w run k] lookup_strs [of "w\<lparr>brk := Suc (Suc (brk w))\<rparr>" w m]
      map_ok_strs [of "w\<lparr>brk := Suc (Suc (brk w))\<rparr>" w m]
    by (auto simp: map_inv_def mem_ok_brk)
next
  fix m k v and w :: "'z mem_scheme"
  assume "map_inv run m w" "map_count m < map_limit"
  then show "\<exists>m' w'. prom_map_set run m k v w = Some (0, m', w') \<and> map_inv run m' w' \<and>
      lookup_map w' m' = (lookup_map w m)(k \<mapsto> v) \<and> map_count m' \<le> Suc (map_count m)"
    using set_map_ok [of m w k run v] by (auto simp: map_inv_def map_frame_def)
qed

section \<open>Where the code departs from the contract\<close>

lemma set_steps:
  assumes "\<not> rwlock m" "prom_map_ensure_space run m w = Some (0, m1, w1)"
    and "prom_map_set_internal run s v (msize m1) (max_size m1) (keys m1) (addrs m1)
      (free_value_fn m1) True w1 = Some (0, sz, ks, bs, w2)"
  shows "\<exists>m'. prom_map_set run m s v w = Some (0, m', w2) \<and> msize m' = sz \<and> keys m' = ks \<and>
    addrs m' = bs \<and> max_size m' = max_size m1"
  using assms by (simp add: prom_map_set_def lock_defs ensure_space_lock Let_def)

lemma keys_ok_mem: "keys_ok m \<Longrightarrow> n \<in> set (entries (addrs m)) \<Longrightarrow> mkey n \<in> set (keys m)"
  using mset_eq_setD [of "keys m" "map mkey (entries (addrs m))"] by (simp add: keys_ok_def)

lemma set_existing_dangles:
  assumes ok: "map_ok m w" "keys_ok m" and m: "mem_ok w" "oom w = []" and lim: "map_count m < map_limit"
    and hit: "lookup_map w m s \<noteq> None" and fv: "spares_strings run (free_value_fn m)"
  shows "\<exists>m' w'. prom_map_set run m s v w = Some (0, m', w') \<and>
    (\<exists>a \<in> set (keys m'). load_str a w' = None)"
proof -
  have lim': "unat (max_size m) \<le> 2 ^ 30"
    using ok lim by (auto simp: map_ok_def map_count_def map_limit_def)
  obtain m1 w1 where e: "prom_map_ensure_space run m w = Some (0, m1, w1)" "map_ok m1 w1"
      "length (entries (addrs m1)) \<le> unat (max_size m1) div 2"
      "lookup_map w1 m1 = lookup_map w m" "map_frame m w m1 w1" "keys_ok m1"
    using ensure_space_ok [OF ok(1) m lim', of run] ok(2) by (auto split: if_splits)
  have m1: "mem_ok w1" "oom w1 = []" "spares_strings run (free_value_fn m1)"
    using e(5) fv by (auto simp: map_frame_def)
  obtain n where n: "n \<in> set (entries (addrs m1))" "key_of w1 n = Some s"
    using hit e(2,4) tlookup_Some [of "max_size m1" "addrs m1" w1 s]
    by (auto simp: lookup_map_def map_ok_def)
  obtain sz ks bs w2 where 2: "prom_map_set_internal run s v (msize m1) (max_size m1) (keys m1)
        (addrs m1) (free_value_fn m1) True w1 = Some (0, sz, ks, bs, w2)"
      "ks = keys m1" "strs w2 (mkey n) = None"
    using set_internal_map [OF e(2) m1(1,2) e(3), of s run v] m1(3) n by metis
  have "mkey n \<in> set (keys m1)" using e(6) n(1) by (rule keys_ok_mem)
  then show ?thesis using set_steps [OF _ e(1) 2(1)] ok(1) 2(2,3)
    by (auto simp: map_ok_def load_str_def)
qed

text \<open>Deleting the key whose node is the last of its bucket.\<close>

lemma remove_misread_last:
  "mem_ok w \<Longrightarrow> \<forall>n \<in> set ns. key_of w n \<noteq> None \<Longrightarrow> remove_misread run None ns w = Some (ns, None, w)"
proof (induction ns)
  case (Cons n ns)
  then have "mkey n \<noteq> NULL" using key_nonnull [of w n] by simp
  then show ?case using Cons by simp
qed simp

lemma position_ok:
  assumes "mem_ok w" "key_of w temp = Some s" "\<forall>n \<in> set xs. key_of w n \<noteq> None \<and> key_of w n \<noteq> Some s"
    and "key_of w n = Some s"
  shows "position (Some temp) (xs @ n # ys) w = Some (Some (length xs))"
  using assms(3)
proof (induction xs)
  case Nil
  then show ?case using assms compare_live [OF assms(1,4,2)] by simp
next
  case (Cons m xs)
  then obtain t where "key_of w m = Some t" "t \<noteq> s" by auto
  then show ?case using Cons compare_live [OF assms(1) _ assms(2)] by simp
qed

lemma delete_last_stays:
  assumes ok: "map_ok m w" and m: "mem_ok w" "oom w = []"
    and b: "bucket_at (addrs m) (prom_map_get_index m s) = Some (xs @ [n])" and n: "key_of w n = Some s"
  shows "\<exists>m' w'. prom_map_delete run junk m s w = Some (0, m', w') \<and>
    msize m' = msize m - 1 \<and> keys m' = remove1 (mkey n) (keys m) \<and>
    lookup_map w' m' = lookup_map w m"
proof -
  let ?i = "prom_map_get_index_internal s (max_size m)"
  have t: "tab_ok (max_size m) (addrs m) w" and l: "\<not> rwlock m" using ok by (auto simp: map_ok_def)
  have b': "bucket_at (addrs m) ?i = Some (xs @ [n])" using b by (simp add: prom_map_get_index_def)
  then have i: "unat ?i < length (addrs m)" "addrs m ! unat ?i = Some (xs @ [n])"
    by (auto simp: bucket_at_def split: if_splits)
  let ?w = "w\<lparr>brk := Suc (Suc (brk w)), strs := (strs w)(Suc (brk w) \<mapsto> s)\<rparr>"
  let ?n = "\<lparr>mkey = Suc (brk w), mvalue = NULL, mfree = free_value_fn m\<rparr>"
  have mok: "mem_ok ?w" using m by (intro mem_ok_store) auto
  have live: "key_of ?w k = key_of w k \<and> key_of w k \<noteq> None" if "k \<in> set (xs @ [n])" for k
  proof -
    have "k \<in> set (entries (addrs m))" using that i by (auto simp: entries_mem)
    then show ?thesis
      using tab_ok_live [OF t, of k] mem_ok_fresh [OF m(1), of "Suc (brk w)"] by auto
  qed
  have "distinct (map (key_of w) (xs @ [n]))"
    using t i(1,2) entries_split [OF i] unfolding tab_ok_def by (metis distinct_append map_append)
  then have "\<forall>k \<in> set xs. key_of ?w k \<noteq> None \<and> key_of ?w k \<noteq> Some s"
    using n live by (auto simp: image_iff)
  then have pos: "position (Some ?n) (xs @ [n]) ?w = Some (Some (length xs))"
    using live [of n] n by (intro position_ok [OF mok]) auto
  have rm: "remove_misread run None (xs @ [n]) ?w = Some (xs @ [n], None, ?w)"
    using live by (intro remove_misread_last [OF mok]) auto
  have fr: "(strs w)(Suc (brk w) := None) = strs w" using mem_ok_fresh [OF m(1), of "Suc (brk w)"] by auto
  have same: "(addrs m)[unat ?i := Some (xs @ [n])] = addrs m" using i by (metis list_update_id)
  have "prom_map_delete_internal run junk s (msize m) (max_size m) (keys m) (addrs m)
      (free_value_fn m) w = Some (0, msize m - 1, remove1 (mkey n) (keys m), addrs m,
        w\<lparr>brk := Suc (Suc (brk w))\<rparr>)"
    using b' m pos rm fr same
    by (simp add: prom_map_delete_internal_def prom_map_node_new_ok prom_map_node_destroy_def
        free_str_def)
  then show ?thesis using l lookup_strs [of "w\<lparr>brk := Suc (Suc (brk w))\<rparr>" w m]
    by (simp add: prom_map_delete_def lock_defs lookup_map_def)
qed

text \<open>The third allocation of an insertion is the list node; its failure goes unnoticed.\<close>

lemma set_loses_node:
  assumes ok: "map_ok m w" and m: "mem_ok w" "oom w = [False, False, True]"
    and new: "lookup_map w m s = None" and room: "msize m \<le> drop_bit 1 (max_size m)"
  shows "\<exists>m' w'. prom_map_set run m s v w = Some (0, m', w') \<and> msize m' = msize m + 1 \<and>
    lookup_map w' m' = lookup_map w m"
proof -
  let ?i = "prom_map_get_index_internal s (max_size m)"
  let ?n = "\<lparr>mkey = Suc (brk w), mvalue = v, mfree = free_value_fn m\<rparr>"
  let ?w = "w\<lparr>brk := Suc (Suc (brk w)), oom := [True], strs := (strs w)(Suc (brk w) \<mapsto> s)\<rparr>"
  let ?w' = "?w\<lparr>brk := Suc (Suc (Suc (brk w))), oom := []\<rparr>"
  have t: "tab_ok (max_size m) (addrs m) w" and l: "\<not> rwlock m" using ok by (auto simp: map_ok_def)
  obtain ns where ns: "bucket_at (addrs m) ?i = Some ns" "unat ?i < length (addrs m)"
      "addrs m ! unat ?i = Some ns"
    using t by (rule tab_ok_bucket)
  have mok: "mem_ok ?w" using m(1) by (fastforce simp: mem_ok_def)
  have live: "key_of ?w k = key_of w k \<and> key_of w k \<noteq> None \<and> key_of w k \<noteq> Some s"
    if "k \<in> set (entries (addrs m))" for k
    using tab_ok_live [OF t that] mem_ok_fresh [OF m(1), of "Suc (brk w)"] new that
    by (auto simp: lookup_map_def tlookup_None)
  have sub: "set ns \<subseteq> set (entries (addrs m))" using ns(2,3) entries_mem [of _ "addrs m"] by blast
  have rep: "replace_node run (free_value_fn m) True ?n ns ?w = Some (None, ?w)"
  proof (rule replace_miss [OF mok, of _ s])
    show "\<forall>k \<in> set ns. key_of ?w k \<noteq> None \<and> key_of ?w k \<noteq> Some s"
    proof
      fix k
      assume "k \<in> set ns"
      then have "k \<in> set (entries (addrs m))" using sub by (rule rev_subsetD)
      from live [OF this] show "key_of ?w k \<noteq> None \<and> key_of ?w k \<noteq> Some s"
        by (elim conjE) (simp only: not_False_eq_True simp_thms)
    qed
  qed simp
  have nn: "prom_map_node_new s v (free_value_fn m) w = (Some ?n, ?w)"
    using m by (simp add: prom_map_node_new_def malloc_def strdup_def)
  have same: "(addrs m)[unat ?i := Some ns] = addrs m" using ns by (metis list_update_id)
  have "prom_map_set_internal run s v (msize m) (max_size m) (keys m) (addrs m)
      (free_value_fn m) True w = Some (0, msize m + 1, keys m @ [Suc (brk w)], addrs m, ?w')"
    using ns(1) rep nn same m(1)
    by (simp add: prom_map_set_internal_def seq_append_def malloc_def)
  note e = this
  have "prom_map_ensure_space run m w = Some (0, m, w)"
    using room by (simp add: prom_map_ensure_space_def)
  from set_steps [OF l this e] obtain m' where m': "prom_map_set run m s v w = Some (0, m', ?w')"
      "msize m' = msize m + 1" "addrs m' = addrs m"
    by blast
  have "strs ?w' = (strs w)(Suc (brk w) \<mapsto> s)" by simp
  then have "key_of ?w' k = key_of w k" if "k \<in> set (entries (addrs m))" for k
    using live [OF that] by simp
  then have "pairs ?w' (entries (addrs m)) = pairs w (entries (addrs m))"
    unfolding pairs_def by (intro map_cong refl) (simp only: prod.inject)
  then have "lookup_map ?w' m' = lookup_map w m"
    unfolding lookup_map_def tlookup_def m'(3) by (simp only:)
  then show ?thesis using m' by blast
qed

section \<open>Destruction\<close>

lemma destroy_nodes_ok:
  assumes "\<forall>fv. spares_strings run fv" "\<forall>n \<in> set ns. key_of w n \<noteq> None" "mem_ok w"
    and "distinct (map mkey ns)"
  shows "\<exists>w'. destroy_nodes run ns w = Some w' \<and> mem_ok w' \<and> brk w' = brk w \<and> oom w' = oom w \<and>
    strs w' = strs w |` (- mkey ` set ns)"
  using assms(2-4)
proof (induction ns arbitrary: w)
  case Nil
  then show ?case by (simp add: restrict_map_def)
next
  case (Cons n ns)
  let ?w = "w\<lparr>strs := (strs w)(mkey n := None)\<rparr>"
  have nz: "mkey n \<noteq> NULL" using Cons.prems key_nonnull [of w n] by simp
  obtain w1 where w1: "prom_map_node_destroy run (Some n) w = Some w1" "strs w1 = strs ?w"
      "brk w1 = brk w" "oom w1 = oom w"
  proof (cases "mvalue n = NULL")
    case True
    then show thesis using nz Cons.prems(1)
      by (intro that [of ?w]) (auto simp: prom_map_node_destroy_def free_str_def)
  next
    case False
    obtain w1 where "run (mfree n) (mvalue n) ?w = Some w1" "strs w1 = strs ?w" "brk w1 = brk ?w"
        "oom w1 = oom ?w"
      using assms(1) unfolding spares_strings_def by blast
    then show thesis using nz Cons.prems(1) False
      by (intro that [of w1]) (auto simp: prom_map_node_destroy_def free_str_def)
  qed
  have "mem_ok w1" using Cons.prems(2) w1(2,3) by (auto simp: mem_ok_def)
  moreover have "\<forall>k \<in> set ns. key_of w1 k \<noteq> None" using Cons.prems(1,3) w1(2) by (auto simp: image_iff)
  ultimately obtain w' where "destroy_nodes run ns w1 = Some w'" "mem_ok w'" "brk w' = brk w1"
      "oom w' = oom w1" "strs w' = strs w1 |` (- mkey ` set ns)"
    using Cons.IH [of w1] Cons.prems(3) by auto
  then show ?case using w1 by (auto simp: restrict_map_def fun_eq_iff)
qed

lemma destroy_nodes_append:
  "destroy_nodes run (ns @ ms) w = Option.bind (destroy_nodes run ns w) (destroy_nodes run ms)"
  by (induction ns arbitrary: w) (auto intro: bind_option_cong)

lemma destroy_buckets_entries:
  "None \<notin> set bs \<Longrightarrow> destroy_buckets run bs w = destroy_nodes run (entries bs) w"
proof (induction bs arbitrary: w)
  case (Cons b bs)
  then obtain ns where "b = Some ns" by (cases b) auto
  then show ?case using Cons by (auto simp: destroy_nodes_append intro: bind_option_cong)
qed simp

text \<open>Every key is freed exactly once, and nothing else.\<close>

lemma destroy_map_ok:
  assumes ok: "map_ok m w" and m: "mem_ok w" and fv: "\<forall>fv. spares_strings run fv"
  shows "\<exists>w'. prom_map_destroy run (Some m) w = Some (0, w') \<and> mem_ok w' \<and>
    strs w' = strs w |` (- owned m)"
proof -
  have t: "tab_ok (max_size m) (addrs m) w" using ok by (simp add: map_ok_def)
  have "distinct (map (strs w) (map mkey (entries (addrs m))))"
    using t by (simp add: tab_ok_def comp_def)
  then have "distinct (map mkey (entries (addrs m)))" by (simp only: distinct_map)
  then show ?thesis
    using destroy_nodes_ok [OF fv _ m, of "entries (addrs m)"] tab_ok_live [OF t]
      destroy_buckets_entries [OF map_ok_no_None [OF t], of run w]
    by (fastforce simp: prom_map_destroy_def owned_def)
qed

section \<open>Lookup when memory runs out\<close>

text \<open>
  Whatever the allocator does, \<open>prom_map_get\<close> has no undefined behaviour and answers with
  the value or with NULL: a failed allocation makes a key look absent.
\<close>

lemma search_bucket_blind:
  assumes "mem_ok w" "\<forall>n \<in> set ns. key_of w n \<noteq> None"
    and "temp = None \<or> (\<exists>t. temp = Some t \<and> mkey t = NULL)"
  shows "search_bucket temp ns w = Some None"
  using assms(2)
proof (induction ns)
  case (Cons n ns)
  then have "mkey n \<noteq> NULL" using key_nonnull [OF assms(1), of n] by simp
  then show ?case using Cons assms(3) by (auto simp: prom_map_node_compare_def)
qed simp

lemma get_any_oom:
  assumes ok: "map_ok m w" and m: "mem_ok w"
  shows "\<exists>v w'. prom_map_get run m (Some s) w = Some (v, w') \<and> strs w' = strs w \<and> mem_ok w' \<and>
    (v = NULL \<or> lookup_map w m s = Some v)"
proof -
  let ?i = "prom_map_get_index_internal s (max_size m)"
  let ?fv = "free_value_fn m"
  have t: "tab_ok (max_size m) (addrs m) w" and l: "\<not> rwlock m" using ok by (auto simp: map_ok_def)
  obtain ns where ns: "bucket_at (addrs m) ?i = Some ns" "unat ?i < length (addrs m)"
      "addrs m ! unat ?i = Some ns"
    using t by (rule tab_ok_bucket)
  have live: "\<forall>n \<in> set ns. key_of w n \<noteq> None"
    using ns(2,3) tab_ok_live [OF t] entries_mem [of _ "addrs m"] by blast
  obtain temp w1 where nn: "prom_map_node_new s NULL ?fv w = (temp, w1)" by force
  have e: "prom_map_get run m (Some s) w = do {
      hit \<leftarrow> search_bucket temp ns w1;
      w \<leftarrow> prom_map_node_destroy run temp w1;
      Some (case hit of None \<Rightarrow> NULL | Some n \<Rightarrow> mvalue n, w) }"
    using ns(1) nn l by (simp add: prom_map_get_def prom_map_get_internal_def wrlock_def)
  obtain a w0 where m0: "malloc w = (a, w0)" by force
  obtain k w2 where s0: "strdup s w0 = (k, w2)" by force
  have g0: "mem_ok w0" "strs w0 = strs w"
    using malloc_mem_ok [OF m0 m] grown_strs [OF malloc_grown [OF m0]] by simp_all
  consider (none) "temp = None" "w1 = w0"
    | (null) bs where "temp = Some \<lparr>mkey = NULL, mvalue = NULL, mfree = ?fv\<rparr>" "w1 = w0\<lparr>oom := bs\<rparr>"
    | (some) bs where "temp = Some \<lparr>mkey = brk w0, mvalue = NULL, mfree = ?fv\<rparr>"
        "w1 = w0\<lparr>brk := Suc (brk w0), oom := bs, strs := (strs w0)(brk w0 \<mapsto> s)\<rparr>"
  proof (cases "a = NULL")
    case True
    then show thesis using nn m0 by (intro none) (simp_all add: prom_map_node_new_def)
  next
    case False
    then have nw: "temp = Some \<lparr>mkey = k, mvalue = NULL, mfree = ?fv\<rparr>" "w1 = w2"
      using nn m0 s0 by (simp_all add: prom_map_node_new_def)
    from s0 g0(1) show thesis by (cases rule: strdup_cases) (use nw null some in auto)
  qed
  then show ?thesis
  proof cases
    case none
    then show ?thesis using e g0 live search_bucket_blind [of w0 ns temp]
      by (simp add: prom_map_node_destroy_def)
  next
    case null
    then show ?thesis using e g0 live search_bucket_blind [of w1 ns temp]
      by (simp add: prom_map_node_destroy_def free_str_def mem_ok_def)
  next
    case some
    have fresh: "strs w0 (brk w0) = None" "0 < brk w0" using g0(1) mem_ok_fresh [OF g0(1)] by simp_all
    have same: "key_of w1 n = key_of w n" if "n \<in> set ns" for n
      using live that fresh g0(2) some(2) by auto
    have mok: "mem_ok w1" using g0(1) by (fastforce simp: some(2) mem_ok_def)
    have "search_bucket temp ns w1 = Some (find (\<lambda>n. key_of w1 n = Some s) ns)"
      unfolding some(1) using live same some(2) by (intro search_bucket_ok [OF mok]) auto
    also have "find (\<lambda>n. key_of w1 n = Some s) ns = find (\<lambda>n. key_of w n = Some s) ns"
      using same by (intro find_cong) auto
    finally have hit: "search_bucket temp ns w1 = Some (find (\<lambda>n. key_of w n = Some s) ns)" .
    define w3 where "w3 = w1\<lparr>strs := (strs w1)(brk w0 := None)\<rparr>"
    have d: "prom_map_node_destroy run temp w1 = Some w3"
      using some fresh by (simp add: prom_map_node_destroy_def free_str_def w3_def)
    have "strs w3 = strs w" using some(2) fresh g0(2) by (auto simp: w3_def)
    moreover have "mem_ok w3" unfolding w3_def using mok by (rule mem_ok_forget)
    ultimately show ?thesis
      using e hit d find_lookup [OF t ns(1)]
      by (cases "find (\<lambda>n. key_of w n = Some s) ns") (auto simp: lookup_map_def)
  qed
qed

section \<open>Properties\<close>

text \<open>A small world for the witnesses: an empty heap, and a free function that does nothing.\<close>

definition empty_mem :: mem where
  "empty_mem = \<lparr>strs = Map.empty, brk = 1, oom = []\<rparr>"

definition no_run :: "mem runner" where
  "no_run fv v w = Some w"

lemma empty_mem_ok [simp]: "mem_ok empty_mem" "oom empty_mem = []"
  by (simp_all add: empty_mem_def mem_ok_def)

lemma no_run_spares [simp]: "spares_strings no_run fv"
  by (simp add: spares_strings_def no_run_def)

text \<open>The map after \<open>prom_map_new\<close>, and after one insertion.\<close>

definition map0 :: pmap where
  "map0 = \<lparr>msize = 0, max_size = map_initial_size, keys = [],
     addrs = replicate (unat map_initial_size) (Some []), free_value_fn = No_Op, rwlock = False\<rparr>"

definition map1 :: "pmap \<times> mem" where
  "map1 = (case prom_map_set no_run map0 ''abc'' 7 empty_mem of Some (_, m, w) \<Rightarrow> (m, w))"

lemma map0_ok: "map_ok map0 w" "keys_ok map0" "map_count map0 = 0" "free_value_fn map0 = No_Op"
  "lookup_map w map0 = Map.empty" "msize map0 = 0" "owned map0 = {}"
proof -
  have p: "0 < map_initial_size" by (simp add: map_initial_size_def)
  have "\<exists>k::nat. 5 \<le> k \<and> k < 64 \<and> 32 = (2::nat) ^ k" by (rule exI [of _ 5]) simp
  then show "map_ok map0 w"
    using tab_ok_fresh [OF p, of w] by (simp add: map_ok_def map0_def) (simp add: map_initial_size_def)
qed (simp_all add: map0_def keys_ok_def map_count_def lookup_map_def tlookup_def owned_def fun_eq_iff)

lemma map1_ok: "map_ok (fst map1) (snd map1)" "keys_ok (fst map1)" "mem_ok (snd map1)"
  "oom (snd map1) = []" "map_count (fst map1) = 1" "free_value_fn (fst map1) = No_Op"
  "lookup_map (snd map1) (fst map1) = [''abc'' \<mapsto> 7]"
proof -
  have "map_count map0 < map_limit" by (simp add: map0_ok map_limit_def)
  from set_map_ok [OF map0_ok(1) empty_mem_ok this, of "''abc''" no_run 7] obtain m w where
    e: "prom_map_set no_run map0 ''abc'' 7 empty_mem = Some (0, m, w)" and
    mw: "map_ok m w" "lookup_map w m = [''abc'' \<mapsto> 7]" "map_frame map0 empty_mem m w"
      "map_count m = 1" "keys_ok m"
    by (auto simp: map0_ok)
  have fs: "fst map1 = m" "snd map1 = w" by (simp_all add: map1_def e)
  show "map_ok (fst map1) (snd map1)" "keys_ok (fst map1)" "mem_ok (snd map1)"
    "oom (snd map1) = []" "map_count (fst map1) = 1" "free_value_fn (fst map1) = No_Op"
    "lookup_map (snd map1) (fst map1) = [''abc'' \<mapsto> 7]"
    unfolding fs using mw by (simp_all add: map_frame_def map0_ok)
qed

text \<open>C22. While memory is available, a \<open>prom_map_set\<close> on a well formed map of fewer than
  \<open>2^28\<close> entries returns 0, leaves a well formed map, binds exactly the given key to the given
  value (through any rehash), and counts the entry when it is new. When the key has a value already,
  the map's free function runs on that value and must leave the strings alone; for a new key
  the free function does not matter.\<close>

theorem map_set_correct:
  assumes "map_ok m w" "mem_ok w" "oom w = []" "map_count m < map_limit"
    and "lookup_map w m s = None \<or> spares_strings run (free_value_fn m)"
  shows "\<exists>m' w'. prom_map_set run m s v w = Some (0, m', w') \<and> map_ok m' w' \<and> mem_ok w' \<and> oom w' = [] \<and>
    lookup_map w' m' = (lookup_map w m)(s \<mapsto> v) \<and>
    unat (prom_map_size m') = unat (prom_map_size m) + (if lookup_map w m s = None then 1 else 0)"
proof -
  from set_map_ok [OF assms(1-4), of s run v] assms(5) obtain m' w' where
    "prom_map_set run m s v w = Some (0, m', w')" "map_ok m' w'"
    "lookup_map w' m' = (lookup_map w m)(s \<mapsto> v)" "map_frame m w m' w'"
    "map_count m' = map_count m + (if lookup_map w m s = None then 1 else 0)"
    by auto
  then show ?thesis using assms(1) by (auto simp: map_frame_def map_count_size)
qed

theorem map_set_correct_witness:
  "\<forall>run. \<exists>m' w'. prom_map_set run (fst map1) ''xyz'' 9 (snd map1) = Some (0, m', w') \<and>
    lookup_map w' m' = [''abc'' \<mapsto> 7, ''xyz'' \<mapsto> 9]"
proof
  fix run
  show "\<exists>m' w'. prom_map_set run (fst map1) ''xyz'' 9 (snd map1) = Some (0, m', w') \<and>
    lookup_map w' m' = [''abc'' \<mapsto> 7, ''xyz'' \<mapsto> 9]"
    using map_set_correct [of "fst map1" "snd map1" "''xyz''" run 9] map1_ok
    by (auto simp: map_limit_def)
qed

fun set_all :: "'z mem_scheme runner \<Rightarrow> pmap \<Rightarrow> (string \<times> addr) list \<Rightarrow> 'z mem_scheme
    \<Rightarrow> (pmap \<times> 'z mem_scheme) option" where
  "set_all run m [] w = Some (m, w)"
| "set_all run m ((k, v) # kvs) w = (case prom_map_set run m k v w of None \<Rightarrow> None
     | Some (r, m, w) \<Rightarrow> if r = 0 then set_all run m kvs w else None)"

lemma set_all_put_all: "set_all run m kvs w = pm.put_all run m kvs w"
  by (induction run m kvs w rule: set_all.induct)
    (auto simp: pm.put_all.simps split: option.splits)

text \<open>C24. From a new map, any sequence of insertions followed by a \<open>prom_map_get\<close> answers with
  the last value inserted under the key, and with NULL for a key never inserted.\<close>

theorem map_get_after_sets:
  assumes "mem_ok w" "oom w = []" "spares_strings run No_Op" "length kvs \<le> map_limit"
  shows "\<exists>m w1 m' w2 w3. prom_map_new w = Some (Some m, w1) \<and>
    set_all run m kvs w1 = Some (m', w2) \<and>
    prom_map_get run m' (Some k) w2 =
      Some (case map_of (rev kvs) k of None \<Rightarrow> NULL | Some v \<Rightarrow> v, w3)"
  unfolding set_all_put_all using pm.get_after_puts [of w run kvs k] assms by blast

theorem map_get_after_sets_witness:
  "\<exists>m w1 m' w2 w3. prom_map_new empty_mem = Some (Some m, w1) \<and>
    set_all no_run m [(''a'', 3), (''b'', 4), (''a'', 5)] w1 = Some (m', w2) \<and>
    prom_map_get no_run m' (Some ''a'') w2 = Some (5, w3)"
  using map_get_after_sets [of empty_mem no_run "[(''a'', 3), (''b'', 4), (''a'', 5)]" "''a''"]
  by (simp add: map_limit_def)

text \<open>C23. Growing the table (\<open>prom_map_ensure_space\<close>) moves every entry to a table of
  twice the size without changing what any key maps to or the number of entries, leaves
  room for one more, and rebuilds the key list.\<close>

theorem map_growth_preserves:
  assumes "map_ok m w" "mem_ok w" "oom w = []" "unat (max_size m) \<le> 2 ^ 30"
    and "drop_bit 1 (max_size m) < msize m"
  shows "\<exists>m' w'. prom_map_ensure_space run m w = Some (0, m', w') \<and> map_ok m' w' \<and>
    lookup_map w' m' = lookup_map w m \<and> prom_map_size m' = prom_map_size m \<and>
    unat (max_size m') = 2 * unat (max_size m) \<and>
    unat (prom_map_size m') \<le> unat (max_size m') div 2 \<and>
    mset (keys m') = mset (map mkey (entries (addrs m')))"
proof -
  have "\<not> msize m \<le> drop_bit 1 (max_size m)" using assms(5) by simp
  then obtain m' w' where e: "prom_map_ensure_space run m w = Some (0, m', w')" "map_ok m' w'"
      "length (entries (addrs m')) \<le> unat (max_size m') div 2" "lookup_map w' m' = lookup_map w m"
      "length (entries (addrs m')) = length (entries (addrs m))" "keys_ok m'"
      "unat (max_size m') = 2 * unat (max_size m)"
    using ensure_space_ok [OF assms(1-4), of run] by auto
  have "msize m' = msize m" using e(2,5) assms(1) by (simp add: map_ok_def word_unat_eq_iff)
  then show ?thesis using e map_count_size [OF e(2)]
    by (auto simp: prom_map_size_def keys_ok_def map_count_def)
qed

lemma set_all_ok:
  assumes "map_ok m w" "mem_ok w" "oom w = []" "map_count m + length kvs \<le> map_limit"
    "distinct (map fst kvs)" "\<forall>k \<in> fst ` set kvs. lookup_map w m k = None"
  shows "\<exists>m' w'. set_all run m kvs w = Some (m', w') \<and> map_ok m' w' \<and> mem_ok w' \<and> oom w' = [] \<and>
    map_count m' = map_count m + length kvs \<and>
    (map_count m + length kvs \<le> unat (max_size m) div 2 + 1 \<longrightarrow> max_size m' = max_size m)"
  using assms
proof (induction kvs arbitrary: m w)
  case (Cons kv kvs)
  obtain k v where kv: "kv = (k, v)" by force
  have new: "lookup_map w m k = None" "map_count m < map_limit" using Cons.prems(4,6) kv by auto
  obtain m1 w1 where 1: "prom_map_set run m k v w = Some (0, m1, w1)" "map_ok m1 w1"
      "lookup_map w1 m1 = (lookup_map w m)(k \<mapsto> v)" "map_frame m w m1 w1"
      "map_count m1 = map_count m + 1"
      "map_count m \<le> unat (max_size m) div 2 \<longrightarrow> max_size m1 = max_size m"
    using set_map_ok [OF Cons.prems(1-3) new(2), of k run v] new(1) by auto
  have "\<forall>x \<in> fst ` set kvs. lookup_map w1 m1 x = None" using Cons.prems(5,6) 1(3) kv by auto
  then have "\<exists>m' w'. set_all run m1 kvs w1 = Some (m', w') \<and> map_ok m' w' \<and> mem_ok w' \<and>
      oom w' = [] \<and> map_count m' = map_count m1 + length kvs \<and>
      (map_count m1 + length kvs \<le> unat (max_size m1) div 2 + 1 \<longrightarrow> max_size m' = max_size m1)"
    using Cons.prems 1 by (intro Cons.IH) (auto simp: map_frame_def kv)
  then show ?case using 1 kv by auto
qed simp

text \<open>A map of 17 entries is one that the next insertion makes grow.\<close>

definition map17 :: "(pmap \<times> mem) option" where
  "map17 = set_all no_run map0 (map (\<lambda>i. (replicate i CHR ''a'', i)) [0..<17]) empty_mem"

lemma map17_ok: "\<exists>m w. map17 = Some (m, w) \<and> map_ok m w \<and> mem_ok w \<and> oom w = [] \<and>
  map_count m = 17 \<and> unat (max_size m) = 32"
proof -
  let ?kvs = "map (\<lambda>i. (replicate i CHR ''a'', i)) [0..<17]"
  have "distinct (map fst ?kvs)" by (simp only: map_map comp_def fst_conv distinct_map)
    (simp only: inj_on_def replicate_eq_replicate distinct_upt, simp)
  then show ?thesis
    using set_all_ok [OF map0_ok(1) empty_mem_ok, of ?kvs no_run] unfolding map17_def
    by (simp only: length_map length_upt map0_ok map_limit_def) (auto simp: map0_def map_initial_size_def)
qed

theorem map_growth_preserves_witness:
  "\<exists>m w m' w'. map17 = Some (m, w) \<and> prom_map_ensure_space no_run m w = Some (0, m', w') \<and>
    map_ok m' w' \<and> lookup_map w' m' = lookup_map w m \<and> unat (max_size m') = 64"
proof -
  obtain m w where mw: "map17 = Some (m, w)" "map_ok m w" "mem_ok w" "oom w = []"
      "map_count m = 17" "unat (max_size m) = 32"
    using map17_ok by blast
  have "drop_bit 1 (max_size m) < msize m"
    using mw map_ok_half [OF mw(2)] by (simp add: word_less_nat_alt map_ok_def map_count_def)
  then show ?thesis using map_growth_preserves [OF mw(2-4), of no_run] mw(1,6) by auto
qed

text \<open>The hash of any key is a valid bucket number of a map with at least one bucket.\<close>

theorem map_index_in_bounds:
  assumes "0 < max_size m"
  shows "prom_map_get_index m key < max_size m"
  using assms by (simp add: prom_map_get_index_def index_bound)

theorem map_index_in_bounds_witness: "prom_map_get_index map0 ''metric'' < 32"
  using map_index_in_bounds [of map0 "''metric''"] by (simp add: map0_def map_initial_size_def)

text \<open>C25. Whatever allocations fail, \<open>prom_map_get\<close> has no undefined behaviour, leaves every
  live string as it was, and answers with the value of the key or with NULL.\<close>

theorem map_get_any_allocator:
  assumes "map_ok m w" "mem_ok w"
  shows "\<exists>v w'. prom_map_get run m (Some s) w = Some (v, w') \<and> strs w' = strs w \<and>
    (v = NULL \<or> lookup_map w m s = Some v)"
  using get_any_oom [OF assms, of run s] by blast

theorem map_get_any_allocator_witness:
  "\<exists>v w'. prom_map_get no_run (fst map1) (Some ''abc'') ((snd map1)\<lparr>oom := [False, True]\<rparr>) = Some (v, w') \<and>
    (v = 0 \<or> v = 7)"
proof -
  let ?w = "(snd map1)\<lparr>oom := [False, True]\<rparr>"
  have "map_ok (fst map1) ?w" "mem_ok ?w" "lookup_map ?w (fst map1) = [''abc'' \<mapsto> 7]"
    using map1_ok map_ok_strs [of ?w "snd map1"] lookup_strs [of ?w "snd map1"]
    by (simp_all add: mem_ok_def)
  then show ?thesis using map_get_any_allocator [of "fst map1" ?w no_run "''abc''"] by auto
qed

text \<open>C26. \<open>prom_map_destroy\<close> frees the key string of every entry exactly once and no other
  string, when the free functions do not touch the string heap.\<close>

theorem map_destroy_frees_keys:
  assumes "map_ok m w" "mem_ok w" "\<forall>fv. spares_strings run fv"
  shows "\<exists>w'. prom_map_destroy run (Some m) w = Some (0, w') \<and>
    strs w' = strs w |` (- mkey ` set (entries (addrs m)))"
  using destroy_map_ok [OF assms] unfolding owned_def by blast

theorem map_destroy_frees_keys_witness:
  "\<exists>w'. prom_map_destroy no_run (Some (fst map1)) (snd map1) = Some (0, w')"
  using map_destroy_frees_keys [of "fst map1" "snd map1" no_run] map1_ok by auto

text \<open>Setting a key that is already present leaves a freed key string in the key list:
  some address the list holds no longer names a live string.\<close>

theorem map_set_existing_dangling_key:
  assumes "map_inv run m w" "keys_ok m" "map_count m < map_limit" "lookup_map w m s \<noteq> None"
  shows "\<exists>m' w'. prom_map_set run m s v w = Some (0, m', w') \<and>
    (\<exists>a \<in> set (keys m'). load_str a w' = None)"
  using assms set_existing_dangles [of m w s run v] by (auto simp: map_inv_def)

theorem map_set_existing_dangling_key_witness:
  "\<exists>m' w'. prom_map_set no_run (fst map1) ''abc'' 8 (snd map1) = Some (0, m', w') \<and>
    (\<exists>a \<in> set (keys m'). load_str a w' = None)"
  using map_set_existing_dangling_key [of no_run "fst map1" "snd map1" "''abc''" 8] map1_ok
  by (auto simp: map_inv_def map_limit_def)

text \<open>\<open>prom_map_delete\<close> of a key whose node is the last of its bucket reports success and
  takes the key out of the key list and the count, but the map still answers with its value.\<close>

theorem map_delete_keeps_last_node:
  assumes "map_ok m w" "mem_ok w" "oom w = []"
    and "bucket_at (addrs m) (prom_map_get_index m s) = Some (xs @ [n])" "key_of w n = Some s"
  shows "\<exists>m' w'. prom_map_delete run junk m s w = Some (0, m', w') \<and>
    prom_map_size m' = prom_map_size m - 1 \<and> keys m' = remove1 (mkey n) (keys m) \<and>
    lookup_map w' m' = lookup_map w m"
  using delete_last_stays [OF assms, of run junk] by (simp add: prom_map_size_def)

theorem map_delete_keeps_last_node_witness:
  "\<exists>m' w'. prom_map_delete no_run (\<lambda>_. []) (fst map1) ''abc'' (snd map1) = Some (0, m', w') \<and>
    lookup_map w' m' ''abc'' = Some 7"
proof -
  let ?m = "fst map1" and ?w = "snd map1"
  have t: "tab_ok (max_size ?m) (addrs ?m) ?w" using map1_ok(1) by (simp add: map_ok_def)
  obtain ns where ns: "bucket_at (addrs ?m) (prom_map_get_index_internal ''abc'' (max_size ?m)) = Some ns"
      "unat (prom_map_get_index_internal ''abc'' (max_size ?m)) < length (addrs ?m)"
      "addrs ?m ! unat (prom_map_get_index_internal ''abc'' (max_size ?m)) = Some ns"
      "\<forall>n \<in> set (entries (addrs ?m)). key_of ?w n = Some ''abc'' \<longrightarrow> n \<in> set ns"
    using t by (rule tab_ok_bucket)
  obtain A B where AB: "entries (addrs ?m) = A @ ns @ B" using entries_split [OF ns(2,3)] by blast
  obtain n where n: "n \<in> set (entries (addrs ?m))" "key_of ?w n = Some ''abc''"
    using map1_ok(7) tlookup_Some [OF t, of "''abc''" 7] by (auto simp: lookup_map_def)
  have "length (A @ ns @ B) = 1" using map1_ok(5) AB by (simp add: map_count_def)
  moreover have "n \<in> set ns" using ns(4) n by blast
  ultimately have "ns = [] @ [n]" by (cases ns) auto
  then show ?thesis
    using map_delete_keeps_last_node [of ?m ?w "''abc''" "[]" n no_run "\<lambda>_. []"] map1_ok ns(1) n(2)
    by (auto simp: prom_map_get_index_def)
qed

text \<open>When the allocation of the bucket's list node fails, \<open>prom_map_set\<close> still returns 0
  and counts the entry, but the entry is lost.\<close>

theorem map_set_loses_entry:
  assumes "map_ok m w" "mem_ok w" "oom w = [False, False, True]" "lookup_map w m s = None"
    and "msize m \<le> drop_bit 1 (max_size m)"
  shows "\<exists>m' w'. prom_map_set run m s v w = Some (0, m', w') \<and>
    prom_map_size m' = prom_map_size m + 1 \<and> lookup_map w' m' s = None"
  using set_loses_node [OF assms, of run v] assms(4) by (auto simp: prom_map_size_def)

theorem map_set_loses_entry_witness:
  "\<exists>m' w'. prom_map_set no_run map0 ''abc'' 7 (empty_mem\<lparr>oom := [False, False, True]\<rparr>) =
    Some (0, m', w') \<and> lookup_map w' m' ''abc'' = None"
  using map_set_loses_entry [of map0 "empty_mem\<lparr>oom := [False, False, True]\<rparr>" "''abc''" no_run 7]
  by (auto simp: map0_ok mem_ok_def empty_mem_def)

end
