(* ===== verification/StringBuilder.thy ===== *)
theory StringBuilder
  imports CMem
begin

text \<open>
  \<open>lib/prom/src/prom_string_builder.c\<close>: a growable character buffer. The model keeps the
  three C fields and the size of the block \<open>str\<close> points to, so that a write past the block
  is undefined behaviour (\<open>None\<close>); the doubling loop of \<open>psb_ensure_space\<close> is a
  partial function on 64-bit words. \<open>psb_ok\<close> is the invariant, \<open>content\<close> the abstract
  value, and the locale \<open>char_sink\<close> the contract the formatter relies on.
\<close>

section \<open>Data\<close>

text \<open>
  \<open>buf\<close>: None is the NULL pointer, \<open>Some s\<close> a block that starts with the bytes \<open>s\<close>
  and a terminating NUL; \<open>bufcap\<close>: the size of that block as \<open>malloc\<close>/\<open>realloc\<close> gave it.
\<close>

record psb =
  buf :: "string option"
  bufcap :: nat
  allocated :: u64
  slen :: u64
  init_size :: u64

definition PROM_STRING_BUILDER_INIT_SIZE :: u64 where
  "PROM_STRING_BUILDER_INIT_SIZE = 128"

section \<open>Operations\<close>

definition psb_init :: "psb \<Rightarrow> 'z mem_scheme \<Rightarrow> int \<times> psb \<times> 'z mem_scheme" where
  "psb_init self w = (let (a, w) = malloc w in
     if a = NULL then (1, self\<lparr>buf := None\<rparr>, w)
     else (0, self\<lparr>buf := Some [], bufcap := unat (init_size self),
                   allocated := init_size self, slen := 0\<rparr>, w))"

definition psb_new :: "'z mem_scheme \<Rightarrow> psb option \<times> 'z mem_scheme" where
  "psb_new w = (let (a, w) = malloc w in
     if a = NULL then (None, w)
     else let self = \<lparr>buf = None, bufcap = 0, allocated = 0, slen = 0,
                      init_size = PROM_STRING_BUILDER_INIT_SIZE\<rparr>;
              (r, self, w) = psb_init self w
          in if r \<noteq> 0 then (None, w) else (Some self, w))"

definition psb_clear :: "psb \<Rightarrow> 'z mem_scheme \<Rightarrow> int \<times> psb \<times> 'z mem_scheme" where
  "psb_clear self w = psb_init (self\<lparr>buf := None\<rparr>) w"

definition psb_truncate :: "psb \<Rightarrow> u64 \<Rightarrow> (int \<times> psb) option" where
  "psb_truncate self l =
     (if slen self \<le> l then Some (0, self)
      else case buf self of
        None \<Rightarrow> None
      | Some s \<Rightarrow> if unat l < bufcap self
          then Some (0, self\<lparr>slen := l, buf := Some (take (unat l) s)\<rparr>) else None)"

text \<open>\<open>while (sz < need) sz <<= 1\<close>; None: the loop does not end.\<close>

partial_function (option) grow :: "u64 \<Rightarrow> u64 \<Rightarrow> u64 option" where
  "grow sz need = (if sz < need then grow (push_bit 1 sz) need else Some sz)"

text \<open>
  \<open>realloc\<close> keeps the bytes below the old length. A NULL buffer (a failed \<open>psb_clear\<close>)
  would give a block whose bytes below \<open>len\<close> are indeterminate: undefined when read.
\<close>

definition psb_ensure_space ::
  "psb \<Rightarrow> u64 \<Rightarrow> 'z mem_scheme \<Rightarrow> (int \<times> psb \<times> 'z mem_scheme) option" where
  "psb_ensure_space self add_len w =
     (if add_len = 0 \<or> slen self + add_len + 1 \<le> allocated self then Some (0, self, w)
      else do {
        sz \<leftarrow> grow (allocated self) (slen self + add_len + 1);
        s \<leftarrow> buf self;
        let (a, w) = malloc w;
        if a = NULL then Some (1, self, w)
        else Some (0, self\<lparr>bufcap := unat sz\<rparr>, w)
      })"

text \<open>The bytes \<open>t\<close> and a NUL written at offset \<open>len\<close>, inside the block.\<close>

definition psb_write :: "psb \<Rightarrow> string \<Rightarrow> psb option" where
  "psb_write self t = (case buf self of
       None \<Rightarrow> None
     | Some s \<Rightarrow>
         (let n = slen self + of_nat (length t) in
          if unat (slen self) + length t < bufcap self
          then Some (self\<lparr>buf := Some (take (unat (slen self)) s @ t), slen := n\<rparr>)
          else None))"

definition psb_add_str ::
  "psb \<Rightarrow> string option \<Rightarrow> 'z mem_scheme \<Rightarrow> (int \<times> psb \<times> 'z mem_scheme) option" where
  "psb_add_str self str w = (case str of
       None \<Rightarrow> Some (0, self, w)
     | Some s \<Rightarrow>
         if s = [] then Some (0, self, w)
         else do {
           (r, self, w) \<leftarrow> psb_ensure_space self (of_nat (length s)) w;
           if r \<noteq> 0 then Some (1, self, w)
           else do { self \<leftarrow> psb_write self s; Some (0, self, w) }
         })"

definition psb_add_char ::
  "psb \<Rightarrow> char \<Rightarrow> 'z mem_scheme \<Rightarrow> (int \<times> psb \<times> 'z mem_scheme) option" where
  "psb_add_char self c w = do {
     (r, self, w) \<leftarrow> psb_ensure_space self 1 w;
     if r \<noteq> 0 then Some (1, self, w)
     else do { self \<leftarrow> psb_write self [c]; Some (0, self, w) }
   }"

definition psb_len :: "psb \<Rightarrow> u64" where
  "psb_len self = slen self"

definition psb_str :: "psb \<Rightarrow> string option" where
  "psb_str self = buf self"

text \<open>\<open>psb_dump\<close>: the copy goes to unchecked \<open>malloc\<close>ed memory, so NULL is undefined.\<close>

definition psb_dump :: "psb \<Rightarrow> 'z mem_scheme \<Rightarrow> (addr \<times> 'z mem_scheme) option" where
  "psb_dump self w = do {
     s \<leftarrow> buf self;
     let (out, w) = strdup (take (unat (slen self)) s) w;
     if out = NULL \<or> bufcap self \<le> unat (slen self) then None else Some (out, w)
   }"

text \<open>The builder and its block belong to one owner and are values here: freeing them is the
  owner dropping the value.\<close>

definition psb_destroy :: "psb option \<Rightarrow> int" where
  "psb_destroy self = 0"

section \<open>Abstract value and invariant\<close>

definition content :: "psb \<Rightarrow> string" where
  "content b = (case buf b of None \<Rightarrow> [] | Some s \<Rightarrow> s)"

definition psb_ok :: "psb \<Rightarrow> bool" where
  "psb_ok b \<longleftrightarrow> (\<exists>s. buf b = Some s \<and> slen b = of_nat (length s) \<and>
     length s < bufcap b \<and> bufcap b \<le> 2 ^ 63 \<and> 128 \<le> bufcap b \<and>
     allocated b = 128 \<and> init_size b = 128)"

section \<open>The doubling loop\<close>

lemma push_bit_pow2: "push_bit 1 (2 ^ k :: u64) = 2 ^ Suc k"
  by (simp add: push_bit_eq_mult)

lemma unat_pow2: "k < 64 \<Longrightarrow> unat (2 ^ k :: u64) = 2 ^ k"
  using unat_of_nat_u64 [of "2 ^ k"] power_strict_increasing [of k 64 "2::nat"] by simp

lemma grow_pow2:
  assumes "unat need \<le> 2 ^ 63" "k \<le> 63"
  shows "\<exists>j. k \<le> j \<and> j \<le> 63 \<and> grow (2 ^ k) need = Some (2 ^ j) \<and> unat need \<le> 2 ^ j
     \<and> (j = k \<or> 2 ^ j < 2 * unat need)"
  using assms(2)
proof (induction "63 - k" arbitrary: k rule: less_induct)
  case less
  show ?case
  proof (cases "2 ^ k < need")
    case False
    then have "grow (2 ^ k) need = Some (2 ^ k)" by (subst grow.simps) simp
    moreover have "unat need \<le> 2 ^ k"
      using False less.prems by (simp add: not_less word_le_nat_alt unat_pow2)
    ultimately show ?thesis using less.prems by auto
  next
    case True
    then have lt: "2 ^ k < unat need" using less.prems by (simp add: word_less_nat_alt unat_pow2)
    have "k < 63"
    proof (rule ccontr)
      assume "\<not> k < 63"
      with less.prems have "k = 63" by simp
      with lt assms(1) show False by simp
    qed
    then have dec: "63 - Suc k < 63 - k" and "Suc k \<le> 63" by auto
    from less.hyps [OF dec this(2)] obtain j where j: "Suc k \<le> j" "j \<le> 63" "grow (2 ^ Suc k) need = Some (2 ^ j)"
        "unat need \<le> 2 ^ j" "j = Suc k \<or> 2 ^ j < 2 * unat need" by blast
    moreover have "grow (2 ^ k) need = grow (2 ^ Suc k) need"
      by (subst grow.simps) (simp only: if_P [OF True] push_bit_pow2)
    ultimately show ?thesis using lt by (intro exI [of _ j]) auto
  qed
qed

text \<open>A result of the loop is large enough and a power of two, or 0 after an overflow.\<close>

lemma grow_result:
  assumes "grow sz need = Some y"
  shows "need \<le> y \<and> ((\<exists>k\<le>63. sz = 2 ^ k) \<or> sz = 0 \<longrightarrow> (\<exists>k\<le>63. y = 2 ^ k) \<or> y = 0)"
proof (rule grow.raw_induct [where P = "\<lambda>sz need y. need \<le> y \<and>
     ((\<exists>k\<le>63. sz = 2 ^ k) \<or> sz = 0 \<longrightarrow> (\<exists>k\<le>63. y = 2 ^ k) \<or> y = 0)", OF _ assms])
  fix f and sz need y :: u64
  assume IH: "\<And>sz need y. f sz need = Some y \<Longrightarrow> need \<le> y \<and>
      ((\<exists>k\<le>63. sz = 2 ^ k) \<or> sz = 0 \<longrightarrow> (\<exists>k\<le>63. y = 2 ^ k) \<or> y = 0)"
    and eq: "(if sz < need then f (push_bit 1 sz) need else Some sz) = Some y"
  show "need \<le> y \<and> ((\<exists>k\<le>63. sz = 2 ^ k) \<or> sz = 0 \<longrightarrow> (\<exists>k\<le>63. y = 2 ^ k) \<or> y = 0)"
  proof (cases "sz < need")
    case True
    then have "f (push_bit 1 sz) need = Some y" using eq by simp
    note IH [OF this]
    moreover have "(\<exists>k\<le>63. push_bit 1 sz = 2 ^ k) \<or> push_bit 1 sz = 0"
      if "(\<exists>k\<le>63. sz = 2 ^ k) \<or> sz = 0"
      using that
    proof (elim disjE exE conjE)
      fix k :: nat assume k: "k \<le> 63" "sz = 2 ^ k"
      show ?thesis
      proof (cases "k = 63")
        case True
        then show ?thesis using k by simp
      next
        case False
        then have "Suc k \<le> 63" using k by simp
        then show ?thesis using k push_bit_pow2 by blast
      qed
    qed simp
    ultimately show ?thesis by blast
  next
    case False
    then show ?thesis using eq by auto
  qed
qed

lemma grow_diverges: "2 ^ 63 < need \<Longrightarrow> grow 128 need = None"
proof (rule ccontr)
  assume need: "2 ^ 63 < need" and "grow 128 need \<noteq> None"
  then obtain y where y: "grow 128 need = Some y" by auto
  have "\<exists>k\<le>63. (128 :: u64) = 2 ^ k" by (rule exI [of _ 7]) simp
  with grow_result [OF y] have ge: "need \<le> y" and "(\<exists>k\<le>63. y = 2 ^ k) \<or> y = 0" by blast+
  then consider k where "k \<le> 63" "y = 2 ^ k" | "y = 0" by blast
  then show False
  proof cases
    case 1
    then have "unat y \<le> 2 ^ 63"
      using power_increasing [of k 63 "2::nat"] by (simp add: unat_pow2)
    with ge need show False by (simp add: word_le_nat_alt word_less_nat_alt unat_pow2)
  next
    case 2
    with ge need show False by (simp add: word_le_nat_alt word_less_nat_alt)
  qed
qed

section \<open>Making room\<close>

lemma psb_okE:
  assumes "psb_ok b"
  obtains s where "buf b = Some s" "content b = s" "slen b = of_nat (length s)"
    "unat (slen b) = length s" "length s < bufcap b" "bufcap b \<le> 2 ^ 63" "128 \<le> bufcap b"
    "allocated b = 128" "init_size b = 128"
proof -
  obtain s where s: "buf b = Some s" "slen b = of_nat (length s)" "length s < bufcap b"
      "bufcap b \<le> 2 ^ 63" "128 \<le> bufcap b" "allocated b = 128" "init_size b = 128"
    using assms by (auto simp: psb_ok_def)
  have "unat (slen b) = length s"
    using s by (simp add: unat_of_nat_u64)
  with s show ?thesis by (intro that [of s]) (auto simp: content_def)
qed

text \<open>Texts stay below \<open>2^63\<close> bytes: the doubling of a 64-bit size can then reach them.\<close>

definition psb_limit :: nat where
  "psb_limit = 2 ^ 63"

definition room :: "psb \<Rightarrow> nat \<Rightarrow> bool" where
  "room b n \<longleftrightarrow> length (content b) + n < psb_limit"

lemma roomD: "room b n \<Longrightarrow> m \<le> n \<Longrightarrow> room b m"
  by (simp add: room_def)

lemma psb_need:
  assumes "psb_ok b" "room b n"
  shows "unat (slen b + of_nat n + 1) = length (content b) + n + 1"
proof -
  obtain s where s: "content b = s" "unat (slen b) = length s" using assms(1) by (rule psb_okE)
  have n: "unat (of_nat n :: u64) = n"
    using assms(2) by (simp add: room_def psb_limit_def unat_of_nat_u64)
  have 1: "unat (slen b + of_nat n) = length s + n"
    using assms(2) s n by (subst unat_add_u64) (auto simp: room_def psb_limit_def)
  then show ?thesis
    using assms(2) s by (subst unat_Suc_u64) (auto simp: room_def psb_limit_def)
qed

text \<open>
  After a successful \<open>psb_ensure_space\<close> the block holds the old text, the new bytes and
  the NUL; when it fails nothing has changed. \<open>allocated\<close> is never written.
\<close>

lemma psb_ensure_space_cases:
  assumes ok: "psb_ok b" and room: "room b n" and mem: "mem_ok w"
  obtains (made) c w' where "psb_ensure_space b (of_nat n) w = Some (0, b\<lparr>bufcap := c\<rparr>, w')"
      "grown w w'" "oom w = [] \<longrightarrow> oom w' = []" "psb_ok (b\<lparr>bufcap := c\<rparr>)"
      "n = 0 \<or> length (content b) + n < c"
    | (failed) w' where "psb_ensure_space b (of_nat n) w = Some (1, b, w')" "grown w w'"
      "oom w \<noteq> []"
proof -
  obtain s where s: "buf b = Some s" "content b = s" "slen b = of_nat (length s)"
      "unat (slen b) = length s" "length s < bufcap b" "bufcap b \<le> 2 ^ 63" "128 \<le> bufcap b"
      "allocated b = 128" "init_size b = 128"
    using ok by (rule psb_okE)
  note need = psb_need [OF ok room]
  have n: "unat (of_nat n :: u64) = n"
    using room by (simp add: room_def psb_limit_def unat_of_nat_u64)
  have fits: "slen b + of_nat n + 1 \<le> allocated b \<longleftrightarrow> length s + n + 1 \<le> 128"
    using need s by (simp add: word_le_nat_alt)
  show thesis
  proof (cases "n = 0 \<or> length s + n + 1 \<le> 128")
    case True
    then have "psb_ensure_space b (of_nat n) w = Some (0, b\<lparr>bufcap := bufcap b\<rparr>, w)"
      using fits by (auto simp: psb_ensure_space_def)
    then show thesis using True s ok by (intro made [of "bufcap b" w]) auto
  next
    case False
    then have big: "of_nat n \<noteq> (0::u64)" "\<not> slen b + of_nat n + 1 \<le> allocated b"
      using fits n by auto
    obtain j where j: "7 \<le> j" "j \<le> 63" "grow (2 ^ 7) (slen b + of_nat n + 1) = Some (2 ^ j)"
        "length s + n + 1 \<le> 2 ^ j"
      using grow_pow2 [of "slen b + of_nat n + 1" 7] need room s by (auto simp: room_def psb_limit_def)
    have cap: "128 \<le> (2::nat) ^ j" "(2::nat) ^ j \<le> 2 ^ 63"
      using power_increasing [OF j(1), of "2::nat"] power_increasing [OF j(2), of "2::nat"] by auto
    obtain a w' where m: "malloc w = (a, w')" by force
    have e: "psb_ensure_space b (of_nat n) w =
        (if a = 0 then Some (1, b, w') else Some (0, b\<lparr>bufcap := 2 ^ j\<rparr>, w'))"
      using big j s m by (auto simp: psb_ensure_space_def unat_pow2)
    have g: "grown w w'" using m by (rule malloc_grown)
    show thesis
    proof (cases "a = 0")
      case True
      then have "oom w \<noteq> []" using malloc_no_oom [OF m] mem by auto
      then show thesis using failed e True g by simp
    next
      case False
      have "psb_ok (b\<lparr>bufcap := 2 ^ j\<rparr>)"
        using s j cap by (auto simp: psb_ok_def)
      then show thesis
        using made [of "2 ^ j" w'] e False g j s malloc_no_oom [OF m] mem by auto
    qed
  qed
qed

section \<open>The contract of a character sink\<close>

text \<open>
  \<open>char_sink\<close>: what a client of a string builder may rely on. \<open>put\<close> either appends and
  returns 0, or fails and leaves the text as it was; it never fails while memory is
  plentiful. \<open>writes f t\<close> says that a routine that calls \<open>put\<close> several times appends
  \<open>t\<close>, or stops with an error after a prefix of it. \<open>writes_seq\<close> is the rule for the
  C idiom \<open>if (f(...)) return k; ...\<close>.
\<close>

locale char_sink =
  fixes ok :: "'b \<Rightarrow> bool" and text_of :: "'b \<Rightarrow> string" and limit :: nat
    and good :: "'w \<Rightarrow> bool" and plenty :: "'w \<Rightarrow> bool" and step :: "'w \<Rightarrow> 'w \<Rightarrow> bool"
    and put :: "'b \<Rightarrow> string \<Rightarrow> 'w \<Rightarrow> (int \<times> 'b \<times> 'w) option"
  assumes step_refl: "step w w"
    and step_trans: "step u v \<Longrightarrow> step v w \<Longrightarrow> step u w"
    and step_good: "step w w' \<Longrightarrow> good w \<Longrightarrow> good w'"
    and put_law: "ok b \<Longrightarrow> good w \<Longrightarrow> length (text_of b) + length t < limit \<Longrightarrow>
      \<exists>r b' w'. put b t w = Some (r, b', w') \<and> ok b' \<and> step w w' \<and>
        text_of b' = (if r = 0 then text_of b @ t else text_of b) \<and> (plenty w \<longrightarrow> r = 0 \<and> plenty w')"
begin

definition writes :: "('b \<Rightarrow> 'w \<Rightarrow> (int \<times> 'b \<times> 'w) option) \<Rightarrow> string \<Rightarrow> bool" where
  "writes f t \<longleftrightarrow> (\<forall>b w. ok b \<and> good w \<and> length (text_of b) + length t < limit \<longrightarrow>
     (\<exists>r b' w' p q. f b w = Some (r, b', w') \<and> ok b' \<and> step w w' \<and> t = p @ q \<and>
        text_of b' = text_of b @ p \<and> (r = 0 \<longrightarrow> q = []) \<and> (plenty w \<longrightarrow> r = 0 \<and> plenty w')))"

lemma writesI:
  assumes "\<And>b w. ok b \<Longrightarrow> good w \<Longrightarrow> length (text_of b) + length t < limit \<Longrightarrow>
     \<exists>r b' w' p q. f b w = Some (r, b', w') \<and> ok b' \<and> step w w' \<and> t = p @ q \<and>
        text_of b' = text_of b @ p \<and> (r = 0 \<longrightarrow> q = []) \<and> (plenty w \<longrightarrow> r = 0 \<and> plenty w')"
  shows "writes f t"
  using assms by (auto simp: writes_def)

lemma writesE:
  assumes "writes f t" "ok b" "good w" "length (text_of b) + length t < limit"
  obtains r b' w' p q where "f b w = Some (r, b', w')" "ok b'" "step w w'" "t = p @ q"
    "text_of b' = text_of b @ p" "r = 0 \<longrightarrow> q = []" "plenty w \<longrightarrow> r = 0 \<and> plenty w'"
  using assms unfolding writes_def by blast

lemma writes_nop: "writes (\<lambda>b w. Some (0, b, w)) []"
  by (rule writesI) (auto simp: step_refl)

lemma writes_put: "writes (\<lambda>b. put b t) t"
proof (rule writesI)
  fix b w assume "ok b" "good w" "length (text_of b) + length t < limit"
  from put_law [OF this] obtain r b' w' where r: "put b t w = Some (r, b', w')" "ok b'" "step w w'"
      "text_of b' = (if r = 0 then text_of b @ t else text_of b)" "plenty w \<longrightarrow> r = 0 \<and> plenty w'"
    by blast
  show "\<exists>r b' w' p q. put b t w = Some (r, b', w') \<and> ok b' \<and> step w w' \<and> t = p @ q \<and>
      text_of b' = text_of b @ p \<and> (r = 0 \<longrightarrow> q = []) \<and> (plenty w \<longrightarrow> r = 0 \<and> plenty w')"
  proof (cases "r = 0")
    case True
    then show ?thesis using r
      by (intro exI [of _ r] exI [of _ b'] exI [of _ w'] exI [of _ t] exI [of _ "[]"]) auto
  next
    case False
    then show ?thesis using r
      by (intro exI [of _ r] exI [of _ b'] exI [of _ w'] exI [of _ "[]"] exI [of _ t]) auto
  qed
qed

lemma writes_seq:
  assumes f: "writes f s" and g: "writes g t" and k: "\<And>r. r \<noteq> 0 \<Longrightarrow> k r \<noteq> 0"
  shows "writes (\<lambda>b w. Option.bind (f b w)
     (\<lambda>(r, b, w). if r \<noteq> 0 then Some (k r, b, w) else g b w)) (s @ t)"
proof (rule writesI)
  fix b w assume pre: "ok b" "good w" "length (text_of b) + length (s @ t) < limit"
  then obtain r b1 w1 p q where 1: "f b w = Some (r, b1, w1)" "ok b1" "step w w1" "s = p @ q"
      "text_of b1 = text_of b @ p" "r = 0 \<longrightarrow> q = []" "plenty w \<longrightarrow> r = 0 \<and> plenty w1"
    by (elim writesE [OF f, of b w]) auto
  show "\<exists>r b' w' p q. Option.bind (f b w)
      (\<lambda>(r, b, w). if r \<noteq> 0 then Some (k r, b, w) else g b w) = Some (r, b', w') \<and> ok b' \<and>
      step w w' \<and> s @ t = p @ q \<and> text_of b' = text_of b @ p \<and> (r = 0 \<longrightarrow> q = []) \<and>
      (plenty w \<longrightarrow> r = 0 \<and> plenty w')"
  proof (cases "r = 0")
    case False
    then show ?thesis using 1 k [of r]
      by (intro exI [of _ "k r"] exI [of _ b1] exI [of _ w1] exI [of _ p] exI [of _ "q @ t"]) auto
  next
    case True
    with 1 have "q = []" "good w1" using step_good pre by auto
    then obtain r2 b2 w2 p2 q2 where 2: "g b1 w1 = Some (r2, b2, w2)" "ok b2" "step w1 w2"
        "t = p2 @ q2" "text_of b2 = text_of b1 @ p2" "r2 = 0 \<longrightarrow> q2 = []" "plenty w1 \<longrightarrow> r2 = 0 \<and> plenty w2"
      using 1 pre by (elim writesE [OF g, of b1 w1]) auto
    have "step w w2" using 1(3) 2(3) by (rule step_trans)
    then show ?thesis using 1 2 True \<open>q = []\<close>
      by (intro exI [of _ r2] exI [of _ b2] exI [of _ w2] exI [of _ "p @ p2"] exI [of _ q2]) auto
  qed
qed

text \<open>The last call of a routine often maps its failure to a code of its own.\<close>

lemma writes_last:
  assumes f: "writes f s" and k: "\<And>r. r \<noteq> 0 \<Longrightarrow> k r \<noteq> 0"
  shows "writes (\<lambda>b w. Option.bind (f b w)
     (\<lambda>(r, b, w). Some (if r \<noteq> 0 then k r else 0, b, w))) s"
proof -
  have eq: "(\<lambda>b w. Option.bind (f b w) (\<lambda>(r, b, w). Some (if r \<noteq> 0 then k r else 0, b, w)))
      = (\<lambda>b w. Option.bind (f b w) (\<lambda>(r, b, w). if r \<noteq> 0 then Some (k r, b, w) else Some (0, b, w)))"
    by (intro ext arg_cong [where f = "Option.bind _"]) auto
  show ?thesis using writes_seq [OF f writes_nop k] by (simp add: eq)
qed

lemma writes_plenty:
  assumes "writes f t" "ok b" "good w" "length (text_of b) + length t < limit" "plenty w"
  obtains b' w' where "f b w = Some (0, b', w')" "ok b'" "step w w'" "text_of b' = text_of b @ t" "plenty w'"
proof -
  obtain r b' w' p q where r: "f b w = Some (r, b', w')" "ok b'" "step w w'" "t = p @ q"
      "text_of b' = text_of b @ p" "r = 0 \<longrightarrow> q = []" "plenty w \<longrightarrow> r = 0 \<and> plenty w'"
    using assms(1-4) by (rule writesE)
  then have "r = 0" "plenty w'" using assms(5) by auto
  with r show thesis by (intro that [of b' w']) auto
qed

end

section \<open>The string builder is a character sink\<close>

lemma psb_write_ok:
  assumes "psb_ok b" "length (content b) + length t < bufcap b"
  shows "\<exists>b'. psb_write b t = Some b' \<and> psb_ok b' \<and> content b' = content b @ t"
proof -
  obtain s where s: "buf b = Some s" "content b = s" "slen b = of_nat (length s)"
      "unat (slen b) = length s" "length s < bufcap b" "bufcap b \<le> 2 ^ 63" "128 \<le> bufcap b"
      "allocated b = 128" "init_size b = 128"
    using assms(1) by (rule psb_okE)
  then show ?thesis using assms(2)
    by (auto simp: psb_write_def Let_def psb_ok_def content_def)
qed

lemma psb_add_str_law:
  assumes ok: "psb_ok b" and mem: "mem_ok w" and room: "length (content b) + length t < psb_limit"
  shows "\<exists>r b' w'. psb_add_str b (Some t) w = Some (r, b', w') \<and> psb_ok b' \<and> grown w w' \<and>
      content b' = (if r = 0 then content b @ t else content b) \<and>
      (oom w = [] \<longrightarrow> r = 0 \<and> oom w' = [])"
proof (cases "t = []")
  case True
  then show ?thesis using ok by (simp add: psb_add_str_def)
next
  case False
  have r: "room b (length t)" using room by (simp add: room_def)
  from ok r mem show ?thesis
  proof (cases rule: psb_ensure_space_cases)
    case (made c w')
    then have "length (content (b\<lparr>bufcap := c\<rparr>)) + length t < bufcap (b\<lparr>bufcap := c\<rparr>)"
      using False by (simp add: content_def)
    from psb_write_ok [OF made(4) this] obtain b' where
      "psb_write (b\<lparr>bufcap := c\<rparr>) t = Some b'" "psb_ok b'" "content b' = content b @ t"
      by (auto simp: content_def)
    then show ?thesis using made False by (simp add: psb_add_str_def)
  next
    case (failed w')
    then show ?thesis using ok False by (simp add: psb_add_str_def)
  qed
qed

interpretation psb: char_sink psb_ok content psb_limit mem_ok "\<lambda>w. oom w = []" grown
    "\<lambda>b t. psb_add_str b (Some t)"
proof unfold_locales
  show "grown u v \<Longrightarrow> grown v w \<Longrightarrow> grown u w" for u v w :: "'z mem_scheme"
    by (rule grown_trans)
  show "grown w w' \<Longrightarrow> mem_ok w \<Longrightarrow> mem_ok w'" for w w' :: "'z mem_scheme"
    by (rule grown_mem_ok)
next
  fix b and w :: "'z mem_scheme" and t :: string
  assume "psb_ok b" "mem_ok w" "length (content b) + length t < psb_limit"
  then show "\<exists>r b' w'. psb_add_str b (Some t) w = Some (r, b', w') \<and> psb_ok b' \<and> grown w w' \<and>
      content b' = (if r = 0 then content b @ t else content b) \<and>
      (oom w = [] \<longrightarrow> r = 0 \<and> oom w' = [])"
    by (rule psb_add_str_law)
qed simp

lemma psb_add_char_eq: "psb_add_char b c = psb_add_str b (Some [c])"
  by (rule ext) (simp add: psb_add_char_def psb_add_str_def)

lemma writes_char: "psb.writes (\<lambda>b. psb_add_char b c) [c]"
  unfolding psb_add_char_eq by (rule psb.writes_put)

lemma writes_opt:
  "psb.writes (\<lambda>b (w :: 'z mem_scheme). psb_add_str b s w) (case s of None \<Rightarrow> [] | Some t \<Rightarrow> t)"
proof (cases s)
  case None
  then have "(\<lambda>b. psb_add_str b s) = (\<lambda>b w. Some (0, b, w :: 'z mem_scheme))"
    by (intro ext) (simp add: psb_add_str_def)
  then show ?thesis using psb.writes_nop None by simp
next
  case (Some t)
  then show ?thesis using psb.writes_put by simp
qed

section \<open>Creation, clearing, truncation, dumping\<close>

lemma psb_init_ok:
  assumes "init_size b = 128"
  shows "\<exists>r b' w'. psb_init b w = (r, b', w') \<and> grown w w' \<and>
     (if r = 0 then psb_ok b' \<and> content b' = [] else buf b' = None)"
proof -
  obtain a w' where m: "malloc w = (a, w')" by force
  have "grown w w'" using m by (rule malloc_grown)
  then show ?thesis using m assms by (simp add: psb_init_def psb_ok_def content_def)
qed

lemma psb_clear_ok:
  assumes "init_size b = 128" "oom w = []" "mem_ok w"
  shows "\<exists>b' w'. psb_clear b w = (0, b', w') \<and> grown w w' \<and> oom w' = [] \<and> psb_ok b' \<and> content b' = []"
  using assms
  by (simp add: psb_clear_def psb_init_def malloc_ok psb_ok_def content_def mem_ok_def grown_upd)

lemma psb_new_ok:
  assumes "oom w = []" "mem_ok w"
  shows "\<exists>b w'. psb_new w = (Some b, w') \<and> grown w w' \<and> oom w' = [] \<and> psb_ok b \<and> content b = []"
  using assms
  by (simp add: psb_new_def psb_init_def malloc_ok psb_ok_def content_def mem_ok_def grown_upd
      PROM_STRING_BUILDER_INIT_SIZE_def)

lemma psb_truncate_ok:
  assumes "psb_ok b" "n \<le> length (content b)"
  shows "\<exists>b'. psb_truncate b (of_nat n) = Some (0, b') \<and> psb_ok b' \<and> content b' = take n (content b)"
proof -
  obtain s where s: "buf b = Some s" "content b = s" "slen b = of_nat (length s)"
      "unat (slen b) = length s" "length s < bufcap b" "bufcap b \<le> 2 ^ 63" "128 \<le> bufcap b"
      "allocated b = 128" "init_size b = 128"
    using assms(1) by (rule psb_okE)
  have n: "unat (of_nat n :: u64) = n"
    using assms(2) s by (intro unat_of_nat_u64) simp
  have "slen b \<le> of_nat n \<longleftrightarrow> length s \<le> n"
    using s n by (simp add: word_le_nat_alt)
  then show ?thesis using s n assms by (auto simp: psb_truncate_def psb_ok_def content_def)
qed

lemma psb_dump_ok:
  assumes "psb_ok b" "oom w = []" "mem_ok w"
  shows "psb_dump b w =
     Some (brk w, w\<lparr>brk := Suc (brk w), strs := (strs w)(brk w \<mapsto> content b)\<rparr>)"
proof -
  obtain s where s: "buf b = Some s" "content b = s" "slen b = of_nat (length s)"
      "unat (slen b) = length s" "length s < bufcap b" "bufcap b \<le> 2 ^ 63" "128 \<le> bufcap b"
      "allocated b = 128" "init_size b = 128"
    using assms(1) by (rule psb_okE)
  then show ?thesis using assms by (simp add: psb_dump_def strdup_ok mem_ok_def)
qed

section \<open>Properties\<close>

text \<open>A heap for the witnesses.\<close>

definition small_mem :: "bool list \<Rightarrow> mem" where
  "small_mem bs = \<lparr>strs = Map.empty, brk = 1, oom = bs\<rparr>"

lemma small_mem_ok [simp]: "mem_ok (small_mem bs)" "oom (small_mem bs) = bs" "brk (small_mem bs) = 1"
  "strs (small_mem bs) = Map.empty"
  by (simp_all add: small_mem_def mem_ok_def)

definition empty_psb :: psb where
  "empty_psb = \<lparr>buf = Some [], bufcap = 128, allocated = 128, slen = 0, init_size = 128\<rparr>"

lemma empty_psb_ok [simp]: "psb_ok empty_psb" "content empty_psb = []"
  by (simp_all add: empty_psb_def psb_ok_def content_def)

text \<open>C30. \<open>psb_add_str\<close> never writes outside its block: for every outcome of the allocator it
  returns 0 and appends the whole string, or returns 1 and leaves the text unchanged, and
  it cannot fail while memory is available.\<close>

theorem psb_add_str_safe:
  assumes "psb_ok b" "mem_ok w" "length (content b) + length s < psb_limit"
  shows "\<exists>r b' w'. psb_add_str b (Some s) w = Some (r, b', w') \<and> psb_ok b' \<and> strs w' = strs w \<and>
    (r = 0 \<and> content b' = content b @ s \<or> r = 1 \<and> content b' = content b \<and> oom w \<noteq> [])"
proof (cases "s = []")
  case True
  then show ?thesis using assms by (simp add: psb_add_str_def)
next
  case False
  have r: "room b (length s)" using assms(3) by (simp add: room_def)
  from assms(1) r assms(2) show ?thesis
  proof (cases rule: psb_ensure_space_cases)
    case (made c w')
    then have "length (content (b\<lparr>bufcap := c\<rparr>)) + length s < bufcap (b\<lparr>bufcap := c\<rparr>)"
      using False by (simp add: content_def)
    from psb_write_ok [OF made(4) this] show ?thesis
      using made False grown_strs [OF made(2)] by (auto simp: psb_add_str_def content_def)
  next
    case (failed w')
    then show ?thesis using assms(1) False grown_strs [OF failed(2)] by (simp add: psb_add_str_def)
  qed
qed

theorem psb_add_str_safe_witness:
  "\<exists>r b' w'. psb_add_str empty_psb (Some (replicate 200 CHR ''x'')) (small_mem [True]) = Some (r, b', w') \<and>
    psb_ok b'"
  using psb_add_str_safe [of empty_psb "small_mem [True]" "replicate 200 CHR ''x''"]
  by (auto simp: psb_limit_def)

text \<open>C32. \<open>psb_ensure_space\<close> returns unless the size it needs (as computed on 64 bits)
  is above \<open>2^63\<close>: then the doubling loop shifts its counter to 0 and never ends.\<close>

theorem psb_ensure_space_returns_iff:
  assumes "psb_ok b"
  shows "psb_ensure_space b n w \<noteq> None \<longleftrightarrow> n = 0 \<or> slen b + n + 1 \<le> 2 ^ 63"
proof -
  obtain s where s: "buf b = Some s" "allocated b = 128"
    using assms by (rule psb_okE)
  have small: "slen b + n + 1 \<le> 128 \<Longrightarrow> slen b + n + 1 \<le> 2 ^ 63"
    by (erule order_trans) simp
  show ?thesis
  proof (cases "slen b + n + 1 \<le> 2 ^ 63")
    case True
    then have "unat (slen b + n + 1) \<le> 2 ^ 63" by (simp add: word_le_nat_alt unat_pow2)
    from grow_pow2 [OF this, of 7] obtain j where "grow 128 (slen b + n + 1) = Some (2 ^ j)" by auto
    then show ?thesis using s True by (auto simp: psb_ensure_space_def Let_def split: prod.splits)
  next
    case False
    then have "grow 128 (slen b + n + 1) = None" by (intro grow_diverges) simp
    then show ?thesis using s False small by (auto simp: psb_ensure_space_def)
  qed
qed

theorem psb_ensure_space_returns_iff_witness:
  "psb_ensure_space empty_psb 1000 (small_mem []) \<noteq> None \<and>
   \<not> psb_ensure_space empty_psb (2 ^ 63) (small_mem []) \<noteq> None"
  unfolding psb_ensure_space_returns_iff [OF empty_psb_ok(1)] by (simp add: empty_psb_def)

text \<open>The texts of several \<open>psb_add_str\<close> calls.\<close>

fun add_all :: "psb \<Rightarrow> string list \<Rightarrow> 'z mem_scheme \<Rightarrow> (int \<times> psb \<times> 'z mem_scheme) option" where
  "add_all b [] w = Some (0, b, w)"
| "add_all b (t # ts) w = do {
     (r, b, w) \<leftarrow> psb_add_str b (Some t) w;
     if r \<noteq> 0 then Some (r, b, w) else add_all b ts w }"

lemma add_all_ok:
  "psb_ok b \<Longrightarrow> mem_ok w \<Longrightarrow> oom w = [] \<Longrightarrow> length (content b) + length (concat ts) < psb_limit \<Longrightarrow>
   \<exists>b' w'. add_all b ts w = Some (0, b', w') \<and> psb_ok b' \<and> content b' = content b @ concat ts \<and>
     mem_ok w' \<and> oom w' = []"
proof (induction ts arbitrary: b w)
  case (Cons t ts)
  then obtain b1 w1 where "psb_add_str b (Some t) w = Some (0, b1, w1)" "psb_ok b1" "grown w w1"
      "content b1 = content b @ t" "oom w1 = []"
    using psb_add_str_law [of b w t] by auto
  then show ?case using Cons.IH [of b1 w1] Cons.prems by (auto intro: grown_mem_ok)
qed simp

text \<open>C31. While memory is available, a new builder that is given any texts in turn dumps
  exactly their concatenation, in a fresh string of its own.\<close>

theorem psb_dump_concat:
  assumes "mem_ok w" "oom w = []" "length (concat ts) < psb_limit"
  shows "\<exists>b w1 b' w2 a w3. psb_new w = (Some b, w1) \<and> add_all b ts w1 = Some (0, b', w2) \<and>
    psb_dump b' w2 = Some (a, w3) \<and> a \<noteq> NULL \<and> strs w2 a = None \<and> load_str a w3 = Some (concat ts)"
proof -
  obtain b w1 where b: "psb_new w = (Some b, w1)" "grown w w1" "oom w1 = []" "psb_ok b" "content b = []"
    using psb_new_ok [OF assms(2,1)] by blast
  moreover have "mem_ok w1" using b(2) assms(1) by (rule grown_mem_ok)
  ultimately obtain b' w2 where 2: "add_all b ts w1 = Some (0, b', w2)" "psb_ok b'"
      "content b' = concat ts" "mem_ok w2" "oom w2 = []"
    using add_all_ok [of b w1 ts] assms(3) by auto
  then show ?thesis using b(1) psb_dump_ok [OF 2(2,5,4)] mem_ok_fresh [OF 2(4), of "brk w2"]
    by (simp add: load_str_def)
qed

theorem psb_dump_concat_witness:
  "\<exists>b w1 b' w2 a w3. psb_new (small_mem []) = (Some b, w1) \<and>
    add_all b [''# HELP '', ''up''] w1 = Some (0, b', w2) \<and> psb_dump b' w2 = Some (a, w3) \<and>
    load_str a w3 = Some ''# HELP up''"
  using psb_dump_concat [of "small_mem []" "[''# HELP '', ''up'']"] by (auto simp: psb_limit_def)

end
