(* ===== verification/CDouble.thy ===== *)
theory CDouble
  imports Prelude
begin

text \<open>
  C's \<open>double\<close> (IEEE 754 binary64, round to nearest, ties to even), as far as the
  program uses it: addition, subtraction, multiplication, division, comparison,
  conversion from the unsigned integer types and to \<open>unsigned char\<close>, and decimal
  literals. Everything is computed on natural numbers, so a closed term evaluates in the
  kernel. \<open>dval\<close> reads a finite value as a real number; the lemmas at the end say how
  rounding relates to the exact result. One NaN stands for all NaN bit patterns.
\<close>

section \<open>Values\<close>

datatype double = DNaN | DInf bool | DFin (dneg: bool) (dmant: nat) (dexp: int)

text \<open>\<open>DFin s m e\<close> is \<open>(-1)^s * m * 2^e\<close>; the canonical forms are exactly binary64's.\<close>

fun dvalid :: "double \<Rightarrow> bool" where
  "dvalid (DFin s m e) \<longleftrightarrow> m < 2 ^ 53 \<and> -1074 \<le> e \<and> e \<le> 971 \<and> (e = -1074 \<or> 2 ^ 52 \<le> m)"
| "dvalid _ \<longleftrightarrow> True"

definition dzero :: double where
  "dzero = DFin False 0 (-1074)"

fun dval :: "double \<Rightarrow> real" where
  "dval (DFin s m e) = (if s then - (real m * 2 powi e) else real m * 2 powi e)"
| "dval _ = 0"

fun is_fin :: "double \<Rightarrow> bool" where
  "is_fin (DFin _ _ _) = True"
| "is_fin _ = False"

section \<open>Rounding\<close>

fun bitlen :: "nat \<Rightarrow> nat" where
  "bitlen n = (if n = 0 then 0 else Suc (bitlen (n div 2)))"

declare bitlen.simps [simp del]

text \<open>Division of natural numbers, rounded to nearest, ties to even.\<close>

definition div_rne :: "nat \<Rightarrow> nat \<Rightarrow> nat" where
  "div_rne N D = (let q = N div D; r = N mod D
     in if D < 2 * r \<or> (D = 2 * r \<and> odd q) then q + 1 else q)"

text \<open>The exponent of the unit in the last place of \<open>n / d * 2^e\<close>.\<close>

definition unit_exp :: "nat \<Rightarrow> nat \<Rightarrow> int \<Rightarrow> int" where
  "unit_exp n d e =
     (let t = e + int (bitlen n) - int (bitlen d) - 53;
          u = (if 2 ^ 53 * (d * 2 ^ nat (t - e)) \<le> n * 2 ^ nat (e - t) then t + 1 else t)
      in max u (-1074))"

definition mk_fin :: "bool \<Rightarrow> nat \<Rightarrow> int \<Rightarrow> double" where
  "mk_fin s m t =
     (if m = 2 ^ 53 then (if 971 < t + 1 then DInf s else DFin s (2 ^ 52) (t + 1))
      else if 971 < t then DInf s else DFin s m t)"

definition rnd :: "bool \<Rightarrow> nat \<Rightarrow> nat \<Rightarrow> int \<Rightarrow> double" where
  "rnd s n d e = (if n = 0 then DFin s 0 (-1074)
     else let t = unit_exp n d e
          in mk_fin s (div_rne (n * 2 ^ nat (e - t)) (d * 2 ^ nat (t - e))) t)"

section \<open>Operations\<close>

definition smant :: "bool \<Rightarrow> nat \<Rightarrow> int" where
  "smant s m = (if s then - int m else int m)"

fun dadd :: "double \<Rightarrow> double \<Rightarrow> double" where
  "dadd DNaN _ = DNaN"
| "dadd _ DNaN = DNaN"
| "dadd (DInf s) (DInf t) = (if s = t then DInf s else DNaN)"
| "dadd (DInf s) _ = DInf s"
| "dadd _ (DInf t) = DInf t"
| "dadd (DFin s1 m1 e1) (DFin s2 m2 e2) =
     (let e = min e1 e2;
          z = smant s1 m1 * 2 ^ nat (e1 - e) + smant s2 m2 * 2 ^ nat (e2 - e)
      in if z = 0 then DFin (s1 \<and> s2) 0 (-1074) else rnd (z < 0) (nat \<bar>z\<bar>) 1 e)"

fun duminus :: "double \<Rightarrow> double" where
  "duminus DNaN = DNaN"
| "duminus (DInf s) = DInf (\<not> s)"
| "duminus (DFin s m e) = DFin (\<not> s) m e"

definition dsub :: "double \<Rightarrow> double \<Rightarrow> double" where
  "dsub x y = dadd x (duminus y)"

fun dmul :: "double \<Rightarrow> double \<Rightarrow> double" where
  "dmul DNaN _ = DNaN"
| "dmul _ DNaN = DNaN"
| "dmul (DInf s) (DInf t) = DInf (s \<noteq> t)"
| "dmul (DInf s) (DFin t m e) = (if m = 0 then DNaN else DInf (s \<noteq> t))"
| "dmul (DFin s m e) (DInf t) = (if m = 0 then DNaN else DInf (s \<noteq> t))"
| "dmul (DFin s1 m1 e1) (DFin s2 m2 e2) = rnd (s1 \<noteq> s2) (m1 * m2) 1 (e1 + e2)"

fun ddiv :: "double \<Rightarrow> double \<Rightarrow> double" where
  "ddiv DNaN _ = DNaN"
| "ddiv _ DNaN = DNaN"
| "ddiv (DInf s) (DInf t) = DNaN"
| "ddiv (DInf s) (DFin t m e) = DInf (s \<noteq> t)"
| "ddiv (DFin s m e) (DInf t) = DFin (s \<noteq> t) 0 (-1074)"
| "ddiv (DFin s1 m1 e1) (DFin s2 m2 e2) =
     (if m2 = 0 then (if m1 = 0 then DNaN else DInf (s1 \<noteq> s2))
      else rnd (s1 \<noteq> s2) m1 m2 (e1 - e2))"

text \<open>\<open><\<close> and \<open>==\<close>; every comparison with a NaN is false, \<open>-0.0 == 0.0\<close>.\<close>

fun dlt :: "double \<Rightarrow> double \<Rightarrow> bool" where
  "dlt DNaN _ = False"
| "dlt _ DNaN = False"
| "dlt (DInf s) (DInf t) = (s \<and> \<not> t)"
| "dlt (DInf s) (DFin _ _ _) = s"
| "dlt (DFin _ _ _) (DInf t) = (\<not> t)"
| "dlt (DFin s1 m1 e1) (DFin s2 m2 e2) =
     (let e = min e1 e2 in smant s1 m1 * 2 ^ nat (e1 - e) < smant s2 m2 * 2 ^ nat (e2 - e))"

fun deq :: "double \<Rightarrow> double \<Rightarrow> bool" where
  "deq DNaN _ = False"
| "deq _ DNaN = False"
| "deq (DInf s) (DInf t) = (s = t)"
| "deq (DInf _) (DFin _ _ _) = False"
| "deq (DFin _ _ _) (DInf _) = False"
| "deq (DFin s1 m1 e1) (DFin s2 m2 e2) =
     (let e = min e1 e2 in smant s1 m1 * 2 ^ nat (e1 - e) = smant s2 m2 * 2 ^ nat (e2 - e))"

definition dle :: "double \<Rightarrow> double \<Rightarrow> bool" where
  "dle x y \<longleftrightarrow> dlt x y \<or> deq x y"

text \<open>Conversions: from an unsigned integer, from a signed one, from a decimal literal.\<close>

definition d_of_nat :: "nat \<Rightarrow> double" where
  "d_of_nat n = rnd False n 1 0"

definition d_of_int :: "int \<Rightarrow> double" where
  "d_of_int i = (if i < 0 then rnd True (nat (- i)) 1 0 else rnd False (nat i) 1 0)"

definition d_lit :: "nat \<Rightarrow> nat \<Rightarrow> double" where
  "d_lit n d = rnd False n d 0"   \<comment> \<open>the literal \<open>n / d\<close>, \<open>d\<close> a power of ten\<close>

text \<open>
  \<open>(unsigned char) x\<close> truncates towards zero; a value outside the range of the type is
  undefined behaviour.
\<close>

fun d_trunc :: "double \<Rightarrow> int option" where
  "d_trunc (DFin s m e) =
     Some (let k = (if 0 \<le> e then m * 2 ^ nat e else m div 2 ^ nat (- e)) in smant s k)"
| "d_trunc _ = None"

definition d_to_uchar :: "double \<Rightarrow> u8 option" where
  "d_to_uchar x = (case d_trunc x of None \<Rightarrow> None
     | Some k \<Rightarrow> if 0 \<le> k \<and> k < 256 then Some (word_of_int k) else None)"

lemmas dbl_eval_defs [dbl_simps] =
  rnd_def unit_exp_def div_rne_def mk_fin_def smant_def d_of_nat_def d_of_int_def d_lit_def
  dzero_def Let_def dle_def dsub_def

section \<open>Bit length\<close>

lemma bitlen_bounds: "0 < n \<Longrightarrow> 2 ^ (bitlen n - 1) \<le> n \<and> n < 2 ^ bitlen n"
proof (induction n rule: bitlen.induct)
  case (1 n)
  show ?case
  proof (cases "n = 1")
    case True
    then show ?thesis by (simp add: bitlen.simps)
  next
    case False
    with "1" have IH: "2 ^ (bitlen (n div 2) - 1) \<le> n div 2 \<and> n div 2 < 2 ^ bitlen (n div 2)"
      by simp
    have pos: "0 < bitlen (n div 2)"
      using False "1.prems" by (subst bitlen.simps) (auto simp: div_eq_0_iff)
    then obtain k where k: "bitlen (n div 2) = Suc k"
      by (cases "bitlen (n div 2)") auto
    have "bitlen n = Suc (Suc k)"
      using "1.prems" k by (subst bitlen.simps) simp
    moreover from IH k have "2 ^ k \<le> n div 2" "n div 2 < 2 * 2 ^ k" by auto
    then have "2 * 2 ^ k \<le> n" "n < 4 * 2 ^ k" by linarith+
    ultimately show ?thesis by simp
  qed
qed

lemma bitlen_eval [dbl_simps]:
  "bitlen 0 = 0" "bitlen 1 = 1" "bitlen (Suc 0) = 1"
  "bitlen (numeral (num.Bit0 k)) = Suc (bitlen (numeral k))"
  "bitlen (numeral (num.Bit1 k)) = Suc (bitlen (numeral k))"
proof -
  show "bitlen (numeral (num.Bit0 k)) = Suc (bitlen (numeral k))"
    by (subst bitlen.simps) simp
  show "bitlen (numeral (num.Bit1 k)) = Suc (bitlen (numeral k))"
    by (subst bitlen.simps) simp
  show "bitlen 0 = 0" by (subst bitlen.simps) simp
  show "bitlen 1 = 1" "bitlen (Suc 0) = 1"
    by (simp_all add: bitlen.simps [of 1] bitlen.simps [of "Suc 0"] bitlen.simps [of 0])
qed

lemma bitlen_pos: "0 < n \<Longrightarrow> 0 < bitlen n"
  by (subst bitlen.simps) simp

lemma bitlen_real:
  assumes "0 < n"
  shows "2 powi (int (bitlen n) - 1) \<le> real n" "real n < 2 powi int (bitlen n)"
proof -
  have b: "2 ^ (bitlen n - 1) \<le> n" "n < 2 ^ bitlen n"
    using bitlen_bounds [OF assms] by auto
  have "real (2 ^ (bitlen n - 1)) \<le> real n"
    using b(1) by (simp only: of_nat_le_iff)
  moreover have e: "int (bitlen n) - 1 = int (bitlen n - 1)"
    using bitlen_pos [OF assms] by simp
  ultimately show "2 powi (int (bitlen n) - 1) \<le> real n"
    by (simp only: e power_int_of_nat) simp
  have "real n < real (2 ^ bitlen n)"
    using b(2) by (simp only: of_nat_less_iff)
  then show "real n < 2 powi int (bitlen n)" by simp
qed

section \<open>Rounding against the exact value\<close>

definition exact :: "nat \<Rightarrow> nat \<Rightarrow> int \<Rightarrow> real" where
  "exact n d e = real n / real d * 2 powi e"

lemma powi_split: "(2::real) powi e = 2 powi t * (2 ^ nat (e - t) / 2 ^ nat (t - e))"
proof (cases "t \<le> e")
  case True
  then have "(2::real) powi e = 2 powi (t + int (nat (e - t)))" by simp
  also have "\<dots> = 2 powi t * 2 ^ nat (e - t)"
    by (subst power_int_add) (simp_all only: power_int_of_nat, simp)
  finally show ?thesis using True by simp
next
  case False
  then have "(2::real) powi t = 2 powi (e + int (nat (t - e)))" by simp
  also have "\<dots> = 2 powi e * 2 ^ nat (t - e)"
    by (subst power_int_add) (simp_all only: power_int_of_nat, simp)
  finally show ?thesis using False by simp
qed

lemma scaled_eq:
  "real (n * 2 ^ nat (e - t)) / real (d * 2 ^ nat (t - e)) * 2 powi t = exact n d e"
  unfolding exact_def by (subst powi_split [of e t]) simp

lemma scaled_le_iff:
  assumes "0 < d"
  shows "k * (d * 2 ^ nat (t - e)) \<le> n * 2 ^ nat (e - t) \<longleftrightarrow> real k * 2 powi t \<le> exact n d e"
proof -
  let ?N = "n * 2 ^ nat (e - t)" and ?D = "d * 2 ^ nat (t - e)"
  have D: "0 < real ?D" using assms by simp
  have "k * ?D \<le> ?N \<longleftrightarrow> real k * real ?D \<le> real ?N"
    by (metis of_nat_le_iff of_nat_mult)
  also have "\<dots> \<longleftrightarrow> real k \<le> real ?N / real ?D"
    using D by (simp add: pos_le_divide_eq)
  also have "\<dots> \<longleftrightarrow> real k * 2 powi t \<le> real ?N / real ?D * 2 powi t"
    by (rule mult_le_cancel_right_pos [symmetric]) simp
  finally show ?thesis by (simp only: scaled_eq)
qed

lemma div_rne_ge: "0 < D \<Longrightarrow> k * D \<le> N \<Longrightarrow> k \<le> div_rne N D"
proof -
  assume D: "0 < D" and k: "k * D \<le> N"
  then have "k \<le> N div D" by (simp add: less_eq_div_iff_mult_less_eq)
  then show "k \<le> div_rne N D" by (simp add: div_rne_def Let_def)
qed

lemma div_rne_le: "0 < D \<Longrightarrow> N \<le> k * D \<Longrightarrow> div_rne N D \<le> k"
proof -
  assume D: "0 < D" and k: "N \<le> k * D"
  show "div_rne N D \<le> k"
  proof (cases "N = k * D")
    case True
    then show ?thesis using D by (simp add: div_rne_def Let_def)
  next
    case False
    with k have "N < k * D" by simp
    then have "N div D < k" using D by (simp add: div_less_iff_less_mult)
    then show ?thesis by (simp add: div_rne_def Let_def)
  qed
qed

lemma div_rne_near:
  assumes "0 < D"
  shows "\<bar>real (div_rne N D) - real N / real D\<bar> \<le> 1 / 2"
proof -
  define q r where "q = N div D" and "r = N mod D"
  have N: "real N = real q * real D + real r"
    unfolding q_def r_def by (metis div_mult_mod_eq of_nat_add of_nat_mult)
  have x: "real N / real D = real q + real r / real D"
    using assms by (simp add: N field_simps)
  have rD: "real r < real D" using assms by (simp add: r_def)
  show ?thesis
  proof (cases "D < 2 * r \<or> (D = 2 * r \<and> odd q)")
    case True
    then have "D \<le> 2 * r" by auto
    then have "real D \<le> 2 * real r" by linarith
    then have "1 / 2 \<le> real r / real D" "real r / real D \<le> 1"
      using assms rD by (simp_all add: field_simps)
    moreover from True have "div_rne N D = q + 1"
      by (auto simp: div_rne_def q_def r_def Let_def)
    ultimately show ?thesis by (simp add: x)
  next
    case False
    then have "2 * r \<le> D" by auto
    then have "2 * real r \<le> real D" by linarith
    then have "real r / real D \<le> 1 / 2" "0 \<le> real r / real D"
      using assms by (simp_all add: field_simps)
    moreover from False have "div_rne N D = q"
      by (auto simp: div_rne_def q_def r_def Let_def)
    ultimately show ?thesis by (simp add: x)
  qed
qed

lemma exact_pos: "0 < n \<Longrightarrow> 0 < d \<Longrightarrow> 0 < exact n d e"
  by (simp add: exact_def)

lemma exact_bitlen:
  assumes "0 < n" "0 < d"
  shows "2 powi (e + int (bitlen n) - int (bitlen d) - 1) \<le> exact n d e"
    and "exact n d e < 2 powi (e + int (bitlen n) - int (bitlen d) + 1)"
proof -
  define B C where "B = int (bitlen n)" and "C = int (bitlen d)"
  have n: "2 powi (B - 1) \<le> real n" "real n < 2 powi B"
    using bitlen_real [OF assms(1)] by (simp_all add: B_def)
  have d: "2 powi (C - 1) \<le> real d" "real d < 2 powi C"
    using bitlen_real [OF assms(2)] by (simp_all add: C_def)
  have d0: "0 < real d" using assms(2) by simp
  have "2 powi (B - 1) / 2 powi C \<le> real n / real d"
    using n(1) d(2) d0 by (intro frac_le) auto
  moreover have "(2::real) powi (B - 1) / 2 powi C = 2 powi (B - 1 - C)"
    by (simp add: power_int_diff)
  ultimately have "2 powi (B - 1 - C) * 2 powi e \<le> exact n d e"
    unfolding exact_def by (intro mult_right_mono) simp_all
  then show "2 powi (e + int (bitlen n) - int (bitlen d) - 1) \<le> exact n d e"
    by (simp add: power_int_add [symmetric] B_def C_def algebra_simps)
  have "real n / real d < 2 powi B / 2 powi (C - 1)"
    using n(2) d(1) d0 by (intro frac_less) auto
  moreover have "(2::real) powi B / 2 powi (C - 1) = 2 powi (B - C + 1)"
    by (simp add: power_int_diff power_int_add)
  ultimately have "exact n d e < 2 powi (B - C + 1) * 2 powi e"
    unfolding exact_def by (intro mult_strict_right_mono) simp_all
  then show "exact n d e < 2 powi (e + int (bitlen n) - int (bitlen d) + 1)"
    by (simp add: power_int_add [symmetric] B_def C_def algebra_simps)
qed

lemma powi_num_shift: "(2::real) ^ k * 2 powi t = 2 powi (t + int k)"
  by (simp add: power_int_add)

lemma unit_exp_min: "-1074 \<le> unit_exp n d e"
  by (simp add: unit_exp_def Let_def)

lemma unit_exp_bounds:
  assumes "0 < n" "0 < d"
  shows "exact n d e < 2 ^ 53 * 2 powi unit_exp n d e"
    and "unit_exp n d e = -1074 \<or> 2 ^ 52 * 2 powi unit_exp n d e \<le> exact n d e"
proof -
  define t where "t = e + int (bitlen n) - int (bitlen d) - 53"
  define u where "u = (if 2 ^ 53 * (d * 2 ^ nat (t - e)) \<le> n * 2 ^ nat (e - t) then t + 1 else t)"
  have ue: "unit_exp n d e = max u (-1074)"
    by (simp add: unit_exp_def u_def t_def Let_def)
  have lo: "2 powi (t + 52) \<le> exact n d e" and hi: "exact n d e < 2 powi (t + 54)"
    using exact_bitlen [OF assms, of e] by (simp_all add: t_def algebra_simps)
  have c: "2 ^ 53 * (d * 2 ^ nat (t - e)) \<le> n * 2 ^ nat (e - t)
      \<longleftrightarrow> 2 powi (t + 53) \<le> exact n d e"
    using scaled_le_iff [OF assms(2), of "2 ^ 53" t e n]
    by (simp add: power_int_add mult.commute)
  have u: "2 powi (u + 52) \<le> exact n d e \<and> exact n d e < 2 powi (u + 53)"
    using lo hi c by (auto simp: u_def algebra_simps)
  have "exact n d e < 2 powi (max u (-1074) + 53)"
    using u by (smt (verit) power_int_mono_iff power_int_increasing)
  then show "exact n d e < 2 ^ 53 * 2 powi unit_exp n d e"
    by (simp add: ue power_int_add mult.commute)
  show "unit_exp n d e = -1074 \<or> 2 ^ 52 * 2 powi unit_exp n d e \<le> exact n d e"
  proof (cases "u \<le> -1074")
    case True
    then show ?thesis by (simp add: ue)
  next
    case False
    then have "unit_exp n d e = u" by (simp add: ue)
    then show ?thesis using u by (simp add: power_int_add mult.commute)
  qed
qed

text \<open>
  \<open>rnd_parts\<close>: the shape of a rounded value. With \<open>t\<close> the unit exponent and \<open>q\<close>
  the rounded quotient, the result is \<open>q * 2^t\<close>, and comparisons of the exact value with
  a multiple of \<open>2^t\<close> carry over to \<open>q\<close>.
\<close>

lemma rnd_parts:
  assumes "0 < n" "0 < d"
  obtains q t where "rnd s n d e = mk_fin s q t" "t = unit_exp n d e"
    "\<And>k. real k * 2 powi t \<le> exact n d e \<Longrightarrow> k \<le> q"
    "\<And>k. exact n d e \<le> real k * 2 powi t \<Longrightarrow> q \<le> k"
    "\<bar>real q * 2 powi t - exact n d e\<bar> \<le> 2 powi t / 2"
proof -
  define t where "t = unit_exp n d e"
  define N D where "N = n * 2 ^ nat (e - t)" and "D = d * 2 ^ nat (t - e)"
  have D: "0 < D" using assms(2) by (simp add: D_def)
  show ?thesis
  proof (rule that [of "div_rne N D" t])
    show "rnd s n d e = mk_fin s (div_rne N D) t"
      using assms(1) by (simp add: rnd_def t_def N_def D_def Let_def)
    show "t = unit_exp n d e" by (rule t_def)
  next
    fix k assume "real k * 2 powi t \<le> exact n d e"
    then have "k * D \<le> N"
      using scaled_le_iff [OF assms(2)] by (simp add: N_def D_def)
    then show "k \<le> div_rne N D" by (rule div_rne_ge [OF D])
  next
    fix k assume le: "exact n d e \<le> real k * 2 powi t"
    have "real N / real D * 2 powi t \<le> real k * 2 powi t"
      unfolding N_def D_def scaled_eq by (rule le)
    then have "real N / real D \<le> real k"
      by (simp only: mult_le_cancel_right_pos zero_less_power_int zero_less_numeral)
    then have "real N \<le> real (k * D)" using D by (simp add: pos_divide_le_eq)
    then have "N \<le> k * D" by (simp only: of_nat_le_iff)
    then show "div_rne N D \<le> k" by (rule div_rne_le [OF D])
  next
    have "\<bar>real (div_rne N D) - real N / real D\<bar> * 2 powi t \<le> 1 / 2 * 2 powi t"
      using div_rne_near [OF D, of N] by (intro mult_right_mono) auto
    moreover have "\<bar>real (div_rne N D) - real N / real D\<bar> * 2 powi t
        = \<bar>real (div_rne N D) * 2 powi t - exact n d e\<bar>"
      unfolding scaled_eq [of n e t d, symmetric] N_def [symmetric] D_def [symmetric]
      by (simp only: left_diff_distrib [symmetric] abs_mult) simp
    ultimately show "\<bar>real (div_rne N D) * 2 powi t - exact n d e\<bar> \<le> 2 powi t / 2"
      by simp
  qed
qed

lemma unit_exp_quot:
  assumes "0 < n" "0 < d" "t = unit_exp n d e"
    and ge: "\<And>k. real k * 2 powi t \<le> exact n d e \<Longrightarrow> k \<le> q"
    and le: "\<And>k. exact n d e \<le> real k * 2 powi t \<Longrightarrow> q \<le> k"
  shows "q \<le> 2 ^ 53" "t = -1074 \<or> 2 ^ 52 \<le> q"
proof -
  show "q \<le> 2 ^ 53"
    using unit_exp_bounds(1) [OF assms(1,2), of e] by (intro le) (simp add: assms(3))
  show "t = -1074 \<or> 2 ^ 52 \<le> q"
    using unit_exp_bounds(2) [OF assms(1,2), of e] ge [of "2 ^ 52"] by (auto simp: assms(3))
qed

lemma dval_mk_fin:
  "is_fin (mk_fin s q t) \<Longrightarrow>
   dval (mk_fin s q t) = (if s then - (real q * 2 powi t) else real q * 2 powi t)"
  by (auto simp: mk_fin_def power_int_add)

lemma dvalid_mk_fin:
  "q \<le> 2 ^ 53 \<Longrightarrow> -1074 \<le> t \<Longrightarrow> t = -1074 \<or> 2 ^ 52 \<le> q \<Longrightarrow> dvalid (mk_fin s q t)"
  by (auto simp: mk_fin_def)

lemma dvalid_rnd: "0 < d \<Longrightarrow> dvalid (rnd s n d e)"
proof (cases "n = 0")
  case True
  then show ?thesis by (simp add: rnd_def)
next
  case False
  assume d: "0 < d"
  from False have n: "0 < n" by simp
  obtain q t where "rnd s n d e = mk_fin s q t" "t = unit_exp n d e"
    and b: "\<And>k. real k * 2 powi t \<le> exact n d e \<Longrightarrow> k \<le> q"
      "\<And>k. exact n d e \<le> real k * 2 powi t \<Longrightarrow> q \<le> k"
    by (rule rnd_parts [OF n d, where s = s and e = e]) blast
  with unit_exp_quot [OF n d, of t e q] unit_exp_min [of n d e] show ?thesis
    by (auto intro!: dvalid_mk_fin)
qed

text \<open>Whatever the operands, the result of an operation is a double.\<close>

lemma dadd_valid: "dvalid (dadd x y)"
  by (cases "(x, y)" rule: dadd.cases) (auto simp: Let_def dvalid_rnd)

lemma dmul_valid: "dvalid (dmul x y)"
  by (cases "(x, y)" rule: dmul.cases) (auto simp: dvalid_rnd)

lemma ddiv_valid: "dvalid (ddiv x y)"
  by (cases "(x, y)" rule: ddiv.cases) (auto simp: dvalid_rnd)

lemma conversions_valid: "dvalid (d_of_nat n)" "dvalid (d_of_int i)"
  by (simp_all add: d_of_nat_def d_of_int_def dvalid_rnd)

lemmas valid_ops = dadd_valid dmul_valid ddiv_valid conversions_valid

section \<open>Rounding respects every representable bound\<close>

lemma powi_mult_diff: "ey = t + int k \<Longrightarrow> real m * 2 powi ey = real (m * 2 ^ k) * 2 powi t"
  by (simp add: power_int_add)

lemma rnd_le_repr:
  assumes n: "0 < n" and d: "0 < d" and y: "dvalid (DFin sy m ey)"
    and le: "exact n d e \<le> real m * 2 powi ey"
  shows "is_fin (rnd s n d e) \<and> \<bar>dval (rnd s n d e)\<bar> \<le> real m * 2 powi ey"
proof -
  obtain q t where r: "rnd s n d e = mk_fin s q t" and t: "t = unit_exp n d e"
    and b: "\<And>k. real k * 2 powi t \<le> exact n d e \<Longrightarrow> k \<le> q"
      "\<And>k. exact n d e \<le> real k * 2 powi t \<Longrightarrow> q \<le> k"
    by (rule rnd_parts [OF n d, where s = s and e = e]) blast
  have q: "q \<le> 2 ^ 53" "t = -1074 \<or> 2 ^ 52 \<le> q"
    using unit_exp_quot [OF n d t b] by auto
  have ge: "t \<le> ey"
  proof (rule ccontr)
    assume "\<not> t \<le> ey"
    with y have "t \<noteq> -1074" by auto
    then have "2 ^ 52 * 2 powi t \<le> exact n d e"
      using unit_exp_bounds(2) [OF n d, of e] t by simp
    also have "\<dots> \<le> real m * 2 powi ey" by (rule le)
    also have "\<dots> < 2 ^ 53 * 2 powi ey"
      using y by (intro mult_strict_right_mono) auto
    also have "\<dots> \<le> 2 ^ 53 * 2 powi (t - 1)"
      using \<open>\<not> t \<le> ey\<close> by (intro mult_left_mono power_int_increasing) auto
    also have "\<dots> = 2 ^ 52 * 2 powi t" by (simp add: power_int_diff)
    finally show False by simp
  qed
  define k where "k = m * 2 ^ nat (ey - t)"
  have k: "real m * 2 powi ey = real k * 2 powi t"
    unfolding k_def using ge by (intro powi_mult_diff) simp
  have qk: "q \<le> k" using b(2) le k by simp
  have "t \<le> 971" using ge y by simp
  moreover have "t \<noteq> 971" if "q = 2 ^ 53"
  proof
    assume "t = 971"
    with ge y have "ey = t" by simp
    with k_def have "k = m" by simp
    with qk that y show False by simp
  qed
  ultimately have fin: "is_fin (mk_fin s q t)"
    by (auto simp: mk_fin_def)
  have "\<bar>dval (mk_fin s q t)\<bar> = real q * 2 powi t"
    using dval_mk_fin [OF fin] by simp
  also have "\<dots> \<le> real k * 2 powi t"
    using qk by (intro mult_right_mono) auto
  finally show ?thesis using fin r k by simp
qed

lemma rnd_ge_repr:
  assumes n: "0 < n" and d: "0 < d" and y: "dvalid (DFin sy m ey)"
    and le: "real m * 2 powi ey \<le> exact n d e" and fin: "is_fin (rnd s n d e)"
  shows "real m * 2 powi ey \<le> \<bar>dval (rnd s n d e)\<bar>"
proof -
  obtain q t where r: "rnd s n d e = mk_fin s q t" and t: "t = unit_exp n d e"
    and b: "\<And>k. real k * 2 powi t \<le> exact n d e \<Longrightarrow> k \<le> q"
      "\<And>k. exact n d e \<le> real k * 2 powi t \<Longrightarrow> q \<le> k"
    by (rule rnd_parts [OF n d, where s = s and e = e]) blast
  have q: "t = -1074 \<or> 2 ^ 52 \<le> q"
    using unit_exp_quot [OF n d t b] by auto
  have "real m * 2 powi ey \<le> real q * 2 powi t"
  proof (cases "t \<le> ey")
    case True
    define k where "k = m * 2 ^ nat (ey - t)"
    have k: "real m * 2 powi ey = real k * 2 powi t"
      unfolding k_def using True by (intro powi_mult_diff) simp
    have "k \<le> q" using b(1) le k by simp
    then show ?thesis unfolding k by (intro mult_right_mono) auto
  next
    case False
    with y q have "2 ^ 52 \<le> q" by auto
    have "real m * 2 powi ey \<le> 2 ^ 53 * 2 powi ey"
      using y by (intro mult_right_mono) auto
    also have "\<dots> \<le> 2 ^ 53 * 2 powi (t - 1)"
      using False by (intro mult_left_mono power_int_increasing) auto
    also have "\<dots> = real (2 ^ 52) * 2 powi t" by (simp add: power_int_diff)
    also have "\<dots> \<le> real q * 2 powi t"
      using \<open>2 ^ 52 \<le> q\<close> by (intro mult_right_mono) (auto simp only: of_nat_le_iff, simp)
    finally show ?thesis .
  qed
  moreover have "\<bar>dval (rnd s n d e)\<bar> = real q * 2 powi t"
    using dval_mk_fin [of s q t] fin r by simp
  ultimately show ?thesis by simp
qed

text \<open>A representable exact value is rounded to itself.\<close>

lemma rnd_exact:
  assumes "0 < d" and y: "dvalid (DFin s m ey)"
    and eq: "exact n d e = real m * 2 powi ey"
  shows "is_fin (rnd s n d e)" "\<bar>dval (rnd s n d e)\<bar> = real m * 2 powi ey"
proof -
  have "is_fin (rnd s n d e) \<and> \<bar>dval (rnd s n d e)\<bar> = real m * 2 powi ey"
  proof (cases "n = 0")
    case True
    then show ?thesis using eq by (simp add: rnd_def exact_def)
  next
    case False
    then have n: "0 < n" by simp
    show ?thesis
      using rnd_le_repr [OF n assms(1) y, of e s] rnd_ge_repr [OF n assms(1) y, of e s] eq
      by simp
  qed
  then show "is_fin (rnd s n d e)" "\<bar>dval (rnd s n d e)\<bar> = real m * 2 powi ey" by auto
qed

lemma dval_rnd_sign: "(if s then dval (rnd s n d e) \<le> 0 else 0 \<le> dval (rnd s n d e))"
  by (auto simp: rnd_def mk_fin_def Let_def)

section \<open>Operations round the exact result\<close>

text \<open>
  \<open>rounds_to S r\<close>: \<open>r\<close> is a correct rounding of the real number \<open>S\<close> as far as order is
  concerned: a representable bound of \<open>S\<close> is a bound of \<open>r\<close>, and no NaN appears.
\<close>

definition rounds_to :: "real \<Rightarrow> double \<Rightarrow> bool" where
  "rounds_to S r \<longleftrightarrow> dvalid r \<and> r \<noteq> DNaN \<and>
     (\<forall>c. dvalid c \<and> is_fin c \<and> S \<le> dval c \<longrightarrow> r = DInf True \<or> is_fin r \<and> dval r \<le> dval c) \<and>
     (\<forall>c. dvalid c \<and> is_fin c \<and> dval c \<le> S \<longrightarrow> r = DInf False \<or> is_fin r \<and> dval c \<le> dval r)"

lemma is_fin_iff: "is_fin x \<longleftrightarrow> (\<exists>s m e. x = DFin s m e)"
  by (cases x) auto

lemma is_finE:
  assumes "is_fin x" obtains s m e where "x = DFin s m e"
  using assms by (auto simp: is_fin_iff)

lemma rnd_not_fin: "\<not> is_fin (rnd s n d e) \<Longrightarrow> rnd s n d e = DInf s"
  by (auto simp: rnd_def mk_fin_def Let_def split: if_splits)

lemma exact_nonneg: "0 \<le> exact n d e"
  by (simp add: exact_def)

lemma abs_dval: "\<bar>dval (DFin s m e)\<bar> = real m * 2 powi e"
  by simp

lemma rnd_mag_le:
  assumes "0 < n" "0 < d" "dvalid c" "is_fin c" "exact n d e \<le> \<bar>dval c\<bar>"
  shows "is_fin (rnd s n d e) \<and> \<bar>dval (rnd s n d e)\<bar> \<le> \<bar>dval c\<bar>"
  using assms(3-5) rnd_le_repr [OF assms(1,2), of _ _ _ e s] unfolding is_fin_iff
  by (metis abs_dval)

lemma rnd_mag_ge:
  assumes "0 < n" "0 < d" "dvalid c" "is_fin c" "\<bar>dval c\<bar> \<le> exact n d e"
    and "is_fin (rnd s n d e)"
  shows "\<bar>dval c\<bar> \<le> \<bar>dval (rnd s n d e)\<bar>"
  using assms(3-6) rnd_ge_repr [OF assms(1,2), of _ _ _ e s] unfolding is_fin_iff
  by (metis abs_dval)

lemma rounds_to_rnd:
  assumes d: "0 < d"
  shows "rounds_to (if s then - exact n d e else exact n d e) (rnd s n d e)"
proof (cases "n = 0")
  case True
  then show ?thesis by (auto simp: rounds_to_def rnd_def exact_def)
next
  case False
  then have n: "0 < n" by simp
  let ?r = "rnd s n d e"
  note A = exact_pos [OF n d, of e] and le = rnd_mag_le [OF n d, of _ e s]
    and ge = rnd_mag_ge [OF n d, of _ e s] and sgn = dval_rnd_sign [of s n d e]
    and inf = rnd_not_fin [of s n d e]
  have up: "?r = DInf True \<or> is_fin ?r \<and> dval ?r \<le> dval c"
    if "dvalid c" "is_fin c" "(if s then - exact n d e else exact n d e) \<le> dval c" for c
    using that le [of c] ge [of c] A sgn inf by (cases s) (smt (verit))+
  have lo: "?r = DInf False \<or> is_fin ?r \<and> dval c \<le> dval ?r"
    if "dvalid c" "is_fin c" "dval c \<le> (if s then - exact n d e else exact n d e)" for c
    using that le [of c] ge [of c] A sgn inf by (cases s) (smt (verit))+
  have "?r \<noteq> DNaN" using inf by (cases ?r) auto
  with up lo dvalid_rnd [OF d] show ?thesis by (auto simp: rounds_to_def)
qed

lemma smant_scale:
  "e \<le> e1 \<Longrightarrow> real_of_int (smant s m * 2 ^ nat (e1 - e)) * 2 powi e = dval (DFin s m e1)"
  using powi_mult_diff [of e1 e "nat (e1 - e)" m] by (auto simp: smant_def)

lemma dadd_rounds:
  assumes "is_fin x" "is_fin y"
  shows "rounds_to (dval x + dval y) (dadd x y)"
proof -
  obtain s1 m1 e1 where x: "x = DFin s1 m1 e1" using assms(1) by (rule is_finE)
  obtain s2 m2 e2 where y: "y = DFin s2 m2 e2" using assms(2) by (rule is_finE)
  define e where "e = min e1 e2"
  define z where "z = smant s1 m1 * 2 ^ nat (e1 - e) + smant s2 m2 * 2 ^ nat (e2 - e)"
  have sum: "real_of_int z * 2 powi e = dval x + dval y"
    using smant_scale [of e e1 s1 m1] smant_scale [of e e2 s2 m2]
    by (simp add: z_def e_def x y distrib_right)
  have r: "dadd x y = (if z = 0 then DFin (s1 \<and> s2) 0 (-1074) else rnd (z < 0) (nat \<bar>z\<bar>) 1 e)"
    by (simp add: x y z_def e_def Let_def)
  show ?thesis
  proof (cases "z = 0")
    case True
    then have "dval x + dval y = 0" using sum by simp
    then show ?thesis using True r by (auto simp: rounds_to_def)
  next
    case False
    have "(if z < 0 then - exact (nat \<bar>z\<bar>) 1 e else exact (nat \<bar>z\<bar>) 1 e) = real_of_int z * 2 powi e"
      by (auto simp: exact_def)
    then show ?thesis
      using rounds_to_rnd [of 1 "z < 0" "nat \<bar>z\<bar>" e] False sum r by simp
  qed
qed

lemma dval_duminus [simp]: "is_fin x \<Longrightarrow> dval (duminus x) = - dval x"
  by (auto simp: is_fin_iff)

lemma is_fin_duminus [simp]: "is_fin (duminus x) = is_fin x"
  by (cases x) auto

lemma dsub_rounds:
  "is_fin x \<Longrightarrow> is_fin y \<Longrightarrow> rounds_to (dval x - dval y) (dsub x y)"
  using dadd_rounds [of x "duminus y"] by (simp add: dsub_def)

lemma dmul_rounds:
  assumes "is_fin x" "is_fin y"
  shows "rounds_to (dval x * dval y) (dmul x y)"
proof -
  obtain s1 m1 e1 where x: "x = DFin s1 m1 e1" using assms(1) by (rule is_finE)
  obtain s2 m2 e2 where y: "y = DFin s2 m2 e2" using assms(2) by (rule is_finE)
  have "(if s1 \<noteq> s2 then - exact (m1 * m2) 1 (e1 + e2) else exact (m1 * m2) 1 (e1 + e2))
      = dval x * dval y"
    by (simp add: x y exact_def power_int_add)
  then show ?thesis using rounds_to_rnd [of 1 "s1 \<noteq> s2" "m1 * m2" "e1 + e2"] by (simp add: x y)
qed

lemma ddiv_rounds:
  assumes "is_fin x" "is_fin y" "dval y \<noteq> 0"
  shows "rounds_to (dval x / dval y) (ddiv x y)"
proof -
  obtain s1 m1 e1 where x: "x = DFin s1 m1 e1" using assms(1) by (rule is_finE)
  obtain s2 m2 e2 where y: "y = DFin s2 m2 e2" using assms(2) by (rule is_finE)
  have m2: "0 < m2" using assms(3) y by (cases "m2 = 0") (auto split: if_splits)
  have "(if s1 \<noteq> s2 then - exact m1 m2 (e1 - e2) else exact m1 m2 (e1 - e2)) = dval x / dval y"
    by (simp add: x y exact_def power_int_diff)
  then show ?thesis using rounds_to_rnd [of m2 "s1 \<noteq> s2" m1 "e1 - e2"] m2 by (simp add: x y)
qed

lemma d_of_nat_rounds: "rounds_to (real n) (d_of_nat n)"
  using rounds_to_rnd [of 1 False n 0] by (simp add: d_of_nat_def exact_def)

section \<open>Reading off results\<close>

lemma rounds_to_le:
  "rounds_to S r \<Longrightarrow> dvalid c \<Longrightarrow> is_fin c \<Longrightarrow> S \<le> dval c \<Longrightarrow>
   r = DInf True \<or> is_fin r \<and> dval r \<le> dval c"
  by (simp add: rounds_to_def)

lemma rounds_to_ge:
  "rounds_to S r \<Longrightarrow> dvalid c \<Longrightarrow> is_fin c \<Longrightarrow> dval c \<le> S \<Longrightarrow>
   r = DInf False \<or> is_fin r \<and> dval c \<le> dval r"
  by (simp add: rounds_to_def)

lemma rounds_to_between:
  assumes "rounds_to S r" "dvalid a" "is_fin a" "dval a \<le> S" "dvalid b" "is_fin b" "S \<le> dval b"
  shows "is_fin r \<and> dval a \<le> dval r \<and> dval r \<le> dval b"
  using rounds_to_ge [OF assms(1-4)] rounds_to_le [OF assms(1,5-7)] by auto

lemma rounds_to_exact:
  "rounds_to (dval c) r \<Longrightarrow> dvalid c \<Longrightarrow> is_fin c \<Longrightarrow> is_fin r \<and> dval r = dval c"
  using rounds_to_between [of "dval c" r c c] by auto

lemma rounds_to_valid: "rounds_to S r \<Longrightarrow> dvalid r"
  by (simp add: rounds_to_def)

lemma rounds_to_not_NaN: "rounds_to S r \<Longrightarrow> r \<noteq> DNaN"
  by (simp add: rounds_to_def)

lemma fin_compare:
  assumes "is_fin x" "is_fin y"
  shows "dlt x y \<longleftrightarrow> dval x < dval y" "deq x y \<longleftrightarrow> dval x = dval y" "dle x y \<longleftrightarrow> dval x \<le> dval y"
proof -
  obtain s1 m1 e1 where x: "x = DFin s1 m1 e1" using assms(1) by (rule is_finE)
  obtain s2 m2 e2 where y: "y = DFin s2 m2 e2" using assms(2) by (rule is_finE)
  define e where "e = min e1 e2"
  define a b where "a = smant s1 m1 * 2 ^ nat (e1 - e)" and "b = smant s2 m2 * 2 ^ nat (e2 - e)"
  have a: "real_of_int a * 2 powi e = dval x"
    unfolding a_def x by (rule smant_scale) (simp add: e_def)
  have b: "real_of_int b * 2 powi e = dval y"
    unfolding b_def y by (rule smant_scale) (simp add: e_def)
  have p: "(0::real) < 2 powi e" by simp
  have "dlt x y \<longleftrightarrow> a < b" by (simp add: x y a_def b_def e_def Let_def)
  also have "\<dots> \<longleftrightarrow> real_of_int a * 2 powi e < real_of_int b * 2 powi e" using p by simp
  finally show lt: "dlt x y \<longleftrightarrow> dval x < dval y" by (simp add: a b)
  have "deq x y \<longleftrightarrow> a = b" by (simp add: x y a_def b_def e_def Let_def)
  also have "\<dots> \<longleftrightarrow> real_of_int a * 2 powi e = real_of_int b * 2 powi e" using p by simp
  finally show eq: "deq x y \<longleftrightarrow> dval x = dval y" by (simp add: a b)
  show "dle x y \<longleftrightarrow> dval x \<le> dval y" using lt eq by (auto simp: dle_def)
qed

section \<open>Integers are counted exactly up to \<open>2^53\<close>\<close>

text \<open>The canonical form of a natural number that fits the significand.\<close>

lemma repr_nat:
  assumes "n \<le> 2 ^ 53"
  obtains c where "is_fin c" "dvalid c" "dval c = real n"
proof (cases "n = 0")
  case True
  then show ?thesis using that [of dzero] by (simp add: dzero_def)
next
  case False
  then have n: "0 < n" by simp
  show ?thesis
  proof (cases "n = 2 ^ 53")
    case True
    then show ?thesis using that [of "DFin False (2 ^ 52) 1"] by simp
  next
    case False
    with assms have lt: "n < 2 ^ 53" by simp
    define k where "k = 53 - bitlen n"
    have "bitlen n \<le> 53"
    proof (rule ccontr)
      assume "\<not> bitlen n \<le> 53"
      then have "(2::nat) ^ 53 \<le> 2 ^ (bitlen n - 1)" by (intro power_increasing) auto
      with bitlen_bounds [OF n] lt show False by simp
    qed
    then have k: "k + bitlen n = 53" by (simp add: k_def)
    have "n * 2 ^ k < 2 ^ bitlen n * 2 ^ k"
      using bitlen_bounds [OF n] by simp
    then have hi: "n * 2 ^ k < 2 ^ 53" using k by (simp add: power_add [symmetric] add.commute)
    have "2 ^ (bitlen n - 1) * 2 ^ k \<le> n * 2 ^ k"
      using bitlen_bounds [OF n] by simp
    moreover have "bitlen n - 1 + k = 52" using k bitlen_pos [OF n] by simp
    ultimately have lo: "2 ^ 52 \<le> n * 2 ^ k" by (metis power_add)
    have "k \<le> 53" by (simp add: k_def)
    then show ?thesis
      using that [of "DFin False (n * 2 ^ k) (- int k)"] hi lo
      by (simp add: power_int_minus)
  qed
qed

lemma d_of_nat_exact:
  assumes "n \<le> 2 ^ 53"
  shows "is_fin (d_of_nat n) \<and> dval (d_of_nat n) = real n"
proof -
  obtain c where c: "is_fin c" "dvalid c" "dval c = real n" using assms by (rule repr_nat)
  show ?thesis using rounds_to_exact [of c "d_of_nat n"] c d_of_nat_rounds [of n] by simp
qed

lemma dadd_exact_nat:
  assumes "is_fin x" "is_fin y" "dval x + dval y = real n" "n \<le> 2 ^ 53"
  shows "is_fin (dadd x y) \<and> dval (dadd x y) = real n"
proof -
  obtain c where c: "is_fin c" "dvalid c" "dval c = real n" using assms(4) by (rule repr_nat)
  show ?thesis
    using rounds_to_exact [of c "dadd x y"] c dadd_rounds [OF assms(1,2)] assms(3) by simp
qed

definition d_one :: double where   \<comment> \<open>the literal \<open>1.0\<close>\<close>
  "d_one = DFin False (2 ^ 52) (-52)"

lemma d_one [simp]: "dval d_one = 1" "is_fin d_one" "dvalid d_one" "d_one \<noteq> DNaN"
    "\<not> dlt d_one dzero"
  by (simp_all add: d_one_def power_int_minus dzero_def smant_def)

lemma dzero [simp]: "dval dzero = 0" "is_fin dzero" "dvalid dzero" "dzero \<noteq> DNaN"
    "\<not> dlt dzero dzero"
  by (simp_all add: dzero_def)

lemma not_DInf [simp]: "dzero \<noteq> DInf s" "d_one \<noteq> DInf s"
  by (simp_all add: dzero_def d_one_def)

section \<open>Adding a non-negative amount never decreases\<close>

lemma dadd_mono:
  assumes x: "dvalid x" "x \<noteq> DNaN" and y: "dvalid y" "y \<noteq> DNaN" "\<not> dlt y dzero"
    and inf: "\<not> (x = DInf True \<and> y = DInf False)"
  shows "dle x (dadd x y)"
proof (cases "is_fin x \<and> is_fin y")
  case True
  then have "0 \<le> dval y" using y(3) fin_compare(1) [of y dzero] by (simp add: dzero_def)
  then have "dval x \<le> dval x + dval y" by simp
  from rounds_to_ge [OF dadd_rounds x(1) _ this] True
  have "dadd x y = DInf False \<or> is_fin (dadd x y) \<and> dval x \<le> dval (dadd x y)" by simp
  then show ?thesis
  proof
    assume "dadd x y = DInf False"
    then show ?thesis using True by (auto simp: dle_def is_fin_iff)
  next
    assume "is_fin (dadd x y) \<and> dval x \<le> dval (dadd x y)"
    then show ?thesis using True fin_compare(3) by simp
  qed
next
  case False
  then show ?thesis using x y inf
    by (cases x; cases y) (auto simp: dle_def dzero_def)
qed

section \<open>Conversion of large integers is monotone\<close>

lemma repr_pow2: "k \<le> 971 \<Longrightarrow> dvalid (DFin False (2 ^ 52) (int k)) \<and> dval (DFin False (2 ^ 52) (int k)) = real (2 ^ (52 + k))"
  by (simp add: power_add)

lemma div_rne_mono: "N \<le> N' \<Longrightarrow> div_rne N D \<le> div_rne N' D"
proof -
  assume le: "N \<le> N'"
  then have q: "N div D \<le> N' div D" by (rule div_le_mono)
  show ?thesis
  proof (cases "N div D = N' div D")
    case True
    then have "N mod D \<le> N' mod D" using le div_mult_mod_eq [of N D] div_mult_mod_eq [of N' D] by (metis add_le_cancel_left)
    then show ?thesis using True by (auto simp: div_rne_def Let_def)
  qed (use q in \<open>auto simp: div_rne_def Let_def\<close>)
qed

lemma bitlen_mono: "m \<le> n \<Longrightarrow> bitlen m \<le> bitlen n"
proof (induction m arbitrary: n rule: bitlen.induct)
  case (1 m)
  show ?case
  proof (cases "m = 0")
    case True
    then show ?thesis by (simp add: bitlen.simps [of 0])
  next
    case False
    then have "bitlen (m div 2) \<le> bitlen (n div 2)" using "1" by (simp add: div_le_mono)
    then show ?thesis using False "1.prems" by (simp add: bitlen.simps [of m] bitlen.simps [of n])
  qed
qed

lemma bitlen_le: "n < 2 ^ k \<Longrightarrow> bitlen n \<le> k"
proof (rule ccontr)
  assume n: "n < 2 ^ k" and h: "\<not> bitlen n \<le> k"
  then have "0 < n" by (cases n) (auto simp: bitlen.simps [of 0])
  then have "2 ^ (bitlen n - 1) \<le> n" using bitlen_bounds by blast
  moreover have "(2::nat) ^ k \<le> 2 ^ (bitlen n - 1)" using h by (intro power_increasing) auto
  ultimately have "2 ^ k \<le> n" by (rule le_trans [rotated])
  then show False using n by simp
qed

lemma unit_exp_large:
  assumes "2 ^ 53 \<le> n"
  shows "unit_exp n 1 0 = int (bitlen n) - 53"
proof -
  have n: "0 < n" using assms by (rule less_le_trans [rotated]) simp
  have b: "54 \<le> bitlen n"
    using bitlen_mono [OF assms] by (simp add: bitlen_eval)
  have "(2::nat) ^ 53 * 2 ^ nat (int (bitlen n) - 54) = 2 ^ (53 + nat (int (bitlen n) - 54))"
    by (simp only: power_add)
  also have "53 + nat (int (bitlen n) - 54) = bitlen n - 1" using b by simp
  finally have "(2::nat) ^ 53 * 2 ^ nat (int (bitlen n) - 54) = 2 ^ (bitlen n - 1)" .
  then show ?thesis using b bitlen_bounds [OF n]
    by (simp add: unit_exp_def Let_def bitlen_eval)
qed

lemma d_of_nat_range:
  assumes "n < 2 ^ 64"
  shows "is_fin (d_of_nat n)" "0 \<le> dval (d_of_nat n)" "dvalid (d_of_nat n)"
proof -
  have "real n \<le> 2 ^ 64" using assms by (simp flip: of_nat_power)
  then have "is_fin (d_of_nat n) \<and> dval dzero \<le> dval (d_of_nat n) \<and> dval (d_of_nat n) \<le> dval (DFin False (2 ^ 52) 12)"
    by (intro rounds_to_between [OF d_of_nat_rounds]) simp_all
  then show "is_fin (d_of_nat n)" "0 \<le> dval (d_of_nat n)" by simp_all
  show "dvalid (d_of_nat n)" by (rule rounds_to_valid [OF d_of_nat_rounds])
qed

lemma d_of_nat_large:
  assumes "2 ^ 53 \<le> n" "n < 2 ^ 64"
  shows "dval (d_of_nat n) = real (div_rne n (2 ^ (bitlen n - 53))) * 2 ^ (bitlen n - 53)"
proof -
  have n: "n \<noteq> 0" using assms(1) by (metis not_numeral_le_zero of_nat_0 power_eq_0_iff le_zero_eq numeral_2_eq_2 nat.simps(3))
  have b: "53 \<le> bitlen n" using bitlen_mono [OF assms(1)] by (simp add: bitlen_eval)
  have f: "is_fin (d_of_nat n)" using d_of_nat_range [OF assms(2)] by simp
  have u: "unit_exp n 1 0 = int (bitlen n - 53)" using unit_exp_large [OF assms(1)] b by simp
  have "d_of_nat n = mk_fin False (div_rne n (2 ^ (bitlen n - 53))) (int (bitlen n - 53))"
    unfolding d_of_nat_def rnd_def Let_def u using n by simp
  then show ?thesis using f dval_mk_fin by (simp)
qed

lemma d_of_nat_mono:
  assumes "m \<le> n" "n < 2 ^ 64"
  shows "dval (d_of_nat m) \<le> dval (d_of_nat n)"
proof -
  have m: "m < 2 ^ 64" using assms by simp
  have split_at: "dval (d_of_nat m) \<le> dval (d_of_nat n)" if "m \<le> 2 ^ (52 + k)" "2 ^ (52 + k) \<le> n" "k \<le> 12" for k
  proof -
    have c: "dvalid (DFin False (2 ^ 52) (int k))" "dval (DFin False (2 ^ 52) (int k)) = real (2 ^ (52 + k))"
      using repr_pow2 [of k] that(3) by simp_all
    have "real m \<le> dval (DFin False (2 ^ 52) (int k))" "dval (DFin False (2 ^ 52) (int k)) \<le> real n"
      using that(1,2) unfolding c(2) of_nat_le_iff by simp_all
    then show ?thesis
      using rounds_to_le [OF d_of_nat_rounds c(1), of m] rounds_to_ge [OF d_of_nat_rounds c(1), of n]
        d_of_nat_range [OF assms(2)] d_of_nat_range [OF m] by auto
  qed
  consider (small) "n \<le> 2 ^ 53" | (mixed) "m \<le> 2 ^ 53" "2 ^ 53 \<le> n" | (large) "2 ^ 53 \<le> m" by linarith
  then show ?thesis
  proof cases
    case small
    then show ?thesis using d_of_nat_exact [of m] d_of_nat_exact [of n] assms(1) by simp
  next
    case mixed
    then show ?thesis using split_at [of 1] by simp
  next
    case large
    then have large2: "2 ^ 53 \<le> n" using assms(1) by simp
    have b: "54 \<le> bitlen m" using bitlen_mono [OF large] by (simp add: bitlen_eval)
    show ?thesis
    proof (cases "bitlen m = bitlen n")
      case True
      then show ?thesis
        using d_of_nat_large [OF large m] d_of_nat_large [OF large2 assms(2)] div_rne_mono [OF assms(1)] by simp
    next
      case False
      then have lt: "bitlen m < bitlen n" using bitlen_mono [OF assms(1)] by simp
      have pos: "0 < m" "0 < n" using b lt by (auto intro: Nat.gr0I simp: bitlen_eval)
      have "(2::nat) ^ bitlen m \<le> 2 ^ (bitlen n - 1)" using lt by (intro power_increasing) auto
      then have "2 ^ bitlen m \<le> n" by (rule le_trans) (use bitlen_bounds [OF pos(2)] in blast)
      moreover have "m < 2 ^ bitlen m" using bitlen_bounds [OF pos(1)] by simp
      moreover have "bitlen m < 64" using bitlen_le [OF assms(2)] lt by simp
      ultimately show ?thesis using split_at [of "bitlen m - 52"] b by simp
    qed
  qed
qed

text \<open>\<open>n\<close> of \<open>d\<close> as a percentage.\<close>

lemma percent_range:
  assumes "n \<le> d" "0 < d" "d < 2 ^ 64" and p: "p = dmul (ddiv (d_of_nat n) (d_of_nat d)) (d_of_nat 100)"
  shows "is_fin p \<and> 0 \<le> dval p \<and> dval p \<le> 100"
proof -
  let ?x = "d_of_nat n" and ?y = "d_of_nat d"
  have fin: "is_fin ?x" "is_fin ?y" using d_of_nat_range assms(1,3) by simp_all
  have le: "0 \<le> dval ?x" "dval ?x \<le> dval ?y" using d_of_nat_range(2) [of n] d_of_nat_mono [OF assms(1,3)] assms by simp_all
  have "1 \<le> dval ?y" using d_of_nat_mono [of 1 d] d_of_nat_exact [of 1] assms(2,3) by simp
  then have q: "0 \<le> dval ?x / dval ?y" "dval ?x / dval ?y \<le> 1" "dval ?y \<noteq> 0" using le by auto
  have "is_fin (ddiv ?x ?y) \<and> dval dzero \<le> dval (ddiv ?x ?y) \<and> dval (ddiv ?x ?y) \<le> dval d_one"
    using q by (intro rounds_to_between [OF ddiv_rounds [OF fin q(3)]]) simp_all
  then have d: "is_fin (ddiv ?x ?y)" "0 \<le> dval (ddiv ?x ?y)" "dval (ddiv ?x ?y) \<le> 1" by simp_all
  have h: "is_fin (d_of_nat 100)" "dval (d_of_nat 100) = 100" "dvalid (d_of_nat 100)"
    using d_of_nat_exact [of 100] d_of_nat_range(3) [of 100] by simp_all
  have "is_fin p \<and> dval dzero \<le> dval p \<and> dval p \<le> dval (d_of_nat 100)"
    unfolding p using d h by (intro rounds_to_between [OF dmul_rounds [OF d(1) h(1)]]) simp_all
  then show ?thesis using h by simp
qed

text \<open>Converting a value below 256 to \<open>unsigned char\<close> is defined and truncates.\<close>

lemma d_to_uchar_range:
  assumes "is_fin p" "0 \<le> dval p" "dval p < 256"
  shows "\<exists>b. d_to_uchar p = Some b \<and> real (unat b) \<le> dval p \<and> dval p < real (unat b) + 1"
proof -
  obtain s m e where p: "p = DFin s m e" using assms(1) by (rule is_finE)
  define k where "k = (if 0 \<le> e then m * 2 ^ nat e else m div 2 ^ nat (- e))"
  have pos: "(0::real) < 2 powi e" by simp
  have sgn0: "m = 0" if s using that assms(2) p pos by (simp add: mult_le_0_iff not_le)
  have mag: "dval p = real m * 2 powi e" using p sgn0 by auto
  have k: "real k \<le> dval p \<and> dval p < real k + 1"
  proof (cases "0 \<le> e")
    case True
    then have "real k = dval p" unfolding mag k_def by (simp add: power_int_def)
    then show ?thesis by simp
  next
    case False
    define D where "D = (2::nat) ^ nat (- e)"
    have "(2::real) powi e = 1 / real D"
      using False by (simp only: D_def power_int_def if_False of_nat_power of_nat_numeral divide_inverse mult_1 power_inverse)
    then have v: "dval p = real m / real D" using mag by simp
    have kD: "k = m div D" using False by (simp add: k_def D_def)
    have "real_of_int \<lfloor>real m / real D\<rfloor> = real k" by (simp add: kD floor_divide_of_nat_eq)
    then show ?thesis using floor_correct [of "real m / real D"] by (simp add: v)
  qed
  then have "k < 256" using assms(3) by linarith
  have t: "d_trunc p = Some (int k)" using p sgn0 by (auto simp: k_def smant_def Let_def)
  have "d_to_uchar p = Some (word_of_int (int k))" using t \<open>k < 256\<close> by (simp add: d_to_uchar_def)
  moreover have "unat (word_of_int (int k) :: u8) = k"
    using \<open>k < 256\<close> by (simp add: unat_of_nat take_bit_nat_eq_self)
  ultimately obtain b where "d_to_uchar p = Some b" "unat b = k" by blast
  then show ?thesis using k by (intro exI [of _ b]) (simp only: conj_assoc [symmetric])
qed

end
