(* ===== verification/MetricSample.thy ===== *)
theory MetricSample
  imports CMem CDouble
begin

text \<open>
  \<open>lib/prom/src/prom_metric_sample.c\<close>: one exported value. Sequentially a sample is a record
  in a heap of samples. \<open>SampleThreads\<close> takes the same operations apart into the atomic steps
  of concurrent calls.
\<close>

section \<open>Data\<close>

datatype prom_metric_type = PROM_COUNTER | PROM_GAUGE | PROM_HISTOGRAM | PROM_SUMMARY | PROM_UNTYPED

record pms =
  stype :: prom_metric_type
  l_value :: addr
  r_value :: double

record smem = mem +
  samples :: "addr \<Rightarrow> pms option"

type_synonym 'z sworld = "'z smem_scheme"

section \<open>Operations\<close>

text \<open>
  \<open>pms_new\<close> does not check its \<open>strdup\<close>. A NULL label value would be undefined in
  \<open>strdup\<close>; the callers pass a dumped string.
\<close>

definition pms_new ::
  "prom_metric_type \<Rightarrow> string \<Rightarrow> double \<Rightarrow> 'z sworld \<Rightarrow> addr \<times> 'z sworld" where
  "pms_new type l_val r_val w = (let (self, w) = malloc w in
     if self = NULL then (NULL, w)
     else let (l, w) = strdup l_val w in
       (self, w\<lparr>samples := (samples w)(self \<mapsto>
          \<lparr>stype = type, l_value = l, r_value = r_val\<rparr>)\<rparr>))"

definition pms_destroy :: "addr \<Rightarrow> 'z sworld \<Rightarrow> (int \<times> 'z sworld) option" where
  "pms_destroy self w = (if self = NULL then Some (0, w)
     else do {
       s \<leftarrow> samples w self;
       w \<leftarrow> free_str (l_value s) w;
       Some (0, w\<lparr>samples := (samples w)(self := None)\<rparr>)
     })"

definition pms_destroy_generic :: "addr \<Rightarrow> 'z sworld \<Rightarrow> (int \<times> 'z sworld) option" where
  "pms_destroy_generic gen w = pms_destroy gen w"

definition pms_free_generic :: "addr \<Rightarrow> 'z sworld \<Rightarrow> 'z sworld option" where
  "pms_free_generic gen w = map_option snd (pms_destroy gen w)"

text \<open>
  Run without another thread: a failed compare-and-exchange is repeated with the same value, so the
  loop ends with the sum of the value just loaded. The loop itself, with failing exchanges and other
  threads, is \<open>pms_step\<close> in \<open>SampleThreads\<close>, which is proved to agree.
\<close>

definition pms_add :: "addr \<Rightarrow> double \<Rightarrow> 'z sworld \<Rightarrow> (int \<times> 'z sworld) option" where
  "pms_add self r w = do {
     s \<leftarrow> samples w self;
     if dlt r dzero then Some (1, w)
     else Some (0, w\<lparr>samples := (samples w)(self \<mapsto> s\<lparr>r_value := dadd (r_value s) r\<rparr>)\<rparr>) }"

text \<open>
  \<open>warn\<close>: whether the library was built with logging and the level admits warnings. The
  warning passes a \<open>double\<close> for a \<open>%s\<close>, so printing it is undefined.
\<close>

definition pms_sub :: "bool \<Rightarrow> addr \<Rightarrow> double \<Rightarrow> 'z sworld \<Rightarrow> (int \<times> 'z sworld) option" where
  "pms_sub warn self r w = do {
     s \<leftarrow> samples w self;
     if stype s \<noteq> PROM_GAUGE then (if warn then None else Some (1, w))
     else Some (0, w\<lparr>samples := (samples w)(self \<mapsto> s\<lparr>r_value := dsub (r_value s) r\<rparr>)\<rparr>) }"

definition pms_set :: "bool \<Rightarrow> addr \<Rightarrow> double \<Rightarrow> 'z sworld \<Rightarrow> (int \<times> 'z sworld) option" where
  "pms_set warn self r w = do {
     s \<leftarrow> samples w self;
     if stype s \<noteq> PROM_GAUGE \<and> (stype s \<noteq> PROM_COUNTER \<or> dlt r dzero)
     then (if warn then None else Some (1, w))
     else Some (0, w\<lparr>samples := (samples w)(self \<mapsto> s\<lparr>r_value := r\<rparr>)\<rparr>) }"

section \<open>Counting\<close>

definition value_of :: "'z sworld \<Rightarrow> addr \<Rightarrow> double" where
  "value_of w a = r_value (the (samples w a))"

fun add_each :: "addr \<Rightarrow> double list \<Rightarrow> 'z sworld \<Rightarrow> 'z sworld option" where
  "add_each self [] w = Some w"
| "add_each self (r # rs) w = do {
     (e, w) \<leftarrow> pms_add self r w;
     if e \<noteq> 0 then None else add_each self rs w }"

lemma add_each_value:
  assumes "samples w self = Some s" "\<forall>r \<in> set rs. \<not> dlt r dzero"
  shows "add_each self rs w = Some (w\<lparr>samples := (samples w)(self \<mapsto>
     s\<lparr>r_value := foldl dadd (r_value s) rs\<rparr>)\<rparr>)"
  using assms
proof (induction rs arbitrary: s w)
  case Nil
  then have "(samples w)(self \<mapsto> s) = samples w" by auto
  then show ?case by simp
next
  case (Cons r rs)
  define s1 where "s1 = s\<lparr>r_value := dadd (r_value s) r\<rparr>"
  define w1 where "w1 = w\<lparr>samples := (samples w)(self \<mapsto> s1)\<rparr>"
  have "pms_add self r w = Some (0, w1)"
    using Cons.prems by (simp add: pms_add_def w1_def s1_def)
  moreover have "add_each self rs w1 = Some (w1\<lparr>samples := (samples w1)(self \<mapsto>
      s1\<lparr>r_value := foldl dadd (r_value s1) rs\<rparr>)\<rparr>)"
    using Cons.prems by (intro Cons.IH) (auto simp: w1_def)
  moreover have "s1\<lparr>r_value := x\<rparr> = s\<lparr>r_value := x\<rparr>" "r_value s1 = dadd (r_value s) r" for x
    by (simp_all add: s1_def)
  moreover have "(samples w1)(self := y) = (samples w)(self := y)" "w1\<lparr>samples := f\<rparr> = w\<lparr>samples := f\<rparr>"
    for y f by (simp_all add: w1_def)
  ultimately show ?case by (simp add: fun_upd_def)
qed

lemma foldl_ones:
  assumes "is_fin x" "dval x = real k" "k + n \<le> 2 ^ 53"
  shows "is_fin (foldl dadd x (replicate n d_one)) \<and>
    dval (foldl dadd x (replicate n d_one)) = real (k + n)"
  using assms
proof (induction n arbitrary: x k)
  case (Suc n)
  then have "is_fin (dadd x d_one) \<and> dval (dadd x d_one) = real (Suc k)"
    by (intro dadd_exact_nat) auto
  then show ?case using Suc.IH [of "dadd x d_one" "Suc k"] Suc.prems(3) by simp
qed simp

lemma dle_trans: "dle x y \<Longrightarrow> dle y z \<Longrightarrow> dle x z"
proof -
  assume a: "dle x y" "dle y z"
  have fin: "dle u v \<longleftrightarrow> dval u \<le> dval v" if "is_fin u" "is_fin v" for u v
    using fin_compare(3) [of u v] that by simp
  show ?thesis
  proof (cases "is_fin x \<and> is_fin y \<and> is_fin z")
    case True
    then show ?thesis using a fin by force
  next
    case False
    then show ?thesis using a by (cases x; cases y; cases z) (auto simp: dle_def)
  qed
qed

lemma foldl_mono:
  assumes "dvalid x" "x \<noteq> DNaN" "x \<noteq> DInf True"
    and "\<forall>r \<in> set rs. dvalid r \<and> r \<noteq> DNaN \<and> \<not> dlt r dzero"
  shows "dle x (foldl dadd x rs)"
  using assms
proof (induction rs arbitrary: x)
  case Nil
  then show ?case by (cases x) (auto simp: dle_def Let_def)
next
  case (Cons r rs)
  have le: "dle x (dadd x r)" using Cons.prems by (intro dadd_mono) auto
  have "dvalid (dadd x r) \<and> dadd x r \<noteq> DNaN \<and> dadd x r \<noteq> DInf True"
  proof (cases "is_fin x \<and> is_fin r")
    case True
    then have R: "rounds_to (dval x + dval r) (dadd x r)" by (intro dadd_rounds) auto
    moreover have "dadd x r \<noteq> DInf True" using le True by (cases x) (auto simp: dle_def)
    ultimately show ?thesis using rounds_to_valid rounds_to_not_NaN by blast
  next
    case False
    then show ?thesis using Cons.prems by (cases x; cases r) (auto simp: dzero_def)
  qed
  then have "dle (dadd x r) (foldl dadd (dadd x r) rs)" using Cons by auto
  then show ?case using le dle_trans by auto
qed

section \<open>Properties\<close>

text \<open>A sample of a counter, for the witnesses.\<close>

definition one_sample :: "double \<Rightarrow> smem" where
  "one_sample v = \<lparr>strs = [1 \<mapsto> ''c''], brk = 3, oom = [],
     samples = [2 \<mapsto> \<lparr>stype = PROM_COUNTER, l_value = 1, r_value = v\<rparr>]\<rparr>"

text \<open>A counter never decreases: after any \<open>pms_add\<close> calls with non-negative amounts, even
  when sums round or overflow to infinity, its value is at least what it was.\<close>

theorem pms_counter_monotone:
  assumes "samples w self = Some s" "dvalid (r_value s)" "r_value s \<noteq> DNaN" "r_value s \<noteq> DInf True"
    and "\<forall>r \<in> set rs. dvalid r \<and> r \<noteq> DNaN \<and> \<not> dlt r dzero"
  shows "\<exists>w'. add_each self rs w = Some w' \<and> dle (value_of w self) (value_of w' self)"
  using add_each_value [OF assms(1)] foldl_mono [OF assms(2-5)] assms(1,5)
  by (auto simp: value_of_def)

theorem pms_counter_monotone_witness:
  "\<exists>w'. add_each 2 [d_one, d_one] (one_sample dzero) = Some w' \<and>
    dle (value_of (one_sample dzero) 2) (value_of w' 2)"
  using pms_counter_monotone [of "one_sample dzero" 2
      "\<lparr>stype = PROM_COUNTER, l_value = 1, r_value = dzero\<rparr>" "[d_one, d_one]"]
  by (simp add: one_sample_def)

text \<open>At \<open>2^53\<close> a sample stops counting: further increments by 1.0 succeed and leave the
  value where it is.\<close>

theorem pms_add_saturates:
  assumes "samples w self = Some s" "r_value s = d_of_nat (2 ^ 53)"
  shows "\<exists>w'. add_each self (replicate n d_one) w = Some w' \<and> value_of w' self = d_of_nat (2 ^ 53)"
proof -
  have one: "dadd (d_of_nat (2 ^ 53)) d_one = d_of_nat (2 ^ 53)"
    by (simp add: dbl_simps d_one_def)
  have "foldl dadd (d_of_nat (2 ^ 53)) (replicate n d_one) = d_of_nat (2 ^ 53)"
    by (induction n) (simp_all only: replicate.simps foldl.simps one)
  then show ?thesis
    using add_each_value [OF assms(1), of "replicate n d_one"] assms(2) by (simp add: value_of_def)
qed

theorem pms_add_saturates_witness:
  "\<exists>w'. add_each 2 [d_one, d_one] (one_sample (d_of_nat (2 ^ 53))) = Some w' \<and>
    value_of w' 2 = d_of_nat (2 ^ 53)"
  using pms_add_saturates [of "one_sample (d_of_nat (2 ^ 53))" 2
      "\<lparr>stype = PROM_COUNTER, l_value = 1, r_value = d_of_nat (2 ^ 53)\<rparr>" 2]
  by (simp add: one_sample_def numeral_2_eq_2)

end
