(* ===== verification/CFormat.thy ===== *)
theory CFormat
  imports CDouble
begin

text \<open>
  The conversions of \<open>printf\<close> the program uses: \<open>%d\<close>/\<open>%zu\<close> of a natural number and
  \<open>%.17g\<close> of a double. \<open>%.17g\<close> rounds the exact binary value to 17 significant decimal
  digits (ties to even), drops trailing zeros and picks the fixed or the exponent style by
  the decimal exponent, as the C standard says. The lemmas bound the length of the result,
  which the code writes to fixed buffers.
\<close>

section \<open>Decimal digits\<close>

definition digit :: "nat \<Rightarrow> char" where
  "digit n = char_of (48 + n)"

lemma digit_eval [dbl_simps]:
  "digit 0 = CHR ''0''" "digit 1 = CHR ''1''" "digit (Suc 0) = CHR ''1''" "digit 2 = CHR ''2''"
  "digit 3 = CHR ''3''" "digit 4 = CHR ''4''" "digit 5 = CHR ''5''" "digit 6 = CHR ''6''"
  "digit 7 = CHR ''7''" "digit 8 = CHR ''8''" "digit 9 = CHR ''9''"
  by (simp_all add: digit_def char_of_def bit_iff_odd)

fun dec :: "nat \<Rightarrow> string" where
  "dec n = (if n < 10 then [digit n] else dec (n div 10) @ [digit (n mod 10)])"

declare dec.simps [simp del]

definition dec_int :: "int \<Rightarrow> string" where
  "dec_int i = (if i < 0 then CHR ''-'' # dec (nat (- i)) else dec (nat i))"

fun ndig :: "nat \<Rightarrow> nat" where
  "ndig n = (if n < 10 then 1 else Suc (ndig (n div 10)))"

declare ndig.simps [simp del]

section \<open>\<open>%.17g\<close>\<close>

text \<open>The decimal exponent of the positive rational \<open>N / M\<close>: \<open>10^X \<le> N / M < 10^(X+1)\<close>.\<close>

definition dec_exp :: "nat \<Rightarrow> nat \<Rightarrow> int" where
  "dec_exp N M = (let q = int (ndig N) - int (ndig M) in
     if M * 10 ^ nat q \<le> N * 10 ^ nat (- q) then q else q - 1)"

text \<open>17 digits and the exponent of the first one; rounding up may carry into an 18th.\<close>

definition sig17 :: "nat \<Rightarrow> nat \<Rightarrow> nat \<times> int" where
  "sig17 N M = (let X = dec_exp N M;
       D = div_rne (N * 10 ^ nat (16 - X)) (M * 10 ^ nat (X - 16))
     in if D = 10 ^ 17 then (10 ^ 16, X + 1) else (D, X))"

definition strip_zeros :: "string \<Rightarrow> string" where
  "strip_zeros s = rev (dropWhile (\<lambda>c. c = CHR ''0'') (rev s))"

definition exp_str :: "int \<Rightarrow> string" where
  "exp_str X = CHR ''e'' # (if X < 0 then CHR ''-'' else CHR ''+'') #
     (if \<bar>X\<bar> < 10 then CHR ''0'' # dec (nat \<bar>X\<bar>) else dec (nat \<bar>X\<bar>))"

definition fixed_str :: "string \<Rightarrow> int \<Rightarrow> string" where
  "fixed_str ds X = (if 0 \<le> X
     then let f = strip_zeros (drop (nat X + 1) ds) in
       take (nat X + 1) ds @ (if f = [] then [] else CHR ''.'' # f)
     else ''0.'' @ replicate (nat (- X - 1)) CHR ''0'' @ strip_zeros ds)"

definition sci_str :: "string \<Rightarrow> int \<Rightarrow> string" where
  "sci_str ds X = (let f = strip_zeros (drop 1 ds) in
     take 1 ds @ (if f = [] then [] else CHR ''.'' # f) @ exp_str X)"

definition g17_pos :: "nat \<Rightarrow> int \<Rightarrow> string" where
  "g17_pos m e = (let (D, X) = sig17 (m * 2 ^ nat e) (2 ^ nat (- e)) in
     if - 4 \<le> X \<and> X < 17 then fixed_str (dec D) X else sci_str (dec D) X)"

text \<open>
  glibc prints a NaN whose sign bit is set as \<open>-nan\<close>; the sign of a NaN is not modelled.
\<close>

fun fmt_g17 :: "double \<Rightarrow> string" where
  "fmt_g17 DNaN = ''nan''"
| "fmt_g17 (DInf s) = (if s then ''-inf'' else ''inf'')"
| "fmt_g17 (DFin s m e) = (if s then ''-'' else '''') @ (if m = 0 then ''0'' else g17_pos m e)"

lemmas g17_eval [dbl_simps] = fmt_g17.simps g17_pos_def sig17_def dec_exp_def ndig.simps dec.simps
  fixed_str_def sci_str_def exp_str_def strip_zeros_def

section \<open>Lengths\<close>

lemma length_dec: "length (dec n) = ndig n"
proof (induction n rule: dec.induct)
  case (1 n)
  then show ?case by (subst dec.simps, subst ndig.simps) simp
qed

lemma ndig_upper: "n < 10 ^ ndig n"
proof (induction n rule: ndig.induct)
  case (1 n)
  show ?case
  proof (cases "n < 10")
    case True
    then show ?thesis by (subst ndig.simps) simp
  next
    case False
    then have "n div 10 < 10 ^ ndig (n div 10)" using "1" by simp
    then have "n < 10 * 10 ^ ndig (n div 10)" by linarith
    then show ?thesis using False by (subst ndig.simps) simp
  qed
qed

lemma ndig_lower: "0 < n \<Longrightarrow> 10 ^ (ndig n - 1) \<le> n"
proof (induction n rule: ndig.induct)
  case (1 n)
  show ?case
  proof (cases "n < 10")
    case True
    then show ?thesis using "1.prems" by (subst ndig.simps) simp
  next
    case False
    then have "10 ^ (ndig (n div 10) - 1) \<le> n div 10" using "1" by simp
    moreover have "0 < ndig (n div 10)" by (subst ndig.simps) simp
    then obtain k where "ndig (n div 10) = Suc k" by (cases "ndig (n div 10)") auto
    ultimately show ?thesis using False by (subst ndig.simps) simp
  qed
qed

lemma ndig_pos: "0 < ndig n"
  by (subst ndig.simps) simp

lemma ndig_le: "n < 10 ^ k \<Longrightarrow> 0 < k \<Longrightarrow> ndig n \<le> k"
proof (cases "n = 0")
  case True
  then show "0 < k \<Longrightarrow> ndig n \<le> k" by (subst ndig.simps) simp
next
  case False
  assume "n < 10 ^ k"
  then have "(10::nat) ^ (ndig n - 1) < 10 ^ k" using ndig_lower [of n] False by linarith
  then have "ndig n - 1 < k" by (rule power_less_imp_less_exp [rotated]) simp
  then show "ndig n \<le> k" by simp
qed

lemma ndig_eq: "10 ^ k \<le> n \<Longrightarrow> n < 10 ^ Suc k \<Longrightarrow> ndig n = Suc k"
proof -
  assume a: "10 ^ k \<le> n" "n < 10 ^ Suc k"
  have "(10::nat) ^ k < 10 ^ ndig n" using a(1) ndig_upper [of n] by (rule le_less_trans)
  then have "k < ndig n" by (rule power_less_imp_less_exp [rotated]) simp
  then show ?thesis using ndig_le [OF a(2)] by simp
qed

section \<open>The decimal exponent\<close>

lemma dec_exp_le:
  assumes "0 < N" "0 < M"
  shows "M * 10 ^ nat (dec_exp N M) \<le> N * 10 ^ nat (- dec_exp N M)"
proof -
  define q where "q = int (ndig N) - int (ndig M)"
  show ?thesis
  proof (cases "M * 10 ^ nat q \<le> N * 10 ^ nat (- q)")
    case True
    then show ?thesis by (simp add: dec_exp_def Let_def q_def)
  next
    case False
    then have X: "dec_exp N M = q - 1" by (simp add: dec_exp_def Let_def q_def)
    have N: "10 ^ (ndig N - 1) \<le> N" and M: "M \<le> 10 ^ ndig M"
      using ndig_lower [OF assms(1)] ndig_upper [of M] by auto
    have "M * 10 ^ nat (q - 1) \<le> 10 ^ ndig M * 10 ^ nat (q - 1)" using M by simp
    also have "\<dots> = 10 ^ (ndig N - 1) * 10 ^ nat (- (q - 1))"
    proof -
      have "ndig M + nat (q - 1) = ndig N - 1 + nat (- (q - 1))"
        using ndig_pos [of N] by (simp add: q_def)
      then show ?thesis by (metis power_add)
    qed
    also have "\<dots> \<le> N * 10 ^ nat (- (q - 1))" using N by simp
    finally show ?thesis by (simp only: X)
  qed
qed

lemma dec_exp_less:
  assumes "0 < N" "0 < M"
  shows "N * 10 ^ nat (- (dec_exp N M + 1)) < M * 10 ^ nat (dec_exp N M + 1)"
proof -
  define q where "q = int (ndig N) - int (ndig M)"
  show ?thesis
  proof (cases "M * 10 ^ nat q \<le> N * 10 ^ nat (- q)")
    case False
    then show ?thesis by (simp add: dec_exp_def Let_def q_def)
  next
    case True
    then have X: "dec_exp N M = q" by (simp add: dec_exp_def Let_def q_def)
    have N: "N < 10 ^ ndig N" and M: "10 ^ (ndig M - 1) \<le> M"
      using ndig_lower [OF assms(2)] ndig_upper [of N] by auto
    have "N * 10 ^ nat (- (q + 1)) < 10 ^ ndig N * 10 ^ nat (- (q + 1))" using N by simp
    also have "\<dots> = 10 ^ (ndig M - 1) * 10 ^ nat (q + 1)"
    proof -
      have "ndig N + nat (- (q + 1)) = ndig M - 1 + nat (q + 1)"
        using ndig_pos [of M] by (simp add: q_def)
      then show ?thesis by (metis power_add)
    qed
    also have "\<dots> \<le> M * 10 ^ nat (q + 1)" using M by simp
    finally show ?thesis by (simp only: X)
  qed
qed

text \<open>Moving the decimal point: only the difference of the two exponents matters.\<close>

lemma scale_le:
  assumes "(M::nat) * 10 ^ a \<le> N * 10 ^ b" "int c - int d = int a - int b"
  shows "M * 10 ^ c \<le> N * 10 ^ d"
proof -
  have e: "a + d = c + b" using assms(2) by linarith
  have "M * 10 ^ c * 10 ^ b = M * 10 ^ a * 10 ^ d"
    by (metis e mult.assoc power_add)
  also have "\<dots> \<le> N * 10 ^ b * 10 ^ d" using assms(1) by simp
  finally show ?thesis by (simp add: mult.assoc mult.commute [of "10 ^ b"])
qed

lemma scale_less:
  assumes "N * 10 ^ b < (M::nat) * 10 ^ a" "int c - int d = int a - int b"
  shows "N * 10 ^ d < M * 10 ^ c"
  using scale_le [of M c N d a b] assms by linarith

lemma sig17_digits:
  assumes "0 < N" "0 < M" "sig17 N M = (D, X)"
  shows "10 ^ 16 \<le> D \<and> D < 10 ^ 17 \<and> (X = dec_exp N M \<or> X = dec_exp N M + 1)"
proof -
  define Y where "Y = dec_exp N M"
  let ?P = "N * 10 ^ nat (16 - Y)" and ?Q = "M * 10 ^ nat (Y - 16)"
  have Q: "0 < ?Q" using assms(2) by simp
  have "?Q * 10 ^ 16 \<le> ?P"
    using scale_le [OF dec_exp_le [OF assms(1,2)], of "nat (Y - 16) + 16" "nat (16 - Y)"]
    by (simp add: Y_def power_add mult.assoc)
  then have lo: "10 ^ 16 \<le> div_rne ?P ?Q" by (intro div_rne_ge [OF Q]) (simp add: mult.commute)
  have "?P < ?Q * 10 ^ 17"
    using scale_less [OF dec_exp_less [OF assms(1,2)], of "nat (Y - 16) + 17" "nat (16 - Y)"]
    by (simp add: Y_def power_add mult.assoc)
  then have "div_rne ?P ?Q \<le> 10 ^ 17" by (intro div_rne_le [OF Q]) (simp add: mult.commute)
  then show ?thesis using lo assms(3)
    by (auto simp: sig17_def Let_def Y_def split: if_splits)
qed

lemma dec_exp_bounds:
  assumes "0 < N" "0 < M" "N < 10 ^ a" "M \<le> 10 ^ b" "0 < a"
  shows "dec_exp N M < int a \<and> - int b - 1 < dec_exp N M"
proof
  have le: "M * 10 ^ nat (dec_exp N M) \<le> N * 10 ^ nat (- dec_exp N M)"
    using assms(1,2) by (rule dec_exp_le)
  show "dec_exp N M < int a"
  proof (rule ccontr)
    assume h: "\<not> dec_exp N M < int a"
    have "1 * 10 ^ nat (dec_exp N M) \<le> M * 10 ^ nat (dec_exp N M)"
      using assms(2) by (intro mult_le_mono1) simp
    also have "\<dots> \<le> N" using le h by simp
    finally have "10 ^ nat (dec_exp N M) \<le> N" by simp
    then have "(10::nat) ^ nat (dec_exp N M) < 10 ^ a" using assms(3) by linarith
    then have "nat (dec_exp N M) < a" by (rule power_less_imp_less_exp [rotated]) simp
    then show False using h by linarith
  qed
  have lt: "N * 10 ^ nat (- (dec_exp N M + 1)) < M * 10 ^ nat (dec_exp N M + 1)"
    using assms(1,2) by (rule dec_exp_less)
  show "- int b - 1 < dec_exp N M"
  proof (rule ccontr)
    assume h: "\<not> - int b - 1 < dec_exp N M"
    have "1 * 10 ^ nat (- (dec_exp N M + 1)) \<le> N * 10 ^ nat (- (dec_exp N M + 1))"
      using assms(1) by (intro mult_le_mono1) simp
    also have "\<dots> < M" using lt h by simp
    finally have "10 ^ nat (- (dec_exp N M + 1)) < M" by simp
    then have "(10::nat) ^ nat (- (dec_exp N M + 1)) < 10 ^ b" using assms(4) by linarith
    then have "nat (- (dec_exp N M + 1)) < b" by (rule power_less_imp_less_exp [rotated]) simp
    then show False using h by linarith
  qed
qed

lemma pow2_dec: "(2::nat) ^ (93 * 11) \<le> 10 ^ (28 * 11)"
  unfolding power_mult by (rule power_mono) simp_all

lemma finite_range:
  assumes "dvalid (DFin s m e)" "0 < m"
  shows "m * 2 ^ nat e < 10 ^ 309" "(2::nat) ^ nat (- e) \<le> 10 ^ 324"
proof -
  have me: "m < 2 ^ 53" "e \<le> 971" "- 1074 \<le> e" using assms by auto
  have "(2::nat) ^ nat e \<le> 2 ^ 971" using me by (intro power_increasing) auto
  then have "m * 2 ^ nat e < 2 ^ 53 * 2 ^ 971" using me(1) by (intro mult_less_le_imp_less) auto
  also have "(2::nat) ^ 53 * 2 ^ 971 = 2 ^ (53 + 971)" by (rule power_add [symmetric])
  also have "(53::nat) + 971 = 93 * 11 + 1" by simp
  also have "(2::nat) ^ (93 * 11 + 1) = 2 ^ (93 * 11) * 2 ^ 1" by (rule power_add)
  also have "\<dots> \<le> 10 ^ (28 * 11) * 10 ^ 1" by (intro mult_le_mono pow2_dec) simp
  also have "\<dots> = 10 ^ (28 * 11 + 1)" by (rule power_add [symmetric])
  also have "(28::nat) * 11 + 1 = 309" by simp
  finally show "m * 2 ^ nat e < 10 ^ 309" .
  have "(2::nat) ^ nat (- e) \<le> 2 ^ (93 * 11 + 51)" using me by (intro power_increasing) auto
  also have "\<dots> = 2 ^ (93 * 11) * 2 ^ 51" by (rule power_add)
  also have "\<dots> \<le> 10 ^ (28 * 11) * 10 ^ 16" by (intro mult_le_mono pow2_dec) simp
  also have "\<dots> = 10 ^ (28 * 11 + 16)" by (rule power_add [symmetric])
  also have "(28::nat) * 11 + 16 = 324" by simp
  finally show "(2::nat) ^ nat (- e) \<le> 10 ^ 324" .
qed

lemma length_strip: "length (strip_zeros s) \<le> length s"
  using length_dropWhile_le [of "\<lambda>c. c = CHR ''0''" "rev s"] by (simp add: strip_zeros_def)

lemma length_exp_str:
  assumes "\<bar>X\<bar> < 1000"
  shows "length (exp_str X) \<le> 5"
proof (cases "\<bar>X\<bar> < 10")
  case True
  then have "ndig (nat \<bar>X\<bar>) \<le> 1" by (intro ndig_le) simp_all
  then show ?thesis using True by (simp add: exp_str_def length_dec)
next
  case False
  have "ndig (nat \<bar>X\<bar>) \<le> 3" using assms by (intro ndig_le) simp_all
  then show ?thesis using False by (simp add: exp_str_def length_dec)
qed

text \<open>No value needs more than 24 characters.\<close>

lemma length_fmt_g17:
  assumes "dvalid x"
  shows "length (fmt_g17 x) \<le> 24"
proof (cases x)
  case (DFin s m e)
  show ?thesis
  proof (cases "m = 0")
    case True
    then show ?thesis using DFin by simp
  next
    case False
    let ?N = "m * 2 ^ nat e" and ?M = "(2::nat) ^ nat (- e)"
    obtain D X where DX: "sig17 ?N ?M = (D, X)" by force
    have N: "0 < ?N" "0 < ?M" using False by auto
    have D: "length (dec D) = 17"
      using sig17_digits [OF N DX] ndig_eq [of 16 D] by (simp add: length_dec)
    have v: "dvalid (DFin s m e)" "0 < m" using assms False DFin by auto
    have "dec_exp ?N ?M < int 309 \<and> - int 324 - 1 < dec_exp ?N ?M"
      using dec_exp_bounds [OF N finite_range [OF v]] by simp
    moreover have "X = dec_exp ?N ?M \<or> X = dec_exp ?N ?M + 1" using sig17_digits [OF N DX] by simp
    ultimately have X: "\<bar>X\<bar> < 1000" by linarith
    have "length (g17_pos m e) \<le> 23"
    proof (cases "- 4 \<le> X \<and> X < 17")
      case True
      then show ?thesis
        using DX D length_strip [of "dec D"] length_strip [of "drop (nat X + 1) (dec D)"]
        by (auto simp: g17_pos_def fixed_str_def Let_def)
    next
      case False
      then show ?thesis
        using DX D length_strip [of "drop 1 (dec D)"] length_exp_str [OF X]
        by (auto simp: g17_pos_def sci_str_def Let_def)
    qed
    then show ?thesis using DFin False by auto
  qed
qed auto

end
