(* ===== verification/MetricFormatter.thy ===== *)
theory MetricFormatter
  imports StringBuilder MetricSample CFormat
begin

text \<open>
  \<open>lib/prom/src/prom_metric_formatter.c\<close>, the part that renders one line of the exposition
  format: help and type comments, the name with its label set (\<open>l_value\<close>), and a sample.
  Every routine is a sequence of string builder calls; its correctness comes from the rules
  of the \<open>char_sink\<close> contract. The routines that walk metrics and collectors are in
  \<open>Exposition\<close>.
\<close>

section \<open>Data\<close>

record pmf =
  string_builder :: psb
  err_builder :: psb

text \<open>\<open>self == NULL\<close> is None; the other routines work on the builder of a formatter.\<close>

type_synonym ('z, 'r) on_psb = "psb \<Rightarrow> 'z mem_scheme \<Rightarrow> ('r \<times> psb \<times> 'z mem_scheme) option"

definition on_builder :: "('z, int) on_psb \<Rightarrow> pmf option \<Rightarrow> 'z mem_scheme
    \<Rightarrow> (int \<times> pmf option \<times> 'z mem_scheme) option" where
  "on_builder f self w = (case self of None \<Rightarrow> Some (1, None, w)
     | Some m \<Rightarrow> do {
         (r, b, w) \<leftarrow> f (string_builder m) w;
         Some (r, Some (m\<lparr>string_builder := b\<rparr>), w) })"

section \<open>Operations\<close>

definition pmf_new :: "'z mem_scheme \<Rightarrow> pmf option \<times> 'z mem_scheme" where
  "pmf_new w = (let (self, w) = malloc w in
     if self = NULL then (None, w)
     else let (sb, w) = psb_new w in
     case sb of None \<Rightarrow> (None, w)
     | Some sb \<Rightarrow> let (eb, w) = psb_new w in
       (case eb of None \<Rightarrow> (None, w)
        | Some eb \<Rightarrow> (Some \<lparr>string_builder = sb, err_builder = eb\<rparr>, w)))"

text \<open>A formatter and its builders are values of their owner; destroying drops them.\<close>

definition pmf_destroy :: "pmf option \<Rightarrow> int" where
  "pmf_destroy self = 0"

text \<open>The body of \<open>pmf_load_help\<close> after the two NULL tests.\<close>

definition help_line :: "string option \<Rightarrow> string \<Rightarrow> string \<Rightarrow> ('z, int) on_psb" where
  "help_line prefix name help b w = do {
     (r, b, w) \<leftarrow> psb_add_str b (Some ''# HELP '') w;
     if r \<noteq> 0 then Some (2, b, w) else do {
     (r, b, w) \<leftarrow> psb_add_str b prefix w;
     if r \<noteq> 0 then Some (3, b, w) else do {
     (r, b, w) \<leftarrow> psb_add_str b (Some name) w;
     if r \<noteq> 0 then Some (4, b, w) else do {
     (r, b, w) \<leftarrow> psb_add_char b CHR '' '' w;
     if r \<noteq> 0 then Some (5, b, w) else do {
     (r, b, w) \<leftarrow> psb_add_str b (Some help) w;
     if r \<noteq> 0 then Some (6, b, w) else do {
     (r, b, w) \<leftarrow> psb_add_char b (CHR 0x0A) w;
     Some (if r \<noteq> 0 then 7 else 0, b, w) }}}}}}"

definition pmf_load_help :: "pmf option \<Rightarrow> string option \<Rightarrow> string \<Rightarrow> string option
    \<Rightarrow> 'z mem_scheme \<Rightarrow> (int \<times> pmf option \<times> 'z mem_scheme) option" where
  "pmf_load_help self prefix name help w =
     on_builder (\<lambda>b w. case help of None \<Rightarrow> Some (0, b, w)
       | Some h \<Rightarrow> help_line prefix name h b w) self w"

fun prom_metric_type_map :: "prom_metric_type \<Rightarrow> string" where
  "prom_metric_type_map PROM_COUNTER = ''counter''"
| "prom_metric_type_map PROM_GAUGE = ''gauge''"
| "prom_metric_type_map PROM_HISTOGRAM = ''histogram''"
| "prom_metric_type_map PROM_SUMMARY = ''summary''"
| "prom_metric_type_map PROM_UNTYPED = ''untyped''"

definition type_line :: "string option \<Rightarrow> string \<Rightarrow> prom_metric_type \<Rightarrow> ('z, int) on_psb" where
  "type_line prefix name metric_type b w = do {
     (r, b, w) \<leftarrow> psb_add_str b (Some ''# TYPE '') w;
     if r \<noteq> 0 then Some (2, b, w) else do {
     (r, b, w) \<leftarrow> psb_add_str b prefix w;
     if r \<noteq> 0 then Some (3, b, w) else do {
     (r, b, w) \<leftarrow> psb_add_str b (Some name) w;
     if r \<noteq> 0 then Some (4, b, w) else do {
     (r, b, w) \<leftarrow> psb_add_char b CHR '' '' w;
     if r \<noteq> 0 then Some (5, b, w) else do {
     (r, b, w) \<leftarrow> psb_add_str b (Some (prom_metric_type_map metric_type)) w;
     if r \<noteq> 0 then Some (6, b, w) else do {
     (r, b, w) \<leftarrow> psb_add_char b (CHR 0x0A) w;
     Some (if r \<noteq> 0 then 7 else 0, b, w) }}}}}}"

definition pmf_load_type :: "pmf option \<Rightarrow> string option \<Rightarrow> string \<Rightarrow> prom_metric_type
    \<Rightarrow> 'z mem_scheme \<Rightarrow> (int \<times> pmf option \<times> 'z mem_scheme) option" where
  "pmf_load_type self prefix name metric_type w =
     on_builder (type_line prefix name metric_type) self w"

text \<open>
  The loop over the labels. The arrays are lists; an element may be NULL (None), which
  \<open>psb_add_str\<close> skips; reading past an array is undefined.
\<close>

fun load_labels :: "nat \<Rightarrow> string option list \<Rightarrow> string option list \<Rightarrow> ('z, int) on_psb" where
  "load_labels 0 ks vs b w = Some (0, b, w)"
| "load_labels (Suc n) (k # ks) (v # vs) b w = do {
     (r, b, w) \<leftarrow> psb_add_str b k w;
     if r \<noteq> 0 then Some (7, b, w) else do {
     (r, b, w) \<leftarrow> psb_add_str b (Some [CHR ''='', CHR 0x22]) w;
     if r \<noteq> 0 then Some (9, b, w) else do {
     (r, b, w) \<leftarrow> psb_add_str b v w;
     if r \<noteq> 0 then Some (10, b, w) else do {
     (r, b, w) \<leftarrow> psb_add_str b (Some [CHR 0x22, CHR '','']) w;
     if r \<noteq> 0 then Some (11, b, w) else load_labels n ks vs b w }}}}"
| "load_labels (Suc n) _ _ b w = None"

definition l_value_head :: "string \<Rightarrow> string option \<Rightarrow> ('z, int) on_psb" where
  "l_value_head name suffix b w = do {
     (r, b, w) \<leftarrow> psb_add_str b (Some name) w;
     if r \<noteq> 0 then Some (3, b, w)
     else case suffix of None \<Rightarrow> Some (0, b, w)
       | Some s \<Rightarrow> do {
           (r, b, w) \<leftarrow> psb_add_char b CHR ''_'' w;
           if r \<noteq> 0 then Some (4, b, w) else do {
           (r, b, w) \<leftarrow> psb_add_str b (Some s) w;
           Some (if r \<noteq> 0 then 5 else 0, b, w) }}}"

definition l_value_labels :: "nat \<Rightarrow> string option list \<Rightarrow> string option list \<Rightarrow> ('z, int) on_psb" where
  "l_value_labels label_count ks vs b w = do {
     (r, b, w) \<leftarrow> psb_add_char b CHR ''{'' w;
     if r \<noteq> 0 then Some (6, b, w) else load_labels label_count ks vs b w }"

definition l_value_body :: "string \<Rightarrow> string option \<Rightarrow> nat \<Rightarrow> string option list
    \<Rightarrow> string option list \<Rightarrow> ('z, int) on_psb" where
  "l_value_body name suffix label_count ks vs b w = do {
     (r, b, w) \<leftarrow> l_value_head name suffix b w;
     if r \<noteq> 0 then Some (r, b, w)
     else if label_count = 0 then Some (0, b, w)
     else do {
       (r, b, w) \<leftarrow> l_value_labels label_count ks vs b w;
       if r \<noteq> 0 then Some (r, b, w) else do {
       (_, b) \<leftarrow> psb_truncate b (psb_len b - 1);
       (r, b, w) \<leftarrow> psb_add_char b CHR ''}'' w;
       Some (if r \<noteq> 0 then 20 else 0, b, w) }}}"

definition pmf_load_l_value :: "pmf option \<Rightarrow> string option \<Rightarrow> string option \<Rightarrow> nat
    \<Rightarrow> string option list \<Rightarrow> string option list \<Rightarrow> 'z mem_scheme
    \<Rightarrow> (int \<times> pmf option \<times> 'z mem_scheme) option" where
  "pmf_load_l_value self name suffix label_count ks vs w = (case name of None \<Rightarrow> Some (1, self, w)
     | Some name \<Rightarrow> on_builder (l_value_body name suffix label_count ks vs) self w)"

text \<open>A \<open>char *\<close> field that may be NULL, read for printing.\<close>

definition load_opt :: "addr \<Rightarrow> 'z mem_scheme \<Rightarrow> string option option" where
  "load_opt a w = (if a = NULL then Some None else map_option Some (load_str a w))"

text \<open>The result of adding the prefix is ignored.\<close>

definition sample_line :: "string option \<Rightarrow> string option \<Rightarrow> double \<Rightarrow> ('z, int) on_psb" where
  "sample_line prefix l v b w = do {
     (_, b, w) \<leftarrow> psb_add_str b prefix w;
     (r, b, w) \<leftarrow> psb_add_str b l w;
     if r \<noteq> 0 then Some (2, b, w) else do {
     (r, b, w) \<leftarrow> psb_add_str b (Some (CHR '' '' # fmt_g17 v)) w;
     if r \<noteq> 0 then Some (3, b, w) else do {
     (r, b, w) \<leftarrow> psb_add_char b (CHR 0x0A) w;
     Some (if r \<noteq> 0 then 4 else 0, b, w) }}}"

definition pmf_load_sample :: "pmf option \<Rightarrow> addr \<Rightarrow> string option \<Rightarrow> 'z sworld
    \<Rightarrow> (int \<times> pmf option \<times> 'z sworld) option" where
  "pmf_load_sample self sample prefix w = (case self of None \<Rightarrow> Some (1, None, w)
     | Some _ \<Rightarrow> do {
         s \<leftarrow> samples w sample;
         l \<leftarrow> load_opt (l_value s) w;
         on_builder (sample_line prefix l (r_value s)) self w })"

definition pmf_clear :: "pmf \<Rightarrow> 'z mem_scheme \<Rightarrow> int \<times> pmf \<times> 'z mem_scheme" where
  "pmf_clear self w = (let (r, b, w) = psb_clear (string_builder self) w
     in (r, self\<lparr>string_builder := b\<rparr>, w))"

text \<open>The result of \<open>psb_clear\<close> is ignored.\<close>

definition pmf_dump :: "pmf option \<Rightarrow> 'z mem_scheme \<Rightarrow> (addr \<times> pmf option \<times> 'z mem_scheme) option" where
  "pmf_dump self w = (case self of None \<Rightarrow> Some (NULL, None, w)
     | Some m \<Rightarrow> do {
         (data, w) \<leftarrow> psb_dump (string_builder m) w;
         let (_, b, w) = psb_clear (string_builder m) w;
         Some (data, Some (m\<lparr>string_builder := b\<rparr>), w) })"

section \<open>What the routines write\<close>

definition opt_str :: "string option \<Rightarrow> string" where
  "opt_str s = (case s of None \<Rightarrow> [] | Some t \<Rightarrow> t)"

definition help_text :: "string option \<Rightarrow> string \<Rightarrow> string \<Rightarrow> string" where
  "help_text prefix name help =
     ''# HELP '' @ opt_str prefix @ name @ '' '' @ help @ [CHR 0x0A]"

definition type_text :: "string option \<Rightarrow> string \<Rightarrow> prom_metric_type \<Rightarrow> string" where
  "type_text prefix name t =
     ''# TYPE '' @ opt_str prefix @ name @ '' '' @ prom_metric_type_map t @ [CHR 0x0A]"

definition sample_text :: "string option \<Rightarrow> string option \<Rightarrow> double \<Rightarrow> string" where
  "sample_text prefix l v = opt_str prefix @ opt_str l @ '' '' @ fmt_g17 v @ [CHR 0x0A]"

definition label_text :: "string option \<Rightarrow> string option \<Rightarrow> string" where
  "label_text k v = opt_str k @ [CHR ''='', CHR 0x22] @ opt_str v @ [CHR 0x22, CHR '','']"

definition head_text :: "string \<Rightarrow> string option \<Rightarrow> string" where
  "head_text name suffix = name @ (case suffix of None \<Rightarrow> [] | Some s \<Rightarrow> CHR ''_'' # s)"

definition labels_text :: "string option list \<Rightarrow> string option list \<Rightarrow> string" where
  "labels_text ks vs = concat (map2 label_text ks vs)"

definition l_value_text :: "string \<Rightarrow> string option \<Rightarrow> string option list
    \<Rightarrow> string option list \<Rightarrow> string" where
  "l_value_text name suffix ks vs = head_text name suffix @
     (if ks = [] then [] else CHR ''{'' # butlast (labels_text ks vs) @ ''}'')"

lemma writes_opt_str: "psb.writes (\<lambda>b (w :: 'z mem_scheme). psb_add_str b s w) (opt_str s)"
  using writes_opt [of s] by (simp add: opt_str_def)

lemmas writes_steps = psb.writes_seq psb.writes_last psb.writes_put writes_char writes_opt_str
  psb.writes_nop

text \<open>Each line is written as a whole or up to the call that failed.\<close>

lemma help_line_writes: "psb.writes (help_line prefix name help :: ('z, int) on_psb) (help_text prefix name help)"
proof -
  have "psb.writes (\<lambda>b (w :: 'z mem_scheme). help_line prefix name help b w)
      (''# HELP '' @ opt_str prefix @ name @ '' '' @ help @ [CHR 0x0A])"
    unfolding help_line_def by (intro writes_steps) simp_all
  then show ?thesis by (simp add: help_text_def)
qed

lemma type_line_writes: "psb.writes (type_line prefix name t :: ('z, int) on_psb) (type_text prefix name t)"
proof -
  have "psb.writes (\<lambda>b (w :: 'z mem_scheme). type_line prefix name t b w)
      (''# TYPE '' @ opt_str prefix @ name @ '' '' @ prom_metric_type_map t @ [CHR 0x0A])"
    unfolding type_line_def by (intro writes_steps) simp_all
  then show ?thesis by (simp add: type_text_def)
qed

lemma head_writes: "psb.writes (l_value_head name suffix :: ('z, int) on_psb) (head_text name suffix)"
proof -
  have "psb.writes (\<lambda>b (w :: 'z mem_scheme). l_value_head name suffix b w)
      (name @ (case suffix of None \<Rightarrow> [] | Some s \<Rightarrow> [CHR ''_''] @ s))"
    unfolding l_value_head_def by (cases suffix) (simp_all only: option.case, (intro writes_steps; simp)+)
  then show ?thesis by (simp add: head_text_def cong: option.case_cong)
qed

lemma labels_writes:
  "length ks = n \<Longrightarrow> length vs = n \<Longrightarrow>
   psb.writes (load_labels n ks vs :: ('z, int) on_psb) (labels_text ks vs)"
proof (induction n arbitrary: ks vs)
  case 0
  have "psb.writes (\<lambda>b (w :: 'z mem_scheme). load_labels 0 ks vs b w) []"
    unfolding load_labels.simps by (rule psb.writes_nop)
  then show ?case using 0 by (simp add: labels_text_def)
next
  case (Suc n)
  then obtain k ks' v vs' where kv: "ks = k # ks'" "vs = v # vs'" "length ks' = n" "length vs' = n"
    by (metis length_Suc_conv)
  have "psb.writes (\<lambda>b (w :: 'z mem_scheme). load_labels (Suc n) (k # ks') (v # vs') b w)
      (opt_str k @ [CHR ''='', CHR 0x22] @ opt_str v @ [CHR 0x22, CHR '',''] @ labels_text ks' vs')"
    unfolding load_labels.simps using Suc.IH [OF kv(3,4)] by (intro writes_steps) simp_all
  then show ?case using kv by (simp add: labels_text_def label_text_def)
qed

lemma sample_line_writes:
  assumes "psb_ok b" "mem_ok w"
    and "length (content b) + length (sample_text prefix l v) < psb_limit"
  obtains r b' w' where "sample_line prefix l v b w = Some (r, b', w')" "psb_ok b'" "grown w w'"
    "oom w = [] \<longrightarrow> r = 0 \<and> content b' = content b @ sample_text prefix l v \<and> oom w' = []"
proof -
  let ?t = "opt_str l @ (CHR '' '' # fmt_g17 v) @ [CHR 0x0A]"
  have p: "length (content b) + length (opt_str prefix) < psb_limit"
    using assms(3) by (simp add: sample_text_def)
  obtain r1 b1 w1 p1 q1 where 1: "psb_add_str b prefix w = Some (r1, b1, w1)" "psb_ok b1" "grown w w1"
      "opt_str prefix = p1 @ q1" "content b1 = content b @ p1" "r1 = 0 \<longrightarrow> q1 = []"
      "oom w = [] \<longrightarrow> r1 = 0 \<and> oom w1 = []"
    using psb.writesE [OF writes_opt_str assms(1,2) p] by metis
  define rest where "rest = (\<lambda>b (w :: 'a mem_scheme). do {
     (r, b, w) \<leftarrow> psb_add_str b l w;
     if r \<noteq> 0 then Some (2 :: int, b, w) else do {
     (r, b, w) \<leftarrow> psb_add_str b (Some (CHR '' '' # fmt_g17 v)) w;
     if r \<noteq> 0 then Some (3, b, w) else do {
     (r, b, w) \<leftarrow> psb_add_char b (CHR 0x0A) w;
     Some (if r \<noteq> 0 then 4 else 0, b, w) }}})"
  have wr: "psb.writes rest ?t" unfolding rest_def by (intro writes_steps) simp_all
  have "length (content b1) + length ?t < psb_limit"
    using assms(3) 1(4,5) by (simp add: sample_text_def)
  from psb.writesE [OF wr 1(2) grown_mem_ok [OF 1(3) assms(2)] this]
  obtain r b' w' p q where 2: "rest b1 w1 = Some (r, b', w')" "psb_ok b'" "grown w1 w'"
      "?t = p @ q" "content b' = content b1 @ p" "r = 0 \<longrightarrow> q = []"
      "oom w1 = [] \<longrightarrow> r = 0 \<and> oom w' = []"
    by metis
  have "sample_line prefix l v b w = Some (r, b', w')"
    using 1(1) 2(1) by (simp add: sample_line_def rest_def)
  then show thesis
    using 1 2 grown_trans [OF 1(3) 2(3)] by (intro that [of r b' w']) (auto simp: sample_text_def)
qed

text \<open>The room \<open>pmf_load_l_value\<close> needs: the last comma is written before it is cut off.\<close>

definition l_value_room :: "psb \<Rightarrow> string \<Rightarrow> string option \<Rightarrow> string option list
    \<Rightarrow> string option list \<Rightarrow> bool" where
  "l_value_room b name suffix ks vs \<longleftrightarrow>
     length (content b) + length (head_text name suffix) + length (labels_text ks vs) + 2 < psb_limit"

lemma labels_text_last: "ks \<noteq> [] \<Longrightarrow> length ks = length vs \<Longrightarrow> labels_text ks vs \<noteq> []"
  by (cases ks; cases vs) (auto simp: labels_text_def label_text_def)

lemma l_value_labels_writes:
  assumes "length ks = n" "length vs = n"
  shows "psb.writes (l_value_labels n ks vs :: ('z, int) on_psb) (CHR ''{'' # labels_text ks vs)"
proof -
  have "psb.writes (\<lambda>b (w :: 'z mem_scheme). l_value_labels n ks vs b w) ([CHR ''{''] @ labels_text ks vs)"
    unfolding l_value_labels_def by (intro writes_steps labels_writes assms) simp_all
  then show ?thesis by simp
qed

lemma l_value_body_ok:
  assumes ok: "psb_ok b" "mem_ok w" and len: "length ks = n" "length vs = n"
    and room: "l_value_room b name suffix ks vs"
  obtains r b' w' where "l_value_body name suffix n ks vs b w = Some (r, b', w')" "psb_ok b'" "grown w w'"
    "r = 0 \<longrightarrow> content b' = content b @ l_value_text name suffix ks vs"
    "oom w = [] \<longrightarrow> r = 0 \<and> oom w' = []"
proof -
  have "length (content b) + length (head_text name suffix) < psb_limit"
    using room by (simp add: l_value_room_def)
  from psb.writesE [OF head_writes ok this] obtain r0 b0 w0 p0 q0 where
    0: "l_value_head name suffix b w = Some (r0, b0, w0)" "psb_ok b0" "grown w w0"
    "head_text name suffix = p0 @ q0" "content b0 = content b @ p0" "r0 = 0 \<longrightarrow> q0 = []"
    "oom w = [] \<longrightarrow> r0 = 0 \<and> oom w0 = []"
    by metis
  show thesis
  proof (cases "r0 \<noteq> 0 \<or> n = 0")
    case True
    then show thesis using 0 len
      by (intro that [of r0 b0 w0]) (auto simp: l_value_body_def l_value_text_def)
  next
    case False
    then have c0: "content b0 = content b @ head_text name suffix" using 0 by auto
    have "length (content b0) + length (CHR ''{'' # labels_text ks vs) < psb_limit"
      using room c0 by (simp add: l_value_room_def)
    from psb.writesE [OF l_value_labels_writes [OF len] 0(2) grown_mem_ok [OF 0(3) ok(2)] this]
    obtain r1 b1 w1 p q where
      1: "l_value_labels n ks vs b0 w0 = Some (r1, b1, w1)" "psb_ok b1" "grown w0 w1"
      "CHR ''{'' # labels_text ks vs = p @ q"
      "content b1 = content b0 @ p" "r1 = 0 \<longrightarrow> q = []" "oom w0 = [] \<longrightarrow> r1 = 0 \<and> oom w1 = []"
      by metis
    have g1: "grown w w1" using 0(3) 1(3) by (rule grown_trans)
    show thesis
    proof (cases "r1 = 0")
      case r1: False
      then show thesis using False 0 1 g1
        by (intro that [of r1 b1 w1]) (auto simp: l_value_body_def)
    next
      case True
      then have c1: "content b1 = content b0 @ CHR ''{'' # labels_text ks vs" using 1 by auto
      have ne: "labels_text ks vs \<noteq> []" using labels_text_last len False by auto
      let ?m = "length (content b1) - 1"
      have "slen b1 = of_nat (length (content b1))" using 1(2) by (elim psb_okE) simp
      then have m: "psb_len b1 - 1 = of_nat ?m" using c1 by (simp add: psb_len_def of_nat_diff)
      obtain b2 where b2: "psb_truncate b1 (psb_len b1 - 1) = Some (0, b2)" "psb_ok b2"
          "content b2 = take ?m (content b1)"
        using psb_truncate_ok [OF 1(2), of ?m] m by auto
      have c2: "content b2 = content b @ head_text name suffix @ CHR ''{'' # butlast (labels_text ks vs)"
        using b2(3) c1 c0 ne by (simp add: butlast_conv_take take_Cons')
      have "length (content b2) + length [CHR ''}''] < psb_limit"
        using room c2 by (simp add: l_value_room_def)
      from psb.writesE [OF writes_char b2(2) grown_mem_ok [OF g1 ok(2)] this]
      obtain r3 b3 w3 p3 q3 where 3: "psb_add_char b2 CHR ''}'' w1 = Some (r3, b3, w3)" "psb_ok b3"
          "grown w1 w3" "[CHR ''}''] = p3 @ q3" "content b3 = content b2 @ p3" "r3 = 0 \<longrightarrow> q3 = []"
          "oom w1 = [] \<longrightarrow> r3 = 0 \<and> oom w3 = []"
        by metis
      have "l_value_body name suffix n ks vs b w = Some (if r3 \<noteq> 0 then 20 else 0, b3, w3)"
        using False True 0(1) 1(1) b2(1) 3(1) by (simp add: l_value_body_def)
      moreover have "ks \<noteq> []" using len False by auto
      ultimately show thesis
        using 0 1 3 True c2 grown_trans [OF g1 3(3)]
        by (intro that [of "if r3 \<noteq> 0 then 20 else 0" b3 w3]) (auto simp: l_value_text_def)
    qed
  qed
qed

lemma pmf_dump_ok:
  assumes "psb_ok (string_builder m)" "oom w = []" "mem_ok w"
  shows "\<exists>b. psb_ok b \<and> content b = [] \<and> pmf_dump (Some m) w = Some (brk w, Some (m\<lparr>string_builder := b\<rparr>),
    w\<lparr>brk := Suc (Suc (brk w)), strs := (strs w)(brk w \<mapsto> content (string_builder m))\<rparr>)"
proof -
  let ?w = "w\<lparr>brk := Suc (brk w), strs := (strs w)(brk w \<mapsto> content (string_builder m))\<rparr>"
  have "init_size (string_builder m) = 128" using assms(1) by (elim psb_okE) simp
  then have "\<exists>b. psb_ok b \<and> content b = [] \<and>
      psb_clear (string_builder m) ?w = (0, b, ?w\<lparr>brk := Suc (Suc (brk w))\<rparr>)"
    using assms(2) by (simp add: psb_clear_def psb_init_def malloc_ok psb_ok_def content_def)
  then show ?thesis using psb_dump_ok [OF assms] by (auto simp: pmf_dump_def)
qed

section \<open>Label sets and names\<close>

text \<open>
  Two label sets of the same metric are told apart by their \<open>l_value\<close>, provided no label
  value contains a double quote: quotes are not escaped.
\<close>

definition quote :: char where
  "quote = CHR 0x22"

definition unquoted :: "string \<Rightarrow> bool" where
  "unquoted v \<longleftrightarrow> quote \<notin> set v"

lemma split_at_quote:
  "unquoted v \<Longrightarrow> unquoted v' \<Longrightarrow> v @ quote # s = v' @ quote # s' \<Longrightarrow> v = v' \<and> s = s'"
proof (induction v arbitrary: v')
  case Nil
  then show ?case by (cases v') (auto simp: unquoted_def)
next
  case (Cons c v)
  then show ?case by (cases v') (auto simp: unquoted_def)
qed

lemma labels_text_inj:
  assumes "length vs = length ks" "length vs' = length ks"
    and "\<forall>v \<in> set vs. unquoted v" "\<forall>v \<in> set vs'. unquoted v"
    and "labels_text (map Some ks) (map Some vs) = labels_text (map Some ks) (map Some vs')"
  shows "vs = vs'"
  using assms
proof (induction ks arbitrary: vs vs')
  case (Cons k ks)
  obtain v us v' us' where [simp]: "vs = v # us" "vs' = v' # us'"
    using Cons.prems(1,2) by (metis length_Suc_conv list.size(4) add.right_neutral add_Suc_right)
  have e: "v @ quote # CHR '','' # labels_text (map Some ks) (map Some us) =
      v' @ quote # CHR '','' # labels_text (map Some ks) (map Some us')"
    using Cons.prems(5) by (simp add: labels_text_def label_text_def opt_str_def quote_def)
  have u: "unquoted v" "unquoted v'" using Cons.prems(3,4) by auto
  then have "v = v'" and "labels_text (map Some ks) (map Some us) = labels_text (map Some ks) (map Some us')"
    using split_at_quote [OF u e] by auto
  then show ?case using Cons.IH [of us us'] Cons.prems by auto
qed simp

lemma l_value_text_inj:
  assumes "length vs = length ks" "length vs' = length ks"
    and "\<forall>v \<in> set vs. unquoted v" "\<forall>v \<in> set vs'. unquoted v"
    and e: "l_value_text name suffix (map Some ks) (map Some vs) =
      l_value_text name suffix (map Some ks) (map Some vs')"
  shows "vs = vs'"
proof (cases "ks = []")
  case True
  then show ?thesis using assms(1,2) by simp
next
  case False
  let ?L = "\<lambda>vs. labels_text (map Some ks) (map Some vs)"
  have ne: "?L vs \<noteq> []" "?L vs' \<noteq> []"
    using labels_text_last [of "map Some ks" "map Some vs"] labels_text_last [of "map Some ks" "map Some vs'"]
      False assms(1,2) by auto
  have last: "last (?L us) = CHR '',''" if "length us = length ks" for us
    using that False
  proof (induction ks arbitrary: us)
    case (Cons k ks)
    then show ?case
      by (cases us; cases "ks = []") (auto simp: labels_text_def label_text_def dest: labels_text_last
          split: if_splits)
  qed simp
  have "butlast (?L vs) = butlast (?L vs')" using e False by (simp add: l_value_text_def)
  then have "?L vs = ?L vs'"
    using last [OF assms(1)] last [OF assms(2)] ne by (metis append_butlast_last_id)
  then show ?thesis using labels_text_inj [OF assms(1-4)] by simp
qed

section \<open>Properties\<close>

definition fresh_pmf :: pmf where
  "fresh_pmf = \<lparr>string_builder = empty_psb, err_builder = empty_psb\<rparr>"

text \<open>For every outcome of the allocator \<open>pmf_load_help\<close> and \<open>pmf_load_type\<close> have no
  undefined behaviour; they return 0 exactly when they wrote their whole line, and
  otherwise wrote a prefix of it. With memory available they return 0.\<close>

theorem pmf_comment_lines:
  assumes "psb_ok (string_builder m)" "mem_ok w"
    and "length (content (string_builder m)) + length (help_text prefix name help) < psb_limit"
    and "length (content (string_builder m)) + length (type_text prefix name t) < psb_limit"
  shows "(\<exists>r m' w' p q. pmf_load_help (Some m) prefix name (Some help) w = Some (r, Some m', w') \<and>
      help_text prefix name help = p @ q \<and> (r = 0 \<longrightarrow> q = []) \<and> (oom w = [] \<longrightarrow> r = 0) \<and>
      content (string_builder m') = content (string_builder m) @ p) \<and>
    (\<exists>r m' w' p q. pmf_load_type (Some m) prefix name t w = Some (r, Some m', w') \<and>
      type_text prefix name t = p @ q \<and> (r = 0 \<longrightarrow> q = []) \<and> (oom w = [] \<longrightarrow> r = 0) \<and>
      content (string_builder m') = content (string_builder m) @ p)"
proof
  obtain r b' w' p q where "help_line prefix name help (string_builder m) w = Some (r, b', w')"
      "help_text prefix name help = p @ q" "content b' = content (string_builder m) @ p"
      "r = 0 \<longrightarrow> q = []" "oom w = [] \<longrightarrow> r = 0 \<and> oom w' = []"
    using psb.writesE [OF help_line_writes assms(1,2,3)] by metis
  then show "\<exists>r m' w' p q. pmf_load_help (Some m) prefix name (Some help) w = Some (r, Some m', w') \<and>
      help_text prefix name help = p @ q \<and> (r = 0 \<longrightarrow> q = []) \<and> (oom w = [] \<longrightarrow> r = 0) \<and>
      content (string_builder m') = content (string_builder m) @ p"
    by (intro exI [of _ r] exI [of _ "m\<lparr>string_builder := b'\<rparr>"] exI [of _ w'] exI [of _ p] exI [of _ q])
      (simp add: pmf_load_help_def on_builder_def)
next
  obtain r b' w' p q where "type_line prefix name t (string_builder m) w = Some (r, b', w')"
      "type_text prefix name t = p @ q" "content b' = content (string_builder m) @ p"
      "r = 0 \<longrightarrow> q = []" "oom w = [] \<longrightarrow> r = 0 \<and> oom w' = []"
    using psb.writesE [OF type_line_writes assms(1,2,4)] by metis
  then show "\<exists>r m' w' p q. pmf_load_type (Some m) prefix name t w = Some (r, Some m', w') \<and>
      type_text prefix name t = p @ q \<and> (r = 0 \<longrightarrow> q = []) \<and> (oom w = [] \<longrightarrow> r = 0) \<and>
      content (string_builder m') = content (string_builder m) @ p"
    by (intro exI [of _ r] exI [of _ "m\<lparr>string_builder := b'\<rparr>"] exI [of _ w'] exI [of _ p] exI [of _ q])
      (simp add: pmf_load_type_def on_builder_def)
qed

theorem pmf_comment_lines_witness:
  "\<exists>r m' w'. pmf_load_help (Some fresh_pmf) None ''up'' (Some ''is it up'') (small_mem []) = Some (r, Some m', w') \<and>
     r = 0 \<and> content (string_builder m') = ''# HELP up is it up'' @ [CHR 0x0A]"
proof -
  have "\<exists>r m' w' p q. pmf_load_help (Some fresh_pmf) None ''up'' (Some ''is it up'') (small_mem []) = Some (r, Some m', w') \<and>
      help_text None ''up'' ''is it up'' = p @ q \<and> (r = 0 \<longrightarrow> q = []) \<and> (oom (small_mem []) = [] \<longrightarrow> r = 0) \<and>
      content (string_builder m') = content (string_builder fresh_pmf) @ p"
    using pmf_comment_lines [of fresh_pmf "small_mem []" None "''up''" "''is it up''" PROM_GAUGE]
    by (simp add: fresh_pmf_def help_text_def type_text_def opt_str_def psb_limit_def)
  then obtain r m' w' p q where "pmf_load_help (Some fresh_pmf) None ''up'' (Some ''is it up'') (small_mem []) = Some (r, Some m', w')"
      "help_text None ''up'' ''is it up'' = p @ q" "r = 0 \<longrightarrow> q = []" "r = 0"
      "content (string_builder m') = content (string_builder fresh_pmf) @ p"
    by auto
  then show ?thesis by (auto simp: help_text_def opt_str_def fresh_pmf_def)
qed

text \<open>What a successful load adds.\<close>

lemma loaded_l_value:
  assumes "psb_ok (string_builder m)" "mem_ok w" "length ks = n" "length vs = n"
    and "l_value_room (string_builder m) name suffix ks vs"
    and "pmf_load_l_value (Some m) (Some name) suffix n ks vs w = Some (0, Some m', w')"
  shows "content (string_builder m') = content (string_builder m) @ l_value_text name suffix ks vs"
proof -
  from l_value_body_ok [OF assms(1-5)] obtain r b' v where
    "l_value_body name suffix n ks vs (string_builder m) w = Some (r, b', v)"
    "r = 0 \<longrightarrow> content b' = content (string_builder m) @ l_value_text name suffix ks vs"
    by metis
  then show ?thesis using assms(6) by (auto simp: pmf_load_l_value_def on_builder_def)
qed

text \<open>C36. \<open>pmf_load_l_value\<close> renders the metric name, the optional suffix and the label set in
  braces, separated by commas with none at the end; on success that is all it writes, it
  is safe for every outcome of the allocator and succeeds while memory is available.\<close>

theorem pmf_load_l_value_renders:
  assumes "psb_ok (string_builder m)" "mem_ok w" "length ks = n" "length vs = n"
    and "l_value_room (string_builder m) name suffix ks vs"
  shows "\<exists>r m' w'. pmf_load_l_value (Some m) (Some name) suffix n ks vs w = Some (r, Some m', w') \<and>
    psb_ok (string_builder m') \<and> (oom w = [] \<longrightarrow> r = 0) \<and>
    (r = 0 \<longrightarrow> content (string_builder m') =
      content (string_builder m) @ l_value_text name suffix ks vs)"
proof -
  from l_value_body_ok [OF assms] obtain r b' w' where
    "l_value_body name suffix n ks vs (string_builder m) w = Some (r, b', w')" "psb_ok b'"
    "r = 0 \<longrightarrow> content b' = content (string_builder m) @ l_value_text name suffix ks vs"
    "oom w = [] \<longrightarrow> r = 0 \<and> oom w' = []"
    by metis
  then show ?thesis
    by (intro exI [of _ r] exI [of _ "m\<lparr>string_builder := b'\<rparr>"] exI [of _ w'])
      (simp add: pmf_load_l_value_def on_builder_def)
qed

theorem pmf_load_l_value_renders_witness:
  "\<exists>m' w'. pmf_load_l_value (Some fresh_pmf) (Some ''disk'') (Some ''bytes'') 2 [Some ''dev'', Some ''op'']
      [Some ''sda'', Some ''read''] (small_mem []) = Some (0, Some m', w') \<and>
    content (string_builder m') =
      ''disk_bytes{dev='' @ [quote] @ ''sda'' @ [quote] @ '',op='' @ [quote] @ ''read'' @ [quote] @ ''}''"
proof -
  have "l_value_room (string_builder fresh_pmf) ''disk'' (Some ''bytes'') [Some ''dev'', Some ''op'']
      [Some ''sda'', Some ''read'']"
    by (simp add: l_value_room_def fresh_pmf_def head_text_def labels_text_def label_text_def
        opt_str_def psb_limit_def)
  from pmf_load_l_value_renders [OF _ _ _ _ this, of "small_mem []" 2] show ?thesis
    by (auto simp: fresh_pmf_def l_value_text_def head_text_def labels_text_def label_text_def
        opt_str_def quote_def)
qed

text \<open>\<open>pmf_load_sample\<close> writes prefix, \<open>l_value\<close>, a blank, the value as \<open>%.17g\<close> and a line
  feed; what \<open>sprintf\<close> writes always fits its 64 byte buffer.\<close>

theorem pmf_load_sample_line:
  assumes "psb_ok (string_builder m)" "mem_ok w" "oom w = []" "samples w a = Some s"
    and "load_opt (l_value s) w = Some l" "dvalid (r_value s)"
    and "length (content (string_builder m)) + length (sample_text prefix l (r_value s)) < psb_limit"
  shows "length ('' '' @ fmt_g17 (r_value s)) < 64 \<and>
    (\<exists>m' w'. pmf_load_sample (Some m) a prefix w = Some (0, Some m', w') \<and>
      psb_ok (string_builder m') \<and> samples w' = samples w \<and> strs w' = strs w \<and>
      content (string_builder m') = content (string_builder m) @ sample_text prefix l (r_value s))"
proof
  show "length ('' '' @ fmt_g17 (r_value s)) < 64" using length_fmt_g17 [OF assms(6)] by simp
  from sample_line_writes [OF assms(1,2,7)] obtain r b' w' where
    r: "sample_line prefix l (r_value s) (string_builder m) w = Some (r, b', w')" "psb_ok b'" "grown w w'"
      "oom w = [] \<longrightarrow> r = 0 \<and> content b' = content (string_builder m) @ sample_text prefix l (r_value s) \<and>
        oom w' = []"
    by metis
  moreover have "samples w' = samples w"
    using grown_more [OF r(3)] by (cases w; cases w') simp
  ultimately show "\<exists>m' w'. pmf_load_sample (Some m) a prefix w = Some (0, Some m', w') \<and>
      psb_ok (string_builder m') \<and> samples w' = samples w \<and> strs w' = strs w \<and>
      content (string_builder m') = content (string_builder m) @ sample_text prefix l (r_value s)"
    using assms(3-5) grown_strs [OF r(3)]
    by (intro exI [of _ "m\<lparr>string_builder := b'\<rparr>"] exI [of _ w'])
      (simp add: pmf_load_sample_def on_builder_def)
qed

theorem pmf_load_sample_line_witness:
  "\<exists>m' w'. pmf_load_sample (Some fresh_pmf) 2 None (one_sample d_one) = Some (0, Some m', w') \<and>
    content (string_builder m') = ''c 1'' @ [CHR 0x0A]"
proof -
  let ?s = "\<lparr>stype = PROM_COUNTER, l_value = 1, r_value = d_one\<rparr>"
  have one: "fmt_g17 d_one = ''1''"
    by (simp add: d_one_def dbl_simps)
  have "mem_ok (one_sample d_one)" by (simp add: mem_ok_def one_sample_def)
  then show ?thesis
    using pmf_load_sample_line [of fresh_pmf "one_sample d_one" 2 ?s "Some ''c''" None]
    by (auto simp: fresh_pmf_def one_sample_def load_opt_def load_str_def sample_text_def opt_str_def
        psb_limit_def one)
qed

text \<open>C37. \<open>pmf_load_l_value\<close> tells the label values of a metric apart: two loads of the same
  name, suffix and label names into formatters of the same content, whatever the allocator does,
  that both return 0 leave the same content only if they were given the same label values, as
  long as no label value contains a double quote.\<close>

theorem l_value_injective:
  assumes "length vs = length ks" "length vs' = length ks" "list_all unquoted vs" "list_all unquoted vs'"
    and "psb_ok (string_builder m)" "mem_ok w" "l_value_room (string_builder m) name suffix (map Some ks) (map Some vs)"
    and "psb_ok (string_builder n)" "mem_ok u" "l_value_room (string_builder n) name suffix (map Some ks) (map Some vs')"
    and "content (string_builder m) = content (string_builder n)"
    and "pmf_load_l_value (Some m) (Some name) suffix (length ks) (map Some ks) (map Some vs) w = Some (0, Some m', w')"
    and "pmf_load_l_value (Some n) (Some name) suffix (length ks) (map Some ks) (map Some vs') u = Some (0, Some n', u')"
  shows "content (string_builder m') = content (string_builder n') \<longleftrightarrow> vs = vs'"
proof -
  have "content (string_builder m') = content (string_builder m) @ l_value_text name suffix (map Some ks) (map Some vs)"
    using loaded_l_value [OF assms(5,6) _ _ assms(7,12)] assms(1) by simp
  moreover have "content (string_builder n') =
      content (string_builder n) @ l_value_text name suffix (map Some ks) (map Some vs')"
    using loaded_l_value [OF assms(8,9) _ _ assms(10,13)] assms(2) by simp
  ultimately show ?thesis
    using l_value_text_inj [of vs ks vs' name suffix] assms(1-4,11) by (auto simp: list_all_iff)
qed

theorem l_value_injective_witness:
  "\<exists>m1 w1 m2 w2. pmf_load_l_value (Some fresh_pmf) (Some ''m'') None 1 [Some ''a''] [Some ''x''] (small_mem []) =
      Some (0, Some m1, w1) \<and>
    pmf_load_l_value (Some fresh_pmf) (Some ''m'') None 1 [Some ''a''] [Some ''y''] (small_mem []) =
      Some (0, Some m2, w2) \<and> content (string_builder m1) \<noteq> content (string_builder m2)"
proof -
  have room: "l_value_room (string_builder fresh_pmf) ''m'' None (map Some [''a'']) (map Some [v])"
    if "length v < 10" for v
    using that by (simp add: l_value_room_def fresh_pmf_def head_text_def labels_text_def label_text_def
        opt_str_def psb_limit_def)
  have run: "\<exists>m1 w1. pmf_load_l_value (Some fresh_pmf) (Some ''m'') None (length [''a'']) (map Some [''a''])
      (map Some [v]) (small_mem []) = Some (0, Some m1, w1)" if "length v < 10" for v
  proof -
    have "psb_ok (string_builder fresh_pmf)" "mem_ok (small_mem [])" by (simp_all add: fresh_pmf_def)
    from l_value_body_ok [OF this _ _ room [OF that], of 1] obtain r b u where
      "l_value_body ''m'' None 1 (map Some [''a'']) (map Some [v]) (string_builder fresh_pmf) (small_mem []) =
        Some (r, b, u)" "oom (small_mem []) = [] \<longrightarrow> r = 0 \<and> oom u = []"
      by (metis One_nat_def length_Cons length_map list.size(3))
    then show ?thesis by (simp add: pmf_load_l_value_def on_builder_def)
  qed
  have x: "length ''x'' < 10" and y: "length ''y'' < 10" by simp_all
  obtain m1 w1 m2 w2 where r: "pmf_load_l_value (Some fresh_pmf) (Some ''m'') None (length [''a''])
      (map Some [''a'']) (map Some [''x'']) (small_mem []) = Some (0, Some m1, w1)"
    "pmf_load_l_value (Some fresh_pmf) (Some ''m'') None (length [''a'']) (map Some [''a''])
      (map Some [''y'']) (small_mem []) = Some (0, Some m2, w2)"
    using run [OF x] run [OF y] by blast
  have "content (string_builder m1) \<noteq> content (string_builder m2)"
    using l_value_injective [OF _ _ _ _ _ _ room [OF x] _ _ room [OF y] _ r]
    by (simp add: unquoted_def quote_def fresh_pmf_def)
  then show ?thesis using r by auto
qed

text \<open>Quotes in label values are not escaped: two different label sets of one metric are
  rendered the same and share one sample.\<close>

theorem l_value_collision:
  "\<exists>vs vs'. vs \<noteq> vs' \<and> length vs = 2 \<and> length vs' = 2 \<and>
    l_value_text ''m'' None (map Some [''a'', ''b'']) (map Some vs) =
    l_value_text ''m'' None (map Some [''a'', ''b'']) (map Some vs')"
proof (intro exI conjI)
  let ?q = "[quote]"
  let ?vs = "[''1'' @ ?q @ '',b='' @ ?q @ ''2'', ''3'']"
  let ?vs' = "[''1'', ''2'' @ ?q @ '',b='' @ ?q @ ''3'']"
  show "?vs \<noteq> ?vs'" by simp
  show "length ?vs = 2" "length ?vs' = 2" by simp_all
  show "l_value_text ''m'' None (map Some [''a'', ''b'']) (map Some ?vs) =
      l_value_text ''m'' None (map Some [''a'', ''b'']) (map Some ?vs')"
    by (simp add: l_value_text_def labels_text_def label_text_def opt_str_def quote_def)
qed

end
