(* ===== verification/HistogramBuckets.thy ===== *)
theory HistogramBuckets
  imports MetricSample CFormat
begin

text \<open>
  \<open>lib/prom/src/prom_histogram_buckets.c\<close>: the ascending upper bounds of a histogram and the
  strings that name them. Bucket sets are heap objects, because metrics share them: the
  global \<open>prom_histogram_default_buckets\<close> is part of the world.
\<close>

section \<open>Data\<close>

text \<open>\<open>key\<close>: one heap string per bound, NULL where \<open>strdup\<close> failed.\<close>

record phb =
  bcount :: int
  upper_bound :: "double list"
  bkey :: "addr list"

record bmem = smem +
  phbs :: "addr \<Rightarrow> phb option"
  default_buckets :: addr

type_synonym 'z bworld = "'z bmem_scheme"

section \<open>Operations\<close>

text \<open>
  \<open>buf\<close> has 32 bytes; \<open>.0\<close> is appended when the text has no point and is shorter than 30.
  The C function returns a \<open>strdup\<close> of it.
\<close>

definition double_text :: "double \<Rightarrow> string" where
  "double_text v = (let s = fmt_g17 v in
     if CHR ''.'' \<notin> set s \<and> length s < 30 then s @ ''.0'' else s)"

definition double_to_str :: "double \<Rightarrow> 'z mem_scheme \<Rightarrow> addr \<times> 'z mem_scheme" where
  "double_to_str v w = strdup (double_text v) w"

fun keys_of :: "double list \<Rightarrow> 'z mem_scheme \<Rightarrow> addr list \<times> 'z mem_scheme" where
  "keys_of [] w = ([], w)"
| "keys_of (b # bs) w =
     (let (k, w) = double_to_str b w; (ks, w) = keys_of bs w in (k # ks, w))"

text \<open>\<open>int\<close> from \<open>size_t\<close>: the low 32 bits, read as signed.\<close>

definition int_of_size :: "u64 \<Rightarrow> int" where
  "int_of_size n = sint (ucast n :: 32 word)"

text \<open>
  \<open>rest\<close> are the variadic arguments. When an array cannot be allocated \<open>phb_destroy\<close> walks
  the NULL \<open>key\<close> array, unless the count is not positive. With a count of 0 the first bound
  is written past its array; reading an argument that was not passed is undefined.
\<close>

definition phb_new :: "u64 \<Rightarrow> double \<Rightarrow> double list \<Rightarrow> 'z bworld \<Rightarrow> (addr \<times> 'z bworld) option" where
  "phb_new n bucket rest w = (let (self, w) = malloc w in
     if self = NULL then Some (NULL, w)
     else let (ub, w) = malloc w; (ks, w) = malloc w in
     if ub = NULL \<or> ks = NULL then (if 0 < int_of_size n then None else Some (NULL, w))
     else if n = 0 \<or> length rest < unat n - 1 then None
     else let bounds = bucket # take (unat n - 1) rest; (keys, w) = keys_of bounds w in
       Some (self, w\<lparr>phbs := (phbs w)(self \<mapsto>
         \<lparr>bcount = int_of_size n, upper_bound = bounds, bkey = keys\<rparr>)\<rparr>))"

fun iterate_bounds :: "(double \<Rightarrow> double) \<Rightarrow> nat \<Rightarrow> double \<Rightarrow> double list" where
  "iterate_bounds f 0 x = []"
| "iterate_bounds f (Suc n) x = x # iterate_bounds f n (f x)"

text \<open>
  The common part of \<open>phb_linear\<close> and \<open>phb_exponential\<close>. Here \<open>self->count\<close> is not yet set
  when an allocation fails, so that \<open>phb_destroy\<close> reads an indeterminate value.
\<close>

definition phb_fill :: "double list \<Rightarrow> u64 \<Rightarrow> 'z bworld \<Rightarrow> (addr \<times> 'z bworld) option" where
  "phb_fill bounds n w = (let (self, w) = malloc w in
     if self = NULL then Some (NULL, w)
     else let (ub, w) = malloc w; (ks, w) = malloc w in
     if ub = NULL \<or> ks = NULL then None
     else let (keys, w) = keys_of bounds w in
       Some (self, w\<lparr>phbs := (phbs w)(self \<mapsto>
         \<lparr>bcount = int_of_size n, upper_bound = bounds, bkey = keys\<rparr>)\<rparr>))"

definition phb_linear :: "double \<Rightarrow> double \<Rightarrow> u64 \<Rightarrow> 'z bworld \<Rightarrow> (addr \<times> 'z bworld) option" where
  "phb_linear start width n w = (if n \<le> 1 then Some (NULL, w)
     else phb_fill (iterate_bounds (\<lambda>x. dadd x width) (unat n) start) n w)"

definition phb_exponential :: "double \<Rightarrow> double \<Rightarrow> u64 \<Rightarrow> 'z bworld \<Rightarrow> (addr \<times> 'z bworld) option" where
  "phb_exponential start factor n w =
     (if n < 1 \<or> dle start dzero \<or> dle factor d_one then Some (NULL, w)
      else phb_fill (iterate_bounds (\<lambda>x. dmul x factor) (unat n) start) n w)"

fun free_strs :: "addr list \<Rightarrow> 'z mem_scheme \<Rightarrow> 'z mem_scheme option" where
  "free_strs [] w = Some w"
| "free_strs (a # as) w = do { w \<leftarrow> free_str a w; free_strs as w }"

definition phb_destroy :: "addr \<Rightarrow> 'z bworld \<Rightarrow> (int \<times> 'z bworld) option" where
  "phb_destroy self w = (if self = NULL then Some (0, w)
     else do {
       b \<leftarrow> phbs w self;
       w \<leftarrow> (if nat (bcount b) \<le> length (bkey b) then free_strs (take (nat (bcount b)) (bkey b)) w else None);
       Some (0, w\<lparr>phbs := (phbs w)(self := None)\<rparr>)
     })"

definition phb_count :: "phb \<Rightarrow> u64" where
  "phb_count self = word_of_int (bcount self)"

section \<open>Names of bounds\<close>

lemma length_double_text: "dvalid v \<Longrightarrow> length (double_text v) \<le> 26"
  using length_fmt_g17 [of v] by (auto simp: double_text_def Let_def)

section \<open>Order of bounds\<close>

fun ascending :: "double list \<Rightarrow> bool" where
  "ascending [] = True"
| "ascending [b] = True"
| "ascending (a # b # bs) = (dle a b \<and> ascending (b # bs))"

lemma iterate_ascending:
  assumes "\<And>x. P x \<Longrightarrow> P (f x) \<and> dle x (f x)" "P x"
  shows "ascending (iterate_bounds f n x)"
  using assms(2)
proof (induction n arbitrary: x)
  case (Suc n)
  then have "ascending (iterate_bounds f n (f x))" "dle x (f x)" using assms(1) by auto
  then show ?case by (cases n) auto
qed simp

definition ordinary :: "double \<Rightarrow> bool" where
  "ordinary x \<longleftrightarrow> dvalid x \<and> x \<noteq> DNaN \<and> x \<noteq> DInf True"

lemma ordinary_add:
  assumes "ordinary x" "dvalid y" "y \<noteq> DNaN" "\<not> dlt y dzero"
  shows "ordinary (dadd x y) \<and> dle x (dadd x y)"
proof -
  have le: "dle x (dadd x y)" using assms by (intro dadd_mono) (auto simp: ordinary_def)
  show ?thesis
  proof (cases "is_fin x \<and> is_fin y")
    case True
    then have "rounds_to (dval x + dval y) (dadd x y)" by (intro dadd_rounds) auto
    moreover have "dadd x y \<noteq> DInf True" using le True by (cases x) (auto simp: dle_def)
    ultimately show ?thesis using le rounds_to_valid rounds_to_not_NaN by (auto simp: ordinary_def)
  next
    case False
    then show ?thesis using assms le by (cases x; cases y) (auto simp: dzero_def ordinary_def)
  qed
qed

section \<open>Properties\<close>

text \<open>The bounds \<open>phb_linear\<close> computes ascend for a width that is not negative, whatever
  the rounding of the sums, and their names fit the 32 byte buffer.\<close>

theorem phb_linear_ascending:
  assumes "ordinary start" "dvalid width" "width \<noteq> DNaN" "\<not> dlt width dzero" "1 < n"
    and "oom w = []" "mem_ok w"
  shows "\<exists>a w' b. phb_linear start width n w = Some (a, w') \<and> phbs w' a = Some b \<and>
    length (upper_bound b) = unat n \<and> ascending (upper_bound b) \<and>
    (\<forall>v \<in> set (upper_bound b). length (double_text v) < 32)"
proof -
  let ?bs = "iterate_bounds (\<lambda>x. dadd x width) (unat n) start"
  have all: "x \<in> set (iterate_bounds (\<lambda>x. dadd x width) k s) \<Longrightarrow> ordinary s \<Longrightarrow> ordinary x" for x k s
  proof (induction k arbitrary: s)
    case (Suc k)
    have "x = s \<or> x \<in> set (iterate_bounds (\<lambda>x. dadd x width) k (dadd s width))"
      using Suc.prems(1) by simp
    then show ?case using Suc.IH [of "dadd s width"] Suc.prems(2) ordinary_add [OF Suc.prems(2) assms(2-4)]
      by blast
  qed simp
  have "length (double_text v) < 32" if "v \<in> set ?bs" for v
  proof -
    have "dvalid v" using all [OF that assms(1)] by (simp add: ordinary_def)
    from length_double_text [OF this] show ?thesis by simp
  qed
  moreover have "ascending ?bs"
    using ordinary_add assms(1-4) by (intro iterate_ascending [where P = ordinary]) auto
  moreover have "length (iterate_bounds f k s) = k" for f k and s :: double
    by (induction k arbitrary: s) simp_all
  moreover have "brk w \<noteq> NULL" using assms(7) by (simp add: mem_ok_def)
  moreover obtain keys w1 where "keys_of ?bs (w\<lparr>brk := Suc (Suc (Suc (brk w)))\<rparr>) = (keys, w1)" by force
  ultimately show ?thesis using assms(5,6)
    by (auto simp: phb_linear_def phb_fill_def malloc_ok)
qed

text \<open>A world without buckets, for the witnesses.\<close>

definition bworld0 :: bmem where
  "bworld0 = \<lparr>strs = Map.empty, brk = 1, oom = [], samples = Map.empty, phbs = Map.empty,
     default_buckets = NULL\<rparr>"

theorem phb_linear_ascending_witness:
  "\<exists>a w' b. phb_linear dzero d_one 3 bworld0 = Some (a, w') \<and> phbs w' a = Some b \<and>
    length (upper_bound b) = 3 \<and> ascending (upper_bound b)"
  using phb_linear_ascending [of dzero d_one 3 bworld0]
  by (auto simp: ordinary_def bworld0_def mem_ok_def)

text \<open>The name of a bound that \<open>%.17g\<close> prints without a point but with an exponent is no
  number: for \<open>1e20\<close> it is \<open>1e+20.0\<close>, and for infinity \<open>inf.0\<close>.\<close>

theorem bucket_name_malformed:
  "double_text (d_of_nat (10 ^ 20)) = ''1e+20.0'' \<and> double_text (DInf False) = ''inf.0''"
proof
  have "d_of_nat (10 ^ 20) = DFin False 6103515625000000 14" by (simp add: dbl_simps)
  moreover have "fmt_g17 (DFin False 6103515625000000 14) = ''1e+20''" by (simp add: dbl_simps)
  ultimately show "double_text (d_of_nat (10 ^ 20)) = ''1e+20.0''" by (simp add: double_text_def)
qed (simp add: double_text_def)

end
