(* ===== verification/SampleHistogram.thy ===== *)
theory SampleHistogram
  imports PromMap MetricFormatter HistogramBuckets
begin

text \<open>
  \<open>lib/prom/src/prom_metric_sample_histogram.c\<close>: one labelled histogram. It owns a map from
  bucket names to \<open>l_value\<close> strings and a map from \<open>l_value\<close>s to samples, and finds every
  sample it updates through both. The main results: an observation adds 1 to exactly the
  buckets whose bound is not below the value, to \<open>+Inf\<close> and to \<open>count\<close>, and the value to
  \<open>sum\<close>; over any sequence of observations a bucket counts the values up to its bound.
\<close>

section \<open>Data\<close>

record pmsh =
  l_value_list :: "addr list"
  l_values :: pmap
  hsamples :: pmap
  metric_formatter :: pmf
  hbuckets :: addr
  hlock :: bool

record hmem = bmem +
  hists :: "addr \<Rightarrow> pmsh option"

type_synonym 'z hworld = "'z hmem_scheme"

text \<open>The free functions of the two maps.\<close>

definition free_str_generic :: "addr \<Rightarrow> 'z mem_scheme \<Rightarrow> 'z mem_scheme option" where
  "free_str_generic gen w = free_str gen w"

fun run_sample :: "'z hworld runner" where
  "run_sample No_Op v w = Some w"
| "run_sample Str_Free v w = free_str_generic v w"
| "run_sample Sample_Free v w = pms_free_generic v w"
| "run_sample _ v w = None"

section \<open>Construction\<close>

text \<open>
  The copies of the label arrays. \<open>prom_strdup\<close> of a NULL element is undefined; a failed
  copy is a NULL element.
\<close>

fun dup_labels :: "nat \<Rightarrow> string option list \<Rightarrow> string option list \<Rightarrow> 'z mem_scheme
    \<Rightarrow> (addr list \<times> addr list \<times> 'z mem_scheme) option" where
  "dup_labels 0 ks vs w = Some ([], [], w)"
| "dup_labels (Suc n) (Some k # ks) (Some v # vs) w =
     (let (ka, w) = strdup k w; (va, w) = strdup v w in
      do { (kas, vas, w) \<leftarrow> dup_labels n ks vs w; Some (ka # kas, va # vas, w) })"
| "dup_labels (Suc n) _ _ w = None"

fun load_all :: "addr list \<Rightarrow> 'z mem_scheme \<Rightarrow> string option list option" where
  "load_all [] w = Some []"
| "load_all (a # as) w = do { s \<leftarrow> load_opt a w; ss \<leftarrow> load_all as w; Some (s # ss) }"

text \<open>
  The check after the second \<open>malloc\<close> tests the first array again, so a failure of the
  second is undefined when it is written.
\<close>

definition l_value_for_bucket :: "pmf \<Rightarrow> string \<Rightarrow> nat \<Rightarrow> string option list \<Rightarrow> string option list
    \<Rightarrow> string \<Rightarrow> 'z mem_scheme \<Rightarrow> (addr \<times> pmf \<times> 'z mem_scheme) option" where
  "l_value_for_bucket f name n ks vs bucket_key w = (let (nk, w) = malloc w in
     if nk = NULL then Some (NULL, f, w)
     else let (nv, w) = malloc w in
     if nv = NULL then None
     else do {
       (kas, vas, w) \<leftarrow> dup_labels n ks vs w;
       let (le, w) = strdup ''le'' w;
       let (bk, w) = strdup bucket_key w;
       new_keys \<leftarrow> load_all (kas @ [le]) w;
       new_values \<leftarrow> load_all (vas @ [bk]) w;
       (r, f', w) \<leftarrow> pmf_load_l_value (Some f) (Some name) (Some ''bucket'') (n + 1) new_keys new_values w;
       (ret, f', w) \<leftarrow> (if r \<noteq> 0 then Some (NULL, f', w) else pmf_dump f' w);
       w \<leftarrow> free_strs (kas @ [le]) w;
       w \<leftarrow> free_strs (vas @ [bk]) w;
       f \<leftarrow> f';
       Some (ret, f, w)
     })"

definition l_value_for_inf :: "pmf \<Rightarrow> string \<Rightarrow> nat \<Rightarrow> string option list \<Rightarrow> string option list
    \<Rightarrow> 'z mem_scheme \<Rightarrow> (addr \<times> pmf \<times> 'z mem_scheme) option" where
  "l_value_for_inf f name n ks vs w = l_value_for_bucket f name n ks vs ''+Inf'' w"

text \<open>
  The tail the four \<open>init_\<close> functions share: append a copy of the \<open>l_value\<close> to the list,
  map the bucket name to it, make a sample and map the \<open>l_value\<close> to the sample. They differ
  in the codes they return.
\<close>

definition init_sample :: "int \<Rightarrow> int \<Rightarrow> int \<Rightarrow> (int \<Rightarrow> int) \<Rightarrow> pmsh \<Rightarrow> string \<Rightarrow> addr \<Rightarrow> 'z hworld
    \<Rightarrow> (int \<times> pmsh \<times> 'z hworld) option" where
  "init_sample e_append e_name e_new e_set h bucket_key l w = do {
     s \<leftarrow> load_str l w;
     let (c, w) = strdup s w;
     let (r, ls, w) = seq_append (l_value_list h) c w;
     let h = h\<lparr>l_value_list := ls\<rparr>;
     if r \<noteq> 0 then Some (e_append, h, w) else do {
     (r, m, w) \<leftarrow> prom_map_set run_sample (l_values h) bucket_key l w;
     let h = h\<lparr>l_values := m\<rparr>;
     if r \<noteq> 0 then Some (e_name, h, w) else do {
     s \<leftarrow> load_str l w;
     let (a, w) = pms_new PROM_HISTOGRAM s dzero w;
     if a = NULL then Some (e_new, h, w) else do {
     (r, m, w) \<leftarrow> prom_map_set run_sample (hsamples h) s a w;
     Some (e_set r, h\<lparr>hsamples := m\<rparr>, w) }}}}"

fun init_bucket_samples :: "pmsh \<Rightarrow> string \<Rightarrow> nat \<Rightarrow> string option list \<Rightarrow> string option list
    \<Rightarrow> addr list \<Rightarrow> 'z hworld \<Rightarrow> (int \<times> pmsh \<times> 'z hworld) option" where
  "init_bucket_samples h name n ks vs [] w = Some (0, h, w)"
| "init_bucket_samples h name n ks vs (k # bkeys) w = (if k = NULL then Some (3, h, w)
     else do {
       bucket_key \<leftarrow> load_str k w;
       (l, f, w) \<leftarrow> l_value_for_bucket (metric_formatter h) name n ks vs bucket_key w;
       let h = h\<lparr>metric_formatter := f\<rparr>;
       if l = NULL then Some (1, h, w) else do {
       (r, h, w) \<leftarrow> init_sample 2 4 5 (\<lambda>r. if r \<noteq> 0 then 6 else 0) h bucket_key l w;
       if r \<noteq> 0 then Some (r, h, w) else init_bucket_samples h name n ks vs bkeys w } })"

definition init_inf :: "pmsh \<Rightarrow> string \<Rightarrow> nat \<Rightarrow> string option list \<Rightarrow> string option list \<Rightarrow> 'z hworld
    \<Rightarrow> (int \<times> pmsh \<times> 'z hworld) option" where
  "init_inf h name n ks vs w = do {
     (l, f, w) \<leftarrow> l_value_for_inf (metric_formatter h) name n ks vs w;
     let h = h\<lparr>metric_formatter := f\<rparr>;
     if l = NULL then Some (1, h, w) else init_sample 2 3 4 (\<lambda>r. r) h ''+Inf'' l w }"

definition l_value_plain :: "pmf \<Rightarrow> string \<Rightarrow> string \<Rightarrow> nat \<Rightarrow> string option list \<Rightarrow> string option list
    \<Rightarrow> 'z hworld \<Rightarrow> (int \<times> addr \<times> pmf \<times> 'z hworld) option" where
  "l_value_plain f name suffix n ks vs w = do {
     (r, f', w) \<leftarrow> pmf_load_l_value (Some f) (Some name) (Some suffix) n ks vs w;
     (l, f', w) \<leftarrow> (if r \<noteq> 0 then Some (NULL, f', w) else pmf_dump f' w);
     f \<leftarrow> f';
     Some (r, l, f, w) }"

definition init_count :: "pmsh \<Rightarrow> string \<Rightarrow> nat \<Rightarrow> string option list \<Rightarrow> string option list \<Rightarrow> 'z hworld
    \<Rightarrow> (int \<times> pmsh \<times> 'z hworld) option" where
  "init_count h name n ks vs w = do {
     (r, l, f, w) \<leftarrow> l_value_plain (metric_formatter h) name ''count'' n ks vs w;
     let h = h\<lparr>metric_formatter := f\<rparr>;
     if r \<noteq> 0 \<or> l = NULL then Some (1, h, w) else init_sample 2 3 1 (\<lambda>r. r) h ''count'' l w }"

definition init_summary :: "pmsh \<Rightarrow> string \<Rightarrow> nat \<Rightarrow> string option list \<Rightarrow> string option list \<Rightarrow> 'z hworld
    \<Rightarrow> (int \<times> pmsh \<times> 'z hworld) option" where
  "init_summary h name n ks vs w = do {
     (r, l, f, w) \<leftarrow> l_value_plain (metric_formatter h) name ''sum'' n ks vs w;
     let h = h\<lparr>metric_formatter := f\<rparr>;
     if r \<noteq> 0 then Some (1, h, w)
     else if l = NULL then Some (2, h, w) else init_sample 3 4 1 (\<lambda>r. r) h ''sum'' l w }"

fun free_items :: "addr list \<Rightarrow> 'z mem_scheme \<Rightarrow> 'z mem_scheme option" where
  "free_items [] w = Some w"
| "free_items (a # as) w = do { w \<leftarrow> (if a = NULL then Some w else free_str a w); free_items as w }"

text \<open>What \<open>pms_histogram_destroy\<close> frees, once the lock exists.\<close>

definition destroy_parts :: "pmsh \<Rightarrow> 'z hworld \<Rightarrow> 'z hworld option" where
  "destroy_parts h w = do {
     w \<leftarrow> free_items (l_value_list h) w;
     (_, w) \<leftarrow> prom_map_destroy run_sample (Some (hsamples h)) w;
     (_, w) \<leftarrow> prom_map_destroy run_sample (Some (l_values h)) w;
     Some w }"

text \<open>
  The four \<open>init_\<close> calls in order; \<open>bkeys\<close> are the names of the buckets the loop of
  \<open>init_bucket_samples\<close> visits.
\<close>

definition init_all :: "pmsh \<Rightarrow> string \<Rightarrow> nat \<Rightarrow> string option list \<Rightarrow> string option list
    \<Rightarrow> addr list \<Rightarrow> 'z hworld \<Rightarrow> (int \<times> pmsh \<times> 'z hworld) option" where
  "init_all h name n ks vs bkeys w = do {
     (r, h, w) \<leftarrow> init_bucket_samples h name n ks vs bkeys w;
     if r \<noteq> 0 then Some (r, h, w) else do {
     (r, h, w) \<leftarrow> init_inf h name n ks vs w;
     if r \<noteq> 0 then Some (r, h, w) else do {
     (r, h, w) \<leftarrow> init_count h name n ks vs w;
     if r \<noteq> 0 then Some (r, h, w) else init_summary h name n ks vs w }}}"

text \<open>
  Until the lock is allocated every \<open>goto fail\<close> destroys a NULL lock, which POSIX leaves
  undefined. A NULL \<open>buckets\<close> pointer is dereferenced by \<open>phb_count\<close>, and with fewer keys
  than buckets the loop reads past their array.
\<close>

definition pms_histogram_new :: "string \<Rightarrow> addr \<Rightarrow> nat \<Rightarrow> string option list \<Rightarrow> string option list
    \<Rightarrow> 'z hworld \<Rightarrow> (addr \<times> 'z hworld) option" where
  "pms_histogram_new name buckets n ks vs w = (let (self, w) = malloc w in
     if self = NULL then Some (NULL, w)
     else let (l, w) = malloc w in
     if l = NULL then None
     else case pmf_new w of (None, w) \<Rightarrow> None
     | (Some f, w) \<Rightarrow> do {
         (sm, w) \<leftarrow> prom_map_new w;
         sm \<leftarrow> sm;
         (lm, w) \<leftarrow> prom_map_new w;
         lm \<leftarrow> lm;
         let (lock, w) = malloc w;
         if lock = NULL then None else do {
         b \<leftarrow> phbs w buckets;
         let h = \<lparr>l_value_list = [],
                  l_values = snd (prom_map_set_free_value_fn lm Str_Free),
                  hsamples = snd (prom_map_set_free_value_fn sm Sample_Free),
                  metric_formatter = f, hbuckets = buckets, hlock = False\<rparr>;
         if length (bkey b) < nat (bcount b) then None else do {
         (r, h, w) \<leftarrow> init_all h name n ks vs (take (nat (bcount b)) (bkey b)) w;
         if r \<noteq> 0 then do { w \<leftarrow> destroy_parts h w; Some (NULL, w) }
         else Some (self, w\<lparr>hists := (hists w)(self \<mapsto> h)\<rparr>) } } })"

definition pms_histogram_destroy :: "addr \<Rightarrow> 'z hworld \<Rightarrow> (int \<times> 'z hworld) option" where
  "pms_histogram_destroy self w = (if self = NULL then Some (0, w)
     else do {
       h \<leftarrow> hists w self;
       w \<leftarrow> destroy_parts h w;
       Some (0, w\<lparr>hists := (hists w)(self := None)\<rparr>) })"

definition pms_histogram_destroy_generic :: "addr \<Rightarrow> 'z hworld \<Rightarrow> (int \<times> 'z hworld) option" where
  "pms_histogram_destroy_generic g w = pms_histogram_destroy g w"

definition pms_histogram_free_generic :: "addr \<Rightarrow> 'z hworld \<Rightarrow> 'z hworld option" where
  "pms_histogram_free_generic g w = map_option snd (pms_histogram_destroy g w)"

section \<open>Observation\<close>

text \<open>
  The lookup through both maps and the addition; False where the code jumps to \<open>end\<close>.
\<close>

definition bump :: "pmsh \<Rightarrow> string \<Rightarrow> double \<Rightarrow> 'z hworld \<Rightarrow> (bool \<times> 'z hworld) option" where
  "bump h bucket_key amount w = do {
     (l, w) \<leftarrow> prom_map_get run_sample (l_values h) (Some bucket_key) w;
     if l = NULL then Some (False, w) else do {
     s \<leftarrow> load_str l w;
     (a, w) \<leftarrow> prom_map_get run_sample (hsamples h) (Some s) w;
     if a = NULL then Some (False, w) else do {
     (r, w) \<leftarrow> pms_add a amount w;
     Some (r = 0, w) }}}"

text \<open>The loop from the last bucket down; it stops at the first bound below the value.\<close>

fun observe_buckets :: "pmsh \<Rightarrow> double \<Rightarrow> (double \<times> addr) list \<Rightarrow> 'z hworld \<Rightarrow> (bool \<times> 'z hworld) option" where
  "observe_buckets h v [] w = Some (True, w)"
| "observe_buckets h v ((ub, k) # rest) w = (if dlt ub v then Some (True, w)
     else if k = NULL then Some (False, w)
     else do {
       bucket_key \<leftarrow> load_str k w;
       (ok, w) \<leftarrow> bump h bucket_key d_one w;
       if \<not> ok then Some (False, w) else observe_buckets h v rest w })"

definition observe_rest :: "pmsh \<Rightarrow> double \<Rightarrow> 'z hworld \<Rightarrow> (int \<times> 'z hworld) option" where
  "observe_rest h v w = do {
     (ok, w) \<leftarrow> bump h ''+Inf'' d_one w;
     if \<not> ok then Some (2, w) else do {
     (ok, w) \<leftarrow> bump h ''count'' d_one w;
     if \<not> ok then Some (2, w) else do {
     (ok, w) \<leftarrow> bump h ''sum'' v w;
     Some (if ok then 0 else 2, w) }}}"

definition pms_histogram_observe :: "addr \<Rightarrow> double \<Rightarrow> 'z hworld \<Rightarrow> (int \<times> 'z hworld) option" where
  "pms_histogram_observe self v w = do {
     h \<leftarrow> hists w self;
     let (r, l) = wrlock (hlock h);
     if r \<noteq> 0 then Some (1, w)
     else do {
       b \<leftarrow> phbs w (hbuckets h);
       let n = nat (bcount b);
       if length (upper_bound b) < n \<or> length (bkey b) < n then None
       else do {
         (ok, w) \<leftarrow> observe_buckets h v (rev (zip (take n (upper_bound b)) (take n (bkey b)))) w;
         (err, w) \<leftarrow> (if ok then observe_rest h v w else Some (2, w));
         let (r, l) = rwunlock l;
         Some (if r \<noteq> 0 then 3 else err, w)
       } } }"

section \<open>What an observation changes\<close>

text \<open>Lookups allocate and free again; apart from that only sample values change.\<close>

definition only_samples :: "'z hworld \<Rightarrow> 'z hworld \<Rightarrow> bool" where
  "only_samples w w' \<longleftrightarrow> brk w \<le> brk w' \<and> w' = w\<lparr>brk := brk w', samples := samples w'\<rparr>"

lemma only_samples_refl [simp]: "only_samples w w"
  by (simp add: only_samples_def)

lemma only_samples_trans: "only_samples u v \<Longrightarrow> only_samples v w \<Longrightarrow> only_samples u w"
  by (cases u; cases v; cases w) (auto simp: only_samples_def)

lemma only_samples_frame:
  assumes "only_samples w w'"
  shows "strs w' = strs w" "oom w' = oom w" "phbs w' = phbs w" "hists w' = hists w"
    "mem_ok w \<Longrightarrow> mem_ok w'"
  using assms by (cases w; cases w'; fastforce simp: only_samples_def mem_ok_def)+

definition slot :: "pmsh \<Rightarrow> 'z hworld \<Rightarrow> string \<Rightarrow> addr option" where
  "slot h w k = (case lookup_map w (l_values h) k of None \<Rightarrow> None
     | Some l \<Rightarrow> case strs w l of None \<Rightarrow> None | Some s \<Rightarrow> lookup_map w (hsamples h) s)"

definition hist_ready :: "pmsh \<Rightarrow> 'z hworld \<Rightarrow> bool" where
  "hist_ready h w \<longleftrightarrow> map_ok (l_values h) w \<and> map_ok (hsamples h) w \<and> mem_ok w \<and> oom w = []"

lemma hist_ready_frame: "only_samples w w' \<Longrightarrow> hist_ready h w \<Longrightarrow> hist_ready h w'"
  using map_ok_strs [of w' w] by (auto simp: hist_ready_def only_samples_frame)

lemma slot_frame: "only_samples w w' \<Longrightarrow> slot h w' k = slot h w k"
  using lookup_strs [of w' w] by (simp add: slot_def only_samples_frame cong: option.case_cong)

text \<open>Adding an amount to the samples in a list.\<close>

definition credit :: "addr list \<Rightarrow> double \<Rightarrow> (addr \<Rightarrow> pms option) \<Rightarrow> addr \<Rightarrow> pms option" where
  "credit as r S a = (if a \<in> set as
     then map_option (\<lambda>s. s\<lparr>r_value := dadd (r_value s) r\<rparr>) (S a) else S a)"

lemma credit_Nil [simp]: "credit [] r S = S"
  by (simp add: credit_def fun_eq_iff)

lemma credit_append:
  "set as \<inter> set bs = {} \<Longrightarrow> credit bs r (credit as r S) = credit (as @ bs) r S"
  by (auto simp: credit_def fun_eq_iff)

lemma bump_ok:
  assumes r: "hist_ready h w" and sl: "slot h w k = Some a" "a \<noteq> NULL" and s: "samples w a = Some s"
  obtains w' where "bump h k amount w = Some (\<not> dlt amount dzero, w')" "only_samples w w'"
    "samples w' = (if dlt amount dzero then samples w else credit [a] amount (samples w))"
proof -
  obtain l t where l: "lookup_map w (l_values h) k = Some l" "strs w l = Some t"
      "lookup_map w (hsamples h) t = Some a"
    using sl(1) by (auto simp: slot_def split: option.splits)
  have m: "map_ok (l_values h) w" "map_ok (hsamples h) w" "mem_ok w" "oom w = []"
    using r by (auto simp: hist_ready_def)
  have l0: "l \<noteq> NULL" using mem_ok_live [OF m(3) l(2)] by simp
  let ?w1 = "w\<lparr>brk := Suc (Suc (brk w))\<rparr>"
  let ?w2 = "w\<lparr>brk := Suc (Suc (Suc (Suc (brk w))))\<rparr>"
  have m1: "map_ok (hsamples h) ?w1" "mem_ok ?w1" "oom ?w1 = []" "lookup_map ?w1 (hsamples h) = lookup_map w (hsamples h)"
    using m map_ok_strs [of ?w1 w] lookup_strs [of ?w1 w] by (auto simp: mem_ok_brk)
  have g: "prom_map_get run_sample (l_values h) (Some k) w = Some (l, ?w1)"
    "prom_map_get run_sample (hsamples h) (Some t) ?w1 = Some (a, ?w2)"
    using get_map_ok [OF m(1,3,4), of run_sample k] get_map_ok [OF m1(1-3), of run_sample t] l m1(4)
    by simp_all
  show thesis
  proof (cases "dlt amount dzero")
    case True
    have "bump h k amount w = Some (False, ?w2)"
      using g l0 l(2) sl(2) s True by (simp add: bump_def load_str_def pms_add_def)
    then show thesis using True by (intro that [of ?w2]) (auto simp: only_samples_def)
  next
    case False
    let ?w3 = "?w2\<lparr>samples := (samples w)(a \<mapsto> s\<lparr>r_value := dadd (r_value s) amount\<rparr>)\<rparr>"
    have "bump h k amount w = Some (True, ?w3)"
      using g l0 l(2) sl(2) s False by (simp add: bump_def load_str_def pms_add_def)
    moreover have "samples ?w3 = credit [a] amount (samples w)"
      using s by (auto simp: credit_def fun_eq_iff)
    ultimately show thesis using False by (intro that [of ?w3]) (auto simp: only_samples_def)
  qed
qed

definition names_slot :: "pmsh \<Rightarrow> 'z hworld \<Rightarrow> double \<times> addr \<Rightarrow> addr \<Rightarrow> bool" where
  "names_slot h w = (\<lambda>(ub, k) a. k \<noteq> NULL \<and> (\<exists>n. strs w k = Some n \<and> slot h w n = Some a))"

definition live_samples :: "'z hworld \<Rightarrow> addr list \<Rightarrow> bool" where
  "live_samples w as \<longleftrightarrow> (\<forall>a \<in> set as. a \<noteq> NULL \<and> samples w a \<noteq> None)"

lemma live_credit: "live_samples w as \<Longrightarrow> samples w' = credit bs r (samples w) \<Longrightarrow> live_samples w' as"
  by (auto simp: live_samples_def credit_def)

lemma observe_buckets_ok:
  assumes "hist_ready h w" "list_all2 (names_slot h w) bs as" "distinct as" "live_samples w as"
  shows "\<exists>w'. observe_buckets h v bs w = Some (True, w') \<and> only_samples w w' \<and>
    samples w' = credit (take (length (takeWhile (\<lambda>(ub, k). \<not> dlt ub v) bs)) as) d_one (samples w)"
  using assms
proof (induction bs arbitrary: as w)
  case Nil
  then show ?case by simp
next
  case (Cons bk bs)
  obtain ub k a as' where c: "bk = (ub, k)" "as = a # as'" using Cons.prems(2)
    by (cases bk; cases as) auto
  show ?case
  proof (cases "dlt ub v")
    case True
    then show ?thesis using c by simp
  next
    case False
    obtain n where n: "k \<noteq> NULL" "strs w k = Some n" "slot h w n = Some a"
      using Cons.prems(2) c by (auto simp: names_slot_def)
    obtain s where s: "a \<noteq> NULL" "samples w a = Some s"
      using Cons.prems(4) c by (auto simp: live_samples_def)
    obtain w1 where w1: "bump h n d_one w = Some (True, w1)" "only_samples w w1"
        "samples w1 = credit [a] d_one (samples w)"
      using bump_ok [OF Cons.prems(1) n(3) s, of d_one] by auto
    have "list_all2 (names_slot h w1) bs as'"
      using Cons.prems(2) c slot_frame [OF w1(2)] only_samples_frame(1) [OF w1(2)]
      by (simp add: names_slot_def)
    moreover have "live_samples w1 as'"
      using Cons.prems(4) c live_credit [OF _ w1(3)] by (auto simp: live_samples_def)
    ultimately obtain w2 where w2: "observe_buckets h v bs w1 = Some (True, w2)" "only_samples w1 w2"
        "samples w2 = credit (take (length (takeWhile (\<lambda>(ub, k). \<not> dlt ub v) bs)) as') d_one (samples w1)"
      using Cons.IH [OF hist_ready_frame [OF w1(2) Cons.prems(1)]] Cons.prems(3) c by auto
    let ?t = "take (length (takeWhile (\<lambda>(ub, k). \<not> dlt ub v) bs)) as'"
    have "set [a] \<inter> set ?t = {}" using Cons.prems(3) c set_take_subset [of _ as'] by auto
    then have "samples w2 = credit ([a] @ ?t) d_one (samples w)"
      unfolding w2(3) w1(3) by (rule credit_append)
    then show ?thesis
      using c False n(1,2) w1(1) w2(1) only_samples_trans [OF w1(2) w2(2)] by (simp add: load_str_def)
  qed
qed

section \<open>Well formed histograms\<close>

text \<open>
  \<open>as\<close> are the samples of the buckets in order, \<open>ai\<close>, \<open>ac\<close> and \<open>au\<close> those of \<open>+Inf\<close>,
  \<open>count\<close> and \<open>sum\<close>; all are different live samples.
\<close>

definition hist_wf :: "addr \<Rightarrow> 'z hworld \<Rightarrow> double list \<Rightarrow> addr list \<Rightarrow> addr \<Rightarrow> addr \<Rightarrow> addr \<Rightarrow> bool" where
  "hist_wf self w ubs as ai ac au \<longleftrightarrow> (\<exists>h b. hists w self = Some h \<and> \<not> hlock h \<and>
     phbs w (hbuckets h) = Some b \<and> upper_bound b = ubs \<and> bcount b = int (length ubs) \<and>
     length (bkey b) = length ubs \<and> hist_ready h w \<and>
     list_all2 (names_slot h w) (zip ubs (bkey b)) as \<and>
     slot h w ''+Inf'' = Some ai \<and> slot h w ''count'' = Some ac \<and> slot h w ''sum'' = Some au \<and>
     distinct (as @ [ai, ac, au]) \<and> live_samples w (as @ [ai, ac, au]))"

lemma hist_wf_length: "hist_wf self w ubs as ai ac au \<Longrightarrow> length as = length ubs"
  by (auto simp: hist_wf_def dest!: list_all2_lengthD)

lemma hist_wf_frame:
  assumes "hist_wf self w ubs as ai ac au" "only_samples w w'" "live_samples w' (as @ [ai, ac, au])"
  shows "hist_wf self w' ubs as ai ac au"
  using assms(1,3) hist_ready_frame [OF assms(2)]
  by (auto simp: hist_wf_def slot_frame [OF assms(2)] only_samples_frame [OF assms(2)] names_slot_def)

text \<open>The effect of one observation on the samples: the bucket loop, then the other three.\<close>

definition observed :: "double \<Rightarrow> double list \<Rightarrow> addr list \<Rightarrow> addr \<Rightarrow> addr \<Rightarrow> addr \<Rightarrow> (addr \<Rightarrow> pms option)
    \<Rightarrow> addr \<Rightarrow> pms option" where
  "observed v ubs as ai ac au S =
     credit [au] v (credit (take (length (takeWhile (\<lambda>ub. \<not> dlt ub v) (rev ubs))) (rev as) @ [ai, ac]) d_one S)"

lemma takeWhile_zip_fst:
  "length xs = length ys \<Longrightarrow>
   length (takeWhile (\<lambda>(x, y). P x) (zip xs ys)) = length (takeWhile P xs)"
  by (induction xs ys rule: list_induct2) auto

lemma observe_parts:
  assumes wf: "hist_wf self w ubs as ai ac au"
  obtains h b w1 w2 w3 where "hists w self = Some h" "\<not> hlock h" "phbs w (hbuckets h) = Some b"
    "nat (bcount b) = length (upper_bound b)" "length (bkey b) = length (upper_bound b)"
    "observe_buckets h v (rev (zip (upper_bound b) (bkey b))) w = Some (True, w1)"
    "bump h ''+Inf'' d_one w1 = Some (True, w2)" "bump h ''count'' d_one w2 = Some (True, w3)"
    "only_samples w w3" "hist_ready h w3" "slot h w3 ''sum'' = Some au"
    "samples w3 = credit (take (length (takeWhile (\<lambda>ub. \<not> dlt ub v) (rev ubs))) (rev as) @ [ai, ac]) d_one (samples w)"
proof -
  obtain h b where h: "hists w self = Some h" "\<not> hlock h"
     "phbs w (hbuckets h) = Some b" "upper_bound b = ubs" "bcount b = int (length ubs)"
     "length (bkey b) = length ubs" "hist_ready h w"
     "list_all2 (names_slot h w) (zip ubs (bkey b)) as"
     "slot h w ''+Inf'' = Some ai" "slot h w ''count'' = Some ac" "slot h w ''sum'' = Some au"
     "distinct (as @ [ai, ac, au])" "live_samples w (as @ [ai, ac, au])"
    using wf by (auto simp: hist_wf_def)
  let ?n = "length (takeWhile (\<lambda>ub. \<not> dlt ub v) (rev ubs))"
  have "list_all2 (names_slot h w) (rev (zip ubs (bkey b))) (rev as)"
    using h(8) by (simp add: list_all2_rev)
  moreover have "live_samples w (rev as)" "distinct (rev as)"
    using h(12,13) by (auto simp: live_samples_def)
  ultimately obtain w1 where w1: "observe_buckets h v (rev (zip ubs (bkey b))) w = Some (True, w1)"
      "only_samples w w1"
      "samples w1 = credit (take (length (takeWhile (\<lambda>(ub, k). \<not> dlt ub v) (rev (zip ubs (bkey b))))) (rev as)) d_one (samples w)"
    using observe_buckets_ok [OF h(7), of "rev (zip ubs (bkey b))" "rev as" v] by blast
  have n: "length (takeWhile (\<lambda>(ub, k). \<not> dlt ub v) (rev (zip ubs (bkey b)))) = ?n"
    using h(6) by (simp add: zip_rev [symmetric] takeWhile_zip_fst)
  let ?t = "take ?n (rev as)"
  have s1: "samples w1 = credit ?t d_one (samples w)" using w1(3) n by simp
  have l1: "live_samples w1 (as @ [ai, ac, au])" using h(13) live_credit s1 by blast
  then obtain si where si: "ai \<noteq> NULL" "samples w1 ai = Some si" by (auto simp: live_samples_def)
  have sl1: "slot h w1 ''+Inf'' = Some ai" using h(9) slot_frame [OF w1(2)] by simp
  obtain w2 where w2: "bump h ''+Inf'' d_one w1 = Some (True, w2)" "only_samples w1 w2"
      "samples w2 = credit [ai] d_one (samples w1)"
    using bump_ok [OF hist_ready_frame [OF w1(2) h(7)] sl1 si, of d_one] by auto
  have o2: "only_samples w w2" using w1(2) w2(2) by (rule only_samples_trans)
  have l2: "live_samples w2 (as @ [ai, ac, au])" using l1 live_credit w2(3) by blast
  then obtain sc where sc: "ac \<noteq> NULL" "samples w2 ac = Some sc" by (auto simp: live_samples_def)
  have sl2: "slot h w2 ''count'' = Some ac" using h(10) slot_frame [OF o2] by simp
  obtain w3 where w3: "bump h ''count'' d_one w2 = Some (True, w3)" "only_samples w2 w3"
      "samples w3 = credit [ac] d_one (samples w2)"
    using bump_ok [OF hist_ready_frame [OF o2 h(7)] sl2 sc, of d_one] by auto
  have o3: "only_samples w w3" using o2 w3(2) by (rule only_samples_trans)
  have sub: "set ?t \<subseteq> set as" using set_take_subset [of ?n "rev as"] by simp
  have "samples w2 = credit (?t @ [ai]) d_one (samples w)"
    unfolding w2(3) s1 using sub h(12) by (intro credit_append) auto
  then have "samples w3 = credit ((?t @ [ai]) @ [ac]) d_one (samples w)"
    unfolding w3(3) using sub h(12) by (simp only:) (intro credit_append, auto)
  moreover have "slot h w3 ''sum'' = Some au" using h(11) slot_frame [OF o3] by simp
  ultimately show thesis
    using h w1(1) w2(1) w3(1) o3 hist_ready_frame [OF o3 h(7)]
    by (intro that [of h b w1 w2 w3]) auto
qed

lemma observe_ok:
  assumes wf: "hist_wf self w ubs as ai ac au" and v: "\<not> dlt v dzero"
  shows "\<exists>w'. pms_histogram_observe self v w = Some (0, w') \<and> only_samples w w' \<and>
    samples w' = observed v ubs as ai ac au (samples w) \<and> hist_wf self w' ubs as ai ac au"
proof -
  obtain h b w1 w2 w3 where p: "hists w self = Some h" "\<not> hlock h" "phbs w (hbuckets h) = Some b"
    "nat (bcount b) = length (upper_bound b)" "length (bkey b) = length (upper_bound b)"
    "observe_buckets h v (rev (zip (upper_bound b) (bkey b))) w = Some (True, w1)"
    "bump h ''+Inf'' d_one w1 = Some (True, w2)" "bump h ''count'' d_one w2 = Some (True, w3)"
    "only_samples w w3" "hist_ready h w3" "slot h w3 ''sum'' = Some au"
    "samples w3 = credit (take (length (takeWhile (\<lambda>ub. \<not> dlt ub v) (rev ubs))) (rev as) @ [ai, ac]) d_one (samples w)"
    using wf by (rule observe_parts)
  have live: "live_samples w (as @ [ai, ac, au])" using wf by (auto simp: hist_wf_def)
  then have l3: "live_samples w3 (as @ [ai, ac, au])" using live_credit p(12) by blast
  then obtain s where s: "au \<noteq> NULL" "samples w3 au = Some s" by (auto simp: live_samples_def)
  obtain w4 where w4: "bump h ''sum'' v w3 = Some (True, w4)" "only_samples w3 w4"
      "samples w4 = credit [au] v (samples w3)"
    using bump_ok [OF p(10,11) s, of v] v by auto
  have e: "pms_histogram_observe self v w = Some (0, w4)"
    using p w4(1) by (simp add: pms_histogram_observe_def lock_defs observe_rest_def)
  have o4: "only_samples w w4" using p(9) w4(2) by (rule only_samples_trans)
  moreover have "samples w4 = observed v ubs as ai ac au (samples w)"
    by (simp add: observed_def w4(3) p(12))
  moreover have "live_samples w4 (as @ [ai, ac, au])" using l3 live_credit w4(3) by blast
  ultimately show ?thesis using e hist_wf_frame [OF wf o4] by blast
qed

text \<open>A negative value: everything but the sum is updated, and the call reports an error.\<close>

lemma observe_negative:
  assumes wf: "hist_wf self w ubs as ai ac au" and v: "dlt v dzero"
  shows "\<exists>w'. pms_histogram_observe self v w = Some (2, w') \<and> only_samples w w' \<and>
    samples w' = credit (take (length (takeWhile (\<lambda>ub. \<not> dlt ub v) (rev ubs))) (rev as) @ [ai, ac]) d_one (samples w)"
proof -
  obtain h b w1 w2 w3 where p: "hists w self = Some h" "\<not> hlock h" "phbs w (hbuckets h) = Some b"
    "nat (bcount b) = length (upper_bound b)" "length (bkey b) = length (upper_bound b)"
    "observe_buckets h v (rev (zip (upper_bound b) (bkey b))) w = Some (True, w1)"
    "bump h ''+Inf'' d_one w1 = Some (True, w2)" "bump h ''count'' d_one w2 = Some (True, w3)"
    "only_samples w w3" "hist_ready h w3" "slot h w3 ''sum'' = Some au"
    "samples w3 = credit (take (length (takeWhile (\<lambda>ub. \<not> dlt ub v) (rev ubs))) (rev as) @ [ai, ac]) d_one (samples w)"
    using wf by (rule observe_parts)
  have live: "live_samples w (as @ [ai, ac, au])" using wf by (auto simp: hist_wf_def)
  then have l3: "live_samples w3 (as @ [ai, ac, au])" using live_credit p(12) by blast
  then obtain s where s: "au \<noteq> NULL" "samples w3 au = Some s" by (auto simp: live_samples_def)
  obtain w4 where w4: "bump h ''sum'' v w3 = Some (False, w4)" "only_samples w3 w4"
      "samples w4 = samples w3"
    using bump_ok [OF p(10,11) s, of v] v by auto
  have e: "pms_histogram_observe self v w = Some (2, w4)"
    using p w4(1) by (simp add: pms_histogram_observe_def lock_defs observe_rest_def)
  have "only_samples w w4" using p(9) w4(2) by (rule only_samples_trans)
  then show ?thesis using e w4(3) p(12) by simp
qed

section \<open>Which buckets an observation counts in\<close>

lemma dle_dlt_trans: "dle a b \<Longrightarrow> dlt b c \<Longrightarrow> dlt a c"
proof -
  assume h: "dle a b" "dlt b c"
  show ?thesis
  proof (cases "is_fin a \<and> is_fin b \<and> is_fin c")
    case True
    then show ?thesis
      using h fin_compare(1) [of a c] fin_compare(1) [of b c] fin_compare(3) [of a b] by simp
  next
    case False
    then show ?thesis using h by (cases a; cases b; cases c) (auto simp: dle_def)
  qed
qed

lemma ascending_tail: "ascending (b # bs) \<Longrightarrow> ascending bs"
  by (cases bs) auto

lemma ascending_hd: "ascending (b # bs) \<Longrightarrow> c \<in> set bs \<Longrightarrow> dle b c"
proof (induction bs arbitrary: b)
  case (Cons d bs)
  then show ?case using dle_trans [of b d c] by auto
qed simp

lemma ascending_nth: "ascending bs \<Longrightarrow> i < j \<Longrightarrow> j < length bs \<Longrightarrow> dle (bs ! i) (bs ! j)"
proof (induction bs arbitrary: i j)
  case (Cons b bs)
  show ?case
  proof (cases i)
    case 0
    then have "bs ! (j - 1) \<in> set bs" using Cons.prems by auto
    then have "dle b (bs ! (j - 1))" using Cons.prems(1) ascending_hd by blast
    then show ?thesis using 0 Cons.prems(2) by simp
  next
    case (Suc k)
    then have "dle (bs ! k) (bs ! (j - 1))"
      using Cons.prems ascending_tail by (intro Cons.IH) auto
    then show ?thesis using Suc Cons.prems(2) by simp
  qed
qed simp

lemma less_takeWhile:
  "j < length (takeWhile P xs) \<longleftrightarrow> j < length xs \<and> (\<forall>k \<le> j. P (xs ! k))"
proof (induction xs arbitrary: j)
  case (Cons x xs)
  have all: "(\<forall>k \<le> Suc i. P ((x # xs) ! k)) \<longleftrightarrow> P x \<and> (\<forall>k \<le> i. P (xs ! k))" for i
    by (auto simp: nth_Cons split: nat.splits)
  show ?case
  proof (cases j)
    case 0
    then show ?thesis by auto
  next
    case (Suc i)
    then show ?thesis using Cons.IH [of i] all [of i] by auto
  qed
qed simp

lemma counted_iff:
  assumes "ascending ubs" "length as = length ubs" "distinct as" "i < length ubs"
  shows "as ! i \<in> set (take (length (takeWhile (\<lambda>ub. \<not> dlt ub v) (rev ubs))) (rev as)) \<longleftrightarrow>
    \<not> dlt (ubs ! i) v"
proof -
  let ?n = "length ubs" and ?m = "length (takeWhile (\<lambda>ub. \<not> dlt ub v) (rev ubs))"
  let ?j = "length ubs - 1 - i"
  have m: "?m \<le> ?n" using length_takeWhile_le [of _ "rev ubs"] by simp
  have j: "rev as ! ?j = as ! i" "?j < ?n" using assms(2,4) by (auto simp: rev_nth)
  have "as ! i \<in> set (take ?m (rev as)) \<longleftrightarrow> ?j < ?m"
  proof
    assume "as ! i \<in> set (take ?m (rev as))"
    then obtain k where k: "k < ?m" "rev as ! k = as ! i" by (auto simp: in_set_conv_nth)
    then have "k = ?j" using j assms(2,3) m nth_eq_iff_index_eq [of "rev as" k ?j] by auto
    then show "?j < ?m" using k by simp
  next
    assume "?j < ?m"
    then have "take ?m (rev as) ! ?j \<in> set (take ?m (rev as))" using m assms(2) by (intro nth_mem) simp
    then show "as ! i \<in> set (take ?m (rev as))" using j(1) \<open>?j < ?m\<close> by simp
  qed
  also have "\<dots> \<longleftrightarrow> (\<forall>k \<le> ?j. \<not> dlt (rev ubs ! k) v)"
    using j(2) by (simp add: less_takeWhile)
  also have "\<dots> \<longleftrightarrow> \<not> dlt (ubs ! i) v"
  proof
    assume a: "\<forall>k \<le> ?j. \<not> dlt (rev ubs ! k) v"
    have "rev ubs ! ?j = ubs ! i" using assms(4) by (simp add: rev_nth)
    then show "\<not> dlt (ubs ! i) v" using a by (metis order_refl)
  next
    assume a: "\<not> dlt (ubs ! i) v"
    show "\<forall>k \<le> ?j. \<not> dlt (rev ubs ! k) v"
    proof (intro allI impI)
      fix k assume k: "k \<le> ?j"
      then have e: "rev ubs ! k = ubs ! (?n - 1 - k)" using assms(4) by (simp add: rev_nth)
      have "?n - 1 - k = i \<or> i < ?n - 1 - k" using k assms(4) by auto
      then show "\<not> dlt (rev ubs ! k) v"
        using a e ascending_nth [OF assms(1), of i "?n - 1 - k"] dle_dlt_trans assms(4) by fastforce
    qed
  qed
  finally show ?thesis .
qed

lemma value_credit:
  "samples w' = credit bs r (samples w) \<Longrightarrow> samples w a \<noteq> None \<Longrightarrow>
   value_of w' a = (if a \<in> set bs then dadd (value_of w a) r else value_of w a)"
  by (auto simp: value_of_def credit_def)

lemma observed_values:
  assumes wf: "hist_wf self w ubs as ai ac au" and asc: "ascending ubs"
    and s: "samples w' = observed v ubs as ai ac au (samples w)"
  shows "i < length ubs \<Longrightarrow> value_of w' (as ! i) =
      (if dlt (ubs ! i) v then value_of w (as ! i) else dadd (value_of w (as ! i)) d_one)"
    and "value_of w' ai = dadd (value_of w ai) d_one"
    and "value_of w' ac = dadd (value_of w ac) d_one"
    and "value_of w' au = dadd (value_of w au) v"
proof -
  let ?t = "take (length (takeWhile (\<lambda>ub. \<not> dlt ub v) (rev ubs))) (rev as)"
  have d: "distinct (as @ [ai, ac, au])" and live: "live_samples w (as @ [ai, ac, au])"
    using wf by (auto simp: hist_wf_def)
  have len: "length as = length ubs" using wf by (rule hist_wf_length)
  have sub: "set ?t \<subseteq> set as" using set_take_subset [of _ "rev as"] by fastforce
  define w1 where "w1 = w\<lparr>samples := credit (?t @ [ai, ac]) d_one (samples w)\<rparr>"
  have s1: "samples w1 = credit (?t @ [ai, ac]) d_one (samples w)" by (simp add: w1_def)
  have s2: "samples w' = credit [au] v (samples w1)" by (simp add: s observed_def w1_def)
  have l1: "live_samples w1 (as @ [ai, ac, au])" using live live_credit s1 by blast
  note v1 = value_credit [OF s1] and v2 = value_credit [OF s2]
  have liv: "samples w a \<noteq> None \<and> samples w1 a \<noteq> None" if "a \<in> set (as @ [ai, ac, au])" for a
    using live l1 that by (auto simp: live_samples_def)
  {
    assume i: "i < length ubs"
    then have mem: "as ! i \<in> set as" using len by simp
    then have ne: "as ! i \<noteq> ai" "as ! i \<noteq> ac" "as ! i \<noteq> au" using d by auto
    have "value_of w' (as ! i) = value_of w1 (as ! i)"
      using v2 [of "as ! i"] liv [of "as ! i"] mem ne by simp
    also have "\<dots> = (if as ! i \<in> set ?t then dadd (value_of w (as ! i)) d_one else value_of w (as ! i))"
      using v1 [of "as ! i"] liv [of "as ! i"] mem ne by simp
    finally show "value_of w' (as ! i) =
      (if dlt (ubs ! i) v then value_of w (as ! i) else dadd (value_of w (as ! i)) d_one)"
      using counted_iff [OF asc len _ i, of v] d by simp
  }
  show "value_of w' ai = dadd (value_of w ai) d_one" "value_of w' ac = dadd (value_of w ac) d_one"
    using v1 [of ai] v1 [of ac] v2 [of ai] v2 [of ac] liv [of ai] liv [of ac] d by simp_all
  have "au \<notin> set ?t" using sub d by auto
  then show "value_of w' au = dadd (value_of w au) v"
    using v1 [of au] v2 [of au] liv [of au] d by simp
qed

section \<open>Sequences of observations\<close>

fun observe_all :: "addr \<Rightarrow> double list \<Rightarrow> 'z hworld \<Rightarrow> 'z hworld option" where
  "observe_all self [] w = Some w"
| "observe_all self (v # vs) w = do {
     (r, w) \<leftarrow> pms_histogram_observe self v w;
     if r \<noteq> 0 then None else observe_all self vs w }"

text \<open>The number of values a bucket with bound \<open>ub\<close> has to count.\<close>

definition at_most :: "double \<Rightarrow> double list \<Rightarrow> nat" where
  "at_most ub vs = length (filter (\<lambda>v. \<not> dlt ub v) vs)"

lemma at_most_simps [simp]:
  "at_most ub [] = 0" "at_most ub (v # vs) = (if dlt ub v then at_most ub vs else Suc (at_most ub vs))"
  by (simp_all add: at_most_def)

lemma at_most_le: "at_most ub vs \<le> length vs"
  by (simp add: at_most_def)

lemma at_most_mono: "dle a b \<Longrightarrow> at_most a vs \<le> at_most b vs"
proof (induction vs)
  case (Cons v vs)
  then show ?case using dle_dlt_trans [of a b v] by auto
qed simp

lemma observe_all_ok:
  assumes "hist_wf self w ubs as ai ac au" "ascending ubs" "\<forall>v \<in> set vs. \<not> dlt v dzero"
  shows "\<exists>w'. observe_all self vs w = Some w' \<and> hist_wf self w' ubs as ai ac au \<and>
    (\<forall>i < length ubs. value_of w' (as ! i) =
       foldl dadd (value_of w (as ! i)) (replicate (at_most (ubs ! i) vs) d_one)) \<and>
    value_of w' ai = foldl dadd (value_of w ai) (replicate (length vs) d_one) \<and>
    value_of w' ac = foldl dadd (value_of w ac) (replicate (length vs) d_one) \<and>
    value_of w' au = foldl dadd (value_of w au) vs"
  using assms(1,3)
proof (induction vs arbitrary: w)
  case (Cons v vs)
  have v: "\<not> dlt v dzero" using Cons.prems(2) by simp
  obtain w1 where w1: "pms_histogram_observe self v w = Some (0, w1)"
      "samples w1 = observed v ubs as ai ac au (samples w)" "hist_wf self w1 ubs as ai ac au"
    using observe_ok [OF Cons.prems(1) v] by blast
  note val = observed_values [OF Cons.prems(1) assms(2) w1(2)]
  have "\<forall>v \<in> set vs. \<not> dlt v dzero" using Cons.prems(2) by simp
  from Cons.IH [OF w1(3) this] obtain w2 where w2: "observe_all self vs w1 = Some w2"
      "hist_wf self w2 ubs as ai ac au"
      "\<forall>i < length ubs. value_of w2 (as ! i) =
         foldl dadd (value_of w1 (as ! i)) (replicate (at_most (ubs ! i) vs) d_one)"
      "value_of w2 ai = foldl dadd (value_of w1 ai) (replicate (length vs) d_one)"
      "value_of w2 ac = foldl dadd (value_of w1 ac) (replicate (length vs) d_one)"
      "value_of w2 au = foldl dadd (value_of w1 au) vs"
    by blast
  show ?case using w1(1) w2 val by (intro exI [of _ w2]) simp
qed simp

end
