(* ===== verification/MapUse.thy ===== *)
theory MapUse
  imports PromMap
begin

text \<open>
  What the owners of maps rely on: a map only depends on the keys it owns, and setting a
  fresh key changes nothing but the map itself.
\<close>

section \<open>A map depends on its own keys only\<close>

definition same_on :: "addr set \<Rightarrow> 'z mem_scheme \<Rightarrow> 'y mem_scheme \<Rightarrow> bool" where
  "same_on A w w' \<longleftrightarrow> (\<forall>a \<in> A. strs w' a = strs w a)"

lemma same_on_refl [simp]: "same_on A w w"
  by (simp add: same_on_def)

lemma same_on_strs: "strs w' = strs w \<Longrightarrow> same_on A w w'"
  by (simp add: same_on_def)

lemma owned_live: "map_ok m w \<Longrightarrow> a \<in> owned m \<Longrightarrow> strs w a \<noteq> None"
  by (auto simp: map_ok_def owned_def dest: tab_ok_live)

lemma owned_old: "map_ok m w \<Longrightarrow> mem_ok w \<Longrightarrow> a \<in> owned m \<Longrightarrow> a < brk w"
  using owned_live [of m w a] mem_ok_live [of w a] by auto

lemma map_ok_cong:
  fixes w w' :: "'z mem_scheme"
  assumes "map_ok m w" "same_on (owned m) w w'"
  shows "map_ok m w'"
proof -
  have "tab_ok (max_size m) (addrs m) w'"
  proof (rule tab_ok_cong)
    show "tab_ok (max_size m) (addrs m) w" using assms(1) by (simp add: map_ok_def)
    show "\<forall>n \<in> set (entries (addrs m)). key_of w' n = key_of w n"
      using assms(2) by (simp add: same_on_def owned_def)
  qed
  then show ?thesis using assms(1) by (simp add: map_ok_def)
qed

lemma lookup_map_cong:
  "same_on (owned m) w w' \<Longrightarrow> lookup_map w' m = lookup_map w m"
proof -
  assume "same_on (owned m) w w'"
  then have "pairs w' (entries (addrs m)) = pairs w (entries (addrs m))"
    by (auto simp: pairs_def same_on_def owned_def)
  then show ?thesis by (simp add: lookup_map_def tlookup_def fun_eq_iff)
qed

lemma map_frame_same_on:
  fixes w w' :: "'z mem_scheme"
  shows "map_frame m w m' w' \<Longrightarrow> \<forall>a \<in> A. a < brk w \<Longrightarrow> A \<inter> owned m = {} \<Longrightarrow> same_on A w w'"
  by (auto simp: map_frame_def same_on_def)

lemma set_free_fn_simps [simp]:
  fixes w :: "'z mem_scheme"
  shows "map_ok (m\<lparr>free_value_fn := fv\<rparr>) w = map_ok m w"
    "lookup_map w (m\<lparr>free_value_fn := fv\<rparr>) = lookup_map w m"
    "map_count (m\<lparr>free_value_fn := fv\<rparr>) = map_count m"
    "owned (m\<lparr>free_value_fn := fv\<rparr>) = owned m"
    "keys_ok (m\<lparr>free_value_fn := fv\<rparr>) = keys_ok m"
  by (simp_all add: map_ok_def lookup_map_def map_count_def owned_def keys_ok_def)

section \<open>Setting a fresh key\<close>

lemma put_fresh:
  assumes "map_ok m w" "mem_ok w" "oom w = []" "map_count m < map_limit" "lookup_map w m s = None"
  obtains m' w' where "prom_map_set run m s v w = Some (0, m', w')" "map_ok m' w'"
    "lookup_map w' m' = (lookup_map w m)(s \<mapsto> v)" "map_frame m w m' w'"
    "map_count m' = map_count m + 1" "mem.more w' = mem.more w" "keys_ok m \<longrightarrow> keys_ok m'"
  using set_map_ok [OF assms(1-4), of s run v] assms(5) by auto

lemma map_frameD:
  assumes "map_frame m w m' w'"
  shows "mem_ok w'" "oom w' = []" "brk w \<le> brk w'" "free_value_fn m' = free_value_fn m"
    "a \<in> owned m' \<Longrightarrow> a \<in> owned m \<or> brk w \<le> a"
    "a < brk w \<Longrightarrow> a \<notin> owned m \<Longrightarrow> strs w' a = strs w a"
  using assms by (auto simp: map_frame_def)

text \<open>The list of keys enumerates the names that are mapped, each once.\<close>

lemma map_keys:
  fixes w :: "'z mem_scheme"
  assumes ok: "map_ok m w" "keys_ok m"
  obtains names where "list_all2 (\<lambda>k s. strs w k = Some s) (keys m) names" "distinct names" "set names = dom (lookup_map w m)"
proof -
  let ?es = "entries (addrs m)"
  have t: "tab_ok (max_size m) (addrs m) w" using ok(1) by (simp add: map_ok_def)
  have live: "\<exists>s. strs w (mkey n) = Some s" if "n \<in> set ?es" for n using tab_ok_live [OF t that] .
  have ms: "mset (map (strs w) (keys m)) = mset (map (key_of w) ?es)"
    using ok(2) by (simp add: keys_ok_def image_mset.compositionality comp_def)
  then have set_eq: "strs w ` set (keys m) = key_of w ` set ?es" by (metis list.set_map set_mset_mset)
  have d: "distinct (map (strs w) (keys m))"
    using t mset_eq_imp_distinct_iff [OF ms] by (simp add: tab_ok_def)
  have some: "\<exists>s. strs w k = Some s" if "k \<in> set (keys m)" for k
  proof -
    have "strs w k \<in> key_of w ` set ?es" using set_eq that by blast
    then show ?thesis using live by auto
  qed
  let ?names = "map (\<lambda>k. the (strs w k)) (keys m)"
  have "inj_on (strs w) (set (keys m))" "distinct (keys m)" using d by (simp_all add: distinct_map)
  then have "distinct ?names" using some by (simp add: distinct_map inj_on_def) (metis option.sel)
  moreover have "list_all2 (\<lambda>k s. strs w k = Some s) (keys m) ?names"
    using some by (fastforce simp: list_all2_conv_all_nth)
  moreover have "set ?names = dom (lookup_map w m)"
  proof -
    have "s \<in> set ?names \<longleftrightarrow> Some s \<in> strs w ` set (keys m)" for s using some by force
    moreover have "s \<in> dom (lookup_map w m) \<longleftrightarrow> Some s \<in> key_of w ` set ?es" for s
    proof -
      have "tlookup w (addrs m) s \<noteq> None \<longleftrightarrow> (\<exists>n \<in> set ?es. key_of w n = Some s)"
        by (simp add: tlookup_None)
      then show ?thesis by (simp add: lookup_map_def domIff image_iff eq_commute [of "Some s"])
    qed
    ultimately show ?thesis using set_eq by blast
  qed
  ultimately show thesis by (intro that)
qed

end
