(* ===== verification/HistogramNew.thy ===== *)
theory HistogramNew
  imports SampleHistogram MapUse
begin

text \<open>
  \<open>pms_histogram_new\<close> establishes what \<open>pms_histogram_observe\<close> relies on: while memory is
  available a new histogram has one sample of its own per bucket, for \<open>+Inf\<close>, \<open>count\<close> and
  \<open>sum\<close>, all zero and all found through the two maps. Together with the lemmas on
  observation this gives the behaviour of a histogram from its creation on.
\<close>

section \<open>Temporary strings\<close>

text \<open>\<open>stores w M w'\<close>: between the two states exactly the strings \<open>M\<close> were allocated.\<close>

definition stores :: "'z mem_scheme \<Rightarrow> (addr \<Rightarrow> string option) \<Rightarrow> 'z mem_scheme \<Rightarrow> bool" where
  "stores w M w' \<longleftrightarrow> mem_ok w' \<and> oom w' = [] \<and> brk w \<le> brk w' \<and>
     (\<forall>a \<in> dom M. brk w \<le> a \<and> a < brk w') \<and> w' = w\<lparr>brk := brk w', strs := strs w ++ M\<rparr>"

lemma stores_strs: "stores w M w' \<Longrightarrow> strs w' = strs w ++ M"
  by (cases w; cases w') (simp add: stores_def)

lemma storesD:
  assumes "stores w M w'"
  shows "mem_ok w'" "oom w' = []" "brk w \<le> brk w'" "a \<in> dom M \<Longrightarrow> brk w \<le> a \<and> a < brk w'"
  using assms by (auto simp: stores_def)

lemma stores_nonnull: "stores w [l \<mapsto> t] w' \<Longrightarrow> mem_ok w \<Longrightarrow> l \<noteq> NULL"
proof -
  assume "stores w [l \<mapsto> t] w'" "mem_ok w"
  then have "0 < brk w" "brk w \<le> l" using storesD(4) [of w "[l \<mapsto> t]" w' l] by simp_all
  then show ?thesis by simp
qed

lemma stores_trans:
  assumes "stores u M v" "stores v N w"
  shows "stores u (M ++ N) w"
proof -
  have "strs w = strs u ++ (M ++ N)"
    using stores_strs [OF assms(1)] stores_strs [OF assms(2)] by (simp add: map_add_assoc)
  moreover have "w = u\<lparr>brk := brk w, strs := strs w\<rparr>"
    using assms by (cases u; cases v; cases w) (simp add: stores_def)
  ultimately have "w = u\<lparr>brk := brk w, strs := strs u ++ (M ++ N)\<rparr>" by simp
  then show ?thesis
    using storesD [OF assms(1)] storesD [OF assms(2)] unfolding stores_def
    by (metis UnE dom_map_add le_trans less_le_trans)
qed

lemma stores_brk: "mem_ok w \<Longrightarrow> oom w = [] \<Longrightarrow> brk w \<le> b \<Longrightarrow> stores w Map.empty (w\<lparr>brk := b\<rparr>)"
  by (simp add: stores_def mem_ok_brk)

lemma stores_strdup:
  assumes "mem_ok w" "oom w = []"
  shows "strdup s w = (brk w, w\<lparr>brk := Suc (brk w), strs := (strs w)(brk w \<mapsto> s)\<rparr>) \<and>
    stores w [brk w \<mapsto> s] (w\<lparr>brk := Suc (brk w), strs := (strs w)(brk w \<mapsto> s)\<rparr>)"
  using assms mem_ok_store [OF assms(1), of "brk w" "Suc (brk w)" s]
  by (simp add: strdup_ok stores_def)

lemma stores_keep:
  assumes "stores v N w" "M a = Some s" "\<forall>b \<in> dom M. b < brk v"
  shows "(M ++ N) a = Some s"
proof -
  have "a < brk v" using assms(2,3) by auto
  then have "a \<notin> dom N" using storesD(4) [OF assms(1), of a] by fastforce
  then show ?thesis using assms(2) by (auto simp: map_add_dom_app_simps)
qed

lemma stores_forget:
  assumes "stores w M w'" "\<forall>a. S a \<noteq> None \<longrightarrow> strs w' a \<noteq> None" "S = strs w ++ N" "dom N \<subseteq> dom M"
  shows "stores w N (w'\<lparr>strs := S\<rparr>)"
proof -
  have "mem_ok (w'\<lparr>strs := S\<rparr>)" using assms(2) storesD(1) [OF assms(1)] by (auto simp: mem_ok_def)
  moreover have "w'\<lparr>strs := S\<rparr> = w\<lparr>brk := brk w', strs := S\<rparr>"
    using assms(1) by (cases w; cases w') (simp add: stores_def)
  moreover have "oom w = []"
    using assms(1) by (cases w; cases w') (simp add: stores_def)
  ultimately show ?thesis
    using assms(1,3,4) unfolding stores_def by auto
qed

section \<open>Freeing a set of strings\<close>

lemma free_strs_ok:
  assumes "distinct as" "\<forall>a \<in> set as. strs w a \<noteq> None" "mem_ok w"
  shows "free_strs as w = Some (w\<lparr>strs := strs w |` (- set as)\<rparr>)"
  using assms
proof (induction as arbitrary: w)
  case Nil
  then show ?case by simp
next
  case (Cons a as)
  let ?w = "w\<lparr>strs := (strs w)(a := None)\<rparr>"
  obtain s where s: "strs w a = Some s" using Cons.prems(2) by auto
  have "free_str a w = Some ?w"
    using s mem_ok_live [OF Cons.prems(3) s] by (simp add: free_str_def)
  moreover have "free_strs as ?w = Some (?w\<lparr>strs := strs ?w |` (- set as)\<rparr>)"
    using Cons.prems by (intro Cons.IH) (auto simp: mem_ok_forget)
  moreover have "((strs w)(a := None)) |` (- set as) = strs w |` (- set (a # as))"
    by (auto simp: restrict_map_def fun_eq_iff)
  ultimately show ?case by simp
qed

lemma load_all_ok: "list_all2 (\<lambda>a s. strs w a = Some s) as ss \<Longrightarrow> mem_ok w \<Longrightarrow> load_all as w = Some (map Some ss)"
  by (induction rule: list_all2_induct) (auto simp: load_opt_def load_str_def mem_ok_live)

lemma dup_labels_ok:
  assumes "length ks = n" "length vs = n" "mem_ok w" "oom w = []"
  shows "\<exists>kas vas w' M. dup_labels n (map Some ks) (map Some vs) w = Some (kas, vas, w') \<and>
    stores w M w' \<and> distinct (kas @ vas) \<and> dom M = set (kas @ vas) \<and>
    list_all2 (\<lambda>a s. M a = Some s) kas ks \<and> list_all2 (\<lambda>a s. M a = Some s) vas vs"
  using assms
proof (induction n arbitrary: ks vs w)
  case 0
  then show ?case using stores_brk [of w "brk w"] by (intro exI [of _ "[]"] exI [of _ w] exI [of _ Map.empty]) simp
next
  case (Suc n)
  then obtain k ks' v vs' where kv: "ks = k # ks'" "vs = v # vs'" "length ks' = n" "length vs' = n"
    by (metis length_Suc_conv)
  let ?w1 = "w\<lparr>brk := Suc (brk w), strs := (strs w)(brk w \<mapsto> k)\<rparr>"
  have 1: "strdup k w = (brk w, ?w1)" "stores w [brk w \<mapsto> k] ?w1"
    using stores_strdup [OF Suc.prems(3,4), of k] by auto
  let ?w2 = "?w1\<lparr>brk := Suc (brk ?w1), strs := (strs ?w1)(brk ?w1 \<mapsto> v)\<rparr>"
  have 2: "strdup v ?w1 = (brk ?w1, ?w2)" "stores ?w1 [brk ?w1 \<mapsto> v] ?w2"
    using stores_strdup [OF storesD(1,2) [OF 1(2)], of v] by auto
  have s2: "stores w ([brk w \<mapsto> k] ++ [brk ?w1 \<mapsto> v]) ?w2" using 1(2) 2(2) by (rule stores_trans)
  obtain kas vas w' M where 3: "dup_labels n (map Some ks') (map Some vs') ?w2 = Some (kas, vas, w')"
      "stores ?w2 M w'" "distinct (kas @ vas)" "dom M = set (kas @ vas)"
      "list_all2 (\<lambda>a s. M a = Some s) kas ks'" "list_all2 (\<lambda>a s. M a = Some s) vas vs'"
    using Suc.IH [OF kv(3,4) storesD(1,2) [OF s2]] by blast
  let ?M = "([brk w \<mapsto> k] ++ [brk ?w1 \<mapsto> v]) ++ M"
  have new: "a \<ge> Suc (Suc (brk w))" if "a \<in> set (kas @ vas)" for a
    using storesD(4) [OF 3(2), of a] 3(4) that by simp
  have "stores w ?M w'" using s2 3(2) by (rule stores_trans)
  moreover have "distinct ((brk w # kas) @ (brk ?w1 # vas))" using 3(3) new by fastforce
  moreover have "dom ?M = set ((brk w # kas) @ (brk ?w1 # vas))" using 3(4) by auto
  moreover have "?M (brk w) = Some k" "?M (brk ?w1) = Some v"
    by (rule stores_keep [OF 3(2)]; simp)+
  then have "list_all2 (\<lambda>a s. ?M a = Some s) (brk w # kas) ks"
      "list_all2 (\<lambda>a s. ?M a = Some s) (brk ?w1 # vas) vs"
    using 3(5,6) unfolding kv(1,2) list_all2_Cons
    by (auto simp: map_add_Some_iff elim!: list_all2_mono)
  moreover have "dup_labels (Suc n) (map Some ks) (map Some vs) w = Some (brk w # kas, brk ?w1 # vas, w')"
    using kv 1(1) 2(1) 3(1) by simp
  ultimately show ?case
    by (intro exI [of _ "brk w # kas"] exI [of _ "brk ?w1 # vas"] exI [of _ w'] exI [of _ ?M] conjI)
qed

section \<open>Rendering an \<open>l_value\<close>\<close>

text \<open>A formatter between two calls: nothing is pending in its builder.\<close>

definition idle :: "pmf \<Rightarrow> bool" where
  "idle f \<longleftrightarrow> psb_ok (string_builder f) \<and> content (string_builder f) = []"

definition fits :: "string \<Rightarrow> string option \<Rightarrow> string list \<Rightarrow> string list \<Rightarrow> bool" where
  "fits name suffix ks vs \<longleftrightarrow> length ks = length vs \<and>
     length (head_text name suffix) + length (labels_text (map Some ks) (map Some vs)) + 2 < psb_limit"

abbreviation l_text :: "string \<Rightarrow> string option \<Rightarrow> string list \<Rightarrow> string list \<Rightarrow> string" where
  "l_text name suffix ks vs \<equiv> l_value_text name suffix (map Some ks) (map Some vs)"

lemma load_and_dump:
  assumes "idle f" "mem_ok w" "oom w = []" "fits name suffix ks vs"
  shows "\<exists>m w1 l f' w2. pmf_load_l_value (Some f) (Some name) suffix (length ks) (map Some ks) (map Some vs) w =
      Some (0, Some m, w1) \<and> pmf_dump (Some m) w1 = Some (l, Some f', w2) \<and> idle f' \<and>
    stores w [l \<mapsto> l_text name suffix ks vs] w2"
proof -
  have r: "l_value_room (string_builder f) name suffix (map Some ks) (map Some vs)"
    using assms(1,4) by (simp add: l_value_room_def idle_def fits_def)
  have len: "length (map Some ks) = length ks" "length (map Some vs) = length ks"
    using assms(4) by (simp_all add: fits_def)
  have "psb_ok (string_builder f)" using assms(1) by (simp add: idle_def)
  from l_value_body_ok [OF this assms(2) len r] assms(3) obtain b w1 where
    1: "l_value_body name suffix (length ks) (map Some ks) (map Some vs) (string_builder f) w = Some (0, b, w1)"
      "psb_ok b" "grown w w1" "content b = content (string_builder f) @ l_text name suffix ks vs" "oom w1 = []"
    by metis
  let ?m = "f\<lparr>string_builder := b\<rparr>"
  have e: "pmf_load_l_value (Some f) (Some name) suffix (length ks) (map Some ks) (map Some vs) w =
      Some (0, Some ?m, w1)"
    using 1(1) by (simp add: pmf_load_l_value_def on_builder_def)
  have m1: "mem_ok w1" using 1(3) assms(2) by (rule grown_mem_ok)
  have c: "content b = l_text name suffix ks vs" using 1(4) assms(1) by (simp add: idle_def)
  obtain b' where b': "psb_ok b'" "content b' = []" "pmf_dump (Some ?m) w1 =
      Some (brk w1, Some (?m\<lparr>string_builder := b'\<rparr>),
        w1\<lparr>brk := Suc (Suc (brk w1)), strs := (strs w1)(brk w1 \<mapsto> content b)\<rparr>)"
    using pmf_dump_ok [of ?m w1] 1(2,5) m1 by auto
  let ?w2 = "w1\<lparr>brk := Suc (Suc (brk w1)), strs := (strs w1)(brk w1 \<mapsto> content b)\<rparr>"
  have "mem_ok ?w2" using mem_ok_store [OF m1, of "brk w1" "Suc (Suc (brk w1))"] by simp
  moreover have "strs w1 = strs w" "brk w \<le> brk w1" using 1(3) by (simp_all add: grown_strs grown_brk)
  moreover have "w1 = w\<lparr>brk := brk w1\<rparr>"
    using 1(3,5) assms(3) by (cases w; cases w1) (simp add: grown_def)
  then have "?w2 = w\<lparr>brk := brk ?w2, strs := (strs w1)(brk w1 \<mapsto> content b)\<rparr>"
    by (cases w; cases w1) simp
  ultimately have "stores w [brk w1 \<mapsto> l_text name suffix ks vs] ?w2"
    using assms(3) c by (simp add: stores_def)
  moreover have "idle (?m\<lparr>string_builder := b'\<rparr>)" using b'(1,2) by (simp add: idle_def)
  ultimately show ?thesis using e b'(3) by blast
qed

lemma l_value_plain_ok:
  assumes "idle f" "mem_ok w" "oom w = []" "fits name (Some suffix) ks vs"
  shows "\<exists>l f' w'. l_value_plain f name suffix (length ks) (map Some ks) (map Some vs) w = Some (0, l, f', w') \<and>
    idle f' \<and> stores w [l \<mapsto> l_text name (Some suffix) ks vs] w'"
proof -
  obtain m w1 l f' w2 where "pmf_load_l_value (Some f) (Some name) (Some suffix) (length ks)
      (map Some ks) (map Some vs) w = Some (0, Some m, w1)" "pmf_dump (Some m) w1 = Some (l, Some f', w2)"
      "idle f'" "stores w [l \<mapsto> l_text name (Some suffix) ks vs] w2"
    using load_and_dump [OF assms] by blast
  then show ?thesis by (simp add: l_value_plain_def)
qed

lemma l_value_for_bucket_ok:
  assumes "idle f" "mem_ok w" "oom w = []" "length vs = length ks"
    and "fits name (Some ''bucket'') (ks @ [''le'']) (vs @ [bk])"
  shows "\<exists>l f' w'. l_value_for_bucket f name (length ks) (map Some ks) (map Some vs) bk w = Some (l, f', w') \<and>
    idle f' \<and> stores w [l \<mapsto> l_text name (Some ''bucket'') (ks @ [''le'']) (vs @ [bk])] w'"
proof -
  have live: "(brk w = NULL) = False" using mem_ok_brk_pos [OF assms(2)] by simp
  let ?w2 = "w\<lparr>brk := Suc (Suc (brk w))\<rparr>" and ?t = "l_text name (Some ''bucket'') (ks @ [''le'']) (vs @ [bk])"
  have s2: "stores w Map.empty ?w2" using assms(2,3) by (intro stores_brk) simp_all
  obtain kas vas w3 M where 3: "dup_labels (length ks) (map Some ks) (map Some vs) ?w2 = Some (kas, vas, w3)"
      "stores ?w2 M w3" "distinct (kas @ vas)" "dom M = set (kas @ vas)"
      "list_all2 (\<lambda>a s. M a = Some s) kas ks" "list_all2 (\<lambda>a s. M a = Some s) vas vs"
    using dup_labels_ok [OF refl assms(4) storesD(1,2) [OF s2]] by blast
  let ?w4 = "w3\<lparr>brk := Suc (brk w3), strs := (strs w3)(brk w3 \<mapsto> ''le'')\<rparr>"
  have 4: "strdup ''le'' w3 = (brk w3, ?w4)" "stores w3 [brk w3 \<mapsto> ''le''] ?w4"
    using stores_strdup [OF storesD(1,2) [OF 3(2)], of "''le''"] by auto
  let ?w5 = "?w4\<lparr>brk := Suc (brk ?w4), strs := (strs ?w4)(brk ?w4 \<mapsto> bk)\<rparr>"
  have 5: "strdup bk ?w4 = (brk ?w4, ?w5)" "stores ?w4 [brk ?w4 \<mapsto> bk] ?w5"
    using stores_strdup [OF storesD(1,2) [OF 4(2)], of bk] by auto
  let ?M = "M ++ ([brk w3 \<mapsto> ''le''] ++ [brk ?w4 \<mapsto> bk])"
  have s5: "stores w ?M ?w5"
    using stores_trans [OF s2 stores_trans [OF 3(2) stores_trans [OF 4(2) 5(2)]]] by simp
  let ?ka = "kas @ [brk w3]" and ?va = "vas @ [brk ?w4]"
  have M_new: "\<forall>a \<in> set (kas @ vas). a < brk w3 \<and> brk w \<le> a"
    using storesD(4) [OF 3(2)] 3(4) by fastforce
  have old: "a < brk w3 \<and> brk w \<le> a" if "a \<in> set kas \<or> a \<in> set vas" for a
    using M_new that by auto
  have "brk w3 \<notin> set (kas @ vas)" "Suc (brk w3) \<notin> set (kas @ vas)" using M_new by fastforce+
  then have dist: "distinct (?ka @ ?va)" using 3(3) by auto
  have dom5: "dom ?M = set (?ka @ ?va)" using 3(4) by auto
  have keep: "?M a = Some s" if "M a = Some s" for a s
    by (rule stores_keep [OF stores_trans [OF 4(2) 5(2)], of M]) (use that M_new 3(4) in auto)
  have "list_all2 (\<lambda>a s. ?M a = Some s) ?ka (ks @ [''le''])" "list_all2 (\<lambda>a s. ?M a = Some s) ?va (vs @ [bk])"
    using 3(5,6) keep by (auto intro!: list_all2_appendI elim!: list_all2_mono)
  then have "list_all2 (\<lambda>a s. strs ?w5 a = Some s) ?ka (ks @ [''le''])"
      "list_all2 (\<lambda>a s. strs ?w5 a = Some s) ?va (vs @ [bk])"
    unfolding stores_strs [OF s5] by (auto elim!: list_all2_mono simp: map_add_Some_iff)
  then have ld: "load_all ?ka ?w5 = Some (map Some (ks @ [''le'']))" "load_all ?va ?w5 = Some (map Some (vs @ [bk]))"
    using load_all_ok [OF _ storesD(1) [OF s5]] by blast+
  obtain m w6 l f' w7 where 6: "pmf_load_l_value (Some f) (Some name) (Some ''bucket'') (length (ks @ [''le'']))
       (map Some (ks @ [''le''])) (map Some (vs @ [bk])) ?w5 = Some (0, Some m, w6)"
      "pmf_dump (Some m) w6 = Some (l, Some f', w7)" "idle f'" "stores ?w5 [l \<mapsto> ?t] w7"
    using load_and_dump [OF assms(1) storesD(1,2) [OF s5] assms(5)] by blast
  have s7: "stores w (?M ++ [l \<mapsto> ?t]) w7" using s5 6(4) by (rule stores_trans)
  have l: "brk ?w5 \<le> l" "l < brk w7" using storesD(4) [OF 6(4), of l] by auto
  then have l_new: "l \<notin> set (?ka @ ?va)" using old [of l] by auto
  let ?w8 = "w7\<lparr>strs := strs w7 |` (- set ?ka)\<rparr>"
  have live7: "strs w7 a \<noteq> None" if "a \<in> set (?ka @ ?va)" for a
    using that dom5 unfolding stores_strs [OF s7] by (metis domIff dom_map_add UnCI)
  have f8: "free_strs ?ka w7 = Some ?w8"
    using dist live7 storesD(1) [OF s7] by (intro free_strs_ok) auto
  have m8: "mem_ok ?w8" using storesD(1) [OF s7] by (auto simp: mem_ok_def restrict_map_def)
  let ?w9 = "?w8\<lparr>strs := strs ?w8 |` (- set ?va)\<rparr>"
  have f9: "free_strs ?va ?w8 = Some ?w9"
    using dist live7 m8 by (intro free_strs_ok) (auto simp: restrict_map_def)
  have "strs ?w9 = strs w ++ [l \<mapsto> ?t]"
  proof
    fix a
    show "strs ?w9 a = (strs w ++ [l \<mapsto> ?t]) a"
    proof (cases "a \<in> set (?ka @ ?va)")
      case True
      then have "brk w \<le> a" using old [of a] storesD(3) [OF s2] storesD(3) [OF 3(2)] by auto
      then have "strs w a = None" using mem_ok_fresh [OF assms(2)] by simp
      then show ?thesis using True l_new by (auto simp: restrict_map_def)
    next
      case False
      then have "?M a = None" using dom5 by (metis domIff)
      then show ?thesis using False stores_strs [OF s7] by (auto simp: restrict_map_def map_add_def)
    qed
  qed
  moreover have "\<forall>a. strs ?w9 a \<noteq> None \<longrightarrow> strs w7 a \<noteq> None" by (simp add: restrict_map_def)
  moreover have "dom [l \<mapsto> ?t] \<subseteq> dom (?M ++ [l \<mapsto> ?t])" by simp
  ultimately have "stores w [l \<mapsto> ?t] (w7\<lparr>strs := strs ?w9\<rparr>)" by (intro stores_forget [OF s7])
  then have "stores w [l \<mapsto> ?t] ?w9" by simp
  moreover have "l_value_for_bucket f name (length ks) (map Some ks) (map Some vs) bk w = Some (l, f', ?w9)"
    using assms(3) 3(1) 4(1) 5(1) ld 6(1,2) f8 f9 live
    by (simp add: l_value_for_bucket_def malloc_ok)
  ultimately show ?thesis using 6(3) by blast
qed

section \<open>The two maps while samples are added\<close>

text \<open>
  \<open>L\<close> lists what was added: the name, the address and text of its \<open>l_value\<close>, its sample.
\<close>

type_synonym added = "(string \<times> addr \<times> string \<times> addr) list"

abbreviation added_names :: "added \<Rightarrow> (string \<times> addr) list" where
  "added_names L \<equiv> map (\<lambda>(k, l, t, a). (k, l)) L"

abbreviation added_texts :: "added \<Rightarrow> (string \<times> addr) list" where
  "added_texts L \<equiv> map (\<lambda>(k, l, t, a). (t, a)) L"

definition built :: "pmap \<Rightarrow> pmap \<Rightarrow> 'z hworld \<Rightarrow> added \<Rightarrow> bool" where
  "built lv hs w L \<longleftrightarrow> mem_ok w \<and> oom w = [] \<and> map_ok lv w \<and> map_ok hs w \<and>
     owned lv \<inter> owned hs = {} \<and> map_count lv = length L \<and> map_count hs = length L \<and>
     lookup_map w lv = map_of (added_names L) \<and> lookup_map w hs = map_of (added_texts L) \<and>
     distinct (map fst (added_names L)) \<and> distinct (map fst (added_texts L)) \<and>
     distinct (map snd (added_texts L)) \<and>
     (\<forall>(k, l, t, a) \<in> set L. strs w l = Some t \<and> l \<notin> owned lv \<union> owned hs \<and> 0 < a \<and> a < brk w \<and>
        (\<exists>s. samples w a = Some s \<and> r_value s = dzero))"

definition frame :: "addr set \<Rightarrow> 'z mem_scheme \<Rightarrow> addr set \<Rightarrow> 'z mem_scheme \<Rightarrow> bool" where
  "frame A w A' w' \<longleftrightarrow> brk w \<le> brk w' \<and> (\<forall>x < brk w. x \<notin> A \<longrightarrow> strs w' x = strs w x) \<and>
     (\<forall>x \<in> A'. x \<in> A \<or> brk w \<le> x)"

lemma frame_trans:
  assumes "frame A u B v" "frame B v C w" shows "frame A u C w"
proof -
  have "strs w x = strs u x" if x: "x < brk u" "x \<notin> A" for x
  proof -
    have "x \<notin> B" "x < brk v" using assms(1) x by (auto simp: frame_def)
    then show ?thesis using assms x by (simp add: frame_def)
  qed
  then show ?thesis using assms by (auto simp: frame_def)
qed

lemma frame_stores: "stores w M w' \<Longrightarrow> frame A w A w'"
proof -
  assume s: "stores w M w'"
  have "strs w' x = strs w x" if "x < brk w" for x
  proof -
    have "x \<notin> dom M" using storesD(4) [OF s, of x] that by auto
    then show ?thesis by (simp add: stores_strs [OF s] map_add_dom_app_simps)
  qed
  then show ?thesis using storesD(3) [OF s] by (simp add: frame_def)
qed

lemma frame_map: "map_frame m w m' w' \<Longrightarrow> frame (owned m \<union> B) w (owned m' \<union> B) w'"
  by (auto simp: frame_def map_frame_def)

lemma stores_more: "stores w M w' \<Longrightarrow> mem.more w' = mem.more w"
  by (cases w; cases w') (simp add: stores_def)

lemma more_fields:
  fixes w w' :: "'z hworld"
  assumes "mem.more w' = mem.more w"
  shows "samples w' = samples w" "phbs w' = phbs w" "hists w' = hists w"
    "default_buckets w' = default_buckets w"
  using assms by (cases w; cases w'; simp)+

lemma built_stores:
  assumes b: "built lv hs w L" and s: "stores w M w'"
  shows "built lv hs w' L"
proof -
  have m: "map_ok lv w" "map_ok hs w" "mem_ok w" using b by (simp_all add: built_def)
  have same: "strs w' x = strs w x" if "x < brk w" for x
    using frame_stores [OF s, of "{}"] that by (simp add: frame_def)
  have "same_on (owned lv) w w'" "same_on (owned hs) w w'"
    using same owned_old [OF m(1,3)] owned_old [OF m(2,3)] by (auto simp: same_on_def)
  note c = this map_ok_cong [OF m(1) this(1)] map_ok_cong [OF m(2) this(2)]
    lookup_map_cong [OF this(1)] lookup_map_cong [OF this(2)]
  have "strs w' l = Some t" if "strs w l = Some t" for l t
    using same [of l] mem_ok_live [OF m(3) that] that by simp
  then show ?thesis
    using b c storesD(1-3) [OF s] more_fields [OF stores_more [OF s]]
    unfolding built_def by (fastforce simp del: map_map)
qed

lemma built_slot:
  assumes b: "built (l_values h) (hsamples h) w L" and e: "(k, l, t, a) \<in> set L"
  shows "slot h w k = Some a"
proof -
  have d: "distinct (map fst (added_names L))" "distinct (map fst (added_texts L))"
    and lk: "lookup_map w (l_values h) = map_of (added_names L)"
      "lookup_map w (hsamples h) = map_of (added_texts L)" and t: "strs w l = Some t"
    using b e unfolding built_def by auto
  have "(k, l) \<in> set (added_names L)" "(t, a) \<in> set (added_texts L)" using e by force+
  then have "lookup_map w (l_values h) k = Some l" "lookup_map w (hsamples h) t = Some a"
    using map_of_is_SomeI [OF d(1)] map_of_is_SomeI [OF d(2)] unfolding lk by blast+
  then show ?thesis using t by (simp add: slot_def)
qed

lemma map_of_snoc: "k \<notin> fst ` set xs \<Longrightarrow> map_of (xs @ [(k, v)]) = (map_of xs)(k \<mapsto> v)"
  by (induction xs) (auto simp: fun_eq_iff)

lemma put_sample:
  assumes b: "built lv hs w L" and l: "strs w l = Some t" "l \<notin> owned lv \<union> owned hs"
    and new: "k \<notin> fst ` set (added_names L)" "t \<notin> fst ` set (added_texts L)" and lim: "length L < map_limit"
  obtains lv' hs' w3 a w4 w5 where "prom_map_set run lv k l w = Some (0, lv', w3)"
    "load_str l w3 = Some t" "pms_new PROM_HISTOGRAM t dzero w3 = (a, w4)" "a \<noteq> NULL"
    "prom_map_set run hs t a w4 = Some (0, hs', w5)" "built lv' hs' w5 (L @ [(k, l, t, a)])"
    "frame (owned lv \<union> owned hs) w (owned lv' \<union> owned hs') w5"
    "free_value_fn lv' = free_value_fn lv" "free_value_fn hs' = free_value_fn hs"
    "hists w5 = hists w" "phbs w5 = phbs w" "default_buckets w5 = default_buckets w"
    "\<forall>x < brk w. samples w5 x = samples w x"
proof -
  have m: "mem_ok w" "oom w = []" "map_ok lv w" "map_ok hs w" "owned lv \<inter> owned hs = {}"
      "map_count lv = length L" "map_count hs = length L"
      "lookup_map w lv = map_of (added_names L)" "lookup_map w hs = map_of (added_texts L)"
    using b by (simp_all add: built_def)
  have free: "lookup_map w lv k = None" "lookup_map w hs t = None"
    using new unfolding m(8,9) by (simp_all only: map_of_eq_None_iff not_False_eq_True)
  obtain lv' w3 where 1: "prom_map_set run lv k l w = Some (0, lv', w3)" "map_ok lv' w3"
      "lookup_map w3 lv' = (lookup_map w lv)(k \<mapsto> l)" "map_frame lv w lv' w3"
      "map_count lv' = map_count lv + 1" "mem.more w3 = mem.more w"
    by (rule put_fresh [OF m(3,1,2) _ free(1)]) (use lim m(6) in simp_all)
  note f1 = map_frameD [OF 1(4)] and x1 = more_fields [OF 1(6)]
  have so1: "same_on (owned hs) w w3"
    using m(5) owned_old [OF m(4,1)] by (intro map_frame_same_on [OF 1(4)]) auto
  have h3: "map_ok hs w3" "lookup_map w3 hs = lookup_map w hs"
    using map_ok_cong [OF m(4) so1] lookup_map_cong [OF so1] by auto
  let ?a = "brk w3"
  define w4 where "w4 = w3\<lparr>brk := Suc (Suc ?a), strs := (strs w3)(Suc ?a \<mapsto> t),
     samples := (samples w3)(?a \<mapsto> \<lparr>stype = PROM_HISTOGRAM, l_value = Suc ?a, r_value = dzero\<rparr>)\<rparr>"
  have pn: "pms_new PROM_HISTOGRAM t dzero w3 = (?a, w4)"
    using f1(1,2) mem_ok_brk_pos [OF f1(1)]
    by (simp add: pms_new_def malloc_ok strdup_ok mem_ok_brk w4_def del: mem_ok_brk_pos)
  have m4: "mem_ok w4" "oom w4 = []" using f1(1,2) by (auto simp: w4_def mem_ok_def)
  have same4: "strs w4 x = strs w3 x" if "x \<noteq> Suc ?a" for x using that by (simp add: w4_def)
  have so4: "same_on (owned lv') w3 w4" "same_on (owned hs) w3 w4"
    using same4 owned_old [OF 1(2) f1(1)] owned_old [OF h3(1) f1(1)] by (fastforce simp: same_on_def)+
  have l4: "map_ok lv' w4" "lookup_map w4 lv' = lookup_map w3 lv'"
    and h4: "map_ok hs w4" "lookup_map w4 hs = lookup_map w3 hs"
    using map_ok_cong [OF 1(2) so4(1)] lookup_map_cong [OF so4(1)]
      map_ok_cong [OF h3(1) so4(2)] lookup_map_cong [OF so4(2)] by auto
  obtain hs' w5 where 5: "prom_map_set run hs t ?a w4 = Some (0, hs', w5)" "map_ok hs' w5"
      "lookup_map w5 hs' = (lookup_map w4 hs)(t \<mapsto> ?a)" "map_frame hs w4 hs' w5"
      "map_count hs' = map_count hs + 1" "mem.more w5 = mem.more w4"
    by (rule put_fresh [OF h4(1) m4, of t run ?a]) (use lim m(7) free(2) h3(2) h4(2) in simp_all)
  note f5 = map_frameD [OF 5(4)] and x5 = more_fields [OF 5(6)]
  have d1: "owned lv' \<inter> owned hs = {}"
    using m(5) f1(5) owned_old [OF m(4,1)] by fastforce
  have b4: "brk w4 = Suc (Suc ?a)" by (simp add: w4_def)
  have old': "x < brk w4" if "x \<in> owned lv'" for x using owned_old [OF 1(2) f1(1) that] b4 by simp
  have so5: "same_on (owned lv') w4 w5"
    using d1 old' by (intro map_frame_same_on [OF 5(4)]) auto
  have l5: "map_ok lv' w5" "lookup_map w5 lv' = (lookup_map w lv)(k \<mapsto> l)"
    using map_ok_cong [OF l4(1) so5] lookup_map_cong [OF so5] l4(2) 1(3) by auto
  have d5: "owned lv' \<inter> owned hs' = {}" using d1 f5(5) old' by fastforce
  have fr: "frame (owned lv \<union> owned hs) w (owned lv' \<union> owned hs') w5"
  proof -
    have "frame (owned lv' \<union> owned hs) w3 (owned lv' \<union> owned hs) w4"
      using same4 b4 by (simp add: frame_def)
    moreover have "frame (owned lv' \<union> owned hs) w4 (owned lv' \<union> owned hs') w5"
      using frame_map [OF 5(4), of "owned lv'"] by (simp add: Un_commute)
    ultimately show ?thesis using frame_map [OF 1(4), of "owned hs"] frame_trans by blast
  qed
  have keep: "samples w5 x = samples w x" if "x < brk w" for x
    using that f1(3) by (simp add: x5(1) w4_def x1(1))
  have entry: "strs w5 x = Some u \<and> x \<notin> owned lv' \<union> owned hs'"
    if "strs w x = Some u" "x \<notin> owned lv \<union> owned hs" for x u
    using fr that mem_ok_live [OF m(1) that(1)] by (fastforce simp: frame_def)
  have "samples w5 ?a = Some \<lparr>stype = PROM_HISTOGRAM, l_value = Suc ?a, r_value = dzero\<rparr>"
    by (simp add: x5(1) w4_def)
  then have last: "0 < ?a" "?a < brk w5" "\<exists>s. samples w5 ?a = Some s \<and> r_value s = dzero"
    using mem_ok_brk_pos [OF f1(1)] f5(3) b4 by auto
  have fresh_a: "?a \<notin> set (map snd (added_texts L))" using b f1(3) by (fastforce simp: built_def)
  have "built lv' hs' w5 (L @ [(k, l, t, ?a)])"
    unfolding built_def
  proof (intro conjI)
    show "lookup_map w5 lv' = map_of (added_names (L @ [(k, l, t, ?a)]))"
      using l5(2) m(8) map_of_snoc [OF new(1), of l] by simp
    show "lookup_map w5 hs' = map_of (added_texts (L @ [(k, l, t, ?a)]))"
      using 5(3) h4(2) h3(2) m(9) map_of_snoc [OF new(2), of ?a] by simp
    show "\<forall>(k, l, t, a) \<in> set (L @ [(k, l, t, ?a)]). strs w5 l = Some t \<and> l \<notin> owned lv' \<union> owned hs' \<and>
        0 < a \<and> a < brk w5 \<and> (\<exists>s. samples w5 a = Some s \<and> r_value s = dzero)"
    proof
      fix e assume e: "e \<in> set (L @ [(k, l, t, ?a)])"
      obtain k' l' t' a' where e': "e = (k', l', t', a')" by (cases e)
      show "case e of (k, l, t, a) \<Rightarrow> strs w5 l = Some t \<and> l \<notin> owned lv' \<union> owned hs' \<and>
          0 < a \<and> a < brk w5 \<and> (\<exists>s. samples w5 a = Some s \<and> r_value s = dzero)"
      proof (cases "e \<in> set L")
        case True
        then have "strs w l' = Some t'" "l' \<notin> owned lv \<union> owned hs" "0 < a'" "a' < brk w"
            "\<exists>s. samples w a' = Some s \<and> r_value s = dzero"
          using b e' by (auto simp: built_def)
        then show ?thesis using entry [of l' t'] keep [of a'] f1(3) f5(3) b4 e' by simp
      next
        case False
        then show ?thesis using e e' entry [OF l] last by auto
      qed
    qed
    show "distinct (map snd (added_texts (L @ [(k, l, t, ?a)])))"
      using fresh_a b by (simp add: built_def)
    show "distinct (map fst (added_names (L @ [(k, l, t, ?a)])))"
        "distinct (map fst (added_texts (L @ [(k, l, t, ?a)])))"
      using b new by (simp_all add: built_def image_image)
  qed (use f5(1,2) l5(1) 5(2,5) 1(5) m(6,7) d5 in simp_all)
  moreover have "hists w5 = hists w" "phbs w5 = phbs w" "default_buckets w5 = default_buckets w"
    using x1 x5 by (simp_all add: w4_def)
  moreover have "load_str l w3 = Some t"
    using f1(6) [of l] l mem_ok_live [OF m(1) l(1)] by (simp add: load_str_def)
  ultimately show thesis
    using fr last(1) f1(4) f5(4) keep by (intro that [OF 1(1) _ pn _ 5(1)]) auto
qed

section \<open>The four parts of the construction\<close>

definition owned_h :: "pmsh \<Rightarrow> addr set" where
  "owned_h h = owned (l_values h) \<union> owned (hsamples h)"

definition listed :: "pmsh \<Rightarrow> 'z hworld \<Rightarrow> addr \<Rightarrow> string \<times> addr \<times> string \<times> addr \<Rightarrow> bool" where
  "listed h w c = (\<lambda>(k, l, t, a). strs w c = Some t \<and> c \<notin> owned_h h)"

definition ready :: "pmsh \<Rightarrow> 'z hworld \<Rightarrow> added \<Rightarrow> bool" where
  "ready h w L \<longleftrightarrow> built (l_values h) (hsamples h) w L \<and> idle (metric_formatter h) \<and>
     list_all2 (listed h w) (l_value_list h) L"

definition hframe :: "pmsh \<Rightarrow> 'z hworld \<Rightarrow> pmsh \<Rightarrow> 'z hworld \<Rightarrow> bool" where
  "hframe h w h' w' \<longleftrightarrow> frame (owned_h h) w (owned_h h') w' \<and> hists w' = hists w \<and> phbs w' = phbs w \<and>
     default_buckets w' = default_buckets w \<and> (\<forall>x < brk w. samples w' x = samples w x) \<and>
     hbuckets h' = hbuckets h \<and> hlock h' = hlock h \<and>
     free_value_fn (l_values h') = free_value_fn (l_values h) \<and>
     free_value_fn (hsamples h') = free_value_fn (hsamples h)"

lemma hframe_trans: "hframe h u i v \<Longrightarrow> hframe i v j w \<Longrightarrow> hframe h u j w"
  unfolding hframe_def by (auto intro: frame_trans simp: frame_def)

lemma hframe_stores:
  "stores w M w' \<Longrightarrow> hframe h w (h\<lparr>metric_formatter := f, l_value_list := ls\<rparr>) w'"
  using frame_stores [of w M w' "owned_h h"] more_fields [OF stores_more, of w M w']
  by (simp add: hframe_def owned_h_def)

lemma frame_keep: "frame A w A' w' \<Longrightarrow> mem_ok w \<Longrightarrow> strs w x = Some t \<Longrightarrow> x \<notin> A \<Longrightarrow> strs w' x = Some t \<and> x \<notin> A'"
  using mem_ok_live [of w x t] by (fastforce simp: frame_def)

lemma listed_frame:
  assumes "hframe h w h' w'" "mem_ok w" "list_all2 (listed h w) cs L"
  shows "list_all2 (listed h' w') cs L"
  using assms(3)
proof (rule list_all2_mono)
  fix c e assume "listed h w c e"
  then show "listed h' w' c e"
    using frame_keep [OF _ assms(2), of "owned_h h" "owned_h h'" w' c] assms(1)
    by (cases e) (simp add: listed_def hframe_def)
qed

lemma ready_stores:
  assumes r: "ready h w L" and s: "stores w M w'" and f: "idle f"
  shows "ready (h\<lparr>metric_formatter := f\<rparr>) w' L"
proof -
  have b: "built (l_values h) (hsamples h) w L" using r by (simp add: ready_def)
  then have m: "mem_ok w" by (simp add: built_def)
  have "list_all2 (listed h w) (l_value_list h) L" using r by (simp add: ready_def)
  from listed_frame [OF hframe_stores [OF s, where h = h and f = f and ls = "l_value_list h"] m this]
  show ?thesis using built_stores [OF b s] f by (simp add: ready_def listed_def owned_h_def)
qed

lemma init_sample_ok:
  assumes r: "ready h w L" and l: "strs w l = Some t" "l \<notin> owned_h h"
    and new: "k \<notin> fst ` set (added_names L)" "t \<notin> fst ` set (added_texts L)" and lim: "length L < map_limit"
  shows "\<exists>h' w' a. init_sample e1 e2 e3 es h k l w = Some (es 0, h', w') \<and>
    ready h' w' (L @ [(k, l, t, a)]) \<and> hframe h w h' w'"
proof -
  have b: "built (l_values h) (hsamples h) w L" using r by (simp add: ready_def)
  then have m: "mem_ok w" "oom w = []" by (simp_all add: built_def)
  let ?w1 = "w\<lparr>brk := Suc (brk w), strs := (strs w)(brk w \<mapsto> t)\<rparr>" and ?c = "brk w"
  define w2 where "w2 = ?w1\<lparr>brk := Suc (brk ?w1)\<rparr>"
  have 1: "strdup t w = (?c, ?w1)" "stores w [?c \<mapsto> t] ?w1" using stores_strdup [OF m] by auto
  have 2: "seq_append (l_value_list h) ?c ?w1 = (0, l_value_list h @ [?c], w2)"
    using storesD(1,2) [OF 1(2)] by (simp add: seq_append_ok w2_def)
  have s: "stores w [?c \<mapsto> t] w2"
    using stores_trans [OF 1(2) stores_brk [OF storesD(1,2) [OF 1(2)], of "Suc (brk ?w1)"]]
    by (simp add: w2_def)
  have l2: "strs w2 l = Some t" "strs w2 ?c = Some t"
    using mem_ok_live [OF m(1) l(1)] l(1) by (simp_all add: w2_def)
  have "map_ok (l_values h) w" "map_ok (hsamples h) w" using b by (simp_all add: built_def)
  then have c: "?c \<notin> owned_h h"
    using owned_old [of "l_values h" w ?c] owned_old [of "hsamples h" w ?c] m(1) by (auto simp: owned_h_def)
  have b2: "built (l_values h) (hsamples h) w2 L" using b s by (rule built_stores)
  have no: "l \<notin> owned (l_values h) \<union> owned (hsamples h)" using l(2) by (simp add: owned_h_def)
  obtain lv' hs' w3 a w4 w5 where p: "prom_map_set run_sample (l_values h) k l w2 = Some (0, lv', w3)"
      "load_str l w3 = Some t" "pms_new PROM_HISTOGRAM t dzero w3 = (a, w4)" "a \<noteq> NULL"
      "prom_map_set run_sample (hsamples h) t a w4 = Some (0, hs', w5)" "built lv' hs' w5 (L @ [(k, l, t, a)])"
      "frame (owned (l_values h) \<union> owned (hsamples h)) w2 (owned lv' \<union> owned hs') w5"
      "free_value_fn lv' = free_value_fn (l_values h)" "free_value_fn hs' = free_value_fn (hsamples h)"
      "hists w5 = hists w2" "phbs w5 = phbs w2" "default_buckets w5 = default_buckets w2"
      "\<forall>x < brk w2. samples w5 x = samples w2 x"
    by (rule put_sample [OF b2 l2(1) no new lim, of run_sample])
  let ?h1 = "h\<lparr>l_value_list := l_value_list h @ [?c]\<rparr>"
  let ?h' = "?h1\<lparr>l_values := lv', hsamples := hs'\<rparr>"
  have e: "init_sample e1 e2 e3 es h k l w = Some (es 0, ?h', w5)"
    using l(1) 1(1) 2 p(1-5) by (simp add: init_sample_def load_str_def)
  have hf2: "hframe ?h1 w2 ?h' w5"
    using p(7-13) by (simp add: hframe_def owned_h_def)
  have hf1: "hframe h w ?h1 w2"
    using hframe_stores [OF s, where h = h and f = "metric_formatter h" and ls = "l_value_list h @ [?c]"] by simp
  have m2: "mem_ok w2" using storesD(1) [OF s] .
  have "list_all2 (listed h w) (l_value_list h) L" using r by (simp add: ready_def)
  from listed_frame [OF hframe_trans [OF hf1 hf2] m(1) this]
  have "list_all2 (listed ?h' w5) (l_value_list h) L" .
  moreover have "listed ?h' w5 ?c (k, l, t, a)"
    using frame_keep [OF p(7) m2 l2(2)] c by (simp add: listed_def owned_h_def)
  ultimately have "ready ?h' w5 (L @ [(k, l, t, a)])"
    using p(6) r by (simp add: ready_def list_all2_appendI)
  then show ?thesis using e hframe_trans [OF hf1 hf2] by blast
qed

abbreviation names_texts :: "added \<Rightarrow> (string \<times> string) list" where
  "names_texts L \<equiv> map (\<lambda>(k, l, t, a). (k, t)) L"

lemma added_sets:
  "fst ` set (added_names L) = fst ` set (names_texts L)"
  "fst ` set (added_texts L) = snd ` set (names_texts L)"
  by (force simp: image_iff)+

definition fresh_entry :: "added \<Rightarrow> string \<Rightarrow> string \<Rightarrow> bool" where
  "fresh_entry L k t \<longleftrightarrow> k \<notin> fst ` set (names_texts L) \<and> t \<notin> snd ` set (names_texts L) \<and>
     length L < map_limit"

lemma init_step:
  assumes r: "ready h w L" and s: "stores w [l \<mapsto> t] w1" and f: "idle f" and new: "fresh_entry L k t"
  shows "\<exists>h' w' a. init_sample e1 e2 e3 es (h\<lparr>metric_formatter := f\<rparr>) k l w1 = Some (es 0, h', w') \<and>
    ready h' w' (L @ [(k, l, t, a)]) \<and> hframe h w h' w'"
proof -
  let ?h = "h\<lparr>metric_formatter := f\<rparr>"
  have b: "map_ok (l_values h) w" "map_ok (hsamples h) w" "mem_ok w"
    using r by (simp_all add: ready_def built_def)
  have "brk w \<le> l" using storesD(4) [OF s, of l] by simp
  then have "l \<notin> owned_h h"
    using owned_old [OF b(1,3), of l] owned_old [OF b(2,3), of l] by (auto simp: owned_h_def)
  then have l: "strs w1 l = Some t" "l \<notin> owned_h ?h"
    using stores_strs [OF s] by (simp_all add: owned_h_def)
  obtain h' w' a where "init_sample e1 e2 e3 es ?h k l w1 = Some (es 0, h', w')"
      "ready h' w' (L @ [(k, l, t, a)])" "hframe ?h w1 h' w'"
    using init_sample_ok [OF ready_stores [OF r s f] l] new unfolding fresh_entry_def added_sets by blast
  moreover have "hframe h w ?h w1"
    using hframe_stores [OF s, where h = h and f = f and ls = "l_value_list h"] by simp
  ultimately show ?thesis using hframe_trans by blast
qed

lemma ready_idle: "ready h w L \<Longrightarrow> idle (metric_formatter h) \<and> mem_ok w \<and> oom w = []"
  by (simp add: ready_def built_def)

lemma init_inf_ok:
  assumes r: "ready h w L" and len: "length vs = length ks"
    and fit: "fits name (Some ''bucket'') (ks @ [''le'']) (vs @ [''+Inf''])"
    and new: "fresh_entry L ''+Inf'' t" and t: "t = l_text name (Some ''bucket'') (ks @ [''le'']) (vs @ [''+Inf''])"
  shows "\<exists>h' w' l a. init_inf h name (length ks) (map Some ks) (map Some vs) w = Some (0, h', w') \<and>
    ready h' w' (L @ [(''+Inf'', l, t, a)]) \<and> hframe h w h' w'"
proof -
  obtain l f w1 where 1: "l_value_for_bucket (metric_formatter h) name (length ks) (map Some ks) (map Some vs)
      ''+Inf'' w = Some (l, f, w1)" "idle f" "stores w [l \<mapsto> t] w1"
    using l_value_for_bucket_ok [OF _ _ _ len fit] ready_idle [OF r] t by blast
  have "l \<noteq> NULL" using stores_nonnull [OF 1(3)] ready_idle [OF r] by simp
  then show ?thesis
    using 1(1) init_step [OF r 1(3,2) new, of 2 3 4 "\<lambda>r. r"]
    by (auto simp: init_inf_def l_value_for_inf_def)
qed

lemma init_plain_ok:
  assumes r: "ready h w L" and fit: "fits name (Some k) ks vs"
    and new: "fresh_entry L k (l_text name (Some k) ks vs)"
  obtains l f w1 h' w' a where "l_value_plain (metric_formatter h) name k (length ks) (map Some ks) (map Some vs) w =
      Some (0, l, f, w1)" "l \<noteq> NULL" "init_sample e1 e2 e3 (\<lambda>r. r) (h\<lparr>metric_formatter := f\<rparr>) k l w1 = Some (0, h', w')"
    "ready h' w' (L @ [(k, l, l_text name (Some k) ks vs, a)])" "hframe h w h' w'"
proof -
  obtain l f w1 where 1: "l_value_plain (metric_formatter h) name k (length ks) (map Some ks) (map Some vs) w =
      Some (0, l, f, w1)" "idle f" "stores w [l \<mapsto> l_text name (Some k) ks vs] w1"
    using l_value_plain_ok [OF _ _ _ fit] ready_idle [OF r] by blast
  have "l \<noteq> NULL" using stores_nonnull [OF 1(3)] ready_idle [OF r] by simp
  then show thesis using 1(1) init_step [OF r 1(3,2) new, of e1 e2 e3 "\<lambda>r. r"] that by auto
qed

lemma init_count_ok:
  assumes "ready h w L" "fits name (Some ''count'') ks vs"
    and "fresh_entry L ''count'' (l_text name (Some ''count'') ks vs)"
  shows "\<exists>h' w' l a. init_count h name (length ks) (map Some ks) (map Some vs) w = Some (0, h', w') \<and>
    ready h' w' (L @ [(''count'', l, l_text name (Some ''count'') ks vs, a)]) \<and> hframe h w h' w'"
proof -
  from init_plain_ok [OF assms, where ?e1.0 = 2 and ?e2.0 = 3 and ?e3.0 = 1] obtain l f w1 h' w' a where
    "l_value_plain (metric_formatter h) name ''count'' (length ks) (map Some ks) (map Some vs) w = Some (0, l, f, w1)"
    "l \<noteq> NULL" "init_sample 2 3 1 (\<lambda>r. r) (h\<lparr>metric_formatter := f\<rparr>) ''count'' l w1 = Some (0, h', w')"
    "ready h' w' (L @ [(''count'', l, l_text name (Some ''count'') ks vs, a)])" "hframe h w h' w'"
    by blast
  then show ?thesis by (auto simp: init_count_def)
qed

lemma init_summary_ok:
  assumes "ready h w L" "fits name (Some ''sum'') ks vs"
    and "fresh_entry L ''sum'' (l_text name (Some ''sum'') ks vs)"
  shows "\<exists>h' w' l a. init_summary h name (length ks) (map Some ks) (map Some vs) w = Some (0, h', w') \<and>
    ready h' w' (L @ [(''sum'', l, l_text name (Some ''sum'') ks vs, a)]) \<and> hframe h w h' w'"
proof -
  from init_plain_ok [OF assms, where ?e1.0 = 3 and ?e2.0 = 4 and ?e3.0 = 1] obtain l f w1 h' w' a where
    "l_value_plain (metric_formatter h) name ''sum'' (length ks) (map Some ks) (map Some vs) w = Some (0, l, f, w1)"
    "l \<noteq> NULL" "init_sample 3 4 1 (\<lambda>r. r) (h\<lparr>metric_formatter := f\<rparr>) ''sum'' l w1 = Some (0, h', w')"
    "ready h' w' (L @ [(''sum'', l, l_text name (Some ''sum'') ks vs, a)])" "hframe h w h' w'"
    by blast
  then show ?thesis by (auto simp: init_summary_def)
qed

definition bucket_text :: "string \<Rightarrow> string list \<Rightarrow> string list \<Rightarrow> string \<Rightarrow> string" where
  "bucket_text name ks vs n = l_text name (Some ''bucket'') (ks @ [''le'']) (vs @ [n])"

lemma init_bucket_samples_ok:
  assumes "ready h w L" "list_all2 (\<lambda>k n. strs w k = Some n \<and> k \<notin> owned_h h) bkeys ns"
    and len: "length vs = length ks"
    and fit: "\<forall>n \<in> set ns. fits name (Some ''bucket'') (ks @ [''le'']) (vs @ [n])"
    and "distinct ns" "set ns \<inter> fst ` set (names_texts L) = {}"
    and "distinct (map (bucket_text name ks vs) ns)"
    and "bucket_text name ks vs ` set ns \<inter> snd ` set (names_texts L) = {}"
    and "length L + length ns \<le> map_limit"
  shows "\<exists>h' w' M. init_bucket_samples h name (length ks) (map Some ks) (map Some vs) bkeys w = Some (0, h', w') \<and>
    ready h' w' (L @ M) \<and> names_texts M = map (\<lambda>n. (n, bucket_text name ks vs n)) ns \<and> hframe h w h' w'"
  using assms(1,2,4-)
proof (induction ns arbitrary: bkeys h w L)
  case Nil
  then show ?case by (intro exI [of _ h] exI [of _ w] exI [of _ "[]"]) (auto simp: hframe_def frame_def)
next
  case (Cons n ns)
  note r = Cons.prems(1)
  obtain k bks where k: "bkeys = k # bks" "strs w k = Some n" "k \<notin> owned_h h"
      "list_all2 (\<lambda>k n. strs w k = Some n \<and> k \<notin> owned_h h) bks ns"
    using Cons.prems(2) by (auto simp: list_all2_Cons2)
  let ?t = "bucket_text name ks vs n"
  have fit1: "fits name (Some ''bucket'') (ks @ [''le'']) (vs @ [n])" using Cons.prems(3) by simp
  have m: "idle (metric_formatter h)" "mem_ok w" "oom w = []" using ready_idle [OF r] by auto
  obtain l f w1 where 1: "l_value_for_bucket (metric_formatter h) name (length ks) (map Some ks) (map Some vs) n w =
      Some (l, f, w1)" "idle f" "stores w [l \<mapsto> ?t] w1"
    using l_value_for_bucket_ok [OF m len fit1] unfolding bucket_text_def by blast
  have nz: "l \<noteq> NULL" "k \<noteq> NULL"
    using stores_nonnull [OF 1(3) m(2)] mem_ok_live [OF m(2) k(2)] by auto
  have new: "fresh_entry L n ?t" using Cons.prems by (simp add: fresh_entry_def)
  obtain h2 w2 a where 2: "init_sample 2 4 5 (\<lambda>r. if r \<noteq> 0 then 6 else 0) (h\<lparr>metric_formatter := f\<rparr>) n l w1 =
      Some (0, h2, w2)" "ready h2 w2 (L @ [(n, l, ?t, a)])" "hframe h w h2 w2"
    using init_step [OF r 1(3,2) new, of 2 4 5 "\<lambda>r. if r \<noteq> 0 then 6 else 0"] by auto
  have fr: "frame (owned_h h) w (owned_h h2) w2" using 2(3) by (simp add: hframe_def)
  have keys2: "list_all2 (\<lambda>k n. strs w2 k = Some n \<and> k \<notin> owned_h h2) bks ns"
    using k(4) frame_keep [OF fr m(2)] by (auto elim: list_all2_mono)
  obtain h' w' M where 3: "init_bucket_samples h2 name (length ks) (map Some ks) (map Some vs) bks w2 = Some (0, h', w')"
      "ready h' w' ((L @ [(n, l, ?t, a)]) @ M)" "names_texts M = map (\<lambda>n. (n, bucket_text name ks vs n)) ns"
      "hframe h2 w2 h' w'"
    using Cons.IH [OF 2(2) keys2] Cons.prems(3-) by auto
  have "init_bucket_samples h name (length ks) (map Some ks) (map Some vs) bkeys w = Some (0, h', w')"
    using k(1,2) nz 1(1) 2(1) 3(1) by (simp add: load_str_def)
  then show ?case using 3(2-4) hframe_trans [OF 2(3) 3(4)]
    by (intro exI [of _ h'] exI [of _ w'] exI [of _ "(n, l, ?t, a) # M"]) simp
qed

section \<open>A new histogram\<close>

definition hist_args :: "string \<Rightarrow> string list \<Rightarrow> string list \<Rightarrow> string list \<Rightarrow> bool" where
  "hist_args name ks vs ns \<longleftrightarrow> length vs = length ks \<and> distinct ns \<and>
     {''+Inf'', ''count'', ''sum''} \<inter> set ns = {} \<and> list_all unquoted vs \<and> list_all unquoted ns \<and>
     list_all (\<lambda>n. fits name (Some ''bucket'') (ks @ [''le'']) (vs @ [n])) (''+Inf'' # ns) \<and>
     fits name (Some ''count'') ks vs \<and> fits name (Some ''sum'') ks vs \<and> length ns + 3 \<le> map_limit"

lemma bucket_text_inj:
  assumes "bucket_text name ks vs m = bucket_text name ks vs n" "length vs = length ks"
    and "list_all unquoted vs" "unquoted m" "unquoted n"
  shows "m = n"
proof -
  have "vs @ [m] = vs @ [n]"
    using assms by (intro l_value_text_inj [of "vs @ [m]" "ks @ [''le'']" "vs @ [n]"])
      (auto simp: bucket_text_def list_all_iff)
  then show ?thesis by simp
qed

lemma suffix_differs:
  "bucket_text name ks vs n \<noteq> l_text name (Some ''count'') ks vs"
  "bucket_text name ks vs n \<noteq> l_text name (Some ''sum'') ks vs"
  "l_text name (Some ''count'') ks vs \<noteq> l_text name (Some ''sum'') ks vs"
  by (simp_all add: bucket_text_def l_value_text_def head_text_def)

lemma init_all_ok:
  assumes r: "ready h w []" and args: "hist_args name ks vs ns"
    and keys: "list_all2 (\<lambda>k n. strs w k = Some n \<and> k \<notin> owned_h h) bkeys ns"
  shows "\<exists>h' w' L. init_all h name (length ks) (map Some ks) (map Some vs) bkeys w = Some (0, h', w') \<and>
    ready h' w' L \<and> names_texts L = map (\<lambda>n. (n, bucket_text name ks vs n)) (ns @ [''+Inf'']) @
      [(''count'', l_text name (Some ''count'') ks vs), (''sum'', l_text name (Some ''sum'') ks vs)] \<and>
    hframe h w h' w'"
proof -
  have len: "length vs = length ks" and lim: "length ns + 3 \<le> map_limit"
    and dist: "distinct ns" and special: "''+Inf'' \<notin> set ns" "''count'' \<notin> set ns" "''sum'' \<notin> set ns"
    and q: "list_all unquoted vs" "list_all unquoted ns"
    and fit: "\<forall>n \<in> set ns. fits name (Some ''bucket'') (ks @ [''le'']) (vs @ [n])"
      "fits name (Some ''bucket'') (ks @ [''le'']) (vs @ [''+Inf''])"
      "fits name (Some ''count'') ks vs" "fits name (Some ''sum'') ks vs"
    using args by (auto simp: hist_args_def list_all_iff)
  let ?bt = "bucket_text name ks vs" and ?cnt = "l_text name (Some ''count'') ks vs"
    and ?sum = "l_text name (Some ''sum'') ks vs"
  note sd = suffix_differs [of name ks vs] suffix_differs [of name ks vs, THEN not_sym]
  have inf_q: "unquoted ''+Inf''" by (simp add: unquoted_def quote_def)
  have "inj_on ?bt (set ns \<union> {''+Inf''})"
    using bucket_text_inj [OF _ len q(1)] q(2) inf_q by (auto intro!: inj_onI simp: list_all_iff)
  then have bt: "distinct (map ?bt ns)" "?bt ''+Inf'' \<notin> ?bt ` set ns"
    using dist special(1) by (auto simp: distinct_map inj_on_def)
  obtain h1 w1 L1 where 1: "init_bucket_samples h name (length ks) (map Some ks) (map Some vs) bkeys w = Some (0, h1, w1)"
      "ready h1 w1 L1" "names_texts L1 = map (\<lambda>n. (n, ?bt n)) ns" "hframe h w h1 w1"
    using init_bucket_samples_ok [OF r keys len fit(1) dist _ bt(1)] lim by auto
  have nt1: "fst ` set (names_texts L1) = set ns" "snd ` set (names_texts L1) = ?bt ` set ns"
    unfolding 1(3) by force+
  have len1: "length L1 = length ns" using arg_cong [OF 1(3), of length] by simp
  have "fresh_entry L1 ''+Inf'' (?bt ''+Inf'')"
    using special(1) bt(2) lim len1 by (simp add: fresh_entry_def nt1 del: set_map)
  from init_inf_ok [OF 1(2) len fit(2) this] obtain h2 w2 l2 a2 where
    2: "init_inf h1 name (length ks) (map Some ks) (map Some vs) w1 = Some (0, h2, w2)"
      "ready h2 w2 (L1 @ [(''+Inf'', l2, ?bt ''+Inf'', a2)])" "hframe h1 w1 h2 w2"
    unfolding bucket_text_def by blast
  let ?L2 = "L1 @ [(''+Inf'', l2, ?bt ''+Inf'', a2)]"
  have "fresh_entry ?L2 ''count'' ?cnt"
    using special(2) lim len1 nt1 by (auto simp: fresh_entry_def image_Un sd)
  from init_count_ok [OF 2(2) fit(3) this] obtain h3 w3 l3 a3 where
    3: "init_count h2 name (length ks) (map Some ks) (map Some vs) w2 = Some (0, h3, w3)"
      "ready h3 w3 (?L2 @ [(''count'', l3, ?cnt, a3)])" "hframe h2 w2 h3 w3"
    by blast
  have "fresh_entry (?L2 @ [(''count'', l3, ?cnt, a3)]) ''sum'' ?sum"
    using special(3) lim len1 nt1 by (auto simp: fresh_entry_def image_Un sd)
  from init_summary_ok [OF 3(2) fit(4) this] obtain h4 w4 l4 a4 where
    4: "init_summary h3 name (length ks) (map Some ks) (map Some vs) w3 = Some (0, h4, w4)"
      "ready h4 w4 ((?L2 @ [(''count'', l3, ?cnt, a3)]) @ [(''sum'', l4, ?sum, a4)])" "hframe h3 w3 h4 w4"
    by blast
  have "init_all h name (length ks) (map Some ks) (map Some vs) bkeys w = Some (0, h4, w4)"
    using 1(1) 2(1) 3(1) 4(1) by (simp add: init_all_def)
  moreover have "hframe h w h4 w4"
    using hframe_trans [OF 1(4) hframe_trans [OF 2(3) hframe_trans [OF 3(3) 4(3)]]] .
  moreover have "names_texts ((?L2 @ [(''count'', l3, ?cnt, a3)]) @ [(''sum'', l4, ?sum, a4)]) =
      map (\<lambda>n. (n, ?bt n)) (ns @ [''+Inf'']) @ [(''count'', ?cnt), (''sum'', ?sum)]"
    using 1(3) by simp
  ultimately show ?thesis using 4(2) by blast
qed

text \<open>The state while the histogram is put together: only addresses have been used up.\<close>

lemma pmf_new_ok:
  assumes "mem_ok w" "oom w = []"
  shows "\<exists>f b. pmf_new w = (Some f, w\<lparr>brk := b\<rparr>) \<and> brk w \<le> b \<and> idle f"
proof -
  have "\<exists>f. pmf_new w = (Some f, w\<lparr>brk := Suc (Suc (Suc (Suc (Suc (brk w)))))\<rparr>) \<and> idle f"
    using assms by (simp add: pmf_new_def malloc_ok psb_new_def psb_init_def psb_ok_def content_def
        mem_ok_def idle_def PROM_STRING_BUILDER_INIT_SIZE_def)
  moreover have "brk w \<le> Suc (Suc (Suc (Suc (Suc (brk w)))))" by simp
  ultimately show ?thesis by blast
qed

lemma new_parts_ok:
  assumes m: "mem_ok w" "oom w = []" and bk: "phbs w buckets = Some bk" "nat (bcount bk) \<le> length (bkey bk)"
  shows "\<exists>h b. brk w < b \<and> ready h (w\<lparr>brk := b\<rparr>) [] \<and> owned_h h = {} \<and> hbuckets h = buckets \<and> \<not> hlock h \<and>
    pms_histogram_new name buckets n ks vs w = do {
      (r, h, w') \<leftarrow> init_all h name n ks vs (take (nat (bcount bk)) (bkey bk)) (w\<lparr>brk := b\<rparr>);
      if r \<noteq> 0 then do { w' \<leftarrow> destroy_parts h w'; Some (NULL, w') }
      else Some (brk w, w'\<lparr>hists := (hists w')(brk w \<mapsto> h)\<rparr>) }"
proof -
  have nz: "(brk w = NULL) = False" using mem_ok_brk_pos [OF m(1)] by simp
  have st: "mem_ok (w\<lparr>brk := b\<rparr>)" "oom (w\<lparr>brk := b\<rparr>) = []" if "brk w \<le> b" for b
    using m that by (simp_all add: mem_ok_brk)
  obtain f b1 where f: "pmf_new (w\<lparr>brk := Suc (Suc (brk w))\<rparr>) = (Some f, w\<lparr>brk := b1\<rparr>)"
      "Suc (Suc (brk w)) \<le> b1" "idle f"
    using pmf_new_ok [OF st [of "Suc (Suc (brk w))"]] by auto
  define b2 where "b2 = b1 + 36"
  define b3 where "b3 = b2 + 36"
  obtain sm where sm: "prom_map_new (w\<lparr>brk := b1\<rparr>) = Some (Some sm, w\<lparr>brk := b2\<rparr>)"
      "map_ok sm (w\<lparr>brk := b2\<rparr>)" "lookup_map (w\<lparr>brk := b2\<rparr>) sm = Map.empty" "map_count sm = 0" "owned sm = {}"
    using new_map_ok [OF st [of b1]] f(2) by (auto simp: b2_def)
  obtain lm where lm: "prom_map_new (w\<lparr>brk := b2\<rparr>) = Some (Some lm, w\<lparr>brk := b3\<rparr>)"
      "map_ok lm (w\<lparr>brk := b3\<rparr>)" "lookup_map (w\<lparr>brk := b3\<rparr>) lm = Map.empty" "map_count lm = 0" "owned lm = {}"
    using new_map_ok [OF st [of b2]] f(2) by (auto simp: b3_def b2_def)
  have nz3: "(b3 = NULL) = False" by (simp add: b3_def)
  let ?b = "Suc b3"
  define h where "h = \<lparr>l_value_list = [], l_values = lm\<lparr>free_value_fn := Str_Free\<rparr>,
     hsamples = sm\<lparr>free_value_fn := Sample_Free\<rparr>, metric_formatter = f, hbuckets = buckets, hlock = False\<rparr>"
  have "map_ok lm (w\<lparr>brk := ?b\<rparr>)" "lookup_map (w\<lparr>brk := ?b\<rparr>) lm = Map.empty"
    using lm(2,3) map_ok_cong [OF lm(2), of "w\<lparr>brk := ?b\<rparr>"]
      lookup_map_cong [of lm "w\<lparr>brk := b3\<rparr>" "w\<lparr>brk := ?b\<rparr>"] by (simp_all add: same_on_def)
  moreover have "map_ok sm (w\<lparr>brk := ?b\<rparr>)" "lookup_map (w\<lparr>brk := ?b\<rparr>) sm = Map.empty"
    using sm(2,3) map_ok_cong [OF sm(2), of "w\<lparr>brk := ?b\<rparr>"]
      lookup_map_cong [of sm "w\<lparr>brk := b2\<rparr>" "w\<lparr>brk := ?b\<rparr>"] by (simp_all add: same_on_def)
  ultimately have "ready h (w\<lparr>brk := ?b\<rparr>) []"
    using st [of ?b] f(2,3) lm(4,5) sm(4,5) by (simp add: ready_def built_def h_def b3_def b2_def)
  moreover have "owned_h h = {}" using lm(5) sm(5) by (simp add: owned_h_def h_def)
  moreover have "pms_histogram_new name buckets n ks vs w = do {
      (r, h, w') \<leftarrow> init_all h name n ks vs (take (nat (bcount bk)) (bkey bk)) (w\<lparr>brk := ?b\<rparr>);
      if r \<noteq> 0 then do { w' \<leftarrow> destroy_parts h w'; Some (NULL, w') }
      else Some (brk w, w'\<lparr>hists := (hists w')(brk w \<mapsto> h)\<rparr>) }"
    using m(2) nz nz3 f(1) sm(1) lm(1) bk
    by (simp add: pms_histogram_new_def malloc_ok prom_map_set_free_value_fn_def h_def [symmetric])
  ultimately show ?thesis using f(2)
    by (intro exI [of _ h] exI [of _ ?b]) (simp add: h_def b3_def b2_def)
qed

text \<open>The samples of a new histogram, in the order of their creation.\<close>

lemma ready_hist_wf:
  assumes r: "ready h w L" and h: "hists w self = Some h" "\<not> hlock h" "phbs w (hbuckets h) = Some b"
    and b: "bcount b = int (length (upper_bound b))" "length (bkey b) = length (upper_bound b)"
    and keys: "list_all2 (\<lambda>k n. strs w k = Some n) (bkey b) ns"
    and names: "map fst (names_texts L) = ns @ [''+Inf'', ''count'', ''sum'']"
  shows "\<exists>as ai ac au. hist_wf self w (upper_bound b) as ai ac au \<and>
    (\<forall>a \<in> set (as @ [ai, ac, au]). value_of w a = dzero)"
proof -
  have bt: "built (l_values h) (hsamples h) w L" using r by (simp add: ready_def)
  then have m: "mem_ok w" by (simp add: built_def)
  have len: "length L = length ns + 3" using arg_cong [OF names, of length] by simp
  define S where "S = map snd (added_texts L)"
  have lenS: "length S = length ns + 3" using len by (simp add: S_def)
  define as where "as = take (length ns) S"
  let ?n = "length ns"
  have S: "S = as @ [S ! ?n, S ! Suc ?n, S ! Suc (Suc ?n)]"
  proof (rule nth_equalityI)
    show "length S = length (as @ [S ! ?n, S ! Suc ?n, S ! Suc (Suc ?n)])" using lenS by (simp add: as_def)
    fix i assume "i < length S"
    then consider "i < ?n" | "i = ?n" | "i = Suc ?n" | "i = Suc (Suc ?n)" using lenS by linarith
    then show "S ! i = (as @ [S ! ?n, S ! Suc ?n, S ! Suc (Suc ?n)]) ! i"
      using lenS by cases (simp_all add: as_def nth_append)
  qed
  have slot: "slot h w ((ns @ [''+Inf'', ''count'', ''sum'']) ! i) = Some (S ! i)" if "i < length S" for i
  proof -
    obtain k l t a where e: "L ! i = (k, l, t, a)" by (cases "L ! i")
    then have "slot h w k = Some a" using built_slot [OF bt, of k l t a] that lenS len nth_mem [of i L] by simp
    moreover have "(ns @ [''+Inf'', ''count'', ''sum'']) ! i = k"
      using arg_cong [OF names, of "\<lambda>xs. xs ! i"] e that lenS len by simp
    moreover have "S ! i = a" using e that lenS len by (simp add: S_def)
    ultimately show ?thesis by simp
  qed
  have live: "a \<noteq> NULL \<and> (\<exists>s. samples w a = Some s \<and> r_value s = dzero)" if "a \<in> set S" for a
    using that bt unfolding S_def built_def by fastforce
  have "distinct S" using bt by (simp add: built_def S_def)
  have lk: "length (bkey b) = ?n" using keys by (rule list_all2_lengthD)
  have "list_all2 (names_slot h w) (zip (upper_bound b) (bkey b)) as"
  proof (rule list_all2_all_nthI)
    show "length (zip (upper_bound b) (bkey b)) = length as" using lk b(2) lenS by (simp add: as_def)
    fix i assume "i < length (zip (upper_bound b) (bkey b))"
    then have i: "i < ?n" using lk by simp
    then have "strs w (bkey b ! i) = Some (ns ! i)" using keys lk by (simp add: list_all2_conv_all_nth)
    moreover have "slot h w (ns ! i) = Some (as ! i)"
      using slot [of i] i lenS by (simp add: nth_append as_def)
    moreover have "bkey b ! i \<noteq> NULL" using mem_ok_live [OF m calculation(1)] by simp
    ultimately show "names_slot h w (zip (upper_bound b) (bkey b) ! i) (as ! i)"
      using i lk b(2) by (simp add: names_slot_def)
  qed
  moreover have "slot h w ''+Inf'' = Some (S ! ?n)" "slot h w ''count'' = Some (S ! Suc ?n)"
      "slot h w ''sum'' = Some (S ! Suc (Suc ?n))"
    using slot [of ?n] slot [of "Suc ?n"] slot [of "Suc (Suc ?n)"] lenS by (simp_all add: nth_append)
  moreover have "live_samples w S" using live by (fastforce simp: live_samples_def)
  moreover have "hist_ready h w" using bt by (simp add: hist_ready_def built_def)
  ultimately have "hist_wf self w (upper_bound b) as (S ! ?n) (S ! Suc ?n) (S ! Suc (Suc ?n))"
    using h b \<open>distinct S\<close> S unfolding hist_wf_def by (intro exI [of _ h] exI [of _ b]) simp
  moreover have "\<forall>a \<in> set S. value_of w a = dzero" using live by (fastforce simp: value_of_def)
  ultimately show ?thesis using S by metis
qed

lemma ready_hists: "ready h w L \<Longrightarrow> ready h (w\<lparr>hists := H\<rparr>) L"
  using map_ok_strs [of "w\<lparr>hists := H\<rparr>" w] lookup_strs [of "w\<lparr>hists := H\<rparr>" w]
  by (simp add: ready_def built_def listed_def mem_ok_def cong: list.rel_cong)

definition bucket_set :: "'z hworld \<Rightarrow> addr \<Rightarrow> double list \<Rightarrow> string list \<Rightarrow> bool" where
  "bucket_set w buckets ubs ns \<longleftrightarrow> (\<exists>b. phbs w buckets = Some b \<and> upper_bound b = ubs \<and>
     bcount b = int (length ubs) \<and> list_all2 (\<lambda>k n. strs w k = Some n) (bkey b) ns \<and> length ns = length ubs)"

lemma histogram_new_ok:
  assumes m: "mem_ok w" "oom w = []" and bs: "bucket_set w buckets ubs ns" and args: "hist_args name ks vs ns"
  shows "\<exists>self w' as ai ac au.
    pms_histogram_new name buckets (length ks) (map Some ks) (map Some vs) w = Some (self, w') \<and>
    self \<noteq> NULL \<and> hist_wf self w' ubs as ai ac au \<and> (\<forall>a \<in> set (as @ [ai, ac, au]). value_of w' a = dzero)"
proof -
  obtain b where b: "phbs w buckets = Some b" "upper_bound b = ubs" "bcount b = int (length ubs)"
      "list_all2 (\<lambda>k n. strs w k = Some n) (bkey b) ns" "length ns = length ubs"
    using bs by (auto simp: bucket_set_def)
  have lk: "length (bkey b) = length ubs" using list_all2_lengthD [OF b(4)] b(5) by simp
  obtain h c where h: "brk w < c" "ready h (w\<lparr>brk := c\<rparr>) []" "owned_h h = {}" "hbuckets h = buckets" "\<not> hlock h"
    and new: "pms_histogram_new name buckets (length ks) (map Some ks) (map Some vs) w = do {
      (r, h, w') \<leftarrow> init_all h name (length ks) (map Some ks) (map Some vs) (take (nat (bcount b)) (bkey b)) (w\<lparr>brk := c\<rparr>);
      if r \<noteq> 0 then do { w' \<leftarrow> destroy_parts h w'; Some (NULL, w') }
      else Some (brk w, w'\<lparr>hists := (hists w')(brk w \<mapsto> h)\<rparr>) }"
    using new_parts_ok [OF m b(1), of name "length ks" "map Some ks" "map Some vs"] lk b(3) by auto
  have "list_all2 (\<lambda>k n. strs (w\<lparr>brk := c\<rparr>) k = Some n \<and> k \<notin> owned_h h) (bkey b) ns"
    using b(4) h(3) by simp
  from init_all_ok [OF h(2) args this] obtain h' w' L where
    i: "init_all h name (length ks) (map Some ks) (map Some vs) (bkey b) (w\<lparr>brk := c\<rparr>) = Some (0, h', w')"
      "ready h' w' L" "names_texts L = map (\<lambda>n. (n, bucket_text name ks vs n)) (ns @ [''+Inf'']) @
      [(''count'', l_text name (Some ''count'') ks vs), (''sum'', l_text name (Some ''sum'') ks vs)]"
      "hframe h (w\<lparr>brk := c\<rparr>) h' w'"
    by blast
  let ?w = "w'\<lparr>hists := (hists w')(brk w \<mapsto> h')\<rparr>"
  have e: "pms_histogram_new name buckets (length ks) (map Some ks) (map Some vs) w = Some (brk w, ?w)"
    using i(1) lk b(3) by (simp add: new)
  have mc: "mem_ok (w\<lparr>brk := c\<rparr>)" using m(1) h(1) by (simp add: mem_ok_brk)
  have "\<exists>as ai ac au. hist_wf (brk w) ?w (upper_bound b) as ai ac au \<and>
      (\<forall>a \<in> set (as @ [ai, ac, au]). value_of ?w a = dzero)"
  proof (rule ready_hist_wf [OF ready_hists [OF i(2)]])
    show "list_all2 (\<lambda>k n. strs ?w k = Some n) (bkey b) ns"
      using b(4)
    proof (rule list_all2_mono)
      fix k n assume "strs w k = Some n"
      then show "strs ?w k = Some n"
        using frame_keep [OF _ mc, of "owned_h h" "owned_h h'" w' k n] i(4) h(3) by (simp add: hframe_def)
    qed
    show "map fst (names_texts L) = ns @ [''+Inf'', ''count'', ''sum'']" unfolding i(3) by (simp add: comp_def)
  qed (use i(4) h(4,5) b lk in \<open>simp_all add: hframe_def\<close>)
  moreover have "brk w \<noteq> NULL" using mem_ok_brk_pos [OF m(1)] by simp
  ultimately show ?thesis using e b(2) by metis
qed

section \<open>Properties\<close>

text \<open>The counts are exact as long as they are below \<open>2 ^ 53\<close>.\<close>

lemma ones_from_zero:
  assumes "n \<le> 2 ^ 53"
  shows "dval (foldl dadd dzero (replicate n d_one)) = real n" "is_fin (foldl dadd dzero (replicate n d_one))"
  using foldl_ones [of dzero 0 n] assms by (simp_all add: dzero)

definition shows_count :: "'z hworld \<Rightarrow> addr \<Rightarrow> nat \<Rightarrow> bool" where
  "shows_count w a n \<longleftrightarrow> is_fin (value_of w a) \<and> dval (value_of w a) = real n"

lemma counts_ok:
  assumes "hist_wf self w ubs as ai ac au" "\<forall>a \<in> set (as @ [ai, ac, au]). value_of w a = dzero"
    and "ascending ubs" "\<forall>v \<in> set vs. \<not> dlt v dzero" "length vs \<le> 2 ^ 53"
  shows "\<exists>w'. observe_all self vs w = Some w' \<and> hist_wf self w' ubs as ai ac au \<and>
    (\<forall>i < length ubs. shows_count w' (as ! i) (at_most (ubs ! i) vs)) \<and>
    shows_count w' ai (length vs) \<and> shows_count w' ac (length vs) \<and> value_of w' au = foldl dadd dzero vs"
proof -
  obtain w' where w': "observe_all self vs w = Some w'" "hist_wf self w' ubs as ai ac au"
      "\<forall>i < length ubs. value_of w' (as ! i) =
         foldl dadd (value_of w (as ! i)) (replicate (at_most (ubs ! i) vs) d_one)"
      "value_of w' ai = foldl dadd (value_of w ai) (replicate (length vs) d_one)"
      "value_of w' ac = foldl dadd (value_of w ac) (replicate (length vs) d_one)"
      "value_of w' au = foldl dadd (value_of w au) vs"
    using observe_all_ok [OF assms(1,3,4)] by blast
  have zero: "value_of w (as ! i) = dzero" if "i < length ubs" for i
    using assms(2) hist_wf_length [OF assms(1)] that by simp
  have "at_most (ubs ! i) vs \<le> 2 ^ 53" for i using at_most_le [of "ubs ! i" vs] assms(5) by linarith
  then show ?thesis
    using w' zero assms(2,5) ones_from_zero by (simp add: shows_count_def)
qed

text \<open>C19. A histogram created over \<open>ubs\<close> that observes the values \<open>vs\<close>, none of them negative,
  shows in the bucket of each bound the number of values not above it, in \<open>+Inf\<close> and
  \<open>count\<close> the number of all values, and in \<open>sum\<close> their floating point sum in order.\<close>

theorem histogram_counts:
  assumes "mem_ok w" "oom w = []" "bucket_set w buckets ubs ns" "hist_args name ks labels ns"
    and "ascending ubs" "\<forall>v \<in> set vs. \<not> dlt v dzero" "length vs \<le> 2 ^ 53"
  shows "\<exists>self w1 w' as ai ac au.
    pms_histogram_new name buckets (length ks) (map Some ks) (map Some labels) w = Some (self, w1) \<and>
    self \<noteq> NULL \<and> observe_all self vs w1 = Some w' \<and> hist_wf self w' ubs as ai ac au \<and>
    (\<forall>i < length ubs. shows_count w' (as ! i) (at_most (ubs ! i) vs)) \<and>
    shows_count w' ai (length vs) \<and> shows_count w' ac (length vs) \<and> value_of w' au = foldl dadd dzero vs"
  using histogram_new_ok [OF assms(1-4)] counts_ok [OF _ _ assms(5-7)] by metis

definition hworld1 :: hmem where
  "hworld1 = \<lparr>strs = [1 \<mapsto> ''1.0''], brk = 3, oom = [], samples = Map.empty,
     phbs = [2 \<mapsto> \<lparr>bcount = 1, upper_bound = [d_one], bkey = [1]\<rparr>], default_buckets = NULL, hists = Map.empty\<rparr>"

lemma hworld1_ok:
  "mem_ok hworld1" "oom hworld1 = []" "bucket_set hworld1 2 [d_one] [''1.0'']" "hist_args ''h'' [] [] [''1.0'']"
  by (auto simp: mem_ok_def hworld1_def bucket_set_def hist_args_def fits_def unquoted_def quote_def
      head_text_def labels_text_def label_text_def opt_str_def psb_limit_def map_limit_def)

theorem histogram_counts_witness:
  "\<exists>self w1 w' as ai ac au. pms_histogram_new ''h'' 2 0 [] [] hworld1 = Some (self, w1) \<and>
    observe_all self [d_one, d_of_nat 2] w1 = Some w' \<and> hist_wf self w' [d_one] as ai ac au \<and>
    shows_count w' (as ! 0) 1 \<and> shows_count w' ai 2"
proof -
  let ?e = "[] :: string list"
  have "\<forall>v \<in> set [d_one, d_of_nat 2]. \<not> dlt v dzero" by (simp add: dbl_simps d_one_def)
  moreover have one: "at_most d_one [d_one, d_of_nat 2] = 1" by (simp add: dbl_simps d_one_def)
  moreover have "ascending [d_one]" "length [d_one, d_of_nat 2] \<le> 2 ^ 53" by simp_all
  ultimately have ex: "\<exists>self w1 w' as ai ac au.
    pms_histogram_new ''h'' 2 (length ?e) (map Some ?e) (map Some ?e) hworld1 = Some (self, w1) \<and>
    self \<noteq> NULL \<and> observe_all self [d_one, d_of_nat 2] w1 = Some w' \<and> hist_wf self w' [d_one] as ai ac au \<and>
    (\<forall>i < length [d_one]. shows_count w' (as ! i) (at_most ([d_one] ! i) [d_one, d_of_nat 2])) \<and>
    shows_count w' ai (length [d_one, d_of_nat 2]) \<and> shows_count w' ac (length [d_one, d_of_nat 2]) \<and>
    value_of w' au = foldl dadd dzero [d_one, d_of_nat 2]"
    by (intro histogram_counts [OF hworld1_ok])
  then obtain self w1 w' as ai ac au where
    r: "pms_histogram_new ''h'' 2 (length ?e) (map Some ?e) (map Some ?e) hworld1 = Some (self, w1)"
    "observe_all self [d_one, d_of_nat 2] w1 = Some w'" "hist_wf self w' [d_one] as ai ac au"
    "\<forall>i < length [d_one]. shows_count w' (as ! i) (at_most ([d_one] ! i) [d_one, d_of_nat 2])"
    "shows_count w' ai (length [d_one, d_of_nat 2])"
    by (elim exE conjE) (rule that; assumption)
  have "at_most ([d_one] ! 0) [d_one, d_of_nat 2] = 1" using one by (simp only: nth_Cons_0)
  then have "shows_count w' (as ! 0) 1" using spec [OF r(4), of 0] by (simp only: length_Cons zero_less_Suc simp_thms)
  moreover have "shows_count w' ai 2" using r(5) by (simp only: list.size numeral_2_eq_2 add_0_right add_Suc_right)
  moreover have "pms_histogram_new ''h'' 2 0 [] [] hworld1 = Some (self, w1)" using r(1) by (simp only: list.size list.map)
  ultimately show ?thesis using r(2,3) by blast
qed

text \<open>The counts of a histogram are cumulative: they ascend with the bounds up to the total.\<close>

definition cumulative :: "'z hworld \<Rightarrow> addr list \<Rightarrow> addr \<Rightarrow> addr \<Rightarrow> nat \<Rightarrow> bool" where
  "cumulative w as ai ac tot \<longleftrightarrow> (\<exists>cs. list_all2 (shows_count w) as cs \<and> sorted cs \<and>
     (\<forall>c \<in> set cs. c \<le> tot) \<and> shows_count w ai tot \<and> shows_count w ac tot)"

lemma shows_count_Suc:
  "shows_count w a n \<Longrightarrow> value_of w' a = dadd (value_of w a) d_one \<Longrightarrow> n < 2 ^ 53 \<Longrightarrow> shows_count w' a (Suc n)"
  using dadd_exact_nat [of "value_of w a" d_one "Suc n"] by (simp add: shows_count_def d_one)

text \<open>Counting a value keeps ascending counts ascending.\<close>

lemma counted_sorted:
  assumes "ascending ubs" "sorted cs" "length cs = length ubs"
  shows "sorted (map (\<lambda>i. if dlt (ubs ! i) v then cs ! i else Suc (cs ! i)) [0..<length ubs])"
  unfolding sorted_iff_nth_mono
proof (intro allI impI)
  let ?ds = "map (\<lambda>i. if dlt (ubs ! i) v then cs ! i else Suc (cs ! i)) [0..<length ubs]"
  fix i j assume ij: "i \<le> j" "j < length ?ds"
  then have le: "cs ! i \<le> cs ! j" using assms(2,3) by (simp add: sorted_iff_nth_mono)
  have "i = j \<or> dle (ubs ! i) (ubs ! j)"
    using ascending_nth [OF assms(1), of i j] ij by (cases "i = j") simp_all
  then have "\<not> dlt (ubs ! i) v \<Longrightarrow> \<not> dlt (ubs ! j) v" using dle_dlt_trans by blast
  then show "?ds ! i \<le> ?ds ! j" using ij le by auto
qed

text \<open>C20. Every observation of a value that is not negative keeps the counts cumulative and
  \<open>+Inf\<close> equal to \<open>count\<close>, and counts one value more, up to \<open>2 ^ 53\<close> of them; the bounds
  of the buckets ascend.\<close>

theorem histogram_stays_cumulative:
  assumes wf: "hist_wf self w ubs as ai ac au" and asc: "ascending ubs" and v: "\<not> dlt v dzero"
    and cum: "cumulative w as ai ac tot" and lim: "tot < 2 ^ 53"
  shows "\<exists>w'. pms_histogram_observe self v w = Some (0, w') \<and> hist_wf self w' ubs as ai ac au \<and>
    cumulative w' as ai ac (Suc tot)"
proof -
  obtain w' where w': "pms_histogram_observe self v w = Some (0, w')" "hist_wf self w' ubs as ai ac au"
      "samples w' = observed v ubs as ai ac au (samples w)"
    using observe_ok [OF wf v] by blast
  note val = observed_values [OF wf asc w'(3)]
  have len: "length as = length ubs" using wf by (rule hist_wf_length)
  obtain cs where cs: "list_all2 (shows_count w) as cs" "sorted cs" "\<forall>c \<in> set cs. c \<le> tot"
      "shows_count w ai tot" "shows_count w ac tot"
    using cum by (auto simp: cumulative_def)
  have lc: "length cs = length ubs" using list_all2_lengthD [OF cs(1)] len by simp
  define ds where "ds = map (\<lambda>i. if dlt (ubs ! i) v then cs ! i else Suc (cs ! i)) [0..<length ubs]"
  have "list_all2 (shows_count w') as ds"
  proof (rule list_all2_all_nthI)
    fix i assume "i < length as"
    then have i: "i < length ubs" using len by simp
    have c: "shows_count w (as ! i) (cs ! i)" using cs(1) i len by (simp add: list_all2_conv_all_nth)
    have "cs ! i < 2 ^ 53" using cs(3) lim i lc nth_mem [of i cs] by fastforce
    then show "shows_count w' (as ! i) (ds ! i)"
      using val(1) [OF i] i c shows_count_Suc [OF c, of w']
      by (cases "dlt (ubs ! i) v") (simp_all add: ds_def shows_count_def)
  qed (simp add: ds_def len)
  moreover have "sorted ds" unfolding ds_def using asc cs(2) lc by (rule counted_sorted)
  moreover have "cs ! i \<le> tot" if "i < length ubs" for i using cs(3) lc that by simp
  then have "\<forall>c \<in> set ds. c \<le> Suc tot" by (auto simp: ds_def le_SucI)
  moreover have "shows_count w' ai (Suc tot)" "shows_count w' ac (Suc tot)"
    using shows_count_Suc [OF cs(4) val(2) lim] shows_count_Suc [OF cs(5) val(3) lim] by simp_all
  ultimately show ?thesis using w'(1,2) by (auto simp: cumulative_def)
qed

theorem histogram_stays_cumulative_witness:
  "\<exists>self w as ai ac au w'. hist_wf self w [d_one] as ai ac au \<and>
    pms_histogram_observe self d_one (w :: hmem) = Some (0, w') \<and> cumulative w' as ai ac 1"
proof -
  obtain self w as ai ac au where w: "hist_wf self w [d_one] as ai ac au"
      "\<forall>a \<in> set (as @ [ai, ac, au]). value_of (w :: hmem) a = dzero"
    using histogram_new_ok [OF hworld1_ok] by blast
  have "shows_count w a 0" if "a \<in> set (as @ [ai, ac, au])" for a
    using that w(2) by (auto simp: shows_count_def dzero)
  then have "list_all2 (shows_count w) as (replicate (length as) 0)" "shows_count w ai 0" "shows_count w ac 0"
    by (simp_all add: list_all2_conv_all_nth)
  then have "cumulative w as ai ac 0" unfolding cumulative_def by fastforce
  moreover have "\<not> dlt d_one dzero" by (simp add: dbl_simps d_one_def)
  ultimately show ?thesis
    using histogram_stays_cumulative [OF w(1), of d_one 0] w(1) by fastforce
qed

text \<open>C21. Observing a negative value is reported as an error, yet every bucket whose bound is not
  below the value, \<open>+Inf\<close> and \<open>count\<close> have been increased by one by then, and the other
  buckets and \<open>sum\<close> are left alone, so that the histogram no longer agrees with the values it
  accepted; the bounds of the buckets ascend.\<close>

theorem histogram_negative_partial:
  assumes wf: "hist_wf self w ubs as ai ac au" and asc: "ascending ubs" and v: "dlt v dzero"
  shows "\<exists>w'. pms_histogram_observe self v w = Some (2, w') \<and>
    (\<forall>i < length ubs. value_of w' (as ! i) =
       (if dlt (ubs ! i) v then value_of w (as ! i) else dadd (value_of w (as ! i)) d_one)) \<and>
    value_of w' ai = dadd (value_of w ai) d_one \<and> value_of w' ac = dadd (value_of w ac) d_one \<and>
    value_of w' au = value_of w au"
proof -
  let ?t = "take (length (takeWhile (\<lambda>ub. \<not> dlt ub v) (rev ubs))) (rev as)"
  obtain w' where w': "pms_histogram_observe self v w = Some (2, w')"
      "samples w' = credit (?t @ [ai, ac]) d_one (samples w)"
    using observe_negative [OF wf v] by blast
  have len: "length as = length ubs" using wf by (rule hist_wf_length)
  have d: "distinct (as @ [ai, ac, au])" and live: "live_samples w (as @ [ai, ac, au])"
    using wf by (auto simp: hist_wf_def)
  have liv: "samples w a \<noteq> None" if "a \<in> set (as @ [ai, ac, au])" for a
    using live that by (auto simp: live_samples_def)
  have "value_of w' (as ! i) = (if dlt (ubs ! i) v then value_of w (as ! i) else dadd (value_of w (as ! i)) d_one)"
    if i: "i < length ubs" for i
  proof -
    have mem: "as ! i \<in> set as" using i len by simp
    then have "as ! i \<noteq> ai" "as ! i \<noteq> ac" using d by auto
    then show ?thesis
      using value_credit [OF w'(2), of "as ! i"] liv [of "as ! i"] mem counted_iff [OF asc len _ i, of v] d by simp
  qed
  moreover have "au \<notin> set ?t" using d set_take_subset [of _ "rev as"] by fastforce
  ultimately show ?thesis
    using w'(1) value_credit [OF w'(2), of ai] value_credit [OF w'(2), of ac] value_credit [OF w'(2), of au] d
      liv [of ai] liv [of ac] liv [of au] by simp
qed

theorem histogram_negative_partial_witness:
  "\<exists>self w w' as ai ac au. hist_wf self w [d_one] as ai ac au \<and>
    pms_histogram_observe self (DInf True) (w :: hmem) = Some (2, w') \<and>
    value_of w' (as ! 0) = dadd (value_of w (as ! 0)) d_one \<and>
    value_of w' ac = dadd (value_of w ac) d_one \<and> value_of w' au = value_of w au"
proof -
  obtain self w as ai ac au where w: "hist_wf self w [d_one] as ai ac au" "(w :: hmem) = w"
    using histogram_new_ok [OF hworld1_ok] by blast
  have v: "dlt (DInf True) dzero" and b: "\<not> dlt d_one (DInf True)" by (simp_all add: dzero_def d_one_def)
  have "ascending [d_one]" by simp
  from histogram_negative_partial [OF w(1) this v] w(1) b show ?thesis by fastforce
qed

end
