(* ===== verification/Metric.thy ===== *)
theory Metric
  imports HistogramNew
begin

text \<open>
  \<open>lib/prom/src/prom_metric.c\<close>, \<open>prom_counter.c\<close>, \<open>prom_gauge.c\<close> and \<open>prom_histogram.c\<close>: a
  metric owns its label names, a formatter and a map from \<open>l_value\<close>s to samples. The main
  result is that a metric refines a finite map from label values to numbers: every counter
  and gauge operation finds or creates the one sample of its label values and changes no other.
\<close>

section \<open>Data\<close>

text \<open>
  \<open>name\<close> and \<open>help\<close> are pointers to strings of the caller, which the library never
  changes; they are kept as values.
\<close>

record metric =
  mtype :: prom_metric_type
  mname :: string
  mhelp :: "string option"
  msamples :: pmap
  mbuckets :: addr
  label_key_count :: nat
  mformatter :: pmf
  mlock :: bool
  label_keys :: "addr list"

record mmem = hmem +
  metrics :: "addr \<Rightarrow> metric option"

type_synonym 'z mworld = "'z mmem_scheme"

fun run_metric :: "'z mworld runner" where
  "run_metric No_Op v w = Some w"
| "run_metric Str_Free v w = free_str_generic v w"
| "run_metric Sample_Free v w = pms_free_generic v w"
| "run_metric Sample_Histogram_Free v w = pms_histogram_free_generic v w"
| "run_metric _ v w = None"

section \<open>Construction and destruction\<close>

text \<open>
  The loop over the label names; None in the first component is the jump to \<open>fail\<close> for a
  reserved name. A NULL name is undefined in \<open>strcmp\<close>.
\<close>

fun copy_label_keys :: "nat \<Rightarrow> string option list \<Rightarrow> 'z mem_scheme \<Rightarrow> (addr list option \<times> 'z mem_scheme) option" where
  "copy_label_keys 0 ks w = Some (Some [], w)"
| "copy_label_keys (Suc n) (Some k # ks) w =
     (if strcmp k ''le'' = 0 \<or> strcmp k ''quantile'' = 0 then Some (None, w)
      else let (a, w) = strdup k w in
        do { (as, w) \<leftarrow> copy_label_keys n ks w; Some (map_option (\<lambda>as. a # as) as, w) })"
| "copy_label_keys (Suc n) _ w = None"

text \<open>
  \<open>fail\<close> destroys the metric while \<open>rwlock\<close> is not yet set (and for a reserved label neither
  are \<open>samples\<close> and the label array): undefined. A failure to allocate the lock returns NULL
  and leaks the rest.
\<close>

definition prom_metric_new :: "prom_metric_type \<Rightarrow> string \<Rightarrow> string option \<Rightarrow> nat \<Rightarrow> string option list
    \<Rightarrow> 'z mworld \<Rightarrow> (addr \<times> 'z mworld) option" where
  "prom_metric_new metric_type name help n ks w = (let (self, w) = malloc w in
     if self = NULL then Some (NULL, w)
     else let (k, w) = malloc w in
     if k = NULL \<and> 0 < n then None
     else do {
       (as, w) \<leftarrow> copy_label_keys n ks w;
       as \<leftarrow> as;
       (sm, w) \<leftarrow> prom_map_new w;
       sm \<leftarrow> sm;
       let sm = snd (prom_map_set_free_value_fn sm
         (if metric_type = PROM_HISTOGRAM then Sample_Histogram_Free else Sample_Free));
       case pmf_new w of (None, w) \<Rightarrow> None
       | (Some f, w) \<Rightarrow> let (lock, w) = malloc w in
           if lock = NULL then Some (NULL, w)
           else Some (self, w\<lparr>metrics := (metrics w)(self \<mapsto>
             \<lparr>mtype = metric_type, mname = name, mhelp = help, msamples = sm, mbuckets = NULL,
              label_key_count = n, mformatter = f, mlock = False, label_keys = as\<rparr>)\<rparr>) })"

definition prom_metric_destroy :: "addr \<Rightarrow> 'z mworld \<Rightarrow> (int \<times> 'z mworld) option" where
  "prom_metric_destroy self w = (if self = NULL then Some (0, w)
     else do {
       m \<leftarrow> metrics w self;
       (_, w) \<leftarrow> phb_destroy (mbuckets m) w;
       (_, w) \<leftarrow> prom_map_destroy run_metric (Some (msamples m)) w;
       w \<leftarrow> free_items (label_keys m) w;
       Some (0, w\<lparr>metrics := (metrics w)(self := None)\<rparr>) })"

definition prom_metric_destroy_generic :: "addr \<Rightarrow> 'z mworld \<Rightarrow> (int \<times> 'z mworld) option" where
  "prom_metric_destroy_generic gen w = prom_metric_destroy gen w"

definition prom_metric_free_generic :: "addr \<Rightarrow> 'z mworld \<Rightarrow> 'z mworld option" where
  "prom_metric_free_generic gen w = map_option snd (prom_metric_destroy gen w)"

section \<open>Samples by label values\<close>

text \<open>The lines the two lookups share: take the lock and render the \<open>l_value\<close>; NULL on failure.\<close>

definition metric_l_value :: "metric \<Rightarrow> string option list \<Rightarrow> 'z mworld \<Rightarrow> (addr \<times> metric \<times> 'z mworld) option" where
  "metric_l_value m vs w = do {
     ks \<leftarrow> load_all (label_keys m) w;
     (r, f, w) \<leftarrow> pmf_load_l_value (Some (mformatter m)) (Some (mname m)) None (label_key_count m) ks vs w;
     (l, f, w) \<leftarrow> (if r \<noteq> 0 then Some (NULL, f, w) else pmf_dump f w);
     f \<leftarrow> f;
     Some (l, m\<lparr>mformatter := f\<rparr>, w) }"

definition put_metric :: "addr \<Rightarrow> metric \<Rightarrow> 'z mworld \<Rightarrow> 'z mworld" where
  "put_metric self m w = w\<lparr>metrics := (metrics w)(self \<mapsto> m)\<rparr>"

text \<open>
  A failed \<open>prom_map_set\<close> leaves \<open>l_value\<close> and the sample unreferenced. The lock is taken at
  the start and released at each end, so \<open>mlock\<close> comes back unchanged.
\<close>

definition pms_from_labels :: "addr \<Rightarrow> string option list \<Rightarrow> 'z mworld \<Rightarrow> (addr \<times> 'z mworld) option" where
  "pms_from_labels self vs w = do {
     m \<leftarrow> metrics w self;
     if fst (wrlock (mlock m)) \<noteq> 0 then Some (NULL, w) else do {
     (l, m, w) \<leftarrow> metric_l_value m vs w;
     if l = NULL then Some (NULL, put_metric self m w) else do {
     s \<leftarrow> load_str l w;
     (sample, w) \<leftarrow> prom_map_get run_metric (msamples m) (Some s) w;
     if sample \<noteq> NULL then do {
       w \<leftarrow> free_str l w;
       Some (sample, put_metric self m w) }
     else do {
       let (sample, w) = pms_new (mtype m) s dzero w;
       (r, sm, w) \<leftarrow> prom_map_set run_metric (msamples m) s sample w;
       let m = m\<lparr>msamples := sm\<rparr>;
       if r \<noteq> 0 then Some (NULL, put_metric self m w)
       else do {
         w \<leftarrow> free_str l w;
         Some (sample, put_metric self m w) } } } } }"

definition pms_histogram_from_labels :: "addr \<Rightarrow> string option list \<Rightarrow> 'z mworld \<Rightarrow> (addr \<times> 'z mworld) option" where
  "pms_histogram_from_labels self vs w = do {
     m \<leftarrow> metrics w self;
     if fst (wrlock (mlock m)) \<noteq> 0 then Some (NULL, w) else do {
     (l, m, w) \<leftarrow> metric_l_value m vs w;
     if l = NULL then Some (NULL, put_metric self m w) else do {
     s \<leftarrow> load_str l w;
     (sample, w) \<leftarrow> prom_map_get run_metric (msamples m) (Some s) w;
     if sample \<noteq> NULL then do {
       w \<leftarrow> free_str l w;
       Some (sample, put_metric self m w) }
     else do {
       ks \<leftarrow> load_all (label_keys m) w;
       (sample, w) \<leftarrow> pms_histogram_new (mname m) (mbuckets m) (label_key_count m) ks vs w;
       if sample = NULL then do { w \<leftarrow> free_str l w; Some (NULL, put_metric self m w) } else do {
       (r, sm, w) \<leftarrow> prom_map_set run_metric (msamples m) s sample w;
       let m = m\<lparr>msamples := sm\<rparr>;
       w \<leftarrow> free_str l w;
       Some (if r \<noteq> 0 then NULL else sample, put_metric self m w) } } } } }"

section \<open>Counters\<close>

definition prom_counter_new :: "string \<Rightarrow> string option \<Rightarrow> nat \<Rightarrow> string option list \<Rightarrow> 'z mworld
    \<Rightarrow> (addr \<times> 'z mworld) option" where
  "prom_counter_new name help n ks w = prom_metric_new PROM_COUNTER name help n ks w"

definition prom_counter_destroy :: "addr \<Rightarrow> 'z mworld \<Rightarrow> (int \<times> 'z mworld) option" where
  "prom_counter_destroy self w = (if self = NULL then Some (0, w) else prom_metric_destroy self w)"

text \<open>The guard every operation starts with, and what follows it.\<close>

definition on_sample :: "prom_metric_type \<Rightarrow> (addr \<Rightarrow> 'z mworld \<Rightarrow> (int \<times> 'z mworld) option)
    \<Rightarrow> addr \<Rightarrow> string option list \<Rightarrow> 'z mworld \<Rightarrow> (int \<times> 'z mworld) option" where
  "on_sample t f self vs w = (if self = NULL then Some (1, w)
     else do {
       m \<leftarrow> metrics w self;
       if mtype m \<noteq> t then Some (1, w) else do {
       (s, w) \<leftarrow> pms_from_labels self vs w;
       if s = NULL then Some (1, w) else f s w }})"

definition prom_counter_inc :: "addr \<Rightarrow> string option list \<Rightarrow> 'z mworld \<Rightarrow> (int \<times> 'z mworld) option" where
  "prom_counter_inc self vs w = on_sample PROM_COUNTER (\<lambda>s w. pms_add s d_one w) self vs w"

definition prom_counter_add :: "addr \<Rightarrow> double \<Rightarrow> string option list \<Rightarrow> 'z mworld \<Rightarrow> (int \<times> 'z mworld) option" where
  "prom_counter_add self r vs w = on_sample PROM_COUNTER (\<lambda>s w. pms_add s r w) self vs w"

definition prom_counter_reset :: "bool \<Rightarrow> addr \<Rightarrow> double \<Rightarrow> string option list \<Rightarrow> 'z mworld
    \<Rightarrow> (int \<times> 'z mworld) option" where
  "prom_counter_reset warn self r vs w = on_sample PROM_COUNTER (\<lambda>s w. pms_set warn s r w) self vs w"

section \<open>Gauges\<close>

definition prom_gauge_new :: "string \<Rightarrow> string option \<Rightarrow> nat \<Rightarrow> string option list \<Rightarrow> 'z mworld
    \<Rightarrow> (addr \<times> 'z mworld) option" where
  "prom_gauge_new name help n ks w = prom_metric_new PROM_GAUGE name help n ks w"

definition prom_gauge_destroy :: "addr \<Rightarrow> 'z mworld \<Rightarrow> (int \<times> 'z mworld) option" where
  "prom_gauge_destroy self w = (if self = NULL then Some (0, w) else prom_metric_destroy self w)"

definition prom_gauge_inc :: "addr \<Rightarrow> string option list \<Rightarrow> 'z mworld \<Rightarrow> (int \<times> 'z mworld) option" where
  "prom_gauge_inc self vs w = on_sample PROM_GAUGE (\<lambda>s w. pms_add s d_one w) self vs w"

definition prom_gauge_dec :: "bool \<Rightarrow> addr \<Rightarrow> string option list \<Rightarrow> 'z mworld \<Rightarrow> (int \<times> 'z mworld) option" where
  "prom_gauge_dec warn self vs w = on_sample PROM_GAUGE (\<lambda>s w. pms_sub warn s d_one w) self vs w"

definition prom_gauge_add :: "addr \<Rightarrow> double \<Rightarrow> string option list \<Rightarrow> 'z mworld \<Rightarrow> (int \<times> 'z mworld) option" where
  "prom_gauge_add self r vs w = on_sample PROM_GAUGE (\<lambda>s w. pms_add s r w) self vs w"

definition prom_gauge_sub :: "bool \<Rightarrow> addr \<Rightarrow> double \<Rightarrow> string option list \<Rightarrow> 'z mworld \<Rightarrow> (int \<times> 'z mworld) option" where
  "prom_gauge_sub warn self r vs w = on_sample PROM_GAUGE (\<lambda>s w. pms_sub warn s r w) self vs w"

definition prom_gauge_set :: "bool \<Rightarrow> addr \<Rightarrow> double \<Rightarrow> string option list \<Rightarrow> 'z mworld \<Rightarrow> (int \<times> 'z mworld) option" where
  "prom_gauge_set warn self r vs w = on_sample PROM_GAUGE (\<lambda>s w. pms_set warn s r w) self vs w"

section \<open>Histograms\<close>

definition default_bounds :: "double list" where
  "default_bounds = [d_lit 5 1000, d_lit 1 100, d_lit 25 1000, d_lit 5 100, d_lit 1 10, d_lit 25 100,
     d_lit 5 10, d_one, d_lit 25 10, d_lit 5 1, d_lit 10 1]"

text \<open>The test of the loop in \<open>prom_histogram_new\<close>, for the indices from 1 on.\<close>

fun increasing :: "double list \<Rightarrow> addr list \<Rightarrow> bool" where
  "increasing (a # b # bs) (_ # k # ks) = (\<not> dlt b a \<and> k \<noteq> NULL \<and> increasing (b # bs) (k # ks))"
| "increasing _ _ = True"

definition set_buckets :: "addr \<Rightarrow> addr \<Rightarrow> 'z mworld \<Rightarrow> (addr \<times> 'z mworld) option" where
  "set_buckets self buckets w = do {
     m \<leftarrow> metrics w self;
     Some (self, put_metric self (m\<lparr>mbuckets := buckets\<rparr>) w) }"

text \<open>
  Writing \<open>buckets\<close> through a NULL metric is undefined. Bounds out of order return NULL and
  leak the metric.
\<close>

definition prom_histogram_new :: "string \<Rightarrow> string option \<Rightarrow> addr \<Rightarrow> nat \<Rightarrow> string option list \<Rightarrow> 'z mworld
    \<Rightarrow> (addr \<times> 'z mworld) option" where
  "prom_histogram_new name help buckets n ks w = do {
     (self, w) \<leftarrow> prom_metric_new PROM_HISTOGRAM name help n ks w;
     if buckets = NULL then do {
       w \<leftarrow> (if default_buckets w = NULL then do {
               (d, w) \<leftarrow> phb_new 11 (hd default_bounds) (tl default_bounds) w;
               Some (w\<lparr>default_buckets := d\<rparr>) }
             else Some w);
       set_buckets self (default_buckets w) w }
     else do {
       b \<leftarrow> phbs w buckets;
       let c = nat (bcount b);
       if length (upper_bound b) < c \<or> length (bkey b) < c then None
       else if \<not> increasing (take c (upper_bound b)) (take c (bkey b)) then Some (NULL, w)
       else set_buckets self buckets w } }"

definition prom_histogram_destroy :: "addr \<Rightarrow> 'z mworld \<Rightarrow> (int \<times> 'z mworld) option" where
  "prom_histogram_destroy self w = (if self = NULL then Some (0, w) else prom_metric_destroy self w)"

definition prom_histogram_observe :: "addr \<Rightarrow> double \<Rightarrow> string option list \<Rightarrow> 'z mworld
    \<Rightarrow> (int \<times> 'z mworld) option" where
  "prom_histogram_observe self v vs w = (if self = NULL then Some (1, w)
     else do {
       m \<leftarrow> metrics w self;
       if mtype m \<noteq> PROM_HISTOGRAM then Some (1, w) else do {
       (s, w) \<leftarrow> pms_histogram_from_labels self vs w;
       if s = NULL then Some (1, w) else pms_histogram_observe s v w }})"

section \<open>Well formed metrics\<close>

lemma put_metric_simps [simp]:
  fixes w :: "'z mworld"
  shows "strs (put_metric self m w) = strs w" "brk (put_metric self m w) = brk w"
    "oom (put_metric self m w) = oom w" "samples (put_metric self m w) = samples w"
    "phbs (put_metric self m w) = phbs w" "hists (put_metric self m w) = hists w"
    "default_buckets (put_metric self m w) = default_buckets w"
    "metrics (put_metric self m w) = (metrics w)(self \<mapsto> m)"
    "mmem.more (put_metric self m w) = mmem.more w"
    "mem_ok (put_metric self m w) = mem_ok w" "map_ok sm (put_metric self m w) = map_ok sm w"
    "lookup_map (put_metric self m w) sm = lookup_map w sm" "value_of (put_metric self m w) a = value_of w a"
  using map_ok_strs [of "put_metric self m w" w] lookup_strs [of "put_metric self m w" w]
  by (simp_all add: put_metric_def mem_ok_def value_of_def)

text \<open>
  \<open>S\<close> maps \<open>l_value\<close>s to different live samples of one type, which hold a copy of their
  \<open>l_value\<close> that is not one of the strings \<open>A\<close>.
\<close>

definition sample_slots :: "addr set \<Rightarrow> (string \<Rightarrow> addr option) \<Rightarrow> prom_metric_type \<Rightarrow> 'z hworld \<Rightarrow> bool" where
  "sample_slots A S t w \<longleftrightarrow> (\<forall>u a. S u = Some a \<longrightarrow> 0 < a \<and> a < brk w \<and>
       (\<exists>s. samples w a = Some s \<and> stype s = t \<and> strs w (l_value s) = Some u \<and> l_value s \<notin> A)) \<and>
     (\<forall>u v a. S u = Some a \<and> S v = Some a \<longrightarrow> u = v)"

lemma put_metric_slots [simp]: "sample_slots A S t (put_metric self m w) = sample_slots A S t w"
  by (simp add: sample_slots_def)

definition metric_wf :: "addr \<Rightarrow> 'z mworld \<Rightarrow> metric \<Rightarrow> string list \<Rightarrow> bool" where
  "metric_wf self w m ks \<longleftrightarrow> metrics w self = Some m \<and> \<not> mlock m \<and> mem_ok w \<and> oom w = [] \<and>
     map_ok (msamples m) w \<and> keys_ok (msamples m) \<and> idle (mformatter m) \<and> label_key_count m = length ks \<and>
     list_all2 (\<lambda>a k. strs w a = Some k \<and> a \<notin> owned (msamples m)) (label_keys m) ks \<and>
     sample_slots (owned (msamples m)) (lookup_map w (msamples m)) (mtype m) w"

definition metric_slot :: "'z mworld \<Rightarrow> metric \<Rightarrow> string list \<Rightarrow> string list \<Rightarrow> addr option" where
  "metric_slot w m ks vs = lookup_map w (msamples m) (l_text (mname m) None ks vs)"

lemma metric_l_value_ok:
  assumes wf: "metric_wf self w m ks" and fit: "fits (mname m) None ks vs"
  shows "\<exists>l f w1. metric_l_value m (map Some vs) w = Some (l, m\<lparr>mformatter := f\<rparr>, w1) \<and> l \<noteq> NULL \<and> idle f \<and>
    stores w [l \<mapsto> l_text (mname m) None ks vs] w1"
proof -
  have m: "mem_ok w" "oom w = []" "idle (mformatter m)" "label_key_count m = length ks"
    and "list_all2 (\<lambda>a k. strs w a = Some k) (label_keys m) ks"
    using wf by (auto simp: metric_wf_def elim: list_all2_mono)
  then have ks: "load_all (label_keys m) w = Some (map Some ks)" using load_all_ok by blast
  obtain f1 w0 l f w1 where 1: "pmf_load_l_value (Some (mformatter m)) (Some (mname m)) None (length ks)
      (map Some ks) (map Some vs) w = Some (0, Some f1, w0)" "pmf_dump (Some f1) w0 = Some (l, Some f, w1)"
      "idle f" "stores w [l \<mapsto> l_text (mname m) None ks vs] w1"
    using load_and_dump [OF m(3,1,2) fit] by blast
  then have "metric_l_value m (map Some vs) w = Some (l, m\<lparr>mformatter := f\<rparr>, w1)"
    using ks m(4) by (simp add: metric_l_value_def)
  then show ?thesis using 1(3,4) stores_nonnull [OF 1(4) m(1)] by blast
qed

text \<open>Freeing the rendered \<open>l_value\<close> leaves the strings as they were.\<close>

lemma stores_map:
  assumes s: "stores w M w'" and ok: "map_ok sm w" "mem_ok w"
  shows "map_ok sm w'" "lookup_map w' sm = lookup_map w sm"
proof -
  have "strs w' x = strs w x" if "x < brk w" for x
    using frame_stores [OF s, of "{}"] that by (simp add: frame_def)
  then have "same_on (owned sm) w w'" using owned_old [OF ok] by (simp add: same_on_def)
  then show "map_ok sm w'" "lookup_map w' sm = lookup_map w sm"
    using map_ok_cong [OF ok(1)] lookup_map_cong by blast+
qed

definition same_metric :: "metric \<Rightarrow> metric \<Rightarrow> bool" where
  "same_metric m m' \<longleftrightarrow> mtype m' = mtype m \<and> mname m' = mname m \<and> mhelp m' = mhelp m \<and> mbuckets m' = mbuckets m \<and>
     label_keys m' = label_keys m"

text \<open>The sample exists: only addresses are used up.\<close>

lemma from_labels_old:
  assumes wf: "metric_wf self w m ks" and fit: "fits (mname m) None ks vs"
    and hit: "metric_slot w m ks vs = Some a"
  shows "\<exists>f b. pms_from_labels self (map Some vs) w =
      Some (a, put_metric self (m\<lparr>mformatter := f\<rparr>) (w\<lparr>brk := b\<rparr>)) \<and> idle f \<and> brk w \<le> b"
proof -
  let ?t = "l_text (mname m) None ks vs"
  have m: "metrics w self = Some m" "\<not> mlock m" "mem_ok w" "oom w = []" "map_ok (msamples m) w"
      "sample_slots (owned (msamples m)) (lookup_map w (msamples m)) (mtype m) w"
    using wf by (simp_all add: metric_wf_def)
  obtain l f w1 where 1: "metric_l_value m (map Some vs) w = Some (l, m\<lparr>mformatter := f\<rparr>, w1)" "l \<noteq> NULL"
      "idle f" "stores w [l \<mapsto> ?t] w1"
    using metric_l_value_ok [OF wf fit] by blast
  have a: "lookup_map w (msamples m) ?t = Some a" "a \<noteq> NULL"
    using hit m(6) by (auto simp: metric_slot_def sample_slots_def)
  let ?w2 = "w1\<lparr>brk := Suc (Suc (brk w1))\<rparr>"
  have g: "prom_map_get run_metric (msamples m) (Some ?t) w1 = Some (a, ?w2)"
    using get_map_ok [OF stores_map(1) [OF 1(4) m(5,3)] storesD(1,2) [OF 1(4)]] stores_map(2) [OF 1(4) m(5,3)] a(1)
    by simp
  have l: "strs w1 l = Some ?t" "brk w \<le> l" using stores_strs [OF 1(4)] storesD(4) [OF 1(4), of l] by simp_all
  have "(strs w1)(l := None) = strs w"
    using stores_strs [OF 1(4)] mem_ok_fresh [OF m(3) l(2)] by (auto simp: fun_eq_iff)
  then have "?w2\<lparr>strs := (strs w1)(l := None)\<rparr> = w\<lparr>brk := Suc (Suc (brk w1))\<rparr>"
    using 1(4) by (cases w; cases w1) (simp add: stores_def)
  then have "free_str l ?w2 = Some (w\<lparr>brk := Suc (Suc (brk w1))\<rparr>)"
    using l(1) 1(2) by (simp add: free_str_def)
  then show ?thesis
    using m(1,2) 1(1,2,3) l(1) g a(2) storesD(3) [OF 1(4)]
    by (intro exI [of _ f] exI [of _ "Suc (Suc (brk w1))"])
      (simp add: pms_from_labels_def wrlock_def load_str_def)
qed

text \<open>The sample does not exist: a new one with value 0 is entered in the map.\<close>

lemma more_metrics:
  fixes w w' :: "'z mworld"
  assumes "mem.more w' = mem.more w"
  shows "samples w' = samples w" "phbs w' = phbs w" "hists w' = hists w"
    "default_buckets w' = default_buckets w" "metrics w' = metrics w" "mmem.more w' = mmem.more w"
  using assms by (cases w; cases w'; simp)+

lemma slot_sample: "sample_slots A S t w \<Longrightarrow> S u = Some a \<Longrightarrow> \<exists>s. samples w a = Some s \<and> stype s = t"
  unfolding sample_slots_def by blast

lemma sample_slots_extend:
  assumes S: "sample_slots A S t w" and kept: "\<forall>x < brk w. samples w' x = samples w x" and f: "frame A w A' w'" "mem_ok w"
    and a: "0 < brk w" "brk w \<le> a" "a < brk w'" "samples w' a = Some s"
    and t: "stype s = t" "strs w' (l_value s) = Some u" "l_value s \<notin> A'"
  shows "sample_slots A' (S(u \<mapsto> a)) t w'"
proof -
  have "b \<noteq> a" if "S v = Some b" for v b using S that a(2) by (fastforce simp: sample_slots_def)
  moreover have "0 < b \<and> b < brk w' \<and> (\<exists>s. samples w' b = Some s \<and> stype s = t \<and> strs w' (l_value s) = Some v \<and> l_value s \<notin> A')"
    if b: "S v = Some b" for v b
  proof -
    obtain s where s: "samples w b = Some s" "stype s = t" "strs w (l_value s) = Some v" "l_value s \<notin> A" "0 < b" "b < brk w"
      using S b by (auto simp: sample_slots_def)
    then have "strs w' (l_value s) = Some v" "l_value s \<notin> A'" using frame_keep [OF f s(3,4)] by simp_all
    then show ?thesis using s kept a by auto
  qed
  ultimately show ?thesis
    using S a t unfolding sample_slots_def by (auto split: if_splits)
qed

lemma from_labels_new:
  assumes wf: "metric_wf self w m ks" and fit: "fits (mname m) None ks vs"
    and miss: "metric_slot w m ks vs = None" and lim: "map_count (msamples m) < map_limit"
  obtains a m' w' where "pms_from_labels self (map Some vs) w = Some (a, put_metric self m' w')"
    "same_metric m m'" "metric_wf self (put_metric self m' w') m' ks" "brk w \<le> a" "a < brk w'"
    "lookup_map w' (msamples m') = (lookup_map w (msamples m))(l_text (mname m) None ks vs \<mapsto> a)"
    "value_of w' a = dzero" "\<forall>x < brk w. samples w' x = samples w x" "metrics w' = metrics w"
    "map_count (msamples m') = map_count (msamples m) + 1"
    "frame (owned (msamples m)) w (owned (msamples m')) w'" "mem_ok w'" "mmem.more w' = mmem.more w"
    "\<exists>s. samples w' a = Some s \<and> brk w \<le> l_value s"
proof -
  let ?t = "l_text (mname m) None ks vs" and ?sm = "msamples m"
  have m: "metrics w self = Some m" "\<not> mlock m" "mem_ok w" "oom w = []" "map_ok ?sm w"
      "sample_slots (owned ?sm) (lookup_map w ?sm) (mtype m) w" "label_key_count m = length ks" "keys_ok ?sm"
    using wf by (simp_all add: metric_wf_def)
  obtain l f w1 where 1: "metric_l_value m (map Some vs) w = Some (l, m\<lparr>mformatter := f\<rparr>, w1)" "l \<noteq> NULL"
      "idle f" "stores w [l \<mapsto> ?t] w1"
    using metric_l_value_ok [OF wf fit] by blast
  define w2 where "w2 = w1\<lparr>brk := Suc (Suc (brk w1))\<rparr>"
  have s2: "stores w [l \<mapsto> ?t] w2"
    using stores_trans [OF 1(4) stores_brk [OF storesD(1,2) [OF 1(4)], of "Suc (Suc (brk w1))"]] by (simp add: w2_def)
  have g: "prom_map_get run_metric ?sm (Some ?t) w1 = Some (NULL, w2)"
    using get_map_ok [OF stores_map(1) [OF 1(4) m(5,3)] storesD(1,2) [OF 1(4)]]
      stores_map(2) [OF 1(4) m(5,3)] miss by (simp add: metric_slot_def w2_def)
  have l: "strs w1 l = Some ?t" "brk w \<le> l" "l < brk w2"
    using stores_strs [OF 1(4)] storesD(4) [OF 1(4), of l] by (simp_all add: w2_def)
  define a where "a = brk w2"
  define w3 where "w3 = w2\<lparr>brk := Suc (Suc a), strs := (strs w2)(Suc a \<mapsto> ?t),
     samples := (samples w2)(a \<mapsto> \<lparr>stype = mtype m, l_value = Suc a, r_value = dzero\<rparr>)\<rparr>"
  note ok2 = storesD(1-3) [OF s2]
  have pn: "pms_new (mtype m) ?t dzero w2 = (a, w3)"
    using ok2 mem_ok_brk_pos [OF ok2(1)]
    by (simp add: pms_new_def malloc_ok strdup_ok mem_ok_brk w3_def a_def del: mem_ok_brk_pos)
  have ok3: "mem_ok w3" "oom w3 = []" using ok2 by (auto simp: w3_def a_def mem_ok_def)
  have keep3: "strs w3 x = strs w2 x" if "x < a" for x using that by (simp add: w3_def)
  have own2: "map_ok ?sm w2" "lookup_map w2 ?sm = lookup_map w ?sm" using stores_map [OF s2 m(5,3)] by auto
  have so3: "same_on (owned ?sm) w2 w3"
    using keep3 owned_old [OF own2(1) ok2(1)] by (simp add: same_on_def a_def)
  have own3: "map_ok ?sm w3" "lookup_map w3 ?sm = lookup_map w ?sm"
    using map_ok_cong [OF own2(1) so3] lookup_map_cong [OF so3] own2(2) by auto
  have none: "lookup_map w3 ?sm ?t = None" using own3(2) miss by (simp add: metric_slot_def)
  obtain sm' w4 where 4: "prom_map_set run_metric ?sm ?t a w3 = Some (0, sm', w4)" "map_ok sm' w4"
      "lookup_map w4 sm' = (lookup_map w3 ?sm)(?t \<mapsto> a)" "map_frame ?sm w3 sm' w4"
      "map_count sm' = map_count ?sm + 1" "mem.more w4 = mem.more w3" "keys_ok ?sm \<longrightarrow> keys_ok sm'"
    by (rule put_fresh [OF own3(1) ok3 lim none])
  note f4 = map_frameD [OF 4(4)] and x4 = more_metrics [OF 4(6)]
  have b3: "brk w3 = Suc (Suc a)" by (simp add: w3_def)
  have l_own: "l \<notin> owned ?sm" using owned_old [OF m(5,3), of l] l(2) by auto
  have l4: "strs w4 l = Some ?t"
    using f4(6) [of l] l l_own keep3 [of l] b3 by (simp add: a_def w2_def)
  have l_own4: "l \<notin> owned sm'" using f4(5) [of l] l_own l(3) b3 by (auto simp: a_def)
  define w5 where "w5 = w4\<lparr>strs := (strs w4)(l := None)\<rparr>"
  have fr: "free_str l w4 = Some w5" using l4 1(2) by (simp add: free_str_def w5_def)
  have so5: "same_on (owned sm') w4 w5" using l_own4 by (auto simp: same_on_def w5_def)
  have own5: "map_ok sm' w5" "lookup_map w5 sm' = (lookup_map w ?sm)(?t \<mapsto> a)"
    using map_ok_cong [OF 4(2) so5] lookup_map_cong [OF so5] 4(3) own3(2) by auto
  have ok5: "mem_ok w5" "oom w5 = []" using f4(1,2) by (auto simp: w5_def mem_ok_forget)
  let ?m' = "m\<lparr>mformatter := f, msamples := sm'\<rparr>"
  have e: "pms_from_labels self (map Some vs) w = Some (a, put_metric self ?m' w5)"
    using m(1,2) 1(1,2) l(1) g pn 4(1) fr ok2(1)
    by (simp add: pms_from_labels_def wrlock_def load_str_def w2_def)
  have mo: "mmem.more w5 = mmem.more w"
    using x4(6) more_metrics(6) [OF stores_more [OF s2]] by (simp add: w5_def w3_def)
  have kept: "samples w5 x = samples w x" if "x < brk w" for x
    using that ok2(3) x4(1) more_metrics(1) [OF stores_more [OF s2]] by (simp add: w5_def w3_def a_def)
  have a5: "samples w5 a = Some \<lparr>stype = mtype m, l_value = Suc a, r_value = dzero\<rparr>"
    using x4(1) by (simp add: w5_def w3_def)
  have ab: "brk w \<le> a" "a < brk w5" using ok2(3) f4(3) b3 by (simp_all add: a_def w5_def)
  have frm: "frame (owned ?sm) w (owned sm') w5"
  proof -
    have "strs w5 x = strs w x" if x: "x < brk w" "x \<notin> owned ?sm" for x
    proof -
      have "strs w4 x = strs w3 x" using f4(6) [of x] x ab(1) b3 by simp
      moreover have "strs w3 x = strs w2 x" using keep3 [of x] x ab(1) by simp
      moreover have "strs w2 x = strs w x" using stores_strs [OF s2] l(2) x by simp
      ultimately show ?thesis using x l(2) by (simp add: w5_def)
    qed
    then show ?thesis using f4(3,5) ab b3 by (fastforce simp: frame_def w5_def)
  qed
  have "strs w3 (Suc a) = Some ?t" "Suc a \<notin> owned ?sm" "Suc a \<noteq> l"
    using owned_old [OF m(5,3), of "Suc a"] ab(1) l(3) by (auto simp: w3_def a_def)
  then have "strs w5 (Suc a) = Some ?t" "Suc a \<notin> owned sm'"
    using f4(6) [of "Suc a"] f4(5) [of "Suc a"] b3 by (auto simp: w5_def)
  then have "sample_slots (owned sm') ((lookup_map w ?sm)(?t \<mapsto> a)) (mtype m) w5"
    by (intro sample_slots_extend [OF m(6) _ frm m(3) mem_ok_brk_pos [OF m(3)] ab a5]) (simp_all add: kept)
  moreover have "list_all2 (\<lambda>a k. strs w a = Some k \<and> a \<notin> owned ?sm) (label_keys m) ks"
    using wf by (simp add: metric_wf_def)
  then have "list_all2 (\<lambda>a k. strs w5 a = Some k \<and> a \<notin> owned sm') (label_keys m) ks"
  proof (rule list_all2_mono)
    fix x k assume "strs w x = Some k \<and> x \<notin> owned ?sm"
    then show "strs w5 x = Some k \<and> x \<notin> owned sm'" using frame_keep [OF frm m(3), of x k] by simp
  qed
  ultimately have "metric_wf self (put_metric self ?m' w5) ?m' ks"
    using m(2,7,8) ok5 own5 1(3) 4(7) by (simp add: metric_wf_def)
  moreover have "value_of w5 a = dzero" using a5 by (simp add: value_of_def)
  moreover have "metrics w5 = metrics w"
    using x4(5) more_metrics(5) [OF stores_more [OF s2]] by (simp add: w5_def w3_def)
  ultimately show thesis
    using e ab own5(2) kept 4(5) frm ok5(1) mo a5 by (intro that [OF e]) (auto simp: same_metric_def)
qed

section \<open>A metric as a map from label values to numbers\<close>

definition metric_reading :: "'z mworld \<Rightarrow> addr \<Rightarrow> string list \<Rightarrow> string list \<Rightarrow> double option" where
  "metric_reading w self ks vs = (case metrics w self of None \<Rightarrow> None
     | Some m \<Rightarrow> map_option (value_of w) (metric_slot w m ks vs))"

definition label_set :: "string list \<Rightarrow> string list \<Rightarrow> bool" where
  "label_set ks vs \<longleftrightarrow> length vs = length ks \<and> list_all unquoted vs"

lemma l_text_inj:
  assumes "label_set ks us" "label_set ks vs"
  shows "l_text name suffix ks us = l_text name suffix ks vs \<longleftrightarrow> us = vs"
  using l_value_text_inj [of us ks vs name suffix] assms by (auto simp: label_set_def list_all_iff)

text \<open>\<open>pms_from_labels\<close> as one step: the sample of the labels, with a value of 0 if it is new.\<close>

definition frame_metrics :: "addr \<Rightarrow> 'z mworld \<Rightarrow> 'z mworld \<Rightarrow> bool" where
  "frame_metrics self w w' \<longleftrightarrow> (\<forall>x. x \<noteq> self \<longrightarrow> metrics w' x = metrics w x)"

text \<open>
  What an update of the metric leaves alone: the other metrics, the strings its map does not
  own, the samples that are not its own, and what a larger state holds besides.
\<close>

definition slots_of :: "'z mem_scheme \<Rightarrow> metric \<Rightarrow> addr set" where
  "slots_of w m = ran (lookup_map w (msamples m))"

text \<open>The copies of their \<open>l_value\<close>s the samples hold.\<close>

definition texts_of :: "'z mworld \<Rightarrow> metric \<Rightarrow> addr set" where
  "texts_of w m = {l_value s |a s. a \<in> slots_of w m \<and> samples w a = Some s}"

definition metric_frame :: "addr \<Rightarrow> 'z mworld \<Rightarrow> metric \<Rightarrow> 'z mworld \<Rightarrow> metric \<Rightarrow> bool" where
  "metric_frame self w m w' m' \<longleftrightarrow> frame_metrics self w w' \<and> frame (owned (msamples m)) w (owned (msamples m')) w' \<and>
     (\<forall>x < brk w. x \<notin> slots_of w m \<longrightarrow> samples w' x = samples w x) \<and> slots_of w' m' \<subseteq> slots_of w m \<union> {brk w..} \<and>
     texts_of w' m' \<subseteq> texts_of w m \<union> {brk w..} \<and> mmem.more w' = mmem.more w"

lemma slots_of_strs: "strs w' = strs w \<Longrightarrow> slots_of w' m = slots_of w m"
  using lookup_strs [of w' w] by (simp add: slots_of_def)

text \<open>What the samples hold does not depend on their values.\<close>

lemma texts_of_cong:
  assumes "slots_of w' m' = slots_of w m" "\<And>a. a \<in> slots_of w m \<Longrightarrow> map_option l_value (samples w' a) = map_option l_value (samples w a)"
  shows "texts_of w' m' = texts_of w m"
proof -
  have "(\<exists>s. samples w' a = Some s \<and> l_value s = x) \<longleftrightarrow> (\<exists>s. samples w a = Some s \<and> l_value s = x)" if "a \<in> slots_of w m" for a x
    using assms(2) [OF that] by (cases "samples w a"; cases "samples w' a") auto
  then show ?thesis using assms(1) by (auto simp: texts_of_def) metis+
qed

text \<open>A new sample is counted.\<close>

definition one_more :: "bool \<Rightarrow> metric \<Rightarrow> metric \<Rightarrow> bool" where
  "one_more added m m' \<longleftrightarrow> map_count (msamples m') = map_count (msamples m) + (if added then 1 else 0)"

lemma from_labels_ok:
  assumes wf: "metric_wf self w m ks" and fit: "fits (mname m) None ks vs" and ls: "label_set ks vs"
    and lim: "map_count (msamples m) < map_limit"
  obtains a m' w' where "pms_from_labels self (map Some vs) w = Some (a, w')" "a \<noteq> NULL"
    "metric_wf self w' m' ks" "same_metric m m'" "metric_slot w' m' ks vs = Some a"
    "value_of w' a = (case metric_reading w self ks vs of None \<Rightarrow> dzero | Some x \<Rightarrow> x)"
    "\<forall>us. label_set ks us \<longrightarrow> us \<noteq> vs \<longrightarrow> metric_reading w' self ks us = metric_reading w self ks us"
    "metric_frame self w m w' m'" "one_more (metric_reading w self ks vs = None) m m'"
proof (cases "metric_slot w m ks vs")
  case (Some a)
  obtain f b where 1: "pms_from_labels self (map Some vs) w =
      Some (a, put_metric self (m\<lparr>mformatter := f\<rparr>) (w\<lparr>brk := b\<rparr>))" "idle f" "brk w \<le> b"
    using from_labels_old [OF wf fit Some] by blast
  let ?m = "m\<lparr>mformatter := f\<rparr>" and ?w = "w\<lparr>brk := b\<rparr>"
  have m: "metrics w self = Some m" "mem_ok w" "map_ok (msamples m) w"
      "sample_slots (owned (msamples m)) (lookup_map w (msamples m)) (mtype m) w"
    using wf by (simp_all add: metric_wf_def)
  have strs: "map_ok (msamples m) ?w" "lookup_map ?w (msamples m) = lookup_map w (msamples m)"
    using map_ok_strs [of ?w w] lookup_strs [of ?w w] m(3) by simp_all
  have "sample_slots (owned (msamples m)) (lookup_map w (msamples m)) (mtype m) ?w"
    using m(4) 1(3) by (fastforce simp: sample_slots_def)
  then have "metric_wf self (put_metric self ?m ?w) ?m ks"
    using wf 1(2,3) strs by (simp add: metric_wf_def mem_ok_brk)
  moreover have val: "value_of (put_metric self ?m ?w) = value_of w" by (simp add: value_of_def fun_eq_iff)
  moreover have "metric_reading (put_metric self ?m ?w) self ks us = metric_reading w self ks us" for us
    using strs(2) m(1) val by (simp add: metric_reading_def metric_slot_def)
  moreover have "a \<noteq> NULL" using Some m(4) by (auto simp: metric_slot_def sample_slots_def)
  moreover have "metric_slot (put_metric self ?m ?w) ?m ks vs = Some a"
    using Some strs(2) by (simp add: metric_slot_def)
  moreover have "slots_of (put_metric self ?m ?w) ?m = slots_of w m" using strs(2) by (simp add: slots_of_def)
  then have "texts_of (put_metric self ?m ?w) ?m = texts_of w m" by (rule texts_of_cong) simp
  ultimately show thesis
    using 1(1,3) Some m(1)
    by (intro that [OF 1(1), of ?m]) (auto simp: same_metric_def metric_reading_def metric_frame_def
        frame_metrics_def frame_def slots_of_def one_more_def strs(2))
next
  case None
  obtain a m' w' where 1: "pms_from_labels self (map Some vs) w = Some (a, put_metric self m' w')"
    "same_metric m m'" "metric_wf self (put_metric self m' w') m' ks" "brk w \<le> a" "a < brk w'"
    "lookup_map w' (msamples m') = (lookup_map w (msamples m))(l_text (mname m) None ks vs \<mapsto> a)"
    "value_of w' a = dzero" "\<forall>x < brk w. samples w' x = samples w x" "metrics w' = metrics w"
    "map_count (msamples m') = map_count (msamples m) + 1"
    "frame (owned (msamples m)) w (owned (msamples m')) w'" "mem_ok w'" "mmem.more w' = mmem.more w"
    "\<exists>s. samples w' a = Some s \<and> brk w \<le> l_value s"
    by (rule from_labels_new [OF wf fit None lim])
  have m: "metrics w self = Some m" "mem_ok w"
      "sample_slots (owned (msamples m)) (lookup_map w (msamples m)) (mtype m) w"
    using wf by (simp_all add: metric_wf_def)
  have nm: "mname m' = mname m" using 1(2) by (simp add: same_metric_def)
  have "metric_reading (put_metric self m' w') self ks us = metric_reading w self ks us"
    if us: "label_set ks us" "us \<noteq> vs" for us
  proof -
    have "metric_slot (put_metric self m' w') m' ks us = metric_slot w m ks us"
      using l_text_inj [OF us(1) ls, of "mname m" None] us(2) nm 1(6) by (simp add: metric_slot_def)
    moreover have "value_of w' b = value_of w b" if "metric_slot w m ks us = Some b" for b
      using that m(3) 1(8) by (auto simp: metric_slot_def sample_slots_def value_of_def)
    ultimately show ?thesis
      using m(1) by (cases "metric_slot w m ks us") (simp_all add: metric_reading_def)
  qed
  moreover have nz: "a \<noteq> NULL" using 1(4) mem_ok_brk_pos [OF m(2)] by simp
  have tx: "texts_of (put_metric self m' w') m' \<subseteq> texts_of w m \<union> {brk w..}"
  proof
    fix x assume "x \<in> texts_of (put_metric self m' w') m'"
    then obtain b s where b: "x = l_value s" "b \<in> slots_of w m \<or> b = a" "samples w' b = Some s"
      using 1(6) by (auto simp: texts_of_def slots_of_def ran_def split: if_splits)
    show "x \<in> texts_of w m \<union> {brk w..}"
    proof (cases "b = a")
      case True
      then show ?thesis using b 1(14) by auto
    next
      case False
      then have "b \<in> slots_of w m" "b < brk w" using b(2) m(3) by (auto simp: slots_of_def ran_def sample_slots_def)
      then show ?thesis using b(1,3) 1(8) by (auto simp: texts_of_def)
    qed
  qed
  have fr: "metric_frame self w m (put_metric self m' w') m'"
    using 1(4,6,8,9,11,13) tx by (auto simp: metric_frame_def frame_metrics_def frame_def slots_of_def ran_def)
  have om: "one_more (metric_reading w self ks vs = None) m m'"
    using 1(10) None m(1) by (simp add: one_more_def metric_reading_def)
  ultimately show thesis
    using 1(1-3,6,7) None m(1) nm fr om nz
    by (intro that [OF 1(1), of m']) (auto simp: metric_slot_def metric_reading_def)
qed

section \<open>The operations on one sample\<close>

text \<open>
  What an operation on the sample of a label set has to do: change its value by \<open>g\<close> and
  return \<open>e\<close>. Every counter and gauge routine is \<open>on_sample\<close> of such an operation.
\<close>

locale sample_op =
  fixes f :: "addr \<Rightarrow> 'z mworld \<Rightarrow> (int \<times> 'z mworld) option"
    and g :: "double \<Rightarrow> double" and e :: int and t :: prom_metric_type
  assumes step: "samples w a = Some s \<Longrightarrow> stype s = t \<Longrightarrow>
    f a w = Some (e, w\<lparr>samples := (samples w)(a \<mapsto> s\<lparr>r_value := g (r_value s)\<rparr>)\<rparr>)"

text \<open>The abstract state of a metric: a number for some label sets.\<close>

definition reads_as :: "'z mworld \<Rightarrow> addr \<Rightarrow> string list \<Rightarrow> (string list \<Rightarrow> double option) \<Rightarrow> bool" where
  "reads_as w self ks F \<longleftrightarrow> (\<forall>us. label_set ks us \<longrightarrow> metric_reading w self ks us = F us)"

definition current :: "(string list \<Rightarrow> double option) \<Rightarrow> string list \<Rightarrow> double" where
  "current F vs = (case F vs of None \<Rightarrow> dzero | Some x \<Rightarrow> x)"

definition metric_room :: "metric \<Rightarrow> string list \<Rightarrow> string list \<Rightarrow> bool" where
  "metric_room m ks vs \<longleftrightarrow> fits (mname m) None ks vs \<and> label_set ks vs \<and> map_count (msamples m) < map_limit"

text \<open>The outcome of a routine: code \<open>e\<close>, and the reading of \<open>vs\<close> has become \<open>x\<close>.\<close>

definition updated :: "(int \<times> 'z mworld) option \<Rightarrow> int \<Rightarrow> addr \<Rightarrow> 'z mworld \<Rightarrow> metric \<Rightarrow> string list
    \<Rightarrow> (string list \<Rightarrow> double option) \<Rightarrow> string list \<Rightarrow> double \<Rightarrow> bool" where
  "updated res e self w m ks F vs x \<longleftrightarrow> (\<exists>w' m'. res = Some (e, w') \<and> metric_wf self w' m' ks \<and>
     same_metric m m' \<and> reads_as w' self ks (F(vs \<mapsto> x)) \<and> metric_frame self w m w' m' \<and> one_more (F vs = None) m m')"

lemma set_sample_wf:
  assumes wf: "metric_wf self w m ks" and slot: "metric_slot w m ks vs = Some a" and ls: "label_set ks vs"
  shows "metric_wf self (w\<lparr>samples := (samples w)(a \<mapsto> (the (samples w a))\<lparr>r_value := x\<rparr>)\<rparr>) m ks"
    and "reads_as w self ks F \<Longrightarrow>
      reads_as (w\<lparr>samples := (samples w)(a \<mapsto> (the (samples w a))\<lparr>r_value := x\<rparr>)\<rparr>) self ks (F(vs \<mapsto> x))"
proof -
  let ?w = "w\<lparr>samples := (samples w)(a \<mapsto> (the (samples w a))\<lparr>r_value := x\<rparr>)\<rparr>"
  have m: "metrics w self = Some m" "map_ok (msamples m) w" "mem_ok w"
      "sample_slots (owned (msamples m)) (lookup_map w (msamples m)) (mtype m) w"
    using wf by (simp_all add: metric_wf_def)
  have strs: "map_ok (msamples m) ?w" "lookup_map ?w (msamples m) = lookup_map w (msamples m)"
    using map_ok_strs [of ?w w] lookup_strs [of ?w w] m(2) by simp_all
  have t: "lookup_map w (msamples m) (l_text (mname m) None ks vs) = Some a"
    using slot by (simp add: metric_slot_def)
  then obtain s where s: "samples w a = Some s" "stype s = mtype m"
    using slot_sample [OF m(4)] by blast
  have "sample_slots (owned (msamples m)) (lookup_map w (msamples m)) (mtype m) ?w"
    using m(4) s unfolding sample_slots_def
    by (simp, metis option.inject pms.select_convs(1,2) pms.surjective pms.update_convs(3))
  then show "metric_wf self ?w m ks"
    using wf strs by (simp add: metric_wf_def mem_ok_def)
  have other: "b \<noteq> a" if "metric_slot w m ks us = Some b" "label_set ks us" "us \<noteq> vs" for us b
  proof
    assume "b = a"
    then have "l_text (mname m) None ks us = l_text (mname m) None ks vs"
      using that(1) t m(4) by (auto simp: metric_slot_def sample_slots_def)
    then show False using l_text_inj [OF that(2) ls] that(3) by simp
  qed
  assume F: "reads_as w self ks F"
  have "metric_reading ?w self ks us = (F(vs \<mapsto> x)) us" if us: "label_set ks us" for us
  proof (cases "us = vs")
    case True
    then show ?thesis
      using m(1) strs(2) t s(1) by (simp add: metric_reading_def metric_slot_def value_of_def)
  next
    case False
    have "metric_slot ?w m ks us = metric_slot w m ks us" using strs(2) by (simp add: metric_slot_def)
    moreover have "value_of ?w b = value_of w b" if "metric_slot w m ks us = Some b" for b
      using other [OF that us False] by (simp add: value_of_def)
    ultimately have "metric_reading ?w self ks us = metric_reading w self ks us"
      using m(1) by (cases "metric_slot w m ks us") (simp_all add: metric_reading_def)
    then show ?thesis using F us False by (simp add: reads_as_def)
  qed
  then show "reads_as ?w self ks (F(vs \<mapsto> x))" by (simp add: reads_as_def)
qed

context sample_op
begin

lemma refines:
  assumes wf: "metric_wf self w m ks" and ty: "mtype m = t" and nz: "self \<noteq> NULL"
    and room: "metric_room m ks vs" and F: "reads_as w self ks F"
  shows "updated (on_sample t f self (map Some vs) w) e self w m ks F vs (g (current F vs))"
proof -
  have fit: "fits (mname m) None ks vs" and ls: "label_set ks vs" and lim: "map_count (msamples m) < map_limit"
    using room by (simp_all add: metric_room_def)
  obtain a m' w1 where 1: "pms_from_labels self (map Some vs) w = Some (a, w1)" "a \<noteq> NULL"
    "metric_wf self w1 m' ks" "same_metric m m'" "metric_slot w1 m' ks vs = Some a"
    "value_of w1 a = (case metric_reading w self ks vs of None \<Rightarrow> dzero | Some x \<Rightarrow> x)"
    "\<forall>us. label_set ks us \<longrightarrow> us \<noteq> vs \<longrightarrow> metric_reading w1 self ks us = metric_reading w self ks us"
    "metric_frame self w m w1 m'" "one_more (metric_reading w self ks vs = None) m m'"
    by (rule from_labels_ok [OF wf fit ls lim])
  obtain s where s: "samples w1 a = Some s" "stype s = t"
    using slot_sample [of _ _ "mtype m'" w1] 1(3,4,5) ty unfolding metric_wf_def metric_slot_def same_metric_def by metis
  have cur: "r_value s = current F vs"
    using 1(6) F ls s(1) by (simp add: value_of_def reads_as_def current_def)
  let ?w = "w1\<lparr>samples := (samples w1)(a \<mapsto> s\<lparr>r_value := g (r_value s)\<rparr>)\<rparr>"
  have m: "metrics w self = Some m" "metrics w1 self = Some m'" using wf 1(3) by (simp_all add: metric_wf_def)
  have "on_sample t f self (map Some vs) w = Some (e, ?w)"
    using nz m(1) ty 1(1,2) step [OF s] by (simp add: on_sample_def)
  moreover have "reads_as w1 self ks (F(vs \<mapsto> r_value s))"
    using 1(7) F s(1) 1(5) m(2) by (auto simp: reads_as_def metric_reading_def value_of_def)
  from set_sample_wf(2) [OF 1(3,5) ls this, of "g (r_value s)"]
  have "reads_as ?w self ks (F(vs \<mapsto> g (r_value s)))"
    using s(1) by simp
  moreover have "metric_wf self ?w m' ks"
    using set_sample_wf(1) [OF 1(3,5) ls] s(1) by simp
  moreover have "metric_frame self w m ?w m'"
  proof -
    have "a \<in> slots_of w1 m'" using 1(5) by (auto simp: slots_of_def metric_slot_def ran_def)
    then have "a \<in> slots_of w m \<or> brk w \<le> a" using 1(8) by (auto simp: metric_frame_def)
    moreover have "slots_of ?w m' = slots_of w1 m'" by (rule slots_of_strs) simp
    moreover from this have "texts_of ?w m' = texts_of w1 m'" by (rule texts_of_cong) (simp add: s(1))
    ultimately show ?thesis using 1(8) by (auto simp: metric_frame_def frame_metrics_def frame_def)
  qed
  moreover have "one_more (F vs = None) m m'" using 1(9) F ls by (simp add: reads_as_def)
  ultimately show ?thesis using 1(4) cur unfolding updated_def by auto
qed

end

text \<open>The operations of the samples satisfy the contract.\<close>

interpretation counter_inc: sample_op "\<lambda>s w. pms_add s d_one w" "\<lambda>x. dadd x d_one" 0 PROM_COUNTER
  by unfold_locales (simp add: pms_add_def)

interpretation counter_add: sample_op "\<lambda>s w. pms_add s r w" "\<lambda>x. if dlt r dzero then x else dadd x r"
    "if dlt r dzero then 1 else 0" PROM_COUNTER for r :: double
  by unfold_locales (auto simp: pms_add_def fun_upd_idem)

interpretation counter_reset: sample_op "\<lambda>s w. pms_set False s r w" "\<lambda>x. if dlt r dzero then x else r"
    "if dlt r dzero then 1 else 0" PROM_COUNTER for r :: double
  by unfold_locales (auto simp: pms_set_def fun_upd_idem)

text \<open>Whether warnings are printed does not matter when the amount is not negative.\<close>

lemma counter_set_op: "\<not> dlt v dzero \<Longrightarrow> sample_op (\<lambda>s w. pms_set warn s v w) (\<lambda>_. v) 0 PROM_COUNTER"
  by unfold_locales (simp add: pms_set_def)

interpretation gauge_inc: sample_op "\<lambda>s w. pms_add s d_one w" "\<lambda>x. dadd x d_one" 0 PROM_GAUGE
  by unfold_locales (simp add: pms_add_def)

interpretation gauge_dec: sample_op "\<lambda>s w. pms_sub warn s d_one w" "\<lambda>x. dsub x d_one" 0 PROM_GAUGE for warn :: bool
  by unfold_locales (simp add: pms_sub_def)

interpretation gauge_add: sample_op "\<lambda>s w. pms_add s r w" "\<lambda>x. if dlt r dzero then x else dadd x r"
    "if dlt r dzero then 1 else 0" PROM_GAUGE for r :: double
  by unfold_locales (auto simp: pms_add_def fun_upd_idem)

interpretation gauge_sub: sample_op "\<lambda>s w. pms_sub warn s r w" "\<lambda>x. dsub x r" 0 PROM_GAUGE
  for warn :: bool and r :: double
  by unfold_locales (simp add: pms_sub_def)

interpretation gauge_set: sample_op "\<lambda>s w. pms_set warn s r w" "\<lambda>x. r" 0 PROM_GAUGE
  for warn :: bool and r :: double
  by unfold_locales (simp add: pms_set_def)

section \<open>A new metric\<close>

definition reserved :: "string \<Rightarrow> bool" where
  "reserved k \<longleftrightarrow> k = ''le'' \<or> k = ''quantile''"

lemma copy_label_keys_ok:
  assumes "list_all (\<lambda>k. \<not> reserved k) ks" "mem_ok w" "oom w = []"
  shows "\<exists>as M w'. copy_label_keys (length ks) (map Some ks) w = Some (Some as, w') \<and> stores w M w' \<and>
    list_all2 (\<lambda>a k. strs w' a = Some k) as ks \<and> set as \<inter> {..<brk w} = {}"
  using assms
proof (induction ks arbitrary: w)
  case Nil
  then show ?case using stores_brk [of w "brk w"] by auto
next
  case (Cons k ks)
  let ?w1 = "w\<lparr>brk := Suc (brk w), strs := (strs w)(brk w \<mapsto> k)\<rparr>"
  have 1: "strdup k w = (brk w, ?w1)" "stores w [brk w \<mapsto> k] ?w1"
    using stores_strdup [OF Cons.prems(2,3), of k] by auto
  obtain as M w' where 2: "copy_label_keys (length ks) (map Some ks) ?w1 = Some (Some as, w')"
      "stores ?w1 M w'" "list_all2 (\<lambda>a k. strs w' a = Some k) as ks" "set as \<inter> {..<Suc (brk w)} = {}"
    using Cons.IH [OF _ storesD(1,2) [OF 1(2)]] Cons.prems(1) by auto
  have "frame {} ?w1 {} w'" using frame_stores [OF 2(2)] .
  then have "strs w' (brk w) = Some k" by (simp add: frame_def)
  moreover have "k \<noteq> ''le''" "k \<noteq> ''quantile''" using Cons.prems(1) by (auto simp: reserved_def)
  ultimately show ?case
    using 1(1) 2 stores_trans [OF 1(2) 2(2)]
    by (intro exI [of _ "brk w # as"] exI [of _ "[brk w \<mapsto> k] ++ M"] exI [of _ w']) auto
qed

definition free_fn_for :: "prom_metric_type \<Rightarrow> free_fn" where
  "free_fn_for t = (if t = PROM_HISTOGRAM then Sample_Histogram_Free else Sample_Free)"

lemma metric_new_ok:
  assumes "list_all (\<lambda>k. \<not> reserved k) ks" and m: "mem_ok w" "oom w = []"
  obtains m self w' where "prom_metric_new t name help (length ks) (map Some ks) w = Some (self, put_metric self m w')"
    "self \<noteq> NULL" "metric_wf self (put_metric self m w') m ks" "mtype m = t" "mname m = name" "mhelp m = help"
    "mbuckets m = NULL" "lookup_map w' (msamples m) = Map.empty" "map_count (msamples m) = 0"
    "free_value_fn (msamples m) = free_fn_for t" "self = brk w" "\<exists>M. stores w M w'" "owned (msamples m) = {}"
    "set (label_keys m) \<inter> {..<brk w} = {}" "brk w < brk w'"
proof -
  let ?w1 = "w\<lparr>brk := Suc (Suc (brk w))\<rparr>"
  have s1: "stores w Map.empty ?w1" using m by (intro stores_brk) simp_all
  obtain as M w2 where 2: "copy_label_keys (length ks) (map Some ks) ?w1 = Some (Some as, w2)"
      "stores ?w1 M w2" "list_all2 (\<lambda>a k. strs w2 a = Some k) as ks" "set as \<inter> {..<brk ?w1} = {}"
    using copy_label_keys_ok [OF assms(1) storesD(1,2) [OF s1]] by blast
  obtain sm where sm: "prom_map_new w2 = Some (Some sm, w2\<lparr>brk := brk w2 + 36\<rparr>)"
      "map_ok sm (w2\<lparr>brk := brk w2 + 36\<rparr>)" "lookup_map (w2\<lparr>brk := brk w2 + 36\<rparr>) sm = Map.empty"
      "map_count sm = 0" "owned sm = {}" "keys_ok sm"
    using new_map_ok [OF storesD(1,2) [OF 2(2)]] by blast
  let ?w3 = "w2\<lparr>brk := brk w2 + 36\<rparr>"
  have s3: "stores ?w1 M ?w3"
    using stores_trans [OF 2(2) stores_brk [OF storesD(1,2) [OF 2(2)], of "brk w2 + 36"]] by simp
  obtain f b where f: "pmf_new ?w3 = (Some f, ?w3\<lparr>brk := b\<rparr>)" "brk ?w3 \<le> b" "idle f"
    using pmf_new_ok [OF storesD(1,2) [OF s3]] by blast
  define w4 where "w4 = w2\<lparr>brk := Suc b\<rparr>"
  have s4: "stores w M w4"
    using stores_trans [OF s1 stores_trans [OF 2(2) stores_brk [OF storesD(1,2) [OF 2(2)], of "Suc b"]]] f(2)
    by (simp add: w4_def)
  have new: "brk w < brk w4" using f(2) storesD(3) [OF s3] by (simp add: w4_def)
  have nz: "(brk w = NULL) = False" "(b = NULL) = False" using mem_ok_brk_pos [OF m(1)] f(2) by auto
  let ?m = "\<lparr>mtype = t, mname = name, mhelp = help, msamples = sm\<lparr>free_value_fn := free_fn_for t\<rparr>,
     mbuckets = NULL, label_key_count = length ks, mformatter = f, mlock = False, label_keys = as\<rparr>"
  have w4: "strs w4 = strs w2" "map_ok sm w4" "lookup_map w4 sm = Map.empty"
    using sm(2,3) map_ok_strs [of w4 ?w3] lookup_strs [of w4 ?w3] by (simp_all add: w4_def)
  have old: "set as \<inter> {..<brk w} = {}" using 2(4) by auto
  have "oom w2 = []" using storesD(2) [OF 2(2)] .
  then have e: "prom_metric_new t name help (length ks) (map Some ks) w = Some (brk w, put_metric (brk w) ?m w4)"
    using m(2) nz 2(1) sm(1) f(1)
    by (simp add: prom_metric_new_def malloc_ok prom_map_set_free_value_fn_def free_fn_for_def put_metric_def w4_def)
  moreover have "metric_wf (brk w) (put_metric (brk w) ?m w4) ?m ks"
    using storesD(1,2) [OF s4] 2(3) w4 f(3) sm(5,6) by (simp add: metric_wf_def sample_slots_def)
  ultimately show thesis
    using nz(1) w4(3) sm(4,5) s4 old new by (intro that [OF e]) auto
qed

text \<open>Well formedness is kept by what \<open>fresh_metric\<close> worlds need for the witnesses.\<close>

lemma reads_nothing:
  assumes "metric_wf self w m ks" "lookup_map w (msamples m) = Map.empty"
  shows "reads_as w self ks Map.empty"
  using assms by (simp add: reads_as_def metric_reading_def metric_slot_def metric_wf_def)

section \<open>Destruction\<close>

lemma destroy_nodes_keeps:
  assumes run: "\<And>fv v w w'. run fv v w = Some w' \<Longrightarrow> P w \<Longrightarrow> P w'"
    and str: "\<And>a w w'. free_str a w = Some w' \<Longrightarrow> P w \<Longrightarrow> P w'"
  shows "destroy_nodes run ns w = Some w' \<Longrightarrow> P w \<Longrightarrow> P w'"
proof (induction ns arbitrary: w)
  case (Cons n ns)
  then show ?case
    by (auto simp: prom_map_node_destroy_def bind_Some_iff split: if_splits dest: run str)
qed simp

lemma map_destroy_keeps:
  assumes run: "\<And>fv v w w'. run fv v w = Some w' \<Longrightarrow> P w \<Longrightarrow> P w'"
    and str: "\<And>a w w'. free_str a w = Some w' \<Longrightarrow> P w \<Longrightarrow> P w'"
    and d: "prom_map_destroy run self w = Some (r, w')" and p: "P w"
  shows "P w'"
proof -
  have "destroy_buckets run bs w = Some w' \<Longrightarrow> P w \<Longrightarrow> P w'" for bs w
  proof (induction bs arbitrary: w)
    case (Cons b bs)
    then show ?case using destroy_nodes_keeps [where run = run and P = P, OF run str]
      by (auto simp: bind_Some_iff)
  qed simp
  then show ?thesis using d p by (auto simp: prom_map_destroy_def bind_Some_iff split: option.splits)
qed

definition keeps :: "(addr \<Rightarrow> phb option) \<Rightarrow> (addr \<Rightarrow> metric option) \<Rightarrow> 'z mworld \<Rightarrow> bool" where
  "keeps B M w \<longleftrightarrow> phbs w = B \<and> metrics w = M"

lemma free_str_keeps: "free_str a w = Some w' \<Longrightarrow> keeps B M w \<Longrightarrow> keeps B M w'"
  by (auto simp: free_str_def keeps_def split: if_splits option.splits)

lemma free_items_keeps: "free_items as w = Some w' \<Longrightarrow> keeps B M w \<Longrightarrow> keeps B M w'"
  by (induction as arbitrary: w) (auto simp: bind_Some_iff split: if_splits dest: free_str_keeps)

lemma pms_free_keeps: "pms_free_generic v w = Some w' \<Longrightarrow> keeps B M w \<Longrightarrow> keeps B M w'"
  by (auto simp: pms_free_generic_def pms_destroy_def bind_Some_iff keeps_def free_str_def
      split: if_splits option.splits)

lemma run_sample_keeps: "run_sample fv v w = Some w' \<Longrightarrow> keeps B M w \<Longrightarrow> keeps B M w'"
  by (cases fv) (auto simp: free_str_generic_def dest: free_str_keeps pms_free_keeps)

lemma sample_map_keeps:
  assumes "prom_map_destroy run_sample sm w = Some (r, w')" "keeps B M w"
  shows "keeps B M w'"
  using run_sample_keeps free_str_keeps assms by (rule map_destroy_keeps)

lemma histogram_free_keeps:
  assumes "pms_histogram_free_generic v w = Some w'" "keeps B M w"
  shows "keeps B M w'"
proof (cases "v = NULL")
  case True
  then show ?thesis using assms by (simp add: pms_histogram_free_generic_def pms_histogram_destroy_def)
next
  case False
  then obtain h w1 where h: "destroy_parts h w = Some w1" "w' = w1\<lparr>hists := (hists w1)(v := None)\<rparr>"
    using assms(1) by (auto simp: pms_histogram_free_generic_def pms_histogram_destroy_def bind_Some_iff)
  have "keeps B M w1"
    using h(1) assms(2) by (auto simp: destroy_parts_def bind_Some_iff dest!: free_items_keeps sample_map_keeps)
  then show ?thesis using h(2) by (simp add: keeps_def)
qed

lemma run_metric_keeps: "run_metric fv v w = Some w' \<Longrightarrow> keeps B M w \<Longrightarrow> keeps B M w'"
  by (cases fv) (auto simp: free_str_generic_def dest: free_str_keeps pms_free_keeps histogram_free_keeps)

lemma metric_map_keeps:
  assumes "prom_map_destroy run_metric sm w = Some (r, w')" "keeps B M w"
  shows "keeps B M w'"
  using run_metric_keeps free_str_keeps assms by (rule map_destroy_keeps)

lemma free_strs_keeps: "free_strs as w = Some w' \<Longrightarrow> keeps B M w \<Longrightarrow> keeps B M w'"
  by (induction as arbitrary: w) (auto simp: bind_Some_iff dest: free_str_keeps)

lemma metric_destroy_effect:
  assumes "prom_metric_destroy self w = Some (r, w')" "metrics w self = Some m" "self \<noteq> NULL"
  shows "phbs w' = (if mbuckets m = NULL then phbs w else (phbs w)(mbuckets m := None))"
    "metrics w' = (metrics w)(self := None)"
proof -
  let ?B = "if mbuckets m = NULL then phbs w else (phbs w)(mbuckets m := None)"
  obtain w1 r1 w2 r2 w3 where d: "phb_destroy (mbuckets m) w = Some (r1, w1)"
      "prom_map_destroy run_metric (Some (msamples m)) w1 = Some (r2, w2)" "free_items (label_keys m) w2 = Some w3"
      "w' = w3\<lparr>metrics := (metrics w3)(self := None)\<rparr>"
    using assms by (auto simp: prom_metric_destroy_def bind_Some_iff)
  have "keeps ?B (metrics w) w1"
    using d(1) free_strs_keeps [where w = w and B = "phbs w" and M = "metrics w"]
    by (auto simp: phb_destroy_def bind_Some_iff keeps_def split: if_splits)
  have "keeps ?B (metrics w) w3"
    using metric_map_keeps [OF d(2) \<open>keeps ?B (metrics w) w1\<close>] free_items_keeps [OF d(3)] by blast
  then show "phbs w' = ?B" "metrics w' = (metrics w)(self := None)" using d(4) by (simp_all add: keeps_def)
qed

section \<open>Properties\<close>

definition mworld0 :: mmem where
  "mworld0 = \<lparr>strs = Map.empty, brk = 1, oom = [], samples = Map.empty, phbs = Map.empty,
     default_buckets = NULL, hists = Map.empty, metrics = Map.empty\<rparr>"

lemma mworld0_ok: "mem_ok mworld0" "oom mworld0 = []"
  by (simp_all add: mworld0_def mem_ok_def)

text \<open>A world with one new metric of type \<open>t\<close>, named \<open>m\<close>, with the label \<open>a\<close>.\<close>

lemma new_metric_world:
  obtains self m and w :: mmem where "metric_wf self w m [''a'']" "mtype m = t" "self \<noteq> NULL"
    "metric_room m [''a''] [''x'']" "reads_as w self [''a''] Map.empty"
proof -
  have "list_all (\<lambda>k. \<not> reserved k) [''a'']" by (simp add: reserved_def)
  from metric_new_ok [OF this mworld0_ok, of t "''m''" None] obtain m self w where
    n: "self \<noteq> NULL" "metric_wf self (put_metric self m w) m [''a'']" "mtype m = t" "mname m = ''m''"
    "lookup_map (w :: mmem) (msamples m) = Map.empty" "map_count (msamples m) = 0"
    by metis
  have "metric_room m [''a''] [''x'']"
    using n(4,6) by (simp add: metric_room_def fits_def label_set_def unquoted_def quote_def head_text_def
        labels_text_def label_text_def opt_str_def psb_limit_def map_limit_def)
  then show thesis using n reads_nothing [OF n(2)] by (intro that [OF n(2,3,1)]) simp_all
qed

text \<open>C18. A new metric is well formed and shows no sample yet; every other metric is untouched.\<close>

theorem metric_new_wf:
  assumes "list_all (\<lambda>k. \<not> reserved k) ks" "mem_ok w" "oom w = []"
  shows "\<exists>self m w'. prom_metric_new t name help (length ks) (map Some ks) w = Some (self, w') \<and> self \<noteq> NULL \<and>
    metric_wf self w' m ks \<and> mtype m = t \<and> mname m = name \<and> mhelp m = help \<and> reads_as w' self ks Map.empty \<and>
    frame_metrics self w w'"
proof -
  obtain m self w' M where n: "prom_metric_new t name help (length ks) (map Some ks) w = Some (self, put_metric self m w')"
    "self \<noteq> NULL" "metric_wf self (put_metric self m w') m ks" "mtype m = t" "mname m = name" "mhelp m = help"
    "lookup_map w' (msamples m) = Map.empty" "stores w M w'"
    by (rule metric_new_ok [OF assms, of t name "help"]) blast
  have "metrics w' = metrics w" using more_metrics(5) [OF stores_more [OF n(8)]] .
  then have "frame_metrics self w (put_metric self m w')" by (simp add: frame_metrics_def)
  then show ?thesis using n reads_nothing [OF n(3)] by auto
qed

theorem metric_new_wf_witness:
  "\<exists>self m w'. prom_metric_new PROM_GAUGE ''g'' None 1 [Some ''a''] mworld0 = Some (self, w') \<and>
    metric_wf self w' m [''a''] \<and> reads_as w' self [''a''] Map.empty"
  using metric_new_wf [of "[''a'']" mworld0 PROM_GAUGE "''g''" None] mworld0_ok
  by (fastforce simp: reserved_def)

lemma counter_reset_warns:
  assumes "metric_wf self w m ks" "mtype m = PROM_COUNTER" "self \<noteq> NULL" "metric_room m ks vs" "dlt r dzero"
  shows "prom_counter_reset True self r (map Some vs) w = None"
proof -
  have room: "fits (mname m) None ks vs" "label_set ks vs" "map_count (msamples m) < map_limit"
    using assms(4) by (simp_all add: metric_room_def)
  obtain a m' w1 where 1: "pms_from_labels self (map Some vs) w = Some (a, w1)" "a \<noteq> NULL"
    "metric_wf self w1 m' ks" "same_metric m m'" "metric_slot w1 m' ks vs = Some a"
    by (rule from_labels_ok [OF assms(1) room])
  obtain s where "samples w1 a = Some s" "stype s = PROM_COUNTER"
    using slot_sample [of _ _ "mtype m'" w1] 1(3-5) assms(2) unfolding metric_wf_def metric_slot_def same_metric_def by metis
  then have "pms_set True a r w1 = None" using assms(5) by (simp add: pms_set_def)
  moreover have "metrics w self = Some m" using assms(1) by (simp add: metric_wf_def)
  ultimately show ?thesis
    using 1(1,2) assms(2,3) by (simp add: prom_counter_reset_def on_sample_def)
qed

text \<open>C16. A counter is a map from label values to numbers, for label values without a quotation
  mark: \<open>inc\<close>, \<open>add\<close> and \<open>reset\<close> change the number of their label values and no other, start
  at 0 for values not seen before, and refuse a negative amount, except that a reset to a negative
  amount is undefined where the library prints its warnings.\<close>

theorem counter_refines:
  assumes "metric_wf self w m ks" "mtype m = PROM_COUNTER" "self \<noteq> NULL" "metric_room m ks vs" "reads_as w self ks F"
  shows "updated (prom_counter_inc self (map Some vs) w) 0 self w m ks F vs (dadd (current F vs) d_one) \<and>
    updated (prom_counter_add self r (map Some vs) w) (if dlt r dzero then 1 else 0) self w m ks F vs
      (if dlt r dzero then current F vs else dadd (current F vs) r) \<and>
    (if warn \<and> dlt r dzero then prom_counter_reset warn self r (map Some vs) w = None
     else updated (prom_counter_reset warn self r (map Some vs) w) (if dlt r dzero then 1 else 0) self w m ks F vs
       (if dlt r dzero then current F vs else r))"
proof (intro conjI)
  show "updated (prom_counter_inc self (map Some vs) w) 0 self w m ks F vs (dadd (current F vs) d_one)"
    using counter_inc.refines [OF assms] by (simp add: prom_counter_inc_def)
  show "updated (prom_counter_add self r (map Some vs) w) (if dlt r dzero then 1 else 0) self w m ks F vs
      (if dlt r dzero then current F vs else dadd (current F vs) r)"
    using counter_add.refines [OF assms, of r] by (simp add: prom_counter_add_def)
  show "if warn \<and> dlt r dzero then prom_counter_reset warn self r (map Some vs) w = None
     else updated (prom_counter_reset warn self r (map Some vs) w) (if dlt r dzero then 1 else 0) self w m ks F vs
       (if dlt r dzero then current F vs else r)"
    using counter_reset.refines [OF assms, of r] counter_reset_warns [OF assms(1-4), of r]
      sample_op.refines [OF counter_set_op assms, of r warn]
    by (cases warn) (simp_all add: prom_counter_reset_def)
qed

theorem counter_refines_witness:
  "\<exists>self m ks vs. \<exists>w :: mmem. metric_wf self w m ks \<and> mtype m = PROM_COUNTER \<and>
    updated (prom_counter_inc self (map Some vs) w) 0 self w m ks Map.empty vs (dadd dzero d_one)"
proof -
  obtain self m and w :: mmem where n: "metric_wf self w m [''a'']" "mtype m = PROM_COUNTER" "self \<noteq> NULL"
      "metric_room m [''a''] [''x'']" "reads_as w self [''a''] Map.empty"
    by (rule new_metric_world)
  have "current Map.empty [''x''] = dzero" by (simp add: current_def)
  then show ?thesis using counter_refines [OF n, of dzero True] n(1,2) by metis
qed

text \<open>C17. A gauge is a map from label values to numbers, for label values without a quotation
  mark: its five operations change the number of their label values only, \<open>add\<close> refuses a negative amount, \<open>sub\<close> and \<open>set\<close> take any.\<close>

theorem gauge_refines:
  assumes "metric_wf self w m ks" "mtype m = PROM_GAUGE" "self \<noteq> NULL" "metric_room m ks vs" "reads_as w self ks F"
  shows "updated (prom_gauge_inc self (map Some vs) w) 0 self w m ks F vs (dadd (current F vs) d_one) \<and>
    updated (prom_gauge_dec warn self (map Some vs) w) 0 self w m ks F vs (dsub (current F vs) d_one) \<and>
    updated (prom_gauge_add self r (map Some vs) w) (if dlt r dzero then 1 else 0) self w m ks F vs
      (if dlt r dzero then current F vs else dadd (current F vs) r) \<and>
    updated (prom_gauge_sub warn self r (map Some vs) w) 0 self w m ks F vs (dsub (current F vs) r) \<and>
    updated (prom_gauge_set warn self r (map Some vs) w) 0 self w m ks F vs r"
  using gauge_inc.refines [OF assms] gauge_dec.refines [OF assms, of warn] gauge_add.refines [OF assms, of r]
    gauge_sub.refines [OF assms, of warn r] gauge_set.refines [OF assms, of warn r]
  by (simp add: prom_gauge_inc_def prom_gauge_dec_def prom_gauge_add_def prom_gauge_sub_def prom_gauge_set_def)

theorem gauge_refines_witness:
  "\<exists>self m ks vs. \<exists>w :: mmem. metric_wf self w m ks \<and> mtype m = PROM_GAUGE \<and>
    updated (prom_gauge_set True self d_one (map Some vs) w) 0 self w m ks Map.empty vs d_one"
proof -
  obtain self m and w :: mmem where n: "metric_wf self w m [''a'']" "mtype m = PROM_GAUGE" "self \<noteq> NULL"
      "metric_room m [''a''] [''x'']" "reads_as w self [''a''] Map.empty"
    by (rule new_metric_world)
  then show ?thesis using gauge_refines [OF n, of True d_one] by metis
qed

text \<open>An operation of another metric type is refused with code 1 and changes nothing.\<close>

theorem metric_type_guard:
  assumes "metrics w self = Some m"
  shows "(mtype m \<noteq> PROM_COUNTER \<longrightarrow> prom_counter_inc self vs w = Some (1, w) \<and>
      prom_counter_add self r vs w = Some (1, w) \<and> prom_counter_reset warn self r vs w = Some (1, w)) \<and>
    (mtype m \<noteq> PROM_GAUGE \<longrightarrow> prom_gauge_inc self vs w = Some (1, w) \<and> prom_gauge_dec warn self vs w = Some (1, w) \<and>
      prom_gauge_add self r vs w = Some (1, w) \<and> prom_gauge_sub warn self r vs w = Some (1, w) \<and>
      prom_gauge_set warn self r vs w = Some (1, w)) \<and>
    (mtype m \<noteq> PROM_HISTOGRAM \<longrightarrow> prom_histogram_observe self r vs w = Some (1, w))"
  using assms
  by (simp add: on_sample_def prom_counter_inc_def prom_counter_add_def prom_counter_reset_def prom_gauge_inc_def
      prom_gauge_dec_def prom_gauge_add_def prom_gauge_sub_def prom_gauge_set_def prom_histogram_observe_def)

theorem metric_type_guard_witness:
  "\<exists>self m. \<exists>w :: mmem. metrics w self = Some m \<and> mtype m = PROM_COUNTER \<and>
    prom_gauge_set True self d_one [] w = Some (1, w)"
proof -
  obtain self m and w :: mmem where n: "metric_wf self w m [''a'']" "mtype m = PROM_COUNTER" "self \<noteq> NULL"
      "metric_room m [''a''] [''x'']" "reads_as w self [''a''] Map.empty"
    by (rule new_metric_world)
  have "metrics w self = Some m" using n(1) by (simp add: metric_wf_def)
  then show ?thesis using metric_type_guard [of w self m "[]" d_one True] n(2) by auto
qed

lemma copy_label_keys_reserved:
  assumes "list_ex reserved ks" "mem_ok w" "oom w = []"
  shows "\<exists>w'. copy_label_keys (length ks) (map Some ks) w = Some (None, w')"
  using assms
proof (induction ks arbitrary: w)
  case (Cons k ks)
  show ?case
  proof (cases "reserved k")
    case True
    then show ?thesis by (auto simp: reserved_def)
  next
    case False
    let ?w1 = "w\<lparr>brk := Suc (brk w), strs := (strs w)(brk w \<mapsto> k)\<rparr>"
    have 1: "strdup k w = (brk w, ?w1)" "stores w [brk w \<mapsto> k] ?w1"
      using stores_strdup [OF Cons.prems(2,3), of k] by auto
    obtain w' where "copy_label_keys (length ks) (map Some ks) ?w1 = Some (None, w')"
      using Cons.IH [OF _ storesD(1,2) [OF 1(2)]] Cons.prems(1) False by auto
    then show ?thesis using 1(1) False by (simp add: reserved_def)
  qed
qed simp

text \<open>Asking for a metric with a label named \<open>le\<close> or \<open>quantile\<close> is not the error the code
  means to report: the jump to \<open>fail\<close> destroys fields that were never set.\<close>

theorem metric_reserved_label:
  assumes "list_ex reserved ks" "mem_ok w" "oom w = []"
  shows "prom_metric_new t name help (length ks) (map Some ks) w = None"
proof -
  let ?w = "w\<lparr>brk := Suc (Suc (brk w))\<rparr>"
  obtain w' where "copy_label_keys (length ks) (map Some ks) ?w = Some (None, w')"
    using copy_label_keys_reserved [OF assms(1), of ?w] assms(2,3) by (auto simp: mem_ok_brk)
  moreover have "(brk w = NULL) = False" using mem_ok_brk_pos [OF assms(2)] by simp
  ultimately show ?thesis using assms(3) by (simp add: prom_metric_new_def malloc_ok)
qed

theorem metric_reserved_label_witness:
  "prom_metric_new PROM_GAUGE ''g'' None 1 [Some ''le''] mworld0 = None"
  using metric_reserved_label [of "[''le'']" mworld0 PROM_GAUGE "''g''" None] mworld0_ok
  by (simp add: reserved_def)

text \<open>In a build with logging, resetting a counter to a negative value is undefined: the
  warning prints the \<open>double\<close> with \<open>%s\<close>.\<close>

theorem counter_reset_warning_undefined:
  assumes "metric_wf self w m ks" "mtype m = PROM_COUNTER" "self \<noteq> NULL" "metric_room m ks vs" "dlt r dzero"
  shows "prom_counter_reset True self r (map Some vs) w = None"
  using assms by (rule counter_reset_warns)

theorem counter_reset_warning_undefined_witness:
  "\<exists>self m. \<exists>w :: mmem. metrics w self = Some m \<and> mtype m = PROM_COUNTER \<and>
    prom_counter_reset True self (DInf True) [Some ''x''] w = None"
proof -
  obtain self m and w :: mmem where n: "metric_wf self w m [''a'']" "mtype m = PROM_COUNTER" "self \<noteq> NULL"
      "metric_room m [''a''] [''x'']" "reads_as w self [''a''] Map.empty"
    by (rule new_metric_world)
  have "dlt (DInf True) dzero" by (simp add: dzero_def)
  from counter_reset_warning_undefined [OF n(1-4) this] n(1,2) show ?thesis
    by (auto simp: metric_wf_def)
qed

text \<open>Two histograms with the same buckets (the default ones, say) cannot both be
  destroyed: destroying the first frees the buckets the second still refers to.\<close>

theorem shared_buckets_double_free:
  assumes "metrics w a = Some m1" "metrics w b = Some m2" "a \<noteq> b" "a \<noteq> NULL" "b \<noteq> NULL"
    and "mbuckets m1 = mbuckets m2" "mbuckets m1 \<noteq> NULL"
    and "prom_histogram_destroy a w = Some (r, w')"
  shows "prom_histogram_destroy b w' = None"
proof -
  have "prom_metric_destroy a w = Some (r, w')" using assms(4,8) by (simp add: prom_histogram_destroy_def)
  from metric_destroy_effect [OF this assms(1,4)]
  have "phbs w' (mbuckets m2) = None" "metrics w' b = Some m2" using assms(2,3,6,7) by simp_all
  then show ?thesis
    using assms(5-7) by (simp add: prom_histogram_destroy_def prom_metric_destroy_def phb_destroy_def)
qed

definition plain_histogram :: metric where
  "plain_histogram = \<lparr>mtype = PROM_HISTOGRAM, mname = ''h'', mhelp = None, msamples = map0, mbuckets = 5,
     label_key_count = 0, mformatter = fresh_pmf, mlock = False, label_keys = []\<rparr>"

definition two_histograms :: mmem where
  "two_histograms = mworld0\<lparr>brk := 9, phbs := [5 \<mapsto> \<lparr>bcount = 0, upper_bound = [], bkey = []\<rparr>],
     metrics := [1 \<mapsto> plain_histogram, 2 \<mapsto> plain_histogram]\<rparr>"

theorem shared_buckets_double_free_witness:
  "\<exists>r w'. prom_histogram_destroy 1 two_histograms = Some (r, w') \<and> prom_histogram_destroy 2 w' = None"
proof -
  have "destroy_buckets run_metric (replicate n (Some [])) w = Some w" for n and w :: mmem
    by (induction n) simp_all
  then have "\<exists>r w'. prom_histogram_destroy 1 two_histograms = Some (r, w')"
    by (simp add: prom_histogram_destroy_def prom_metric_destroy_def phb_destroy_def prom_map_destroy_def
        two_histograms_def plain_histogram_def map0_def)
  then obtain r w' where d: "prom_histogram_destroy 1 two_histograms = Some (r, w')" by blast
  have "prom_histogram_destroy 2 w' = None"
    by (rule shared_buckets_double_free [OF _ _ _ _ _ _ _ d, where ?m1.0 = plain_histogram and ?m2.0 = plain_histogram])
      (simp_all add: two_histograms_def plain_histogram_def)
  then show ?thesis using d by blast
qed

end
