(* ===== verification/Collector.thy ===== *)
theory Collector
  imports Metric
begin

text \<open>
  \<open>lib/prom/src/prom_collector.c\<close>: a collector owns a map from names to metrics and the
  function that brings them up to date. The functions stored in a collector are those of the
  library, named by the datatypes \<open>collect_fn\<close> and \<open>data_fn\<close>; the data of the process
  collector, which its \<open>free_data_fn\<close> releases, is declared here.
\<close>

section \<open>Data\<close>

datatype collect_fn = No_Collect_Fn | Prom_Collector_Metrics_Get | Ppc_Collect

datatype data_fn = No_Data_Fn | Ppc_Free_Data

record collector =
  cname :: addr
  cmetrics :: "pmap option"
  collect :: collect_fn
  cbuilder :: "psb option"
  cdata :: addr
  free_data :: data_fn

text \<open>\<open>struct ppc_data\<close> of \<open>prom_process_collector.c\<close>.\<close>

record ppc_data =
  label_vals :: "string option list"
  fds :: "int list"
  fd_dir :: addr
  pid :: int
  pm :: "addr list"

text \<open>With the static variables of \<open>fill_stats\<close> in \<open>prom_process_stat.c\<close>.\<close>

record cmem = mmem +
  collectors :: "addr \<Rightarrow> collector option"
  ppcs :: "addr \<Rightarrow> ppc_data option"
  page_sz :: int
  clk_tck :: u64
  last_starttime :: u64
  stat_timestamp :: u64

type_synonym 'z cworld = "'z cmem_scheme"

fun run_collector :: "'z cworld runner" where
  "run_collector Metric_Free v w = prom_metric_free_generic v w"
| "run_collector f v w = run_metric f v w"

definition put_collector :: "addr \<Rightarrow> collector \<Rightarrow> 'z cworld \<Rightarrow> 'z cworld" where
  "put_collector self c w = w\<lparr>collectors := (collectors w)(self \<mapsto> c)\<rparr>"

section \<open>Operations\<close>

definition prom_collector_metrics_get :: "addr \<Rightarrow> 'z cworld \<Rightarrow> (pmap option \<times> 'z cworld) option" where
  "prom_collector_metrics_get self w = do { c \<leftarrow> collectors w self; Some (cmetrics c, w) }"

definition prom_collector_data_set :: "addr \<Rightarrow> addr \<Rightarrow> data_fn \<Rightarrow> 'z cworld \<Rightarrow> (addr \<times> 'z cworld) option" where
  "prom_collector_data_set self data fn w = (if self = NULL then Some (NULL, w)
     else do {
       c \<leftarrow> collectors w self;
       Some (cdata c, put_collector self (c\<lparr>cdata := data, free_data := fn\<rparr>) w) })"

definition prom_collector_data_get :: "addr \<Rightarrow> 'z cworld \<Rightarrow> addr option" where
  "prom_collector_data_get self w = (if self = NULL then Some NULL else map_option cdata (collectors w self))"

text \<open>Closing the descriptors has no effect on the state modelled.\<close>

definition ppc_free_data :: "addr \<Rightarrow> 'z cworld \<Rightarrow> 'z cworld option" where
  "ppc_free_data self w = (if self = NULL then Some w
     else do {
       data \<leftarrow> prom_collector_data_get self w;
       if data = NULL then Some w else do {
       d \<leftarrow> ppcs w data;
       w \<leftarrow> free_str (fd_dir d) w;
       Some (w\<lparr>ppcs := (ppcs w)(data := None)\<rparr>) }})"

definition prom_collector_destroy :: "addr \<Rightarrow> 'z cworld \<Rightarrow> (int \<times> 'z cworld) option" where
  "prom_collector_destroy self w = (if self = NULL then Some (0, w)
     else do {
       c \<leftarrow> collectors w self;
       w \<leftarrow> (case free_data c of No_Data_Fn \<Rightarrow> Some w | Ppc_Free_Data \<Rightarrow> ppc_free_data self w);
       (r, w) \<leftarrow> prom_map_destroy run_collector (cmetrics c) w;
       w \<leftarrow> free_str (cname c) w;
       Some (r + psb_destroy (cbuilder c), w\<lparr>collectors := (collectors w)(self := None)\<rparr>) })"

definition prom_collector_destroy_generic :: "addr \<Rightarrow> 'z cworld \<Rightarrow> (int \<times> 'z cworld) option" where
  "prom_collector_destroy_generic gen w = prom_collector_destroy gen w"

definition prom_collector_free_generic :: "addr \<Rightarrow> 'z cworld \<Rightarrow> 'z cworld option" where
  "prom_collector_free_generic gen w = map_option snd (prom_collector_destroy gen w)"

text \<open>The copy of the name is not checked.\<close>

definition prom_collector_new :: "string \<Rightarrow> 'z cworld \<Rightarrow> (addr \<times> 'z cworld) option" where
  "prom_collector_new name w = (let (self, w) = malloc w in
     if self = NULL then Some (NULL, w)
     else let (n, w) = strdup name w;
       c = \<lparr>cname = n, cmetrics = None, collect = Prom_Collector_Metrics_Get, cbuilder = None, cdata = NULL,
            free_data = No_Data_Fn\<rparr> in
     do {
       (m, w) \<leftarrow> prom_map_new w;
       case m of None \<Rightarrow> do { (_, w) \<leftarrow> prom_collector_destroy self (put_collector self c w); Some (NULL, w) }
       | Some m \<Rightarrow>
           let c = c\<lparr>cmetrics := Some (snd (prom_map_set_free_value_fn m Metric_Free))\<rparr> in
           (case psb_new w of
              (None, w) \<Rightarrow> do { (_, w) \<leftarrow> prom_collector_destroy self (put_collector self c w); Some (NULL, w) }
            | (Some b, w) \<Rightarrow> Some (self, put_collector self (c\<lparr>cbuilder := Some b\<rparr>) w)) })"

definition prom_collector_set_collect_fn :: "addr \<Rightarrow> collect_fn \<Rightarrow> 'z cworld \<Rightarrow> (int \<times> 'z cworld) option" where
  "prom_collector_set_collect_fn self fn w = (if self = NULL then Some (1, w)
     else do { c \<leftarrow> collectors w self; Some (0, put_collector self (c\<lparr>collect := fn\<rparr>) w) })"

definition prom_collector_add_metric :: "addr \<Rightarrow> addr \<Rightarrow> 'z cworld \<Rightarrow> (int \<times> 'z cworld) option" where
  "prom_collector_add_metric self metric w = (if self = NULL then Some (0, w)
     else do {
       c \<leftarrow> collectors w self;
       m \<leftarrow> metrics w metric;
       ms \<leftarrow> cmetrics c;
       (old, w) \<leftarrow> prom_map_get run_collector ms (Some (mname m)) w;
       if old \<noteq> NULL then Some (1, w) else do {
       (r, ms, w) \<leftarrow> prom_map_set run_collector ms (mname m) metric w;
       Some (r, put_collector self (c\<lparr>cmetrics := Some ms\<rparr>) w) }})"

end
