(* ===== verification/CScan.thy ===== *)
theory CScan
  imports CFormat
begin

text \<open>
  The conversions of \<open>sscanf\<close> the program uses, and \<open>fgets\<close>. A format string is parsed to
  directives, as the C standard describes them; scanning returns the number of assignments
  (-1 for \<open>EOF\<close>) and the values assigned, in order, which are a prefix of the arguments.

  \<open>None\<close> is undefined behaviour: a decimal number that does not fit the object it is stored
  to. It also stands for the forms of \<open>%lf\<close> that are not modelled (hexadecimal, infinity and
  NaN). Whether a \<open>%s\<close> or \<open>%[\<close> result fits its buffer is checked by the caller, who has it.
\<close>

section \<open>Characters\<close>

definition isspace :: "char \<Rightarrow> bool" where
  "isspace c \<longleftrightarrow> (let n = of_char c :: int in n = 32 \<or> 9 \<le> n \<and> n \<le> 13)"

definition isdigit :: "char \<Rightarrow> bool" where
  "isdigit c \<longleftrightarrow> (let n = of_char c :: int in 48 \<le> n \<and> n \<le> 57)"

definition digit_value :: "char \<Rightarrow> int" where
  "digit_value c = of_char c - 48"

definition skip_space :: "string \<Rightarrow> string" where
  "skip_space s = dropWhile isspace s"

definition number :: "string \<Rightarrow> int" where
  "number s = foldl (\<lambda>n c. 10 * n + digit_value c) 0 s"

text \<open>What a \<open>char\<close> buffer holds as a C string.\<close>

definition c_string :: "string \<Rightarrow> string" where
  "c_string s = takeWhile (\<lambda>c. c \<noteq> CHR 0x00) s"

section \<open>Format strings\<close>

datatype conv =
    Int_Conv bool nat        \<comment> \<open>signed, width in bits of the object\<close>
  | Float_Conv               \<comment> \<open>\<open>%lf\<close>\<close>
  | Str_Conv                 \<comment> \<open>\<open>%s\<close>\<close>
  | Char_Conv                \<comment> \<open>\<open>%c\<close>\<close>
  | Set_Conv string          \<comment> \<open>\<open>%[...]\<close>\<close>

text \<open>The flag of a conversion is the assignment suppression \<open>*\<close>.\<close>

datatype directive = Space | Lit char | Conv bool conv | Bad

text \<open>
  The parser states: plain text; after \<open>%\<close> (with \<open>*\<close> seen or not, and the bits the length
  modifiers selected); inside \<open>[...]\<close>.
\<close>

datatype fstate = Plain | Spec bool nat | Set bool string

fun parse_format :: "fstate \<Rightarrow> string \<Rightarrow> directive list" where
  "parse_format Plain [] = []"
| "parse_format (Spec _ _) [] = [Bad]"
| "parse_format (Set _ _) [] = [Bad]"
| "parse_format Plain (c # cs) =
     (if c = CHR ''%'' then parse_format (Spec False 32) cs
      else if isspace c then Space # parse_format Plain cs
      else Lit c # parse_format Plain cs)"
| "parse_format (Spec s b) (c # cs) =
     (if c = CHR ''*'' then parse_format (Spec True b) cs
      else if c = CHR ''h'' then parse_format (Spec s (if b = 16 then 8 else 16)) cs
      else if c = CHR ''l'' then parse_format (Spec s 64) cs
      else if c = CHR ''d'' then Conv s (Int_Conv True b) # parse_format Plain cs
      else if c = CHR ''u'' then Conv s (Int_Conv False b) # parse_format Plain cs
      else if c = CHR ''f'' then Conv s Float_Conv # parse_format Plain cs
      else if c = CHR ''s'' then Conv s Str_Conv # parse_format Plain cs
      else if c = CHR ''c'' then Conv s Char_Conv # parse_format Plain cs
      else if c = CHR ''['' then parse_format (Set s []) cs
      else [Bad])"
| "parse_format (Set s cc) (c # cs) =
     (if c = CHR '']'' then Conv s (Set_Conv cc) # parse_format Plain cs
      else parse_format (Set s (cc @ [c])) cs)"

abbreviation format_of :: "string \<Rightarrow> directive list" where
  "format_of \<equiv> parse_format Plain"

section \<open>One conversion\<close>

datatype scanned = SInt int | SDbl double | SStr string | SChar char

datatype outcome = Matched scanned string | Mismatch | At_End

text \<open>An optional sign, then the rest of the input.\<close>

definition split_sign :: "string \<Rightarrow> bool \<times> string" where
  "split_sign s = (case s of [] \<Rightarrow> (False, s)
     | c # cs \<Rightarrow> if c = CHR ''-'' then (True, cs) else if c = CHR ''+'' then (False, cs) else (False, s))"

text \<open>
  The value an integer conversion stores; None when the decimal number does not fit. An
  unsigned conversion accepts a sign: \<open>strtoul\<close> negates in the unsigned type.
\<close>

definition int_value :: "bool \<Rightarrow> nat \<Rightarrow> bool \<Rightarrow> int \<Rightarrow> int option" where
  "int_value signed_conv bits neg n =
     (if signed_conv then (if neg then (if n \<le> 2 ^ (bits - 1) then Some (- n) else None)
                   else (if n < 2 ^ (bits - 1) then Some n else None))
      else if n < 2 ^ bits then Some (if neg then (- n) mod 2 ^ bits else n) else None)"

text \<open>A suppressed conversion stores nothing, so it cannot overflow an object.\<close>

definition scan_int :: "bool \<Rightarrow> bool \<Rightarrow> nat \<Rightarrow> string \<Rightarrow> outcome option" where
  "scan_int suppress signed_conv bits s = (let s = skip_space s in
     if s = [] then Some At_End
     else let (neg, r) = split_sign s; ds = takeWhile isdigit r; r = dropWhile isdigit r in
     if ds = [] then Some Mismatch
     else if suppress then Some (Matched (SInt 0) r)
     else map_option (\<lambda>v. Matched (SInt v) r) (int_value signed_conv bits neg (number ds)))"

text \<open>The exponent part after the digits; None is an \<open>e\<close> without digits.\<close>

definition scan_exponent :: "string \<Rightarrow> (int \<times> string) option" where
  "scan_exponent s = (case s of [] \<Rightarrow> Some (0, s)
     | c # cs \<Rightarrow> if c = CHR ''e'' \<or> c = CHR ''E''
         then let (neg, r) = split_sign cs; ds = takeWhile isdigit r in
           if ds = [] then None
           else Some ((if neg then - number ds else number ds), dropWhile isdigit r)
         else Some (0, s))"

definition scan_float :: "string \<Rightarrow> outcome option" where
  "scan_float s = (let s = skip_space s in
     if s = [] then Some At_End
     else let (neg, r) = split_sign s; ip = takeWhile isdigit r; r1 = dropWhile isdigit r;
       (fp, r2) = (case r1 of [] \<Rightarrow> ([], r1)
         | c # cs \<Rightarrow> if c = CHR ''.'' then (takeWhile isdigit cs, dropWhile isdigit cs) else ([], r1)) in
     if r \<noteq> [] \<and> hd r \<in> set ''iInN'' then None
     else if ip = ''0'' \<and> r1 \<noteq> [] \<and> hd r1 \<in> set ''xX'' then None
     else if ip @ fp = [] then Some Mismatch
     else case scan_exponent r2 of None \<Rightarrow> Some Mismatch
     | Some (e, r3) \<Rightarrow> let e = e - int (length fp) in
         Some (Matched (SDbl (rnd neg (nat (number (ip @ fp)) * 10 ^ nat e) (10 ^ nat (- e)) 0)) r3))"

definition scan_conv :: "bool \<Rightarrow> conv \<Rightarrow> string \<Rightarrow> outcome option" where
  "scan_conv suppress cv s = (case cv of
       Int_Conv signed_conv bits \<Rightarrow> scan_int suppress signed_conv bits s
     | Float_Conv \<Rightarrow> scan_float s
     | Str_Conv \<Rightarrow> (let s = skip_space s in if s = [] then Some At_End
         else Some (Matched (SStr (takeWhile (\<lambda>c. \<not> isspace c) s)) (dropWhile (\<lambda>c. \<not> isspace c) s)))
     | Char_Conv \<Rightarrow> (case s of [] \<Rightarrow> Some At_End | c # cs \<Rightarrow> Some (Matched (SChar c) cs))
     | Set_Conv cc \<Rightarrow> (if s = [] then Some At_End
         else let t = takeWhile (\<lambda>c. c \<in> set cc) s in
           if t = [] then Some Mismatch else Some (Matched (SStr t) (dropWhile (\<lambda>c. c \<in> set cc) s))))"

section \<open>\<open>sscanf\<close>\<close>

text \<open>
  \<open>vs\<close> are the values assigned so far; \<open>conv_done\<close> tells whether a conversion has been
  completed, which decides between \<open>EOF\<close> and the count when the input ends.
\<close>

fun scan :: "directive list \<Rightarrow> bool \<Rightarrow> scanned list \<Rightarrow> string \<Rightarrow> (int \<times> scanned list) option" where
  "scan [] conv_done vs s = Some (int (length vs), vs)"
| "scan (Space # ds) conv_done vs s = scan ds conv_done vs (skip_space s)"
| "scan (Lit c # ds) conv_done vs s = (case s of
       [] \<Rightarrow> Some (if conv_done then int (length vs) else -1, vs)
     | d # s \<Rightarrow> if d = c then scan ds conv_done vs s else Some (int (length vs), vs))"
| "scan (Conv suppress cv # ds) conv_done vs s = (case scan_conv suppress cv s of
       None \<Rightarrow> None
     | Some At_End \<Rightarrow> Some (if conv_done then int (length vs) else -1, vs)
     | Some Mismatch \<Rightarrow> Some (int (length vs), vs)
     | Some (Matched v s) \<Rightarrow> scan ds True (if suppress then vs else vs @ [v]) s)"
| "scan (Bad # ds) conv_done vs s = None"

definition sscanf :: "string \<Rightarrow> string \<Rightarrow> (int \<times> scanned list) option" where
  "sscanf s fmt = scan (format_of fmt) False [] (c_string s)"

section \<open>\<open>fgets\<close>\<close>

text \<open>At most \<open>n\<close> characters, up to and with the end of the line.\<close>

fun take_line :: "nat \<Rightarrow> string \<Rightarrow> string \<times> string" where
  "take_line 0 s = ([], s)"
| "take_line (Suc n) [] = ([], [])"
| "take_line (Suc n) (c # s) =
     (if c = CHR 0x0A then ([c], s) else let (l, r) = take_line n s in (c # l, r))"

text \<open>\<open>fgets (buffer, bufsize, fp)\<close>; None is a NULL result.\<close>

definition fgets :: "nat \<Rightarrow> string \<Rightarrow> (string \<times> string) option" where
  "fgets bufsize s = (if s = [] then None else Some (take_line (bufsize - 1) s))"

lemma take_line_length: "length (snd (take_line n s)) \<le> length s"
  by (induction n s rule: take_line.induct) (auto split: prod.splits)

lemma take_line_shrinks: "0 < n \<Longrightarrow> s \<noteq> [] \<Longrightarrow> length (snd (take_line n s)) < length s"
proof (induction n s rule: take_line.induct)
  case (3 n c s)
  then show ?case using take_line_length [of n s] by (auto split: prod.splits)
qed auto

text \<open>
  \<open>while (fgets (buffer, bufsize, fp) != NULL) body\<close>: the body returns the variables and
  whether it left the loop with \<open>break\<close>.
\<close>

function each_line :: "nat \<Rightarrow> (string \<Rightarrow> 'v \<Rightarrow> (bool \<times> 'v) option) \<Rightarrow> string \<Rightarrow> 'v \<Rightarrow> 'v option" where
  "each_line bufsize body s v = (if s = [] \<or> bufsize < 2 then Some v
     else let (l, r) = take_line (bufsize - 1) s in
       case body l v of None \<Rightarrow> None
       | Some (stop, v) \<Rightarrow> if stop then Some v else each_line bufsize body r v)"
  by pat_completeness auto
termination
  by (relation "measure (\<lambda>(_, _, s, _). length s)")
    (use take_line_shrinks in \<open>auto split: prod.splits simp: prod_eq_iff\<close>)

declare each_line.simps [simp del]

text \<open>The variable an integer conversion was to fill: its old value when nothing was assigned.\<close>

definition int_arg :: "scanned list \<Rightarrow> nat \<Rightarrow> 'a::len word \<Rightarrow> 'a word" where
  "int_arg vs i old = (if i < length vs then (case vs ! i of SInt k \<Rightarrow> word_of_int k | _ \<Rightarrow> old) else old)"

section \<open>Printed numbers are read back\<close>

named_theorems scan_simps "how a directive reads a known text"

lemma of_char_digit: "n < 10 \<Longrightarrow> (of_char (digit n) :: int) = 48 + int n"
proof -
  assume "n < 10"
  then have "(of_char (digit n) :: nat) = 48 + n" by (simp add: digit_def)
  then have "int (of_char (digit n)) = 48 + int n" by simp
  then show ?thesis by (simp add: of_nat_of_char)
qed

lemma digit_chars:
  assumes "n < 10"
  shows "isdigit (digit n)" "digit_value (digit n) = int n" "\<not> isspace (digit n)"
    "digit n \<noteq> CHR ''-''" "digit n \<noteq> CHR ''+''" "digit n \<noteq> CHR 0x00" "digit n \<noteq> CHR 0x0A"
proof -
  show "isdigit (digit n)" "digit_value (digit n) = int n" "\<not> isspace (digit n)"
    using of_char_digit [OF assms] assms by (simp_all add: isdigit_def digit_value_def isspace_def)
  have "digit n \<noteq> c" if "(of_char c :: int) < 48" for c
    using of_char_digit [OF assms] that by auto
  then show "digit n \<noteq> CHR ''-''" "digit n \<noteq> CHR ''+''" "digit n \<noteq> CHR 0x00" "digit n \<noteq> CHR 0x0A"
    by simp_all
qed

lemma number_snoc: "number (ds @ [d]) = 10 * number ds + digit_value d"
  by (simp add: number_def)

lemma number_dec: "number (dec n) = int n"
proof (induction n rule: dec.induct)
  case (1 n)
  then show ?case
    by (subst dec.simps) (auto simp: number_snoc digit_chars(2) number_def zmod_int zdiv_int)
qed

lemma dec_chars: "c \<in> set (dec n) \<Longrightarrow> \<exists>k<10. c = digit k"
proof (induction n rule: dec.induct)
  case (1 n)
  show ?case
  proof (cases "n < 10")
    case True
    then show ?thesis using "1.prems" by (subst (asm) dec.simps) auto
  next
    case False
    then have "c \<in> set (dec (n div 10)) \<or> c = digit (n mod 10)"
      using "1.prems" by (subst (asm) dec.simps) auto
    moreover have "n mod 10 < 10" by simp
    ultimately show ?thesis using "1.IH" [OF False] by blast
  qed
qed

lemma dec_digits: "c \<in> set (dec n) \<Longrightarrow> isdigit c"
  using dec_chars digit_chars(1) by blast

lemma dec_plain: "CHR 0x00 \<notin> set (dec n)" "CHR 0x0A \<notin> set (dec n)"
  using dec_chars [of "CHR 0x00" n] dec_chars [of "CHR 0x0A" n] digit_chars(6,7) by metis+

lemma dec_Cons: obtains c cs where "dec n = c # cs" "isdigit c" "\<not> isspace c" "c \<noteq> CHR ''-''" "c \<noteq> CHR ''+''"
proof (cases "dec n")
  case Nil
  then show ?thesis using length_dec [of n] ndig_pos [of n] by simp
next
  case (Cons c cs)
  then show ?thesis using that dec_chars [of c n] digit_chars by fastforce
qed

lemma dec_nonempty: "dec n \<noteq> []"
  using ndig_pos [of n] by (simp add: length_dec flip: length_greater_0_conv)

definition blank :: "string \<Rightarrow> bool" where
  "blank s \<longleftrightarrow> (\<forall>c \<in> set s. isspace c)"

lemma skip_space_blank [scan_simps]: "blank sp \<Longrightarrow> skip_space (sp @ s) = skip_space s"
  by (simp add: blank_def skip_space_def)

lemma skip_space_dec [scan_simps]: "skip_space (dec n @ s) = dec n @ s"
proof -
  obtain c cs where "dec n = c # cs" "\<not> isspace c" by (rule dec_Cons)
  then show ?thesis by (simp add: skip_space_def)
qed

definition no_digit :: "string \<Rightarrow> bool" where
  "no_digit s \<longleftrightarrow> s = [] \<or> \<not> isdigit (hd s)"

lemma split_digits:
  assumes "\<forall>c \<in> set ds. isdigit c" "no_digit s"
  shows "takeWhile isdigit (ds @ s) = ds" "dropWhile isdigit (ds @ s) = s"
proof -
  have "takeWhile isdigit s = []" "dropWhile isdigit s = s"
    using assms(2) by (cases s; simp add: no_digit_def)+
  then show "takeWhile isdigit (ds @ s) = ds" "dropWhile isdigit (ds @ s) = s" using assms(1) by simp_all
qed

lemma split_sign_dec: "split_sign (dec n @ s) = (False, dec n @ s)"
proof -
  obtain c cs where "dec n = c # cs" "c \<noteq> CHR ''-''" "c \<noteq> CHR ''+''" by (rule dec_Cons)
  then show ?thesis by (simp add: split_sign_def)
qed

lemma scan_int_dec [scan_simps]:
  assumes "no_digit s" "suppress \<or> n < 2 ^ (if signed_conv then bits - 1 else bits)" "blank sp"
  shows "scan_int suppress signed_conv bits (sp @ dec n @ s) = Some (Matched (SInt (if suppress then 0 else int n)) s)"
proof -
  have d: "takeWhile isdigit (dec n @ s) = dec n" "dropWhile isdigit (dec n @ s) = s"
    using split_digits [OF _ assms(1)] dec_digits by blast+
  have "suppress \<or> int_value signed_conv bits False (int n) = Some (int n)"
    using assms(2) by (cases signed_conv) (auto simp: int_value_def)
  then show ?thesis
    by (auto simp: scan_int_def skip_space_blank [OF assms(3)] skip_space_dec split_sign_dec d
      dec_nonempty number_dec Let_def)
qed

section \<open>Files made of lines\<close>

abbreviation newline :: char where
  "newline \<equiv> CHR 0x0A"

lemma take_line_line: "newline \<notin> set l \<Longrightarrow> length l < n \<Longrightarrow> take_line n (l @ newline # s) = (l @ [newline], s)"
proof (induction l arbitrary: n)
  case Nil
  then show ?case by (cases n) simp_all
next
  case (Cons c l)
  then show ?case by (cases n) auto
qed

text \<open>A line that fits the buffer is one turn of the loop.\<close>

definition line_for :: "nat \<Rightarrow> string \<Rightarrow> bool" where
  "line_for bufsize l \<longleftrightarrow> newline \<notin> set l \<and> CHR 0x00 \<notin> set l \<and> length l + 2 \<le> bufsize"

lemma each_line_line:
  assumes "line_for bufsize l"
  shows "each_line bufsize body (l @ newline # s) v = (case body (l @ [newline]) v of None \<Rightarrow> None
       | Some (stop, v) \<Rightarrow> if stop then Some v else each_line bufsize body s v)"
proof -
  have "take_line (bufsize - 1) (l @ newline # s) = (l @ [newline], s)" "\<not> bufsize < 2"
    using assms by (auto simp: line_for_def intro: take_line_line)
  then show ?thesis by (subst each_line.simps) simp
qed

definition lines :: "string list \<Rightarrow> string" where
  "lines ls = concat (map (\<lambda>l. l @ [newline]) ls)"

lemma each_line_skip:
  assumes "\<forall>l \<in> set ls. line_for bufsize l \<and> body (l @ [newline]) v = Some (False, v)"
  shows "each_line bufsize body (lines ls @ s) v = each_line bufsize body s v"
  using assms by (induction ls) (auto simp: lines_def each_line_line)

lemma c_string_line: "line_for n l \<Longrightarrow> c_string (l @ [newline]) = l @ [newline]"
  by (auto simp: c_string_def line_for_def takeWhile_eq_all_conv)

text \<open>A line that does not start as the format does assigns nothing.\<close>

lemma scan_prefix:
  "scan (map Lit p @ ds) cd vs s = (if take (length p) s = p then scan ds cd vs (drop (length p) s)
     else Some (if length s < length p \<and> take (length s) p = s \<and> \<not> cd then -1 else int (length vs), vs))"
proof (induction p arbitrary: s)
  case (Cons c p)
  then show ?case by (cases s) auto
qed simp

lemma scan_prefix_differs:
  "take (length p) s \<noteq> p \<Longrightarrow> \<exists>n. scan (map Lit p @ ds) cd vs s = Some (n, vs) \<and> n \<le> int (length vs)"
  by (simp add: scan_prefix)

end
