(* ===== verification/ProcessCollector.thy ===== *)
theory ProcessCollector
  imports Collector CScan
begin

text \<open>
  The process collector, as it is compiled on Linux: \<open>prom_process_collector.c\<close>,
  \<open>prom_process_limits.c\<close>, \<open>prom_process_fds.c\<close> and \<open>prom_process_stat.c\<close> of
  \<open>lib/prom/src\<close>. The system is the record \<open>os\<close>: what the system calls return.
\<close>

section \<open>The system\<close>

text \<open>
  \<open>os_pread fd\<close> is the text of the file, None when \<open>pread\<close> fails; \<open>os_dir\<close> the names in a
  directory, None when it cannot be opened. \<open>os_clock n\<close> is the result of the n-th call of
  \<open>clock_gettime\<close>. \<open>logging\<close>: the library was built with logging and warnings are enabled.
\<close>

record os =
  os_pid :: int
  os_open :: "string \<Rightarrow> int"
  os_pread :: "int \<Rightarrow> string option"
  os_dir :: "string \<Rightarrow> string list option"
  os_nofile :: u64
  os_page_size :: int
  os_clk_tck :: u64
  os_time :: int
  os_uptime :: "int option"
  os_clock :: "nat \<Rightarrow> (int \<times> int) option"
  logging :: bool

section \<open>The metrics\<close>

datatype proc_metric = PM_OPEN_FDS | PM_MAX_FDS | PM_MINFLT | PM_MAJFLT | PM_CMINFLT | PM_CMAJFLT | PM_UTIME | PM_STIME
  | PM_TIME | PM_CUTIME | PM_CSTIME | PM_CTIME | PM_NUM_THREADS | PM_STARTTIME | PM_VSIZE | PM_RSS | PM_BLKIO

fun pm_index :: "proc_metric \<Rightarrow> nat" where
  "pm_index PM_OPEN_FDS = 0" | "pm_index PM_MAX_FDS = 1" | "pm_index PM_MINFLT = 2" | "pm_index PM_MAJFLT = 3"
| "pm_index PM_CMINFLT = 4" | "pm_index PM_CMAJFLT = 5" | "pm_index PM_UTIME = 6" | "pm_index PM_STIME = 7"
| "pm_index PM_TIME = 8" | "pm_index PM_CUTIME = 9" | "pm_index PM_CSTIME = 10" | "pm_index PM_CTIME = 11"
| "pm_index PM_NUM_THREADS = 12" | "pm_index PM_STARTTIME = 13" | "pm_index PM_VSIZE = 14" | "pm_index PM_RSS = 15"
| "pm_index PM_BLKIO = 16"

definition PM_COUNT :: nat where
  "PM_COUNT = 17"

text \<open>The macros \<open>cup\<close> and \<open>gup\<close>: the bit of the metric when the update succeeds.\<close>

definition cup :: "os \<Rightarrow> addr list \<Rightarrow> string option list \<Rightarrow> proc_metric \<Rightarrow> double \<Rightarrow> 'z cworld \<Rightarrow> (int \<times> 'z cworld) option" where
  "cup env m lvals what val w = do {
     (r, w) \<leftarrow> prom_counter_reset (logging env) (m ! pm_index what) val lvals w;
     Some (if r \<noteq> 0 then 0 else 2 ^ pm_index what, w) }"

definition gup :: "os \<Rightarrow> addr list \<Rightarrow> string option list \<Rightarrow> proc_metric \<Rightarrow> double \<Rightarrow> 'z cworld \<Rightarrow> (int \<times> 'z cworld) option" where
  "gup env m lvals what val w = do {
     (r, w) \<leftarrow> prom_gauge_set (logging env) (m ! pm_index what) val lvals w;
     Some (if r \<noteq> 0 then 0 else 2 ^ pm_index what, w) }"

section \<open>File descriptors\<close>

definition ppc_fds_new :: "addr list \<Rightarrow> string option list \<Rightarrow> 'z cworld \<Rightarrow> (int \<times> addr list \<times> 'z cworld) option" where
  "ppc_fds_new m ks w = do {
     (g, w) \<leftarrow> prom_gauge_new ''process_open_fds'' (Some ''Number of open file descriptors'') 0 ks w;
     Some (if g = NULL then 0 else 2 ^ pm_index PM_OPEN_FDS, m[pm_index PM_OPEN_FDS := g], w) }"

definition ppc_fds_count :: "os \<Rightarrow> string option \<Rightarrow> double" where
  "ppc_fds_count env path = (case path of None \<Rightarrow> DNaN
     | Some p \<Rightarrow> (case os_dir env p of None \<Rightarrow> DNaN
         | Some ns \<Rightarrow> d_of_nat (length (filter (\<lambda>n. \<not> (strcmp ''.'' n = 0 \<or> strcmp ''..'' n = 0)) ns))))"

definition ppc_fds_update :: "os \<Rightarrow> addr \<Rightarrow> addr list \<Rightarrow> string option list \<Rightarrow> 'z cworld \<Rightarrow> (int \<times> 'z cworld) option" where
  "ppc_fds_update env path m lvals w = do {
     p \<leftarrow> load_opt path w;
     gup env m lvals PM_OPEN_FDS (ppc_fds_count env p) w }"

section \<open>Limits\<close>

definition ppc_limits_new :: "addr list \<Rightarrow> string option list \<Rightarrow> 'z cworld \<Rightarrow> (int \<times> addr list \<times> 'z cworld) option" where
  "ppc_limits_new m ks w = do {
     (g, w) \<leftarrow> prom_gauge_new ''process_max_fds'' (Some ''Max. number of open file descriptors (soft limit)'') 0 ks w;
     Some (if g = NULL then 0 else 2 ^ pm_index PM_MAX_FDS, m[pm_index PM_MAX_FDS := g], w) }"

text \<open>\<open>strstr\<close>: the rest of the text from the first occurrence on.\<close>

fun strstr :: "string \<Rightarrow> string \<Rightarrow> string option" where
  "strstr [] t = (if t = [] then Some [] else None)"
| "strstr (c # s) t = (if take (length t) (c # s) = t then Some (c # s) else strstr s t)"

text \<open>\<open>strtoul (p, NULL, 10)\<close>; out of range it returns the largest value.\<close>

definition strtoul :: "string \<Rightarrow> u64" where
  "strtoul s = (let (neg, r) = split_sign (skip_space s); n = number (takeWhile isdigit r) in
     if n < 2 ^ 64 then (if neg then - word_of_int n else word_of_int n) else - 1)"

text \<open>
  The two conditional expressions have the type of their unsigned operand, so that their -1
  is the largest unsigned long.
\<close>

definition ppc_limits_get_maxfds :: "os \<Rightarrow> int \<Rightarrow> double" where
  "ppc_limits_get_maxfds env fd = (if fd < 0
     then d_of_nat (unat (if os_nofile env = - 1 then - 1 else os_nofile env))
     else case os_pread env fd of None \<Rightarrow> DNaN
     | Some file \<Rightarrow> (case strstr (c_string (take (17 * 80 - 1) file)) ''Max open files  '' of None \<Rightarrow> DNaN
         | Some p \<Rightarrow> let p = dropWhile (\<lambda>c. c = CHR '' '') (drop 16 p) in
             if p = [] \<or> hd p = newline then DNaN
             else d_of_nat (unat (if take 11 p \<noteq> ''unlimited  '' then strtoul p else - 1))))"

definition ppc_limits_update :: "os \<Rightarrow> int list \<Rightarrow> addr list \<Rightarrow> string option list \<Rightarrow> 'z cworld \<Rightarrow> (int \<times> 'z cworld) option" where
  "ppc_limits_update env fd m lvals w = gup env m lvals PM_MAX_FDS (ppc_limits_get_maxfds env (fd ! 0)) w"

section \<open>Statistics\<close>

text \<open>The assignments of \<open>ppc_stats_new\<close>, in order.\<close>

definition stats_metrics :: "(proc_metric \<times> prom_metric_type \<times> string \<times> string) list" where
  "stats_metrics =
    [(PM_MINFLT, PROM_COUNTER, ''process_minor_pagefaults'',
       ''Number of minor faults of the process not caused a page load from disk''),
     (PM_MAJFLT, PROM_COUNTER, ''process_major_pagefaults'',
       ''Number of major faults of the process caused a page load from disk''),
     (PM_CMINFLT, PROM_COUNTER, ''process_children_minor_pagefaults'',
       ''Number of minor faults of the process waited-for children not caused a page load from disk''),
     (PM_CMAJFLT, PROM_COUNTER, ''process_children_major_pagefaults'',
       ''Number of major faults of the process's waited-for children caused a page load from disk''),
     (PM_UTIME, PROM_COUNTER, ''process_user_cpu_seconds'',
       ''Total CPU time the process spent in user mode in seconds''),
     (PM_STIME, PROM_COUNTER, ''process_system_cpu_seconds'',
       ''Total CPU time the process spent in kernel mode in seconds''),
     (PM_TIME, PROM_COUNTER, ''process_total_cpu_seconds'',
       ''Total CPU time the process spent in user and kernel mode in seconds''),
     (PM_CUTIME, PROM_COUNTER, ''process_children_user_cpu_seconds'',
       ''Total CPU time the process's waited-for children spent in user mode in seconds''),
     (PM_CSTIME, PROM_COUNTER, ''process_children_system_cpu_seconds'',
       ''Total CPU time the process's waited-for children spent in kernel mode in seconds''),
     (PM_CTIME, PROM_COUNTER, ''process_children_total_cpu_seconds'',
       ''Total CPU time the process's waited-for children spent in user and in kernel mode in seconds''),
     (PM_NUM_THREADS, PROM_GAUGE, ''process_threads_total'', ''Number of threads in this process''),
     (PM_STARTTIME, PROM_COUNTER, ''process_start_time_seconds'',
       ''The time the process has been started in seconds elapsed since Epoch''),
     (PM_VSIZE, PROM_GAUGE, ''process_virtual_memory_bytes'', ''Virtual memory size in bytes''),
     (PM_RSS, PROM_GAUGE, ''process_resident_memory_bytes'', ''Resident set size of memory in bytes''),
     (PM_BLKIO, PROM_COUNTER, ''process_delayacct_blkio_ticks'',
       ''Aggregated block I/O delays, measured in clock ticks (centiseconds)'')]"

fun new_stats :: "(proc_metric \<times> prom_metric_type \<times> string \<times> string) list \<Rightarrow> addr list \<Rightarrow> 'z cworld
    \<Rightarrow> (addr list \<times> 'z cworld) option" where
  "new_stats [] m w = Some (m, w)"
| "new_stats ((what, t, name, descr) # ts) m w = do {
     (g, w) \<leftarrow> (if t = PROM_COUNTER then prom_counter_new name (Some descr) 0 [] w
              else prom_gauge_new name (Some descr) 0 [] w);
     new_stats ts (m[pm_index what := g]) w }"

definition ppc_stats_new :: "addr list \<Rightarrow> 'z cworld \<Rightarrow> (int \<times> addr list \<times> 'z cworld) option" where
  "ppc_stats_new m w = do {
     (m, w) \<leftarrow> new_stats stats_metrics m w;
     let res = (\<Sum>i \<leftarrow> [pm_index PM_MINFLT..<PM_COUNT]. if m ! i \<noteq> NULL then 2 ^ i else 0);
     Some (res, m, w) }"

text \<open>
  \<open>struct stats\<close>, one field for each field of \<open>/proc/self/stat\<close>. The pointer \<open>comm\<close> is never
  set nor read: the name goes to a local array.
\<close>

record stats =
  s_pid :: int
  s_comm :: addr
  s_state :: char
  s_ppid :: int
  s_pgrp :: int
  s_session :: int
  s_tty_nr :: int
  s_tpgid :: int
  s_flags :: u32
  s_minflt :: u64
  s_cminflt :: u64
  s_majflt :: u64
  s_cmajflt :: u64
  s_utime :: double
  s_stime :: double
  s_cutime :: double
  s_cstime :: double
  s_priority :: int
  s_nice :: int
  s_num_threads :: int
  s_itrealvalue :: int
  s_starttime :: u64
  s_vsize :: u64
  s_rss :: int
  s_rsslim :: u64
  s_startcode :: u64
  s_endcode :: u64
  s_startstack :: u64
  s_kstkesp :: u64
  s_kstkeip :: u64
  s_signal :: u64
  s_blocked :: u64
  s_sigignore :: u64
  s_sigcatch :: u64
  s_wchan :: u64
  s_nswap :: u64
  s_cnswap :: u64
  s_exit_signal :: int
  s_processor :: int
  s_rt_priority :: u32
  s_policy :: u32
  s_blkio :: u64
  s_guest_time :: u64
  s_cguest_time :: int
  s_start_data :: u64
  s_end_data :: u64
  s_start_brk :: u64
  s_arg_start :: u64
  s_arg_end :: u64
  s_env_start :: u64
  s_env_end :: u64
  s_exit_code :: int

definition stat_format :: string where
  "stat_format = ''%d %s %c %d %d %d %d %d %u %lu %lu %lu %lu %lf %lf %lf %lf %ld %ld %ld %ld %llu %lu %ld %lu %lu %lu %lu %lu %lu %lu %lu %lu %lu %lu %lu %lu %d %d %u %u %llu %lu %ld %lu %lu %lu %lu %lu %lu %lu %d ''"

text \<open>Fields past the last one assigned are indeterminate in C and never read; they are 0 here.\<close>

definition scanned_int :: "scanned list \<Rightarrow> nat \<Rightarrow> int" where
  "scanned_int vs i = (if i < length vs then (case vs ! i of SInt k \<Rightarrow> k | _ \<Rightarrow> 0) else 0)"

definition scanned_uint :: "scanned list \<Rightarrow> nat \<Rightarrow> 'a::len word" where
  "scanned_uint vs i = word_of_int (scanned_int vs i)"

definition scanned_dbl :: "scanned list \<Rightarrow> nat \<Rightarrow> double" where
  "scanned_dbl vs i = (if i < length vs then (case vs ! i of SDbl x \<Rightarrow> x | _ \<Rightarrow> DNaN) else DNaN)"

definition scanned_chr :: "scanned list \<Rightarrow> nat \<Rightarrow> char" where
  "scanned_chr vs i = (if i < length vs then (case vs ! i of SChar c \<Rightarrow> c | _ \<Rightarrow> CHR 0x00) else CHR 0x00)"

text \<open>\<open>comm\<close> holds 18 characters with the terminator.\<close>

definition comm_fits :: "scanned list \<Rightarrow> bool" where
  "comm_fits vs \<longleftrightarrow> length vs < 2 \<or> (case vs ! 1 of SStr s \<Rightarrow> length s < 18 | _ \<Rightarrow> True)"

definition sys_conf :: "os \<Rightarrow> 'z cworld \<Rightarrow> 'z cworld" where
  "sys_conf env w = (if page_sz w = 0 then w\<lparr>page_sz := os_page_size env, clk_tck := os_clk_tck env\<rparr> else w)"

text \<open>
  The start time in seconds since the epoch is computed once for each value read. \<open>now\<close> and
  \<open>uptime\<close> are signed, the sum is unsigned.
\<close>

definition start_time :: "os \<Rightarrow> u64 \<Rightarrow> 'z cworld \<Rightarrow> 'z cworld" where
  "start_time env start w = (if last_starttime w \<noteq> start \<or> stat_timestamp w = 0
     then let now = os_time env; uptime = (case os_uptime env of None \<Rightarrow> now | Some u \<Rightarrow> u) in
       w\<lparr>last_starttime := start, stat_timestamp := word_of_int (now - uptime) + start div clk_tck w\<rparr>
     else w)"

text \<open>
  \<open>fill_stats\<close>: None for a failed \<open>pread\<close> (it writes \<open>line[-1]\<close>), for a name that overflows
  \<open>comm\<close>, for a clock of 0 ticks and for a resident set whose size in bytes overflows.
\<close>

definition fill_stats :: "os \<Rightarrow> int \<Rightarrow> 'z cworld \<Rightarrow> (stats option \<times> 'z cworld) option" where
  "fill_stats env fd w = do {
     let w = sys_conf env w;
     file \<leftarrow> os_pread env fd;
     (n, vs) \<leftarrow> sscanf (take 511 file) stat_format;
     if \<not> comm_fits vs then None
     else if n < 42 then Some (None, w)
     else let rss = scanned_int vs 23 * page_sz w in
     if clk_tck w = 0 \<or> rss < - (2 ^ 63) \<or> 2 ^ 63 \<le> rss then None
     else let tps = d_of_nat (unat (clk_tck w)); w = start_time env (scanned_uint vs 21) w in
       Some (Some \<lparr>s_pid = scanned_int vs 0, s_comm = NULL, s_state = scanned_chr vs 2,
         s_ppid = scanned_int vs 3, s_pgrp = scanned_int vs 4, s_session = scanned_int vs 5,
         s_tty_nr = scanned_int vs 6, s_tpgid = scanned_int vs 7, s_flags = scanned_uint vs 8,
         s_minflt = scanned_uint vs 9, s_cminflt = scanned_uint vs 10, s_majflt = scanned_uint vs 11,
         s_cmajflt = scanned_uint vs 12, s_utime = ddiv (scanned_dbl vs 13) tps,
         s_stime = ddiv (scanned_dbl vs 14) tps, s_cutime = ddiv (scanned_dbl vs 15) tps,
         s_cstime = ddiv (scanned_dbl vs 16) tps, s_priority = scanned_int vs 17, s_nice = scanned_int vs 18,
         s_num_threads = scanned_int vs 19, s_itrealvalue = scanned_int vs 20, s_starttime = stat_timestamp w,
         s_vsize = scanned_uint vs 22, s_rss = rss, s_rsslim = scanned_uint vs 24,
         s_startcode = scanned_uint vs 25, s_endcode = scanned_uint vs 26, s_startstack = scanned_uint vs 27,
         s_kstkesp = scanned_uint vs 28, s_kstkeip = scanned_uint vs 29, s_signal = scanned_uint vs 30,
         s_blocked = scanned_uint vs 31, s_sigignore = scanned_uint vs 32, s_sigcatch = scanned_uint vs 33,
         s_wchan = scanned_uint vs 34, s_nswap = scanned_uint vs 35, s_cnswap = scanned_uint vs 36,
         s_exit_signal = scanned_int vs 37, s_processor = scanned_int vs 38,
         s_rt_priority = scanned_uint vs 39, s_policy = scanned_uint vs 40, s_blkio = scanned_uint vs 41,
         s_guest_time = scanned_uint vs 42, s_cguest_time = scanned_int vs 43,
         s_start_data = scanned_uint vs 44, s_end_data = scanned_uint vs 45, s_start_brk = scanned_uint vs 46,
         s_arg_start = scanned_uint vs 47, s_arg_end = scanned_uint vs 48, s_env_start = scanned_uint vs 49,
         s_env_end = scanned_uint vs 50, s_exit_code = scanned_int vs 51\<rparr>, w) }"

text \<open>The values \<open>ppc_stats_update\<close> stores, in order; all NaN when there are no statistics.\<close>

definition stats_values :: "stats \<Rightarrow> (proc_metric \<times> bool \<times> double) list" where
  "stats_values s = (let u = (\<lambda>x :: u64. d_of_nat (unat x)) in
    [(PM_MINFLT, True, u (s_minflt s)), (PM_MAJFLT, True, u (s_majflt s)), (PM_CMINFLT, True, u (s_cminflt s)),
     (PM_CMAJFLT, True, u (s_cmajflt s)), (PM_UTIME, True, s_utime s), (PM_STIME, True, s_stime s),
     (PM_TIME, True, dadd (s_utime s) (s_stime s)), (PM_CUTIME, True, s_cutime s), (PM_CSTIME, True, s_cstime s),
     (PM_CTIME, True, dadd (s_cutime s) (s_cstime s)), (PM_NUM_THREADS, False, d_of_int (s_num_threads s)),
     (PM_STARTTIME, True, u (s_starttime s)), (PM_VSIZE, False, u (s_vsize s)), (PM_RSS, False, d_of_int (s_rss s)),
     (PM_BLKIO, True, u (s_blkio s))])"

definition no_stats_values :: "(proc_metric \<times> bool \<times> double) list" where
  "no_stats_values = map (\<lambda>(what, t, _). (what, t = PROM_COUNTER, DNaN)) stats_metrics"

fun store_stats :: "os \<Rightarrow> (proc_metric \<times> bool \<times> double) list \<Rightarrow> addr list \<Rightarrow> string option list \<Rightarrow> 'z cworld
    \<Rightarrow> (int \<times> 'z cworld) option" where
  "store_stats env [] m lvals w = Some (0, w)"
| "store_stats env ((what, counter, val) # vs) m lvals w = do {
     (b, w) \<leftarrow> (if counter then cup env m lvals what val w else gup env m lvals what val w);
     (res, w) \<leftarrow> store_stats env vs m lvals w;
     Some (b + res, w) }"

definition ppc_stats_update :: "os \<Rightarrow> int list \<Rightarrow> addr list \<Rightarrow> string option list \<Rightarrow> 'z cworld \<Rightarrow> (int \<times> 'z cworld) option" where
  "ppc_stats_update env fd m lvals w = do {
     (s, w) \<leftarrow> (if 0 \<le> fd ! 1 then fill_stats env (fd ! 1) w else Some (None, w));
     store_stats env (case s of None \<Rightarrow> no_stats_values | Some s \<Rightarrow> stats_values s) m lvals w }"

section \<open>The collector\<close>

fun destroy_gauges :: "addr list \<Rightarrow> 'z cworld \<Rightarrow> 'z cworld option" where
  "destroy_gauges [] w = Some w"
| "destroy_gauges (m # ms) w = do { (_, w) \<leftarrow> prom_gauge_destroy m w; destroy_gauges ms w }"

fun add_metrics :: "addr \<Rightarrow> addr list \<Rightarrow> 'z cworld \<Rightarrow> 'z cworld option" where
  "add_metrics self [] w = Some w"
| "add_metrics self (m # ms) w = do { (_, w) \<leftarrow> prom_collector_add_metric self m w; add_metrics self ms w }"

definition ppc_fail :: "addr \<Rightarrow> addr list \<Rightarrow> 'z cworld \<Rightarrow> (addr \<times> 'z cworld) option" where
  "ppc_fail self m w = do {
     w \<leftarrow> destroy_gauges m w;
     (_, w) \<leftarrow> prom_collector_destroy self w;
     Some (NULL, w) }"

definition put_data :: "addr \<Rightarrow> ppc_data \<Rightarrow> 'z cworld \<Rightarrow> 'z cworld" where
  "put_data a d w = w\<lparr>ppcs := (ppcs w)(a \<mapsto> d)\<rparr>"

text \<open>The metrics, one group after the other; a group of which none could be made is a failure.\<close>

definition ppc_metrics :: "addr \<Rightarrow> addr \<Rightarrow> ppc_data \<Rightarrow> string option list \<Rightarrow> 'z cworld \<Rightarrow> (addr \<times> 'z cworld) option" where
  "ppc_metrics self data d ks w = do {
     (r, m, w) \<leftarrow> ppc_limits_new (pm d) ks w;
     if r = 0 then ppc_fail self m w else do {
     (r, m, w) \<leftarrow> ppc_fds_new m ks w;
     if r = 0 then ppc_fail self m w else do {
     (r, m, w) \<leftarrow> ppc_stats_new m w;
     if r = 0 then ppc_fail self m w else do {
     w \<leftarrow> add_metrics self m (put_data data (d\<lparr>pm := m\<rparr>) w);
     (_, w) \<leftarrow> prom_collector_set_collect_fn self Ppc_Collect w;
     Some (self, w) }}}}"

definition ppc_new :: "os \<Rightarrow> string option \<Rightarrow> string option \<Rightarrow> int \<Rightarrow> string option list \<Rightarrow> string option list \<Rightarrow> 'z cworld
    \<Rightarrow> (addr \<times> 'z cworld) option" where
  "ppc_new env limits_path stat_path p ks lvals w = do {
     (self, w) \<leftarrow> prom_collector_new ''process'' w;
     if self = NULL then Some (NULL, w)
     else let (data, w) = malloc w in
     if data = NULL then Some (NULL, w)
     else do {
       let p = (if p < 1 then os_pid env else p);
       (_, w) \<leftarrow> prom_collector_data_set self data Ppc_Free_Data w;
       let (dir, w) = strdup (''/proc/'' @ dec_int p @ ''/fd'') w;
       let limits_fd = (case limits_path of None \<Rightarrow> -2 | Some f \<Rightarrow> os_open env f);
       let stat_fd = os_open env (case stat_path of None \<Rightarrow> ''/proc/'' @ dec_int p @ ''/stat'' | Some f \<Rightarrow> f);
       let d = \<lparr>label_vals = lvals, fds = [limits_fd, stat_fd], fd_dir = dir, pid = p, pm = replicate PM_COUNT NULL\<rparr>;
       let w = put_data data d w;
       if limits_path \<noteq> None \<and> limits_fd = -1 \<or> stat_fd = -1 then ppc_fail self (pm d) w
       else ppc_metrics self data d ks w } }"

definition ppc_collect :: "os \<Rightarrow> addr \<Rightarrow> 'z cworld \<Rightarrow> (pmap option \<times> 'z cworld) option" where
  "ppc_collect env self w = (if self = NULL then Some (None, w)
     else do {
       data \<leftarrow> prom_collector_data_get self w;
       if data = NULL then Some (None, w) else do {
       d \<leftarrow> ppcs w data;
       (_, w) \<leftarrow> ppc_fds_update env (fd_dir d) (pm d) (label_vals d) w;
       (_, w) \<leftarrow> ppc_limits_update env (fds d) (pm d) (label_vals d) w;
       (_, w) \<leftarrow> ppc_stats_update env (fds d) (pm d) (label_vals d) w;
       prom_collector_metrics_get self w }})"

end
