(* ===== verification/Exposition.thy ===== *)
theory Exposition
  imports Metric
begin

text \<open>
  \<open>pmf_load_metric\<close> of \<open>lib/prom/src/prom_metric_formatter.c\<close>: the text of one metric, its
  help and type lines and one line per sample. The main result gives the whole text.
\<close>

section \<open>The loops\<close>

text \<open>
  The loop over the keys of a map of samples; \<open>e_get\<close> is returned when a key has no
  sample, \<open>e_load\<close> when its line cannot be written.
\<close>

fun load_samples :: "'z mworld runner \<Rightarrow> int \<Rightarrow> int \<Rightarrow> pmf option \<Rightarrow> pmap \<Rightarrow> string option \<Rightarrow> addr list
    \<Rightarrow> 'z mworld \<Rightarrow> (int \<times> pmf option \<times> 'z mworld) option" where
  "load_samples run e_get e_load self sm p [] w = Some (0, self, w)"
| "load_samples run e_get e_load self sm p (k # ks) w = do {
     key \<leftarrow> load_str k w;
     (sample, w) \<leftarrow> prom_map_get run sm (Some key) w;
     if sample = NULL then Some (e_get, self, w) else do {
     (r, self, w) \<leftarrow> pmf_load_sample self sample p w;
     if r \<noteq> 0 then Some (e_load, self, w) else load_samples run e_get e_load self sm p ks w }}"

text \<open>The loop over the labelled histograms of a metric, each of which lists its samples.\<close>

fun load_histograms :: "pmf option \<Rightarrow> pmap \<Rightarrow> string option \<Rightarrow> addr list \<Rightarrow> 'z mworld
    \<Rightarrow> (int \<times> pmf option \<times> 'z mworld) option" where
  "load_histograms self sm p [] w = Some (0, self, w)"
| "load_histograms self sm p (k # ks) w = do {
     key \<leftarrow> load_str k w;
     (hist_sample, w) \<leftarrow> prom_map_get run_metric sm (Some key) w;
     if hist_sample = NULL then Some (4, self, w) else do {
     h \<leftarrow> hists w hist_sample;
     (r, self, w) \<leftarrow> load_samples run_sample 5 6 self (hsamples h) p (l_value_list h) w;
     if r \<noteq> 0 then Some (r, self, w) else load_histograms self sm p ks w }}"

definition load_head :: "pmf option \<Rightarrow> string option \<Rightarrow> metric \<Rightarrow> 'z mworld \<Rightarrow> (int \<times> pmf option \<times> 'z mworld) option" where
  "load_head self p m w = do {
     (r, self, w) \<leftarrow> pmf_load_help self p (mname m) (mhelp m) w;
     if r \<noteq> 0 then Some (2, self, w) else do {
     (r, self, w) \<leftarrow> pmf_load_type self p (mname m) (mtype m) w;
     Some (if r \<noteq> 0 then 3 else 0, self, w) }}"

definition pmf_load_metric :: "pmf option \<Rightarrow> addr \<Rightarrow> string option \<Rightarrow> bool \<Rightarrow> 'z mworld
    \<Rightarrow> (int \<times> pmf option \<times> 'z mworld) option" where
  "pmf_load_metric self metric prefix is_compact w = (if self = None then Some (1, self, w)
     else do {
       m \<leftarrow> metrics w metric;
       let p = (if prefix = Some [] then None else prefix);
       (r, self, w) \<leftarrow> (if is_compact then Some (0, self, w) else load_head self p m w);
       if r \<noteq> 0 then Some (r, self, w) else do {
       (r, self, w) \<leftarrow> (if mtype m = PROM_HISTOGRAM
          then load_histograms self (msamples m) p (keys (msamples m)) w
          else load_samples run_metric 7 8 self (msamples m) p (keys (msamples m)) w);
       if r \<noteq> 0 then Some (r, self, w)
       else on_builder (\<lambda>b w. do {
         (r, b, w) \<leftarrow> psb_add_char b (CHR 0x0A) w;
         Some (if r \<noteq> 0 then 9 else 0, b, w) }) self w } })"

section \<open>What a formatter has written\<close>

definition appended :: "pmf \<Rightarrow> 'z mem_scheme \<Rightarrow> string \<Rightarrow> pmf \<Rightarrow> 'z mem_scheme \<Rightarrow> bool" where
  "appended f w t f' w' \<longleftrightarrow> psb_ok (string_builder f') \<and> grown w w' \<and> oom w' = [] \<and>
     content (string_builder f') = content (string_builder f) @ t"

lemma appended_refl: "psb_ok (string_builder f) \<Longrightarrow> oom w = [] \<Longrightarrow> appended f w [] f w"
  by (simp add: appended_def)

lemma appended_trans: "appended f u s g v \<Longrightarrow> appended g v t h w \<Longrightarrow> appended f u (s @ t) h w"
  by (auto simp: appended_def intro: grown_trans)

lemma appended_world:
  assumes "appended f w t f' w'"
  shows "strs w' = strs w" "mem.more w' = mem.more w" "mem_ok w \<Longrightarrow> mem_ok w'" "oom w' = []" "psb_ok (string_builder f')"
  using assms grown_strs grown_more grown_mem_ok by (auto simp: appended_def)

definition room_for :: "pmf \<Rightarrow> string \<Rightarrow> bool" where
  "room_for f t \<longleftrightarrow> length (content (string_builder f)) + length t < psb_limit"

lemma room_step: "appended f w s f' w' \<Longrightarrow> room_for f (s @ t) \<Longrightarrow> room_for f' t"
  by (simp add: appended_def room_for_def)

lemma room_prefix: "room_for f (s @ t) \<Longrightarrow> room_for f s"
  by (simp add: room_for_def)

text \<open>A routine on the builder that writes a text appends it while memory is available.\<close>

lemma on_builder_writes:
  assumes wr: "psb.writes g t" and ok: "psb_ok (string_builder f)" "mem_ok w" "oom w = []" and room: "room_for f t"
  shows "\<exists>f' w'. on_builder g (Some f) w = Some (0, Some f', w') \<and> appended f w t f' w'"
proof -
  have "length (content (string_builder f)) + length t < psb_limit" using room by (simp add: room_for_def)
  from psb.writesE [OF wr ok(1,2) this] ok(3) obtain b w' where
    "g (string_builder f) w = Some (0, b, w')" "psb_ok b" "grown w w'" "content b = content (string_builder f) @ t" "oom w' = []"
    by (metis append_Nil2)
  then show ?thesis
    by (intro exI [of _ "f\<lparr>string_builder := b\<rparr>"] exI [of _ w']) (simp add: on_builder_def appended_def)
qed

definition sample_shows :: "'z sworld \<Rightarrow> addr \<Rightarrow> string \<Rightarrow> double \<Rightarrow> bool" where
  "sample_shows w a t x \<longleftrightarrow> a \<noteq> NULL \<and> (\<exists>s. samples w a = Some s \<and> r_value s = x \<and> load_opt (l_value s) w = Some (Some t))"

lemma load_sample_ok:
  assumes ok: "psb_ok (string_builder f)" "mem_ok w" "oom w = []" and s: "sample_shows w a t x"
    and room: "room_for f (sample_text p (Some t) x)"
  shows "\<exists>f' w'. pmf_load_sample (Some f) a p w = Some (0, Some f', w') \<and>
    appended f w (sample_text p (Some t) x) f' w'"
proof -
  obtain s where s: "samples w a = Some s" "r_value s = x" "load_opt (l_value s) w = Some (Some t)"
    using s by (auto simp: sample_shows_def)
  have "length (content (string_builder f)) + length (sample_text p (Some t) x) < psb_limit"
    using room by (simp add: room_for_def)
  from sample_line_writes [OF ok(1,2) this] ok(3) obtain b w' where
    "sample_line p (Some t) x (string_builder f) w = Some (0, b, w')" "psb_ok b" "grown w w'"
    "content b = content (string_builder f) @ sample_text p (Some t) x" "oom w' = []"
    by metis
  then show ?thesis using s
    by (intro exI [of _ "f\<lparr>string_builder := b\<rparr>"] exI [of _ w'])
      (simp add: pmf_load_sample_def on_builder_def appended_def)
qed

lemma appended_brk: "appended f w t f' w' \<Longrightarrow> b \<le> brk w \<Longrightarrow> w = v\<lparr>brk := brk w\<rparr> \<Longrightarrow> brk v = b \<Longrightarrow> appended f v t f' w'"
  by (auto simp: appended_def intro: grown_trans grown_upd)

section \<open>The samples of a map\<close>

text \<open>The key of a map at address \<open>k\<close> names a sample that is written as \<open>t\<close> and \<open>x\<close>.\<close>

definition key_shows :: "'z sworld \<Rightarrow> pmap \<Rightarrow> addr \<Rightarrow> string \<times> double \<Rightarrow> bool" where
  "key_shows w sm k = (\<lambda>(t, x). \<exists>key a. strs w k = Some key \<and> lookup_map w sm key = Some a \<and> sample_shows w a t x)"

definition samples_text :: "string option \<Rightarrow> (string \<times> double) list \<Rightarrow> string" where
  "samples_text p txs = concat (map (\<lambda>(t, x). sample_text p (Some t) x) txs)"

lemma load_opt_strs: "strs w' = strs w \<Longrightarrow> load_opt a w' = load_opt a w"
  by (simp add: load_opt_def load_str_def)

lemma key_shows_cong:
  fixes w w' :: "'z mworld"
  assumes "strs w' = strs w" "mem.more w' = mem.more w"
  shows "key_shows w' sm = key_shows w sm"
  using lookup_strs [OF assms(1)] assms(1) more_metrics(1) [OF assms(2)]
  by (simp add: key_shows_def sample_shows_def load_opt_def load_str_def fun_eq_iff)

lemma load_samples_ok:
  fixes w :: "'z mworld"
  assumes "psb_ok (string_builder f)" "mem_ok w" "oom w = []" "map_ok sm w"
    "list_all2 (key_shows w sm) ks txs" "room_for f (samples_text p txs)"
  shows "\<exists>f' w'. load_samples run e1 e2 (Some f) sm p ks w = Some (0, Some f', w') \<and>
    appended f w (samples_text p txs) f' w'"
  using assms
proof (induction txs arbitrary: f w ks)
  case Nil
  then show ?case by (auto simp: samples_text_def intro: appended_refl)
next
  case (Cons tx txs)
  obtain t x where tx: "tx = (t, x)" by (cases tx)
  obtain k ks' where k: "ks = k # ks'" "key_shows w sm k tx" "list_all2 (key_shows w sm) ks' txs"
    using Cons.prems(5) by (auto simp: list_all2_Cons2)
  obtain key a where key: "strs w k = Some key" "lookup_map w sm key = Some a" "sample_shows w a t x"
    using k(2) tx by (auto simp: key_shows_def)
  let ?w1 = "w\<lparr>brk := Suc (Suc (brk w))\<rparr>"
  have g: "prom_map_get run sm (Some key) w = Some (a, ?w1)"
    using get_map_ok [OF Cons.prems(4,2,3), of run key] key(2) by simp
  have s1: "sample_shows ?w1 a t x" using key(3) load_opt_strs [of ?w1 w] by (simp add: sample_shows_def)
  have a: "a \<noteq> NULL" using key(3) by (simp add: sample_shows_def)
  have txt_eq: "samples_text p (tx # txs) = sample_text p (Some t) x @ samples_text p txs"
    by (simp add: samples_text_def tx)
  have m1: "mem_ok ?w1" "oom ?w1 = []" using Cons.prems(2,3) by (simp_all add: mem_ok_brk)
  obtain f2 w2 where 2: "pmf_load_sample (Some f) a p ?w1 = Some (0, Some f2, w2)"
      "appended f ?w1 (sample_text p (Some t) x) f2 w2"
    using load_sample_ok [OF Cons.prems(1) m1 s1] room_prefix Cons.prems(6) txt_eq by metis
  have app: "appended f w (sample_text p (Some t) x) f2 w2"
    using 2(2) grown_trans [OF grown_upd, of w "Suc (Suc (brk w))" w2] by (simp add: appended_def)
  note w2 = appended_world [OF app]
  have "list_all2 (key_shows w2 sm) ks' txs" using k(3) key_shows_cong [OF w2(1,2)] by simp
  moreover have "map_ok sm w2" using Cons.prems(4) map_ok_strs [OF w2(1)] by simp
  ultimately obtain f' w' where 3: "load_samples run e1 e2 (Some f2) sm p ks' w2 = Some (0, Some f', w')"
      "appended f2 w2 (samples_text p txs) f' w'"
    using Cons.IH [OF w2(5) w2(3) w2(4)] Cons.prems(2,6) room_step [OF app] txt_eq by metis
  have "load_samples run e1 e2 (Some f) sm p ks w = Some (0, Some f', w')"
    using k(1) key(1) g a 2(1) 3(1) by (simp add: load_str_def)
  then show ?case using appended_trans [OF app 3(2)] txt_eq by auto
qed

section \<open>Labelled histograms\<close>

definition histogram_shows :: "'z mworld \<Rightarrow> pmap \<Rightarrow> addr \<Rightarrow> (string \<times> double) list \<Rightarrow> bool" where
  "histogram_shows w sm k txs \<longleftrightarrow> (\<exists>key a h. strs w k = Some key \<and> lookup_map w sm key = Some a \<and> a \<noteq> NULL \<and>
     hists w a = Some h \<and> map_ok (hsamples h) w \<and> list_all2 (key_shows w (hsamples h)) (l_value_list h) txs)"

lemma histogram_shows_cong:
  fixes w w' :: "'z mworld"
  assumes "strs w' = strs w" "mem.more w' = mem.more w"
  shows "histogram_shows w' sm = histogram_shows w sm"
proof (intro ext)
  fix k txs
  show "histogram_shows w' sm k txs = histogram_shows w sm k txs"
    using lookup_strs [OF assms(1)] assms(1) more_metrics(3) [OF assms(2)] key_shows_cong [OF assms] map_ok_strs [OF assms(1)]
    by (simp add: histogram_shows_def)
qed

lemma load_histograms_ok:
  fixes w :: "'z mworld"
  assumes "psb_ok (string_builder f)" "mem_ok w" "oom w = []" "map_ok sm w"
    "list_all2 (histogram_shows w sm) ks hs" "room_for f (samples_text p (concat hs))"
  shows "\<exists>f' w'. load_histograms (Some f) sm p ks w = Some (0, Some f', w') \<and>
    appended f w (samples_text p (concat hs)) f' w'"
  using assms
proof (induction hs arbitrary: f w ks)
  case Nil
  then show ?case by (auto simp: samples_text_def intro: appended_refl)
next
  case (Cons txs hs)
  obtain k ks' where k: "ks = k # ks'" "histogram_shows w sm k txs" "list_all2 (histogram_shows w sm) ks' hs"
    using Cons.prems(5) by (auto simp: list_all2_Cons2)
  obtain key a h where key: "strs w k = Some key" "lookup_map w sm key = Some a" "a \<noteq> NULL" "hists w a = Some h"
      "map_ok (hsamples h) w" "list_all2 (key_shows w (hsamples h)) (l_value_list h) txs"
    using k(2) by (auto simp: histogram_shows_def)
  let ?w1 = "w\<lparr>brk := Suc (Suc (brk w))\<rparr>"
  have g: "prom_map_get run_metric sm (Some key) w = Some (a, ?w1)"
    using get_map_ok [OF Cons.prems(4,2,3), of run_metric key] key(2) by simp
  have txt_eq: "samples_text p (concat (txs # hs)) = samples_text p txs @ samples_text p (concat hs)"
    by (simp add: samples_text_def)
  have "mem.more ?w1 = mem.more w" by simp
  then have w1: "mem_ok ?w1" "oom ?w1 = []" "map_ok (hsamples h) ?w1"
      "list_all2 (key_shows ?w1 (hsamples h)) (l_value_list h) txs"
    using Cons.prems(2,3) map_ok_strs [of ?w1 w] key(5,6) key_shows_cong [of ?w1 w] by (simp_all add: mem_ok_brk)
  obtain f2 w2 where 2: "load_samples run_sample 5 6 (Some f) (hsamples h) p (l_value_list h) ?w1 = Some (0, Some f2, w2)"
      "appended f ?w1 (samples_text p txs) f2 w2"
    using load_samples_ok [OF Cons.prems(1) w1] room_prefix Cons.prems(6) txt_eq by metis
  have app: "appended f w (samples_text p txs) f2 w2"
    using 2(2) grown_trans [OF grown_upd, of w "Suc (Suc (brk w))" w2] by (simp add: appended_def)
  note w2 = appended_world [OF app]
  have "list_all2 (histogram_shows w2 sm) ks' hs" using k(3) histogram_shows_cong [OF w2(1,2)] by simp
  moreover have "map_ok sm w2" using Cons.prems(4) map_ok_strs [OF w2(1)] by simp
  ultimately obtain f' w' where 3: "load_histograms (Some f2) sm p ks' w2 = Some (0, Some f', w')"
      "appended f2 w2 (samples_text p (concat hs)) f' w'"
    using Cons.IH [OF w2(5) w2(3) w2(4)] Cons.prems(2,6) room_step [OF app] txt_eq by metis
  have "load_histograms (Some f) sm p ks w = Some (0, Some f', w')"
    using k(1) key(1,3,4) g 2(1) 3(1) by (simp add: load_str_def)
  then show ?case using appended_trans [OF app 3(2)] txt_eq by auto
qed

section \<open>The text of a metric\<close>

definition metric_shows :: "'z mworld \<Rightarrow> metric \<Rightarrow> (string \<times> double) list \<Rightarrow> bool" where
  "metric_shows w m txs \<longleftrightarrow> map_ok (msamples m) w \<and>
     (if mtype m = PROM_HISTOGRAM
      then \<exists>hs. list_all2 (histogram_shows w (msamples m)) (keys (msamples m)) hs \<and> txs = concat hs
      else list_all2 (key_shows w (msamples m)) (keys (msamples m)) txs)"

definition metric_head :: "string option \<Rightarrow> metric \<Rightarrow> string" where
  "metric_head p m = (case mhelp m of None \<Rightarrow> [] | Some h \<Rightarrow> help_text p (mname m) h) @ type_text p (mname m) (mtype m)"

definition metric_text :: "string option \<Rightarrow> bool \<Rightarrow> metric \<Rightarrow> (string \<times> double) list \<Rightarrow> string" where
  "metric_text p is_compact m txs = (if is_compact then [] else metric_head p m) @ samples_text p txs @ [CHR 0x0A]"

lemma load_head_ok:
  fixes w :: "'z mworld"
  assumes ok: "psb_ok (string_builder f)" "mem_ok w" "oom w = []" and room: "room_for f (metric_head p m)"
  shows "\<exists>f' w'. load_head (Some f) p m w = Some (0, Some f', w') \<and> appended f w (metric_head p m) f' w'"
proof -
  have "\<exists>f1 w1. pmf_load_help (Some f) p (mname m) (mhelp m) w = Some (0, Some f1, w1) \<and>
      appended f w (case mhelp m of None \<Rightarrow> [] | Some h \<Rightarrow> help_text p (mname m) h) f1 w1"
  proof (cases "mhelp m")
    case None
    then show ?thesis using ok appended_refl [of f w] by (simp add: pmf_load_help_def on_builder_def)
  next
    case (Some h)
    have "room_for f (help_text p (mname m) h)" using room Some by (simp add: metric_head_def room_for_def)
    from on_builder_writes [OF help_line_writes ok this] show ?thesis
      using Some by (simp add: pmf_load_help_def)
  qed
  then obtain f1 w1 where 1: "pmf_load_help (Some f) p (mname m) (mhelp m) w = Some (0, Some f1, w1)"
      "appended f w (case mhelp m of None \<Rightarrow> [] | Some h \<Rightarrow> help_text p (mname m) h) f1 w1"
    by blast
  note w1 = appended_world [OF 1(2)]
  have "room_for f1 (type_text p (mname m) (mtype m))"
    using room_step [OF 1(2)] room by (simp add: metric_head_def)
  from on_builder_writes [OF type_line_writes w1(5) w1(3) [OF ok(2)] w1(4) this] obtain f2 w2 where
    2: "pmf_load_type (Some f1) p (mname m) (mtype m) w1 = Some (0, Some f2, w2)"
      "appended f1 w1 (type_text p (mname m) (mtype m)) f2 w2"
    by (auto simp: pmf_load_type_def)
  have "load_head (Some f) p m w = Some (0, Some f2, w2)" using 1(1) 2(1) by (simp add: load_head_def)
  then show ?thesis using appended_trans [OF 1(2) 2(2)] by (auto simp: metric_head_def)
qed

lemma metric_shows_cong:
  fixes w w' :: "'z mworld"
  assumes "strs w' = strs w" "mem.more w' = mem.more w"
  shows "metric_shows w' m txs = metric_shows w m txs"
  using key_shows_cong [OF assms] histogram_shows_cong [OF assms] map_ok_strs [OF assms(1)]
  by (simp add: metric_shows_def)

lemma load_body_ok:
  fixes w :: "'z mworld"
  assumes ok: "psb_ok (string_builder f)" "mem_ok w" "oom w = []"
    and sh: "metric_shows w m txs" and room: "room_for f (samples_text p txs)"
  shows "\<exists>f' w'. (if mtype m = PROM_HISTOGRAM then load_histograms (Some f) (msamples m) p (keys (msamples m)) w
      else load_samples run_metric 7 8 (Some f) (msamples m) p (keys (msamples m)) w) = Some (0, Some f', w') \<and>
    appended f w (samples_text p txs) f' w'"
proof (cases "mtype m = PROM_HISTOGRAM")
  case True
  then obtain hs where "map_ok (msamples m) w" "list_all2 (histogram_shows w (msamples m)) (keys (msamples m)) hs"
      "txs = concat hs"
    using sh by (auto simp: metric_shows_def)
  then show ?thesis using load_histograms_ok [OF ok, of "msamples m" "keys (msamples m)" hs p] room True by simp
next
  case False
  then have "map_ok (msamples m) w" "list_all2 (key_shows w (msamples m)) (keys (msamples m)) txs"
    using sh by (simp_all add: metric_shows_def)
  from load_samples_ok [OF ok this room] show ?thesis using False by simp
qed

lemma load_metric_ok:
  fixes w :: "'z mworld"
  assumes ok: "psb_ok (string_builder f)" "mem_ok w" "oom w = []" and m: "metrics w a = Some m"
    and sh: "metric_shows w m txs" and p: "prefix \<noteq> Some []" and room: "room_for f (metric_text prefix is_compact m txs)"
  shows "\<exists>f' w'. pmf_load_metric (Some f) a prefix is_compact w = Some (0, Some f', w') \<and>
    appended f w (metric_text prefix is_compact m txs) f' w'"
proof -
  let ?h = "if is_compact then [] else metric_head prefix m"
  have txt_eq: "metric_text prefix is_compact m txs = ?h @ samples_text prefix txs @ [CHR 0x0A]" by (simp add: metric_text_def)
  have "room_for f ?h" using room txt_eq room_prefix by metis
  then obtain f1 w1 where 1: "(if is_compact then Some (0, Some f, w) else load_head (Some f) prefix m w) = Some (0, Some f1, w1)"
      "appended f w ?h f1 w1"
    using load_head_ok [OF ok, of prefix m] appended_refl [OF ok(1,3)] by (cases is_compact) auto
  note w1 = appended_world [OF 1(2)]
  have r1: "room_for f1 (samples_text prefix txs @ [CHR 0x0A])" using room_step [OF 1(2)] room txt_eq by metis
  have sh1: "metric_shows w1 m txs" using sh metric_shows_cong [OF w1(1,2)] by simp
  obtain f2 w2 where 2: "(if mtype m = PROM_HISTOGRAM
        then load_histograms (Some f1) (msamples m) prefix (keys (msamples m)) w1
        else load_samples run_metric 7 8 (Some f1) (msamples m) prefix (keys (msamples m)) w1) = Some (0, Some f2, w2)"
      "appended f1 w1 (samples_text prefix txs) f2 w2"
    using load_body_ok [OF w1(5) w1(3) [OF ok(2)] w1(4) sh1 room_prefix [OF r1]] by blast
  note w2 = appended_world [OF 2(2)]
  let ?fin = "\<lambda>b (w :: 'z mworld). do { (r, b, w) \<leftarrow> psb_add_char b (CHR 0x0A) w; Some (if r \<noteq> 0 then 9 else 0 :: int, b, w) }"
  have "psb.writes ?fin [CHR 0x0A]" by (intro writes_steps) simp_all
  from on_builder_writes [OF this w2(5) w2(3) [OF w1(3) [OF ok(2)]] w2(4) room_step [OF 2(2) r1]] obtain f3 w3 where
    3: "on_builder ?fin (Some f2) w2 = Some (0, Some f3, w3)" "appended f2 w2 [CHR 0x0A] f3 w3"
    by blast
  have "pmf_load_metric (Some f) a prefix is_compact w = Some (0, Some f3, w3)"
    using m p 1(1) 2(1) 3(1) by (simp add: pmf_load_metric_def)
  then show ?thesis
    using appended_trans [OF appended_trans [OF 1(2) 2(2)] 3(2)] txt_eq by auto
qed

section \<open>Properties\<close>

text \<open>C7. \<open>pmf_load_metric\<close> writes the help and type lines (unless \<open>compact\<close>), then one line
  for each sample of the metric in the order of its list of keys (for a
  histogram those of each labelled histogram in its own order), then an empty line; it
  changes nothing but the formatter.\<close>

theorem pmf_load_metric_text:
  fixes w :: "'z mworld"
  assumes "psb_ok (string_builder f)" "mem_ok w" "oom w = []" "metrics w a = Some m" "metric_shows w m txs"
    and "prefix \<noteq> Some []" "room_for f (metric_text prefix is_compact m txs)"
  shows "\<exists>f' w'. pmf_load_metric (Some f) a prefix is_compact w = Some (0, Some f', w') \<and> grown w w' \<and>
    content (string_builder f') = content (string_builder f) @ metric_text prefix is_compact m txs"
proof -
  obtain f' w' where "pmf_load_metric (Some f) a prefix is_compact w = Some (0, Some f', w')"
      "appended f w (metric_text prefix is_compact m txs) f' w'"
    using load_metric_ok [OF assms] by blast
  then show ?thesis by (auto simp: appended_def)
qed

text \<open>A gauge with one sample, kept in the map of one entry.\<close>

definition one_gauge :: metric where
  "one_gauge = \<lparr>mtype = PROM_GAUGE, mname = ''abc'', mhelp = Some ''h'', msamples = fst map1, mbuckets = NULL,
     label_key_count = 0, mformatter = fresh_pmf, mlock = False, label_keys = []\<rparr>"

definition gauge_world :: mmem where
  "gauge_world = \<lparr>strs = strs (snd map1), brk = brk (snd map1) + 9, oom = [],
     samples = [7 \<mapsto> \<lparr>stype = PROM_GAUGE, l_value = hd (keys (fst map1)), r_value = d_one\<rparr>],
     phbs = Map.empty, default_buckets = NULL, hists = Map.empty, metrics = [7 \<mapsto> one_gauge]\<rparr>"

lemma gauge_world_ok: "mem_ok gauge_world" "oom gauge_world = []" "metric_shows gauge_world one_gauge [(''abc'', d_one)]"
proof -
  let ?m = "fst map1" and ?w = "snd map1"
  show w: "mem_ok gauge_world" "oom gauge_world = []"
    using map1_ok(3) by (auto simp: gauge_world_def mem_ok_def)
  have "length (entries (addrs ?m)) = 1" using map1_ok(5) by (simp add: map_count_def)
  then obtain n where n: "entries (addrs ?m) = [n]" by (metis One_nat_def length_0_conv length_Suc_conv)
  have k: "keys ?m = [mkey n]" using map1_ok(2) n by (simp add: keys_ok_def)
  have "lookup_map ?w ?m ''abc'' = Some 7" by (simp add: map1_ok(7))
  then have s: "strs ?w (mkey n) = Some ''abc''"
    using n by (auto simp: lookup_map_def tlookup_def pairs_def split: if_splits)
  have st: "strs gauge_world = strs ?w" by (simp add: gauge_world_def)
  have "map_ok ?m gauge_world"
    using map1_ok(1) by (simp add: map_ok_def tab_ok_def in_bucket_def st)
  moreover have "lookup_map gauge_world ?m = lookup_map ?w ?m"
    by (simp add: lookup_map_def tlookup_def pairs_def st fun_eq_iff)
  moreover have "mkey n \<noteq> NULL" using s mem_ok_live [OF map1_ok(3)] by simp
  ultimately show "metric_shows gauge_world one_gauge [(''abc'', d_one)]"
    using k s by (simp add: metric_shows_def one_gauge_def key_shows_def sample_shows_def map1_ok(7) load_opt_def
        load_str_def gauge_world_def)
qed

theorem pmf_load_metric_text_witness:
  "\<exists>f' w'. pmf_load_metric (Some fresh_pmf) 7 (Some ''p_'') False gauge_world = Some (0, Some f', w') \<and>
    content (string_builder f') = ''# HELP p_abc h'' @ [CHR 0x0A] @ ''# TYPE p_abc gauge'' @ [CHR 0x0A] @
      ''p_abc 1'' @ [CHR 0x0A, CHR 0x0A]"
proof -
  have one: "fmt_g17 d_one = ''1''" by (simp add: dbl_simps d_one_def)
  have t: "metric_text (Some ''p_'') False one_gauge [(''abc'', d_one)] =
      ''# HELP p_abc h'' @ [CHR 0x0A] @ ''# TYPE p_abc gauge'' @ [CHR 0x0A] @ ''p_abc 1'' @ [CHR 0x0A, CHR 0x0A]"
    by (simp add: metric_text_def metric_head_def help_text_def type_text_def samples_text_def sample_text_def
        opt_str_def one one_gauge_def)
  have "psb_ok (string_builder fresh_pmf)" "metrics gauge_world 7 = Some one_gauge" "content (string_builder fresh_pmf) = []"
    by (simp_all add: fresh_pmf_def gauge_world_def)
  moreover have "room_for fresh_pmf (metric_text (Some ''p_'') False one_gauge [(''abc'', d_one)])"
    unfolding t by (simp add: room_for_def fresh_pmf_def psb_limit_def)
  ultimately show ?thesis
    using pmf_load_metric_text [OF _ gauge_world_ok(1,2) _ gauge_world_ok(3), of fresh_pmf 7 "Some ''p_''" False]
    unfolding t by fastforce
qed

end
