(* ===== verification/Registry.thy ===== *)
theory Registry
  imports ProcessCollector Exposition
begin

text \<open>
  \<open>lib/prom/src/prom_collector_registry.c\<close>, with \<open>pmf_load_metrics\<close> of
  \<open>prom_metric_formatter.c\<close>, which walks the collectors of a registry. \<open>pcr_bridge\<close> is what
  answers a scrape.
\<close>

section \<open>Data\<close>

definition PROM_PROCESS :: u32 where "PROM_PROCESS = 1"
definition PROM_SCRAPETIME :: u32 where "PROM_SCRAPETIME = 2"
definition PROM_SCRAPETIME_ALL :: u32 where "PROM_SCRAPETIME_ALL = 4"
definition PROM_COMPACT :: u32 where "PROM_COMPACT = 8"

lemmas feature_defs = PROM_PROCESS_def PROM_SCRAPETIME_def PROM_SCRAPETIME_ALL_def PROM_COMPACT_def

definition has :: "u32 \<Rightarrow> u32 \<Rightarrow> bool" where
  "has features flag \<longleftrightarrow> and features flag \<noteq> 0"

record pcr =
  rname :: addr
  mprefix :: addr
  features :: u32
  scrape_duration :: addr
  rcollectors :: "pmap option"
  rbuilder :: "psb option"
  metric_formatter :: "pmf option"
  rlock :: bool

text \<open>\<open>ticks\<close> counts the calls of \<open>clock_gettime\<close>.\<close>

record rmem = cmem +
  registries :: "addr \<Rightarrow> pcr option"
  PROM_COLLECTOR_REGISTRY :: addr
  ticks :: nat

type_synonym 'z rworld = "'z rmem_scheme"

fun run_registry :: "'z rworld runner" where
  "run_registry Collector_Free v w = prom_collector_free_generic v w"
| "run_registry f v w = run_collector f v w"

definition put_registry :: "addr \<Rightarrow> pcr \<Rightarrow> 'z rworld \<Rightarrow> 'z rworld" where
  "put_registry self r w = w\<lparr>registries := (registries w)(self \<mapsto> r)\<rparr>"

section \<open>Destruction and construction\<close>

definition pcr_destroy :: "addr \<Rightarrow> 'z rworld \<Rightarrow> (int \<times> 'z rworld) option" where
  "pcr_destroy self w = (if self = NULL then Some (0, w)
     else do {
       let w = (if PROM_COLLECTOR_REGISTRY w = self then w\<lparr>PROM_COLLECTOR_REGISTRY := NULL\<rparr> else w);
       p \<leftarrow> registries w self;
       (e1, w) \<leftarrow> prom_map_destroy run_registry (rcollectors p) w;
       (e2, w) \<leftarrow> prom_gauge_destroy (scrape_duration p) w;
       w \<leftarrow> free_str (mprefix p) w;
       w \<leftarrow> free_str (rname p) w;
       Some (e1 + e2 + pmf_destroy (metric_formatter p) + psb_destroy (rbuilder p),
         w\<lparr>registries := (registries w)(self := None)\<rparr>) })"

text \<open>The default collector goes into the map unchecked: it may be NULL, or not be entered.\<close>

definition new_collectors :: "'z rworld \<Rightarrow> (pmap option \<times> 'z rworld) option" where
  "new_collectors w = do {
     (m, w) \<leftarrow> prom_map_new w;
     case m of None \<Rightarrow> Some (None, w)
     | Some m \<Rightarrow> do {
         (c, w) \<leftarrow> prom_collector_new ''default'' w;
         (_, m, w) \<leftarrow> prom_map_set run_registry (snd (prom_map_set_free_value_fn m Collector_Free)) ''default'' c w;
         Some (Some m, w) } }"

definition pcr_new :: "string \<Rightarrow> 'z rworld \<Rightarrow> (addr \<times> 'z rworld) option" where
  "pcr_new name w = (let (self, w) = malloc w in
     if self = NULL then Some (NULL, w)
     else let (n, w) = strdup name w in do {
       (cs, w) \<leftarrow> new_collectors w;
       let (f, w) = pmf_new w;
       let (b, w) = psb_new w;
       let (lock, w) = malloc w;
       if lock = NULL then None
       else do {
         let w = put_registry self \<lparr>rname = n, mprefix = NULL, features = 0, scrape_duration = NULL, rcollectors = cs,
                   rbuilder = b, metric_formatter = f, rlock = False\<rparr> w;
         if n = NULL \<or> cs = None \<or> f = None \<or> b = None
         then do { (_, w) \<leftarrow> pcr_destroy self w; Some (NULL, w) }
         else Some (self, w) } })"

section \<open>Features\<close>

definition collectors_of :: "addr \<Rightarrow> 'z rworld \<Rightarrow> pmap option" where
  "collectors_of self w = do { p \<leftarrow> registries w self; rcollectors p }"

definition put_collectors :: "addr \<Rightarrow> pmap \<Rightarrow> 'z rworld \<Rightarrow> 'z rworld option" where
  "put_collectors self m w = do { p \<leftarrow> registries w self; Some (put_registry self (p\<lparr>rcollectors := Some m\<rparr>) w) }"

definition enable :: "addr \<Rightarrow> u32 \<Rightarrow> 'z rworld \<Rightarrow> 'z rworld option" where
  "enable self flag w = do { p \<leftarrow> registries w self; Some (put_registry self (p\<lparr>features := or (features p) flag\<rparr>) w) }"

text \<open>A failure to enter the collector leaks it.\<close>

definition pcr_enable_process_metrics :: "os \<Rightarrow> addr \<Rightarrow> 'z rworld \<Rightarrow> (int \<times> 'z rworld) option" where
  "pcr_enable_process_metrics env self w = (if self = NULL then Some (0, w)
     else do {
       m \<leftarrow> collectors_of self w;
       (old, w) \<leftarrow> prom_map_get run_registry m (Some ''process'') w;
       if old \<noteq> NULL then Some (1, w) else do {
       (c, w) \<leftarrow> ppc_new env None None 0 [] [] w;
       if c = NULL then Some (2, w) else do {
       (r, m, w) \<leftarrow> prom_map_set run_registry m ''process'' c w;
       w \<leftarrow> put_collectors self m w;
       if r \<noteq> 0 then Some (3, w) else do {
       w \<leftarrow> enable self PROM_PROCESS w;
       Some (0, w) }}}})"

definition pcr_enable_scrape_metrics :: "addr \<Rightarrow> 'z rworld \<Rightarrow> (int \<times> 'z rworld) option" where
  "pcr_enable_scrape_metrics self w = (if self = NULL then Some (1, w)
     else do {
       (g, w) \<leftarrow> prom_gauge_new ''scrape_duration_seconds'' (Some ''Duration of a collector scrape'') 1
                  [Some ''collector''] w;
       if g = NULL then Some (1, w) else do {
       p \<leftarrow> registries w self;
       w \<leftarrow> enable self PROM_SCRAPETIME (put_registry self (p\<lparr>scrape_duration := g\<rparr>) w);
       Some (0, w) }})"

definition pcr_get :: "addr \<Rightarrow> string option \<Rightarrow> 'z rworld \<Rightarrow> (addr \<times> 'z rworld) option" where
  "pcr_get self name w = (if self = NULL \<or> name = None then Some (NULL, w)
     else do { m \<leftarrow> collectors_of self w; prom_map_get run_registry m name w })"

definition pcr_enable_custom_process_metrics :: "os \<Rightarrow> addr \<Rightarrow> string option \<Rightarrow> string option \<Rightarrow> 'z rworld
    \<Rightarrow> (int \<times> 'z rworld) option" where
  "pcr_enable_custom_process_metrics env self limits_path stats_path w = (if self = NULL then Some (1, w)
     else do {
       (old, w) \<leftarrow> pcr_get self (Some ''process'') w;
       if old \<noteq> NULL then Some (1, w) else do {
       (c, w) \<leftarrow> ppc_new env limits_path stats_path 0 [] [] w;
       if c = NULL then Some (1, w) else do {
       m \<leftarrow> collectors_of self w;
       (r, m, w) \<leftarrow> prom_map_set run_registry m ''process'' c w;
       w \<leftarrow> put_collectors self m w;
       if r \<noteq> 0 then do { (_, w) \<leftarrow> prom_collector_destroy c w; Some (1, w) }
       else do { w \<leftarrow> enable self PROM_PROCESS w; Some (0, w) } }}})"

definition pcr_init :: "os \<Rightarrow> u32 \<Rightarrow> string option \<Rightarrow> 'z rworld \<Rightarrow> (int \<times> 'z rworld) option" where
  "pcr_init env fs prefix w = (if PROM_COLLECTOR_REGISTRY w \<noteq> NULL then Some (1, w)
     else do {
       (self, w) \<leftarrow> pcr_new ''default'' w;
       let w = w\<lparr>PROM_COLLECTOR_REGISTRY := self\<rparr>;
       if self = NULL then Some (1, w) else do {
       (e1, w) \<leftarrow> (if has fs PROM_PROCESS then pcr_enable_process_metrics env self w else Some (0, w));
       let fs = (if has fs PROM_SCRAPETIME_ALL then or fs PROM_SCRAPETIME else fs);
       (e2, w) \<leftarrow> (if e1 = 0 \<and> has fs PROM_SCRAPETIME then pcr_enable_scrape_metrics self w else Some (0, w));
       if e1 + e2 \<noteq> 0 then do {
         (_, w) \<leftarrow> pcr_destroy self w;
         Some (e1 + e2, w\<lparr>PROM_COLLECTOR_REGISTRY := NULL\<rparr>) }
       else do {
         w \<leftarrow> (if has fs PROM_SCRAPETIME_ALL then enable self PROM_SCRAPETIME_ALL w else Some w);
         w \<leftarrow> (if has fs PROM_COMPACT then enable self PROM_COMPACT w else Some w);
         let (px, w) = (if prefix = None \<or> prefix = Some [] then (NULL, w) else strdup (the prefix) w);
         p \<leftarrow> registries w self;
         Some (0, put_registry self (p\<lparr>mprefix := px\<rparr>) w) } }})"

definition pcr_default_init :: "os \<Rightarrow> 'z rworld \<Rightarrow> (int \<times> 'z rworld) option" where
  "pcr_default_init env w = pcr_init env (or PROM_PROCESS PROM_SCRAPETIME) (Some ''libprom_'') w"

section \<open>Registration\<close>

definition pcr_register_metric :: "addr \<Rightarrow> 'z rworld \<Rightarrow> (int \<times> 'z rworld) option" where
  "pcr_register_metric metric w = do {
     m \<leftarrow> collectors_of (PROM_COLLECTOR_REGISTRY w) w;
     (c, w) \<leftarrow> prom_map_get run_registry m (Some ''default'') w;
     if c = NULL then Some (1, w) else prom_collector_add_metric c metric w }"

text \<open>\<open>exit (1)\<close> ends the process.\<close>

datatype 'a run = Return 'a | Exit int

definition pcr_must_register_metric :: "addr \<Rightarrow> 'z rworld \<Rightarrow> (addr run \<times> 'z rworld) option" where
  "pcr_must_register_metric metric w = do {
     (r, w) \<leftarrow> pcr_register_metric metric w;
     Some (if r \<noteq> 0 then Exit 1 else Return metric, w) }"

text \<open>The lock is taken, and released at \<open>end\<close>; \<open>rlock\<close> is written back as it was found.\<close>

definition pcr_register_collector :: "addr \<Rightarrow> addr \<Rightarrow> 'z rworld \<Rightarrow> (int \<times> 'z rworld) option" where
  "pcr_register_collector self collector w = (if self = NULL then Some (1, w)
     else do {
       p \<leftarrow> registries w self;
       let (r, l) = wrlock (rlock p);
       if r \<noteq> 0 then Some (2, w) else do {
       c \<leftarrow> collectors w collector;
       name \<leftarrow> load_str (cname c) w;
       m \<leftarrow> rcollectors p;
       (old, w) \<leftarrow> prom_map_get run_registry m (Some name) w;
       (ret, m, w) \<leftarrow> (if old \<noteq> NULL then Some (1, m, w)
          else do { (r, m, w) \<leftarrow> prom_map_set run_registry m name collector w; Some (if r \<noteq> 0 then 1 else 0, m, w) });
       let (r, l) = rwunlock l;
       let w = put_registry self (p\<lparr>rcollectors := Some m, rlock := l\<rparr>) w;
       Some (if r \<noteq> 0 then 1 else ret, w) }})"

section \<open>Names\<close>

text \<open>
  The two regular expressions are POSIX basic ones made of an anchored sequence of bracket
  expressions, some of them starred. They are compiled and matched here as \<open>regcomp\<close> and
  \<open>regexec\<close> do.
\<close>

fun bracket_members :: "string \<Rightarrow> string" where
  "bracket_members (a # m # b # cs) =
     (if m = CHR ''-'' then map char_of [(of_char a :: nat)..<of_char b + 1] @ bracket_members cs
      else a # bracket_members (m # b # cs))"
| "bracket_members cs = cs"

text \<open>A bracket expression and whether it is starred.\<close>

type_synonym re_item = "string \<times> bool"

text \<open>After \<open>^\<close>; the first argument collects the bracket expression being read.\<close>

fun re_items :: "string option \<Rightarrow> string \<Rightarrow> re_item list option" where
  "re_items None [] = None"
| "re_items (Some b) [] = None"
| "re_items (Some b) (c # cs) =
     (if c = CHR '']'' then
        (case cs of d # ds \<Rightarrow> if d = CHR ''*'' then map_option (\<lambda>r. (bracket_members b, True) # r) (re_items None ds)
            else map_option (\<lambda>r. (bracket_members b, False) # r) (re_items None cs)
         | [] \<Rightarrow> None)
      else re_items (Some (b @ [c])) cs)"
| "re_items None (c # cs) = (if c = CHR ''['' then re_items (Some []) cs
     else if c = CHR ''$'' \<and> cs = [] then Some [] else None)"

definition regcomp :: "string \<Rightarrow> re_item list option" where
  "regcomp re = (case re of c # cs \<Rightarrow> if c = CHR ''^'' then re_items None cs else None | [] \<Rightarrow> None)"

function (sequential) re_match :: "re_item list \<Rightarrow> string \<Rightarrow> bool" where
  "re_match [] s = (s = [])"
| "re_match ((b, False) # r) [] = False"
| "re_match ((b, False) # r) (c # s) = (c \<in> set b \<and> re_match r s)"
| "re_match ((b, True) # r) [] = re_match r []"
| "re_match ((b, True) # r) (c # s) = (re_match r (c # s) \<or> (c \<in> set b \<and> re_match ((b, True) # r) s))"
  by pat_completeness auto
termination by (relation "measure (\<lambda>(r, s). length r + length s)") auto

definition pcr_check_name :: "string \<Rightarrow> bool \<Rightarrow> int" where
  "pcr_check_name name is_label =
     (case regcomp (if is_label then ''^[a-zA-Z_][a-zA-Z0-9_]*$'' else ''^[a-zA-Z_:][a-zA-Z0-9_:]*$'') of
        None \<Rightarrow> 1 | Some r \<Rightarrow> if re_match r name then 0 else 1)"

definition pcr_validate_metric_name :: "addr \<Rightarrow> string \<Rightarrow> int" where
  "pcr_validate_metric_name self metric_name = pcr_check_name metric_name False"

section \<open>Scraping\<close>

definition clock_gettime :: "os \<Rightarrow> 'z rworld \<Rightarrow> (int \<times> int) option \<times> 'z rworld" where
  "clock_gettime env w = (os_clock env (ticks w), w\<lparr>ticks := Suc (ticks w)\<rparr>)"

text \<open>
  The seconds from \<open>start\<close> to \<open>finish\<close>, 0 when the second reading failed. A failed first
  reading leaves its variable unset, which is undefined to use.
\<close>

definition scrape_seconds :: "(int \<times> int) option \<Rightarrow> (int \<times> int) option \<Rightarrow> double option" where
  "scrape_seconds start finish = (case finish of None \<Rightarrow> Some (dadd (d_of_int 0) (dmul (d_of_int 0) (d_lit 1 (10 ^ 9))))
     | Some (s, ns) \<Rightarrow> (case start of None \<Rightarrow> None
         | Some (s0, ns0) \<Rightarrow> Some (dadd (d_of_int (s - s0)) (dmul (d_of_int (ns - ns0)) (d_lit 1 (10 ^ 9))))))"

definition call_collect :: "os \<Rightarrow> addr \<Rightarrow> 'z cworld \<Rightarrow> (pmap option \<times> 'z cworld) option" where
  "call_collect env self w = do {
     c \<leftarrow> collectors w self;
     case collect c of No_Collect_Fn \<Rightarrow> None
     | Prom_Collector_Metrics_Get \<Rightarrow> prom_collector_metrics_get self w
     | Ppc_Collect \<Rightarrow> ppc_collect env self w }"

text \<open>The inner loop of \<open>pmf_load_metrics\<close>; \<open>r\<close> counts and adds up the failures.\<close>

fun load_metric_keys :: "pmf option \<Rightarrow> pmap \<Rightarrow> string option \<Rightarrow> bool \<Rightarrow> int \<Rightarrow> addr list \<Rightarrow> 'z cworld
    \<Rightarrow> (int \<times> pmf option \<times> 'z cworld) option" where
  "load_metric_keys self ms prefix is_compact r [] w = Some (r, self, w)"
| "load_metric_keys self ms prefix is_compact r (k # ks) w = do {
     name \<leftarrow> load_str k w;
     (metric, w) \<leftarrow> prom_map_get run_collector ms (Some name) w;
     if metric = NULL then load_metric_keys self ms prefix is_compact (r + 1) ks w else do {
     (e, self, w) \<leftarrow> pmf_load_metric self metric prefix is_compact w;
     load_metric_keys self ms prefix is_compact (r + e) ks w }}"

definition time_scrape :: "os \<Rightarrow> addr \<Rightarrow> string \<Rightarrow> (int \<times> int) option \<Rightarrow> 'z rworld \<Rightarrow> 'z rworld option" where
  "time_scrape env scrape_metric label start w = do {
     let (finish, w) = clock_gettime env w;
     d \<leftarrow> scrape_seconds start finish;
     (_, w) \<leftarrow> prom_gauge_set (logging env) scrape_metric d [Some label] w;
     Some w }"

fun load_collectors :: "os \<Rightarrow> pmf option \<Rightarrow> pmap \<Rightarrow> addr \<Rightarrow> string option \<Rightarrow> bool \<Rightarrow> int \<Rightarrow> addr list \<Rightarrow> 'z rworld
    \<Rightarrow> (int \<times> pmf option \<times> 'z rworld) option" where
  "load_collectors env self cs scrape_metric prefix is_compact r [] w = Some (r, self, w)"
| "load_collectors env self cs scrape_metric prefix is_compact r (k # ks) w = do {
     let (start, w) = (if scrape_metric \<noteq> NULL then clock_gettime env w else (None, w));
     name \<leftarrow> load_str k w;
     (c, w) \<leftarrow> prom_map_get run_registry cs (Some name) w;
     if c = NULL then load_collectors env self cs scrape_metric prefix is_compact (r + 1) ks w else do {
     (ms, w) \<leftarrow> call_collect env c w;
     (r, self, w) \<leftarrow> (case ms of None \<Rightarrow> Some (r, self, w)
        | Some ms \<Rightarrow> load_metric_keys self ms prefix is_compact r (keys ms) w);
     w \<leftarrow> (if scrape_metric \<noteq> NULL then time_scrape env scrape_metric name start w else Some w);
     load_collectors env self cs scrape_metric prefix is_compact r ks w }}"

definition pmf_load_metrics :: "os \<Rightarrow> pmf option \<Rightarrow> pmap \<Rightarrow> addr \<Rightarrow> string option \<Rightarrow> bool \<Rightarrow> 'z rworld
    \<Rightarrow> (int \<times> pmf option \<times> 'z rworld) option" where
  "pmf_load_metrics env self cs scrape_metric prefix is_compact w =
     load_collectors env self cs scrape_metric prefix is_compact 0 (keys cs) w"

text \<open>
  The result is the address of the text, which the caller frees. A formatter that is NULL is
  undefined in \<open>pmf_clear\<close>.
\<close>

definition pcr_bridge :: "os \<Rightarrow> addr \<Rightarrow> 'z rworld \<Rightarrow> (addr \<times> 'z rworld) option" where
  "pcr_bridge env self w = (if self = NULL then Some (strdup ''# pcr_bridge(NULL)'' w)
     else do {
       p \<leftarrow> registries w self;
       let scrape = scrape_duration p \<noteq> NULL \<and> has (features p) PROM_SCRAPETIME;
       let is_compact = has (features p) PROM_COMPACT;
       let (start, w) = (if scrape then clock_gettime env w else (None, w));
       f \<leftarrow> metric_formatter p;
       let (_, f, w) = pmf_clear f w;
       cs \<leftarrow> rcollectors p;
       prefix \<leftarrow> load_opt (mprefix p) w;
       (_, f, w) \<leftarrow> pmf_load_metrics env (Some f) cs
         (if has (features p) PROM_SCRAPETIME_ALL then scrape_duration p else NULL) prefix is_compact w;
       (f, w) \<leftarrow> (if scrape then do {
           w \<leftarrow> time_scrape env (scrape_duration p) ''libprom'' start w;
           (_, f, w) \<leftarrow> pmf_load_metric f (scrape_duration p) prefix is_compact w;
           Some (f, w) }
         else Some (f, w));
       (a, f, w) \<leftarrow> pmf_dump f w;
       Some (a, put_registry self (p\<lparr>metric_formatter := f\<rparr>) w) })"


section \<open>The text of a scrape\<close>

lemma more_collectors:
  fixes w w' :: "'z rworld"
  assumes "mem.more w' = mem.more w"
  shows "collectors w' = collectors w" "registries w' = registries w"
    "PROM_COLLECTOR_REGISTRY w' = PROM_COLLECTOR_REGISTRY w"
  using assms by (cases w; cases w'; simp)+

text \<open>The key at \<open>k\<close> names a metric that is written as \<open>m\<close> with the samples \<open>txs\<close>.\<close>

definition catalog_shows :: "'z mworld \<Rightarrow> pmap \<Rightarrow> addr \<Rightarrow> metric \<times> (string \<times> double) list \<Rightarrow> bool" where
  "catalog_shows w ms k = (\<lambda>(m, txs). \<exists>name a. strs w k = Some name \<and> lookup_map w ms name = Some a \<and> a \<noteq> NULL \<and>
     metrics w a = Some m \<and> metric_shows w m txs)"

text \<open>The key at \<open>k\<close> names a collector of the plain kind, whose metrics are \<open>mts\<close>.\<close>

definition collector_shows :: "'z cworld \<Rightarrow> pmap \<Rightarrow> addr \<Rightarrow> (metric \<times> (string \<times> double) list) list \<Rightarrow> bool" where
  "collector_shows w cs k mts \<longleftrightarrow> (\<exists>name a c ms. strs w k = Some name \<and> lookup_map w cs name = Some a \<and> a \<noteq> NULL \<and>
     collectors w a = Some c \<and> collect c = Prom_Collector_Metrics_Get \<and> cmetrics c = Some ms \<and> map_ok ms w \<and>
     list_all2 (catalog_shows w ms) (keys ms) mts)"

definition metrics_text :: "string option \<Rightarrow> bool \<Rightarrow> (metric \<times> (string \<times> double) list) list \<Rightarrow> string" where
  "metrics_text p is_compact mts = concat (map (\<lambda>(m, txs). metric_text p is_compact m txs) mts)"

lemma metrics_text_simps [simp]:
  "metrics_text p c [] = []" "metrics_text p c ((m, txs) # mts) = metric_text p c m txs @ metrics_text p c mts"
  "metrics_text p c (xs @ ys) = metrics_text p c xs @ metrics_text p c ys"
  by (simp_all add: metrics_text_def)

lemma catalog_shows_cong:
  fixes w w' :: "'z mworld"
  assumes "strs w' = strs w" "mem.more w' = mem.more w"
  shows "catalog_shows w' ms = catalog_shows w ms"
  using lookup_strs [OF assms(1)] assms(1) more_metrics(5) [OF assms(2)] metric_shows_cong [OF assms]
  by (simp add: catalog_shows_def fun_eq_iff)

lemma collector_shows_cong:
  fixes w w' :: "'z rworld"
  assumes "strs w' = strs w" "mem.more w' = mem.more w"
  shows "collector_shows w' cs = collector_shows w cs"
proof (intro ext)
  fix k mts
  show "collector_shows w' cs k mts = collector_shows w cs k mts"
    using lookup_strs [OF assms(1)] assms(1) more_collectors(1) [OF assms(2)] catalog_shows_cong [OF assms]
      map_ok_strs [OF assms(1)]
    by (simp add: collector_shows_def)
qed

text \<open>A lookup uses up two addresses.\<close>

lemma appended_skip:
  fixes w :: "'z mem_scheme"
  shows "appended f (w\<lparr>brk := Suc (Suc (brk w))\<rparr>) t f' w' \<Longrightarrow> appended f w t f' w'"
  using grown_trans [OF grown_upd, of w "Suc (Suc (brk w))" w'] by (simp add: appended_def)

lemma load_metric_keys_ok:
  fixes w :: "'z rworld"
  assumes "psb_ok (string_builder f)" "mem_ok w" "oom w = []" "map_ok ms w"
    "list_all2 (catalog_shows w ms) ks mts" "room_for f (metrics_text p is_compact mts)" "p \<noteq> Some []"
  shows "\<exists>f' w'. load_metric_keys (Some f) ms p is_compact r ks w = Some (r, Some f', w') \<and>
    appended f w (metrics_text p is_compact mts) f' w'"
  using assms
proof (induction mts arbitrary: f w ks)
  case Nil
  then show ?case by (auto intro: appended_refl)
next
  case (Cons mt mts)
  obtain m txs where mt: "mt = (m, txs)" by (cases mt)
  obtain k ks' where k: "ks = k # ks'" "catalog_shows w ms k mt" "list_all2 (catalog_shows w ms) ks' mts"
    using Cons.prems(5) by (auto simp: list_all2_Cons2)
  obtain name a where key: "strs w k = Some name" "lookup_map w ms name = Some a" "a \<noteq> NULL" "metrics w a = Some m"
      "metric_shows w m txs"
    using k(2) mt by (auto simp: catalog_shows_def)
  define w1 where "w1 = w\<lparr>brk := Suc (Suc (brk w))\<rparr>"
  have same: "strs w1 = strs w" "mem.more w1 = mem.more w" by (simp_all add: w1_def)
  have g: "prom_map_get run_collector ms (Some name) w = Some (a, w1)"
    using get_map_ok [OF Cons.prems(4,2,3), of run_collector name] key(2) by (simp add: w1_def)
  have m1: "mem_ok w1" "oom w1 = []" using Cons.prems(2,3) by (simp_all add: mem_ok_brk w1_def)
  have sh1: "metrics w1 a = Some m" "metric_shows w1 m txs"
    using key(4,5) more_metrics(5) [OF same(2)] metric_shows_cong [OF same] by simp_all
  have room: "room_for f (metric_text p is_compact m txs)" using Cons.prems(6) room_prefix by (simp add: mt)
  obtain f2 w2 where 2: "pmf_load_metric (Some f) a p is_compact w1 = Some (0, Some f2, w2)"
      "appended f w1 (metric_text p is_compact m txs) f2 w2"
    using load_metric_ok [OF Cons.prems(1) m1 sh1 Cons.prems(7) room] by blast
  have app: "appended f w (metric_text p is_compact m txs) f2 w2" using appended_skip 2(2) by (simp add: w1_def)
  note w2 = appended_world [OF app]
  have "list_all2 (catalog_shows w2 ms) ks' mts" using k(3) catalog_shows_cong [OF w2(1,2)] by simp
  moreover have "map_ok ms w2" using Cons.prems(4) map_ok_strs [OF w2(1)] by simp
  moreover have "room_for f2 (metrics_text p is_compact mts)" using room_step [OF app] Cons.prems(6) by (simp add: mt)
  ultimately obtain f' w' where 3: "load_metric_keys (Some f2) ms p is_compact r ks' w2 = Some (r, Some f', w')"
      "appended f2 w2 (metrics_text p is_compact mts) f' w'"
    using Cons.IH [OF w2(5) w2(3) w2(4)] Cons.prems(2,7) by metis
  have "load_metric_keys (Some f) ms p is_compact r ks w = Some (r, Some f', w')"
    using k(1) key(1,3) g 2(1) 3(1) by (simp add: load_str_def)
  then show ?case using appended_trans [OF app 3(2)] mt by auto
qed

lemma load_collectors_ok:
  fixes w :: "'z rworld"
  assumes "psb_ok (string_builder f)" "mem_ok w" "oom w = []" "map_ok cs w"
    "list_all2 (collector_shows w cs) ks mtss" "room_for f (metrics_text p is_compact (concat mtss))" "p \<noteq> Some []"
  shows "\<exists>f' w'. load_collectors env (Some f) cs NULL p is_compact r ks w = Some (r, Some f', w') \<and>
    appended f w (metrics_text p is_compact (concat mtss)) f' w'"
  using assms
proof (induction mtss arbitrary: f w ks)
  case Nil
  then show ?case by (auto intro: appended_refl)
next
  case (Cons mts mtss)
  obtain k ks' where k: "ks = k # ks'" "collector_shows w cs k mts" "list_all2 (collector_shows w cs) ks' mtss"
    using Cons.prems(5) by (auto simp: list_all2_Cons2)
  obtain name a c ms where key: "strs w k = Some name" "lookup_map w cs name = Some a" "a \<noteq> NULL" "collectors w a = Some c"
      "collect c = Prom_Collector_Metrics_Get" "cmetrics c = Some ms" "map_ok ms w"
      "list_all2 (catalog_shows w ms) (keys ms) mts"
    using k(2) by (auto simp: collector_shows_def)
  define w1 where "w1 = w\<lparr>brk := Suc (Suc (brk w))\<rparr>"
  have same: "strs w1 = strs w" "mem.more w1 = mem.more w" by (simp_all add: w1_def)
  have g: "prom_map_get run_registry cs (Some name) w = Some (a, w1)"
    using get_map_ok [OF Cons.prems(4,2,3), of run_registry name] key(2) by (simp add: w1_def)
  have m1: "mem_ok w1" "oom w1 = []" using Cons.prems(2,3) by (simp_all add: mem_ok_brk w1_def)
  have cc: "call_collect env a w1 = Some (Some ms, w1)"
    using key(4-6) more_collectors(1) [OF same(2)] by (simp add: call_collect_def prom_collector_metrics_get_def)
  have sh: "map_ok ms w1" "list_all2 (catalog_shows w1 ms) (keys ms) mts"
    using key(7,8) map_ok_strs [OF same(1)] catalog_shows_cong [OF same] by simp_all
  have room: "room_for f (metrics_text p is_compact mts)" using Cons.prems(6) room_prefix by simp
  obtain f2 w2 where 2: "load_metric_keys (Some f) ms p is_compact r (keys ms) w1 = Some (r, Some f2, w2)"
      "appended f w1 (metrics_text p is_compact mts) f2 w2"
    using load_metric_keys_ok [OF Cons.prems(1) m1 sh room Cons.prems(7)] by blast
  have app: "appended f w (metrics_text p is_compact mts) f2 w2" using appended_skip 2(2) by (simp add: w1_def)
  note w2 = appended_world [OF app]
  have "list_all2 (collector_shows w2 cs) ks' mtss" using k(3) collector_shows_cong [OF w2(1,2)] by simp
  moreover have "map_ok cs w2" using Cons.prems(4) map_ok_strs [OF w2(1)] by simp
  moreover have "room_for f2 (metrics_text p is_compact (concat mtss))" using room_step [OF app] Cons.prems(6) by simp
  ultimately obtain f' w' where 3: "load_collectors env (Some f2) cs NULL p is_compact r ks' w2 = Some (r, Some f', w')"
      "appended f2 w2 (metrics_text p is_compact (concat mtss)) f' w'"
    using Cons.IH [OF w2(5) w2(3) w2(4)] Cons.prems(2,7) by metis
  have "load_collectors env (Some f) cs NULL p is_compact r ks w = Some (r, Some f', w')"
    using k(1) key(1,3) g cc 2(1) 3(1) by (simp add: load_str_def)
  then show ?case using appended_trans [OF app 3(2)] by auto
qed

end
