(* ===== verification/RegistryUse.thy ===== *)
theory RegistryUse
  imports Registry
begin

text \<open>
  What a registry promises: the name check accepts exactly the names the exposition format
  allows, and the metrics registered with it are a finite map from names to metrics, entered
  by \<open>pcr_register_metric\<close> and listed by \<open>pcr_bridge\<close>.
\<close>

section \<open>Names\<close>

definition in_range :: "char \<Rightarrow> char \<Rightarrow> char \<Rightarrow> bool" where
  "in_range a b c \<longleftrightarrow> (of_char a :: nat) \<le> of_char c \<and> (of_char c :: nat) \<le> of_char b"

definition name_start :: "bool \<Rightarrow> char \<Rightarrow> bool" where
  "name_start is_label c \<longleftrightarrow> in_range CHR ''a'' CHR ''z'' c \<or> in_range CHR ''A'' CHR ''Z'' c \<or> c = CHR ''_'' \<or>
     (c = CHR '':'' \<and> \<not> is_label)"

definition name_char :: "bool \<Rightarrow> char \<Rightarrow> bool" where
  "name_char is_label c \<longleftrightarrow> name_start is_label c \<or> in_range CHR ''0'' CHR ''9'' c"

lemma mem_range: "c \<in> char_of ` {a..<Suc b} \<longleftrightarrow> a \<le> of_char c \<and> of_char c \<le> b" if "b < 256" for a b :: nat
proof
  assume "c \<in> char_of ` {a..<Suc b}"
  then show "a \<le> of_char c \<and> of_char c \<le> b" using that by (auto simp: of_char_of)
next
  assume "a \<le> of_char c \<and> of_char c \<le> b"
  then have "c = char_of (of_char c :: nat)" "(of_char c :: nat) \<in> {a..<Suc b}" by simp_all
  then show "c \<in> char_of ` {a..<Suc b}" by blast
qed

lemma members_range:
  "set (bracket_members (a # CHR ''-'' # b # cs)) = {c. in_range a b c} \<union> set (bracket_members cs)"
proof -
  have "set (map char_of [(of_char a :: nat)..<of_char b + 1]) = {c. in_range a b c}"
    using mem_range [of "of_char b" _ "of_char a"] nat_of_char_less_256 [of b]
    by (auto simp: in_range_def simp del: upt_Suc)
  then show ?thesis by simp
qed

lemma regcomp_name:
  "regcomp ''^[a-zA-Z_][a-zA-Z0-9_]*$'' = Some [(bracket_members ''a-zA-Z_'', False), (bracket_members ''a-zA-Z0-9_'', True)]"
  "regcomp ''^[a-zA-Z_:][a-zA-Z0-9_:]*$'' = Some [(bracket_members ''a-zA-Z_:'', False), (bracket_members ''a-zA-Z0-9_:'', True)]"
  by (simp_all add: regcomp_def del: bracket_members.simps)

lemma members_name:
  "set (bracket_members ''a-zA-Z_'') = {c. name_start True c}" "set (bracket_members ''a-zA-Z0-9_'') = {c. name_char True c}"
  "set (bracket_members ''a-zA-Z_:'') = {c. name_start False c}" "set (bracket_members ''a-zA-Z0-9_:'') = {c. name_char False c}"
  unfolding members_range by (auto simp: name_start_def name_char_def)

lemma match_star: "re_match [(b, True)] s \<longleftrightarrow> set s \<subseteq> set b"
  by (induction s) auto

lemma match_name: "re_match [(a, False), (b, True)] s \<longleftrightarrow> s \<noteq> [] \<and> hd s \<in> set a \<and> set (tl s) \<subseteq> set b"
  by (cases s) (auto simp: match_star)

text \<open>C38. The two regular expressions accept exactly the names of the data model: a letter or
  underscore (for a metric also a colon), then any number of those and digits.\<close>

theorem pcr_check_name_iff:
  "pcr_check_name name is_label = 0 \<longleftrightarrow>
     name \<noteq> [] \<and> name_start is_label (hd name) \<and> list_all (name_char is_label) (tl name)"
  by (cases is_label)
    (auto simp: pcr_check_name_def regcomp_name match_name members_name list_all_iff simp del: bracket_members.simps)


section \<open>Building a registry\<close>

text \<open>The metrics with everything they are made of.\<close>

definition objects :: "'z mworld \<Rightarrow> (addr \<Rightarrow> pms option) \<times> (addr \<Rightarrow> phb option) \<times> (addr \<Rightarrow> pmsh option) \<times> (addr \<Rightarrow> metric option)" where
  "objects w = (samples w, phbs w, hists w, metrics w)"

lemma objects_more: "mem.more w' = mem.more w \<Longrightarrow> objects w' = objects w"
  for w w' :: "'z mworld"
  using more_metrics [of w' w] by (simp add: objects_def)

lemma objectsD: "objects w' = objects w \<Longrightarrow> samples w' = samples w \<and> hists w' = hists w \<and> metrics w' = metrics w"
  by (simp add: objects_def)

lemma objects_upd [simp]:
  "objects (w\<lparr>brk := b\<rparr>) = objects w" "objects (w\<lparr>strs := s\<rparr>) = objects w"
  by (simp_all add: objects_def)

lemma put_registry_simps [simp]:
  fixes w :: "'z rworld"
  shows "strs (put_registry self r w) = strs w" "brk (put_registry self r w) = brk w" "oom (put_registry self r w) = oom w"
    "metrics (put_registry self r w) = metrics w" "collectors (put_registry self r w) = collectors w"
    "registries (put_registry self r w) = (registries w)(self \<mapsto> r)"
    "PROM_COLLECTOR_REGISTRY (put_registry self r w) = PROM_COLLECTOR_REGISTRY w"
    "objects (put_registry self r w) = objects w" "mem_ok (put_registry self r w) = mem_ok w" "map_ok m (put_registry self r w) = map_ok m w"
    "lookup_map (put_registry self r w) m = lookup_map w m"
  using map_ok_strs [of "put_registry self r w" w] lookup_strs [of "put_registry self r w" w]
  by (simp_all add: put_registry_def mem_ok_def objects_def)

lemma put_collector_simps [simp]:
  fixes w :: "'z cworld"
  shows "strs (put_collector self c w) = strs w" "brk (put_collector self c w) = brk w" "oom (put_collector self c w) = oom w"
    "metrics (put_collector self c w) = metrics w" "collectors (put_collector self c w) = (collectors w)(self \<mapsto> c)"
    "objects (put_collector self c w) = objects w"
    "mem_ok (put_collector self c w) = mem_ok w" "map_ok m (put_collector self c w) = map_ok m w"
    "lookup_map (put_collector self c w) m = lookup_map w m"
  using map_ok_strs [of "put_collector self c w" w] lookup_strs [of "put_collector self c w" w]
  by (simp_all add: put_collector_def mem_ok_def objects_def)

lemma put_collector_more [simp]:
  fixes w :: "'z rworld"
  shows "registries (put_collector self c w) = registries w"
    "PROM_COLLECTOR_REGISTRY (put_collector self c w) = PROM_COLLECTOR_REGISTRY w"
  by (simp_all add: put_collector_def)

text \<open>A new collector: its name, an empty map of metrics.\<close>

definition fresh_collector :: "collector \<Rightarrow> pmap \<Rightarrow> 'z mem_scheme \<Rightarrow> bool" where
  "fresh_collector c ms w \<longleftrightarrow> collect c = Prom_Collector_Metrics_Get \<and> cmetrics c = Some ms \<and> map_ok ms w \<and> keys_ok ms \<and>
     lookup_map w ms = Map.empty \<and> map_count ms = 0 \<and> owned ms = {}"

lemma grown_stores: "grown w w' \<Longrightarrow> mem_ok w \<Longrightarrow> oom w = [] \<Longrightarrow> oom w' = [] \<Longrightarrow> stores w Map.empty w'"
  using grown_mem_ok [of w w'] by (cases w; cases w') (auto simp: grown_def stores_def)

lemma collector_new_ok:
  fixes w :: "'z cworld"
  assumes m: "mem_ok w" "oom w = []"
  obtains c ms w' M where "prom_collector_new name w = Some (brk w, put_collector (brk w) c w')" "stores w M w'"
    "fresh_collector c ms w'" "brk w < brk w'"
proof -
  have nz: "(brk w = NULL) = False" using mem_ok_brk_pos [OF m(1)] by simp
  let ?w1 = "w\<lparr>brk := Suc (brk w)\<rparr>"
  have m1: "mem_ok ?w1" "oom ?w1 = []" using m by (simp_all add: mem_ok_brk)
  define n w2 where "n = brk ?w1" and "w2 = ?w1\<lparr>brk := Suc (brk ?w1), strs := (strs ?w1)(brk ?w1 \<mapsto> name)\<rparr>"
  have 2: "strdup name ?w1 = (n, w2)" "stores ?w1 [n \<mapsto> name] w2"
    using stores_strdup [OF m1, of name] by (simp_all add: n_def w2_def)
  obtain ms where ms: "prom_map_new w2 = Some (Some ms, w2\<lparr>brk := brk w2 + 36\<rparr>)" "map_ok ms (w2\<lparr>brk := brk w2 + 36\<rparr>)"
      "keys_ok ms" "lookup_map (w2\<lparr>brk := brk w2 + 36\<rparr>) ms = Map.empty" "map_count ms = 0" "owned ms = {}"
    using new_map_ok [OF storesD(1,2) [OF 2(2)]] by blast
  define w3 where "w3 = w2\<lparr>brk := brk w2 + 36\<rparr>"
  have s3: "stores w2 Map.empty w3" unfolding w3_def by (intro stores_brk storesD [OF 2(2)]) simp
  obtain b w4 where 4: "psb_new w3 = (Some b, w4)" "grown w3 w4" "oom w4 = []"
    using psb_new_ok [OF storesD(2,1) [OF s3]] by blast
  have m4: "mem_ok w4" using 4(2) storesD(1) [OF s3] by (rule grown_mem_ok)
  have s4: "stores w3 Map.empty w4" using grown_stores [OF 4(2) storesD(1,2) [OF s3] 4(3)] .
  let ?ms = "ms\<lparr>free_value_fn := Metric_Free\<rparr>"
  define c where "c = \<lparr>cname = n, cmetrics = Some ?ms, collect = Prom_Collector_Metrics_Get, cbuilder = Some b,
     cdata = NULL, free_data = No_Data_Fn\<rparr>"
  have "prom_collector_new name w = Some (brk w, put_collector (brk w) c w4)"
    using m(2) nz 2(1) ms(1) 4(1)
    by (simp add: prom_collector_new_def malloc_ok prom_map_set_free_value_fn_def c_def w3_def)
  moreover have "stores w ([n \<mapsto> name]) w4"
    using stores_trans [OF stores_trans [OF stores_trans [OF stores_brk [OF m, of "Suc (brk w)"] 2(2)] s3] s4] by simp
  moreover have "strs w4 = strs w3" using 4(2) by (simp add: grown_strs)
  then have "fresh_collector c ?ms w4"
    using ms(2-6) map_ok_strs [of w4 w3] lookup_strs [of w4 w3] by (simp add: fresh_collector_def c_def w3_def)
  moreover have "brk w < brk w4" using storesD(3) [OF 2(2)] storesD(3) [OF s3] storesD(3) [OF s4] by simp
  ultimately show thesis by (rule that)
qed

text \<open>
  The state of a registry at \<open>self\<close>: its map of collectors, whose entry \<open>default\<close> is the
  collector at \<open>d\<close> with the metrics \<open>ms\<close>; the two maps own different strings.
\<close>

definition registry_wf :: "'z rworld \<Rightarrow> addr \<Rightarrow> pcr \<Rightarrow> pmap \<Rightarrow> addr \<Rightarrow> collector \<Rightarrow> pmap \<Rightarrow> bool" where
  "registry_wf w self p cs d c ms \<longleftrightarrow> mem_ok w \<and> oom w = [] \<and> self \<noteq> NULL \<and> PROM_COLLECTOR_REGISTRY w = self \<and>
     registries w self = Some p \<and> rcollectors p = Some cs \<and> map_ok cs w \<and> lookup_map w cs ''default'' = Some d \<and>
     d \<noteq> NULL \<and> collectors w d = Some c \<and> cmetrics c = Some ms \<and> map_ok ms w \<and> owned cs \<inter> owned ms = {} \<and>
     (\<forall>n. lookup_map w ms n \<noteq> Some NULL)"

text \<open>The abstract state: the metrics by name.\<close>

definition catalog :: "'z mem_scheme \<Rightarrow> pmap \<Rightarrow> string \<Rightarrow> addr option" where
  "catalog w ms = lookup_map w ms"

lemma get_skip:
  fixes w :: "'z mem_scheme"
  assumes "map_ok m w" "mem_ok w" "oom w = []"
  shows "prom_map_get run m (Some s) w = Some (case lookup_map w m s of None \<Rightarrow> NULL | Some v \<Rightarrow> v, w\<lparr>brk := Suc (Suc (brk w))\<rparr>)"
    "mem_ok (w\<lparr>brk := Suc (Suc (brk w))\<rparr>)" "map_ok m (w\<lparr>brk := Suc (Suc (brk w))\<rparr>)"
    "lookup_map (w\<lparr>brk := Suc (Suc (brk w))\<rparr>) m = lookup_map w m"
  using get_map_ok [OF assms, of run s] assms(1,2) map_ok_strs [of "w\<lparr>brk := Suc (Suc (brk w))\<rparr>" w]
    lookup_strs [of "w\<lparr>brk := Suc (Suc (brk w))\<rparr>" w]
  by (simp_all add: mem_ok_brk)

lemma add_metric_ok:
  fixes w :: "'z cworld"
  assumes m: "mem_ok w" "oom w = []" and d: "d \<noteq> NULL" "collectors w d = Some c" "cmetrics c = Some ms" "map_ok ms w"
    "\<forall>n. lookup_map w ms n \<noteq> Some NULL" and x: "metrics w x = Some mt" and lim: "map_count ms < map_limit"
  obtains ms' w' where
    "prom_collector_add_metric d x w = Some (if mname mt \<in> dom (lookup_map w ms) then 1 else 0,
       if mname mt \<in> dom (lookup_map w ms) then w' else put_collector d (c\<lparr>cmetrics := Some ms'\<rparr>) w')"
    "map_ok ms' w'" "map_frame ms w ms' w'" "mem.more w' = mem.more w" "keys_ok ms \<longrightarrow> keys_ok ms'"
    "lookup_map w' ms' = (if mname mt \<in> dom (lookup_map w ms) then lookup_map w ms else (lookup_map w ms)(mname mt \<mapsto> x))"
    "mname mt \<in> dom (lookup_map w ms) \<longrightarrow> ms' = ms" "map_count ms' \<le> map_count ms + 1"
proof -
  define w1 where "w1 = w\<lparr>brk := Suc (Suc (brk w))\<rparr>"
  note g = get_skip [OF d(4) m, folded w1_def]
  have fr1: "map_frame ms w ms w1" using m g(2) by (simp add: map_frame_def w1_def)
  show thesis
  proof (cases "lookup_map w ms (mname mt)")
    case (Some v)
    then have "v \<noteq> NULL" using d(5) [rule_format, of "mname mt"] by auto
    then have "prom_collector_add_metric d x w = Some (1, w1)"
      using d(1-3) x g(1) Some by (simp add: prom_collector_add_metric_def)
    then show thesis using Some g(3,4) fr1 by (intro that [of w1 ms]) (simp_all add: w1_def dom_def)
  next
    case None
    have l1: "lookup_map w1 ms (mname mt) = None" using None g(4) by simp
    have o1: "oom w1 = []" using m(2) by (simp add: w1_def)
    obtain ms' w2 where 2: "prom_map_set run_collector ms (mname mt) x w1 = Some (0, ms', w2)" "map_ok ms' w2"
      "lookup_map w2 ms' = (lookup_map w1 ms)(mname mt \<mapsto> x)" "map_frame ms w1 ms' w2"
      "map_count ms' = map_count ms + 1" "mem.more w2 = mem.more w1" "keys_ok ms \<longrightarrow> keys_ok ms'"
      by (rule put_fresh [OF g(3,2) o1 lim l1])
    have "prom_collector_add_metric d x w = Some (0, put_collector d (c\<lparr>cmetrics := Some ms'\<rparr>) w2)"
      using d(1-3) x g(1) None 2(1) by (simp add: prom_collector_add_metric_def)
    then show thesis using None 2 g(4) map_frame_trans [OF fr1 2(4)] by (intro that [of w2 ms']) (simp_all add: w1_def dom_def)
  qed
qed

text \<open>Strings no map operation touched keep the other map as it is.\<close>

lemma other_map_kept:
  fixes w w' :: "'z mem_scheme"
  assumes "map_frame ms w ms' w'" "map_ok cs w" "mem_ok w" "owned cs \<inter> owned ms = {}"
  shows "map_ok cs w'" "lookup_map w' cs = lookup_map w cs" "owned cs \<inter> owned ms' = {}"
proof -
  have old: "a < brk w" if "a \<in> owned cs" for a using owned_old [OF assms(2,3) that] .
  have s: "same_on (owned cs) w w'" using map_frame_same_on [OF assms(1), of "owned cs"] old assms(4) by blast
  show "map_ok cs w'" "lookup_map w' cs = lookup_map w cs" using map_ok_cong [OF assms(2) s] lookup_map_cong [OF s] by auto
  show "owned cs \<inter> owned ms' = {}" using map_frameD(5) [OF assms(1)] old assms(4) by fastforce
qed

text \<open>Registration with everything it leaves in place.\<close>

lemma register_metric_ok:
  fixes w :: "'z rworld"
  assumes "registry_wf w self p cs d c ms" "metrics w x = Some m" "x \<noteq> NULL" "map_count ms < map_limit"
  obtains w' c' ms' where "pcr_register_metric x w = Some (if mname m \<in> dom (catalog w ms) then 1 else 0, w')"
    "registry_wf w' self p cs d c' ms'" "objects w' = objects w"
    "catalog w' ms' = (if mname m \<in> dom (catalog w ms) then catalog w ms else (catalog w ms)(mname m \<mapsto> x))"
    "map_frame ms w ms' w'" "map_count ms' \<le> map_count ms + 1" "keys_ok ms \<longrightarrow> keys_ok ms'" "collect c' = collect c"
    "\<forall>y. y \<noteq> d \<longrightarrow> collectors w' y = collectors w y" "ppcs w' = ppcs w"
proof -
  have r: "mem_ok w" "oom w = []" "self \<noteq> NULL" "PROM_COLLECTOR_REGISTRY w = self" "registries w self = Some p"
    "rcollectors p = Some cs" "map_ok cs w" "lookup_map w cs ''default'' = Some d" "d \<noteq> NULL" "collectors w d = Some c"
    "cmetrics c = Some ms" "map_ok ms w" "owned cs \<inter> owned ms = {}" "\<forall>n. lookup_map w ms n \<noteq> Some NULL"
    using assms(1) by (simp_all add: registry_wf_def)
  define w1 where "w1 = w\<lparr>brk := Suc (Suc (brk w))\<rparr>"
  note g = get_skip [OF r(7,1,2), folded w1_def]
  have o1: "oom w1 = []" "collectors w1 = collectors w" "metrics w1 = metrics w" "registries w1 = registries w"
      "PROM_COLLECTOR_REGISTRY w1 = PROM_COLLECTOR_REGISTRY w" "mem.more w1 = mem.more w" "objects w1 = objects w"
    using r(2) by (simp_all add: w1_def)
  have k1: "map_ok ms w1" "lookup_map w1 ms = lookup_map w ms"
    using r(12) map_ok_strs [of w1 w] lookup_strs [of w1 w] by (simp_all add: w1_def)
  have c1: "collectors w1 d = Some c" "metrics w1 x = Some m" using r(10) assms(2) o1 by simp_all
  have n1: "\<forall>n. lookup_map w1 ms n \<noteq> Some NULL" using r(14) k1(2) by simp
  obtain ms' w2 where 2:
    "prom_collector_add_metric d x w1 = Some (if mname m \<in> dom (lookup_map w1 ms) then 1 else 0,
       if mname m \<in> dom (lookup_map w1 ms) then w2 else put_collector d (c\<lparr>cmetrics := Some ms'\<rparr>) w2)"
    "map_ok ms' w2" "map_frame ms w1 ms' w2" "mem.more w2 = mem.more w1"
    "lookup_map w2 ms' = (if mname m \<in> dom (lookup_map w1 ms) then lookup_map w1 ms else (lookup_map w1 ms)(mname m \<mapsto> x))"
    "mname m \<in> dom (lookup_map w1 ms) \<longrightarrow> ms' = ms" "map_count ms' \<le> map_count ms + 1" "keys_ok ms \<longrightarrow> keys_ok ms'"
    by (rule add_metric_ok [OF g(2) o1(1) r(9) c1(1) r(11) k1(1) n1 c1(2) assms(4)]) blast
  note other = other_map_kept [OF 2(3) g(3,2) r(13)]
  let ?dup = "mname m \<in> dom (lookup_map w ms)"
  define w3 where "w3 = (if ?dup then w2 else put_collector d (c\<lparr>cmetrics := Some ms'\<rparr>) w2)"
  define c' where "c' = (if ?dup then c else c\<lparr>cmetrics := Some ms'\<rparr>)"
  have e: "pcr_register_metric x w = Some (if ?dup then 1 else 0, w3)"
    using r(4-6,8,9) g(1) 2(1) k1(2) by (simp add: pcr_register_metric_def collectors_of_def w3_def)
  have f2: "collectors w2 = collectors w" "registries w2 = registries w" "PROM_COLLECTOR_REGISTRY w2 = PROM_COLLECTOR_REGISTRY w"
      "objects w2 = objects w"
    using more_collectors [OF 2(4)] objects_more [OF 2(4)] o1 by simp_all
  have l3: "lookup_map w3 ms' = (if ?dup then lookup_map w ms else (lookup_map w ms)(mname m \<mapsto> x))"
    using 2(5) k1(2) by (simp add: w3_def)
  have "registry_wf w3 self p cs d c' ms'"
    using r f2 other 2(2,6) map_frameD(1,2) [OF 2(3)] l3 assms(3) g(4) k1(2)
    by (auto simp: registry_wf_def w3_def c'_def)
  moreover have "objects w3 = objects w" using f2(4) by (simp add: w3_def)
  moreover have "map_frame ms w ms' w3"
  proof -
    have "map_frame ms w ms w1" using r(2) g(2) by (simp add: map_frame_def w1_def)
    from map_frame_trans [OF this 2(3)] show ?thesis by (simp add: map_frame_def w3_def)
  qed
  moreover have "ppcs w2 = ppcs w1" using 2(4) by (cases w1; cases w2) simp
  then have "ppcs w3 = ppcs w" by (simp add: w3_def w1_def put_collector_def)
  moreover have "\<forall>y. y \<noteq> d \<longrightarrow> collectors w3 y = collectors w y" using f2(1) by (simp add: w3_def)
  ultimately show thesis using e l3 2(7,8) by (intro that [of w3 c' ms']) (simp_all add: catalog_def c'_def)
qed

text \<open>C5. Registration enters a metric under its name once: the default collector of the
  registry is a finite map from names to metrics, a second metric of the same name is
  refused with code 1 and changes nothing of it.\<close>

theorem pcr_register_metric_refines:
  fixes w :: "'z rworld"
  assumes "registry_wf w self p cs d c ms" "metrics w x = Some m" "x \<noteq> NULL" "map_count ms < map_limit"
  shows "\<exists>w' c' ms'. pcr_register_metric x w = Some (if mname m \<in> dom (catalog w ms) then 1 else 0, w') \<and>
    registry_wf w' self p cs d c' ms' \<and> objects w' = objects w \<and>
    catalog w' ms' = (if mname m \<in> dom (catalog w ms) then catalog w ms else (catalog w ms)(mname m \<mapsto> x))"
proof -
  obtain w' c' ms' where "pcr_register_metric x w = Some (if mname m \<in> dom (catalog w ms) then 1 else 0, w')"
    "registry_wf w' self p cs d c' ms'" "objects w' = objects w"
    "catalog w' ms' = (if mname m \<in> dom (catalog w ms) then catalog w ms else (catalog w ms)(mname m \<mapsto> x))"
    by (rule register_metric_ok [OF assms])
  then show ?thesis by blast
qed

section \<open>A new registry\<close>

text \<open>What \<open>stores\<close> and a new entry in the maps of objects leave in place.\<close>

lemma map_ok_stores:
  fixes w w' :: "'z mem_scheme"
  assumes "stores w M w'" "map_ok m w" "mem_ok w"
  shows "map_ok m w'" "lookup_map w' m = lookup_map w m"
  using stores_map [OF assms] by auto

definition new_registry :: "pcr \<Rightarrow> pmap \<Rightarrow> addr \<Rightarrow> collector \<Rightarrow> pmap \<Rightarrow> 'z rworld \<Rightarrow> bool" where
  "new_registry p cs d c ms w \<longleftrightarrow> rcollectors p = Some cs \<and> map_ok cs w \<and> keys_ok cs \<and> lookup_map w cs = [''default'' \<mapsto> d] \<and>
     map_count cs = 1 \<and> d \<noteq> NULL \<and> collectors w d = Some c \<and> fresh_collector c ms w \<and>
     mprefix p = NULL \<and> features p = 0 \<and> scrape_duration p = NULL \<and> (\<exists>f. metric_formatter p = Some f \<and> idle f)"

lemma new_collectors_ok:
  fixes w :: "'z rworld"
  assumes m: "mem_ok w" "oom w = []"
  obtains cs d c ms w' where "new_collectors w = Some (Some cs, w')" "mem_ok w'" "oom w' = []" "brk w \<le> d" "d < brk w'"
    "map_ok cs w'" "keys_ok cs" "lookup_map w' cs = [''default'' \<mapsto> d]" "map_count cs = 1"
    "collectors w' = (collectors w)(d \<mapsto> c)" "fresh_collector c ms w'" "registries w' = registries w"
    "PROM_COLLECTOR_REGISTRY w' = PROM_COLLECTOR_REGISTRY w" "objects w' = objects w" "same_on {..<brk w} w w'" "map_count ms = 0"
proof -
  obtain cs0 where cs0: "prom_map_new w = Some (Some cs0, w\<lparr>brk := brk w + 36\<rparr>)" "map_ok cs0 (w\<lparr>brk := brk w + 36\<rparr>)"
      "keys_ok cs0" "lookup_map (w\<lparr>brk := brk w + 36\<rparr>) cs0 = Map.empty" "map_count cs0 = 0" "owned cs0 = {}"
    using new_map_ok [OF m] by blast
  define w1 where "w1 = w\<lparr>brk := brk w + 36\<rparr>"
  have s1: "stores w Map.empty w1" unfolding w1_def by (intro stores_brk m) simp
  obtain c ms w2 M where 2: "prom_collector_new ''default'' w1 = Some (brk w1, put_collector (brk w1) c w2)" "stores w1 M w2"
      "fresh_collector c ms w2" "brk w1 < brk w2"
    by (rule collector_new_ok [OF storesD(1,2) [OF s1]])
  define d w3 where "d = brk w1" and "w3 = put_collector d c w2"
  have d: "d \<noteq> NULL" using mem_ok_brk_pos [OF storesD(1) [OF s1]] by (simp add: d_def)
  define cs where "cs = cs0\<lparr>free_value_fn := Collector_Free\<rparr>"
  have k: "map_ok cs w2" "lookup_map w2 cs = Map.empty" "keys_ok cs" "map_count cs = 0" "owned cs = {}"
    using cs0(2-6) map_ok_stores [OF 2(2), of cs] storesD(1) [OF s1] by (simp_all add: cs_def w1_def)
  have k3: "map_ok cs w3" "mem_ok w3" "oom w3 = []" "lookup_map w3 cs ''default'' = None"
    using k storesD(1,2) [OF 2(2)] by (simp_all add: w3_def)
  have lim: "map_count cs < map_limit" using k(4) by (simp add: map_limit_def)
  obtain cs' w4 where 4: "prom_map_set run_registry cs ''default'' d w3 = Some (0, cs', w4)" "map_ok cs' w4"
    "lookup_map w4 cs' = (lookup_map w3 cs)(''default'' \<mapsto> d)" "map_frame cs w3 cs' w4"
    "map_count cs' = map_count cs + 1" "mem.more w4 = mem.more w3" "keys_ok cs \<longrightarrow> keys_ok cs'"
    by (rule put_fresh [OF k3(1-3) lim k3(4)])
  note f4 = map_frameD [OF 4(4)]
  have e: "new_collectors w = Some (Some cs', w4)"
    using cs0(1) 2(1) 4(1) by (simp add: new_collectors_def prom_map_set_free_value_fn_def cs_def w1_def w3_def d_def)
  have x: "collectors w2 = collectors w" "registries w2 = registries w" "PROM_COLLECTOR_REGISTRY w2 = PROM_COLLECTOR_REGISTRY w"
      "objects w2 = objects w"
    using more_collectors [OF stores_more [OF 2(2)]] objects_more [OF stores_more [OF 2(2)]] by (simp_all add: w1_def)
  note y = more_collectors [OF 4(6)] objects_more [OF 4(6)]
  have same: "same_on (owned ms) w3 w4" using 2(3) by (simp add: fresh_collector_def same_on_def)
  have "fresh_collector c ms w4"
    using 2(3) map_ok_cong [OF _ same] lookup_map_cong [OF same] by (simp add: fresh_collector_def w3_def)
  moreover have "strs w4 a = strs w a" if "a < brk w" for a
  proof -
    have "a < brk w1" "a < brk w3" using that storesD(3) [OF s1] storesD(3) [OF 2(2)] by (simp_all add: w3_def)
    then have "strs w4 a = strs w3 a" "strs w2 a = strs w1 a"
      using f4(6) [of a] k(5) frame_stores [OF 2(2), of "{}"] by (auto simp: frame_def)
    then show ?thesis by (simp add: w3_def w1_def)
  qed
  then have "same_on {..<brk w} w w4" by (simp add: same_on_def)
  moreover have "map_count ms = 0" using 2(3) by (simp add: fresh_collector_def)
  ultimately show thesis
    using e 4 f4 k k3 x y storesD(3) [OF 2(2)] 2(4)
    by (intro that [of cs' w4 d c ms]) (simp_all add: w3_def w1_def d_def)
qed

lemma pcr_new_ok:
  fixes w :: "'z rworld"
  assumes m: "mem_ok w" "oom w = []"
  obtains p cs d c ms w' where "pcr_new name w = Some (brk w, put_registry (brk w) p w')" "new_registry p cs d c ms w'"
    "mem_ok w'" "oom w' = []" "brk w < brk w'" "objects w' = objects w"
    "registries w' = registries w" "PROM_COLLECTOR_REGISTRY w' = PROM_COLLECTOR_REGISTRY w" "same_on {..<brk w} w w'" "d < brk w'"
proof -
  have nz: "(brk w = NULL) = False" using mem_ok_brk_pos [OF m(1)] by simp
  let ?w1 = "w\<lparr>brk := Suc (brk w)\<rparr>"
  have m1: "mem_ok ?w1" "oom ?w1 = []" using m by (simp_all add: mem_ok_brk)
  define n w2 where "n = brk ?w1" and "w2 = ?w1\<lparr>brk := Suc (brk ?w1), strs := (strs ?w1)(brk ?w1 \<mapsto> name)\<rparr>"
  have 2: "strdup name ?w1 = (n, w2)" "stores ?w1 [n \<mapsto> name] w2"
    using stores_strdup [OF m1, of name] by (simp_all add: n_def w2_def)
  obtain cs d c ms w3 where 3: "new_collectors w2 = Some (Some cs, w3)" "mem_ok w3" "oom w3 = []" "brk w2 \<le> d" "d < brk w3"
    "map_ok cs w3" "keys_ok cs" "lookup_map w3 cs = [''default'' \<mapsto> d]" "map_count cs = 1"
    "collectors w3 = (collectors w2)(d \<mapsto> c)" "fresh_collector c ms w3" "registries w3 = registries w2"
    "PROM_COLLECTOR_REGISTRY w3 = PROM_COLLECTOR_REGISTRY w2" "objects w3 = objects w2"
    "same_on {..<brk w2} w2 w3"
    by (rule new_collectors_ok [OF storesD(1,2) [OF 2(2)]]) blast
  obtain f b where f: "pmf_new w3 = (Some f, w3\<lparr>brk := b\<rparr>)" "brk w3 \<le> b" "idle f"
    using pmf_new_ok [OF 3(2,3)] by blast
  define w4 where "w4 = w3\<lparr>brk := b\<rparr>"
  have s4: "stores w3 Map.empty w4" unfolding w4_def using f(2) by (intro stores_brk 3)
  obtain sb w5 where 5: "psb_new w4 = (Some sb, w5)" "grown w4 w5" "oom w5 = []"
    using psb_new_ok [OF storesD(2,1) [OF s4]] by blast
  have s5: "stores w4 Map.empty w5" using grown_stores [OF 5(2) storesD(1,2) [OF s4] 5(3)] .
  define w6 where "w6 = w5\<lparr>brk := Suc (brk w5)\<rparr>"
  have s6: "stores w5 Map.empty w6" unfolding w6_def by (intro stores_brk storesD [OF s5]) simp
  have nz5: "(brk w5 = NULL) = False" using mem_ok_brk_pos [OF storesD(1) [OF s5]] by simp
  have n: "(n = NULL) = False" by (simp add: n_def)
  note s = stores_trans [OF stores_trans [OF s4 s5] s6]
  let ?p = "\<lparr>rname = n, mprefix = NULL, features = 0, scrape_duration = NULL, rcollectors = Some cs, rbuilder = Some sb,
      metric_formatter = Some f, rlock = False\<rparr>"
  have "pcr_new name w = Some (brk w, put_registry (brk w) ?p w6)"
    using m(2) nz 2(1) 3(1) f(1) 5(1) nz5 n storesD(2) [OF s5]
    by (simp add: pcr_new_def malloc_ok w4_def [symmetric] w6_def)
  moreover have x: "collectors w6 = collectors w3" "registries w6 = registries w" "PROM_COLLECTOR_REGISTRY w6 = PROM_COLLECTOR_REGISTRY w"
      "objects w6 = objects w"
    using more_collectors [OF stores_more [OF s]] objects_more [OF stores_more [OF s]] 3(12-14) by (simp_all add: w2_def)
  moreover have "d \<noteq> NULL" using 3(4) by (simp add: w2_def)
  moreover have "map_ok m w6 \<and> lookup_map w6 m = lookup_map w3 m" if "map_ok m w3" for m
    using map_ok_stores [OF s that 3(2)] by simp
  then have "new_registry ?p cs d c ms w6"
    using 3 f(3) x \<open>d \<noteq> NULL\<close> by (simp add: new_registry_def fresh_collector_def)
  moreover have "brk w < brk w6" using storesD(3) [OF s] 3(4,5) by (simp add: w2_def)
  moreover have "strs w6 a = strs w a" if "a < brk w" for a
  proof -
    have "a < brk w2" "strs w2 a = strs w a" using that by (simp_all add: w2_def)
    moreover from this(1) have "strs w3 a = strs w2 a" using 3(15) by (simp add: same_on_def)
    ultimately show ?thesis using stores_strs [OF s] by simp
  qed
  then have "same_on {..<brk w} w w6" by (simp add: same_on_def)
  moreover have "d < brk w6" using storesD(3) [OF s] 3(5) by simp
  ultimately show thesis using storesD(1,2) [OF s] by (intro that)
qed

section \<open>Initialisation\<close>

lemma has_zero [simp]: "\<not> has 0 f"
  by (simp add: has_def)

lemma compact_flag [simp]: "has PROM_COMPACT PROM_COMPACT"
  by (simp add: has_def PROM_COMPACT_def)

lemma objects_registry [simp]: "objects (w\<lparr>PROM_COLLECTOR_REGISTRY := a\<rparr>) = objects w"
  for w :: "'z rworld"
  by (simp add: objects_def)

definition plain_features :: "u32 \<Rightarrow> bool" where
  "plain_features fs \<longleftrightarrow> \<not> has fs PROM_PROCESS \<and> \<not> has fs PROM_SCRAPETIME \<and> \<not> has fs PROM_SCRAPETIME_ALL"

text \<open>The default registry is set up: one collector, without metrics.\<close>

lemma pcr_init_ok:
  fixes w :: "'z rworld"
  assumes m: "mem_ok w" "oom w = []" and none: "PROM_COLLECTOR_REGISTRY w = NULL" and fs: "plain_features fs"
  obtains self p cs d c ms w' where "pcr_init env fs prefix w = Some (0, w')" "registry_wf w' self p cs d c ms"
    "fresh_collector c ms w'" "keys_ok cs" "lookup_map w' cs = [''default'' \<mapsto> d]" "map_count cs = 1"
    "load_opt (mprefix p) w' = Some (if prefix = Some [] then None else prefix)" "scrape_duration p = NULL"
    "has (features p) PROM_COMPACT = has fs PROM_COMPACT" "\<exists>f. metric_formatter p = Some f \<and> idle f"
    "objects w' = objects w" "same_on {..<brk w} w w'" "brk w \<le> brk w'"
proof -
  obtain p cs d c ms w1 where 1: "pcr_new ''default'' w = Some (brk w, put_registry (brk w) p w1)" "new_registry p cs d c ms w1"
    "mem_ok w1" "oom w1 = []" "brk w < brk w1" "objects w1 = objects w"
    "registries w1 = registries w" "PROM_COLLECTOR_REGISTRY w1 = PROM_COLLECTOR_REGISTRY w" "same_on {..<brk w} w w1"
    by (rule pcr_new_ok [OF m])
  define self where "self = brk w"
  have nz: "self \<noteq> NULL" using mem_ok_brk_pos [OF m(1)] by (simp add: self_def)
  define q where "q = p\<lparr>features := (if has fs PROM_COMPACT then PROM_COMPACT else 0)\<rparr>"
  define w2 where "w2 = put_registry self q ((put_registry self p w1)\<lparr>PROM_COLLECTOR_REGISTRY := self\<rparr>)"
  have p0: "p\<lparr>features := 0\<rparr> = p" using 1(2) by (cases p) (simp add: new_registry_def)
  have fp: "features p = 0" using 1(2) by (simp add: new_registry_def)
  have w2: "strs w2 = strs w1" "brk w2 = brk w1" "oom w2 = []" "collectors w2 = collectors w1" "objects w2 = objects w"
      "PROM_COLLECTOR_REGISTRY w2 = self" "mem_ok w2"
    using 1(3,4,6) by (simp_all add: w2_def mem_ok_def)
  define px w3 where "px = (if prefix = None \<or> prefix = Some [] then NULL else brk w2)" and
    "w3 = (if prefix = None \<or> prefix = Some [] then w2
       else w2\<lparr>brk := Suc (brk w2), strs := (strs w2)(brk w2 \<mapsto> the prefix)\<rparr>)"
  have px: "(if prefix = None \<or> prefix = Some [] then (NULL, w2) else strdup (the prefix) w2) = (px, w3)"
    using strdup_ok [OF w2(3,7)] by (simp add: px_def w3_def)
  have s3: "stores w2 (if px = NULL then Map.empty else [px \<mapsto> the prefix]) w3"
  proof (cases "prefix = None \<or> prefix = Some []")
    case True
    then show ?thesis using stores_brk [OF w2(7,3), of "brk w2"] by (simp add: px_def w3_def)
  next
    case False
    then obtain x where x: "prefix = Some x" "x \<noteq> []" by auto
    have "px = brk w2" "px \<noteq> NULL" using x mem_ok_brk_pos [OF w2(7)] by (simp_all add: px_def)
    then show ?thesis using stores_strdup [OF w2(7,3), of x] x by (simp add: w3_def)
  qed
  have w3: "registries w3 self = Some q" "collectors w3 = collectors w1" "objects w3 = objects w" "PROM_COLLECTOR_REGISTRY w3 = self"
    using more_collectors [OF stores_more [OF s3]] objects_more [OF stores_more [OF s3]] w2 by (simp_all add: w2_def)
  define w4 where "w4 = put_registry self (q\<lparr>mprefix := px\<rparr>) w3"
  have same: "put_registry self a (put_registry self b v) = put_registry self a v" for a b and v :: "'z rworld"
    by (simp add: put_registry_def)
  have fold1: "(if has fs PROM_COMPACT then enable self PROM_COMPACT ((put_registry self p w1)\<lparr>PROM_COLLECTOR_REGISTRY := self\<rparr>)
      else Some ((put_registry self p w1)\<lparr>PROM_COLLECTOR_REGISTRY := self\<rparr>)) = Some w2"
    using fp p0 by (cases w1) (auto simp: enable_def w2_def q_def put_registry_def)
  have e: "pcr_init env fs prefix w = Some (0, w4)"
    using none 1(1) nz fs fold1 px w3(1)
    by (simp add: pcr_init_def plain_features_def w4_def flip: self_def)
  have eq: "same_on A w1 w3" if "A \<subseteq> {..<brk w1}" for A
    using frame_stores [OF s3, of "{}"] that w2(1,2) by (auto simp: same_on_def frame_def)
  have old: "m \<in> {cs, ms} \<Longrightarrow> owned m \<subseteq> {..<brk w1}" for m
    using owned_old [OF _ 1(3), of cs] 1(2) by (auto simp: new_registry_def fresh_collector_def)
  have keep: "map_ok m w4 \<and> lookup_map w4 m = lookup_map w1 m" if "m \<in> {cs, ms}" for m
  proof -
    have ok: "map_ok m w1" using 1(2) that by (auto simp: new_registry_def fresh_collector_def)
    show ?thesis using map_ok_cong [OF ok eq [OF old [OF that]]] lookup_map_cong [OF eq [OF old [OF that]]]
      by (simp add: w4_def)
  qed
  have reg: "registry_wf w4 self (q\<lparr>mprefix := px\<rparr>) cs d c ms"
    using 1(2) keep [of cs] keep [of ms] w3 nz storesD(1,2) [OF s3]
    by (simp add: registry_wf_def new_registry_def fresh_collector_def w4_def q_def)
  have pre: "load_opt px w4 = Some (if prefix = Some [] then None else prefix)"
    using mem_ok_brk_pos [OF w2(7)] by (auto simp: load_opt_def load_str_def px_def w4_def w3_def)
  have "same_on {..<brk w} w w4"
    using 1(5,9) eq [of "{..<brk w}"] by (auto simp: same_on_def w4_def)
  moreover have "brk w \<le> brk w4" using 1(5) w2(2) storesD(3) [OF s3] by (simp add: w4_def)
  ultimately show thesis
    using e reg pre 1(2) keep [of cs] keep [of ms] w3(3)
    by (intro that [OF e reg]) (auto simp: new_registry_def fresh_collector_def q_def w4_def)
qed

text \<open>Setting up the default registry without a process collector succeeds once and yields
  a well formed registry without metrics; a second time it is refused with code 1.\<close>

theorem pcr_init_wf:
  fixes w :: "'z rworld"
  assumes "mem_ok w" "oom w = []" "PROM_COLLECTOR_REGISTRY w = NULL" "plain_features fs"
  shows "\<exists>self p cs d c ms w'. pcr_init env fs prefix w = Some (0, w') \<and> registry_wf w' self p cs d c ms \<and>
    catalog w' ms = Map.empty \<and> objects w' = objects w \<and> pcr_init env fs' prefix' w' = Some (1, w')"
proof -
  obtain self p cs d c ms w' where 1: "pcr_init env fs prefix w = Some (0, w')" "registry_wf w' self p cs d c ms"
    "fresh_collector c ms w'" "objects w' = objects w"
    by (rule pcr_init_ok [OF assms, of env prefix])
  have "catalog w' ms = Map.empty" using 1(3) by (simp add: catalog_def fresh_collector_def)
  moreover have "pcr_init env fs' prefix' w' = Some (1, w')" using 1(2) by (simp add: registry_wf_def pcr_init_def)
  ultimately show ?thesis using 1 by blast
qed


section \<open>A registry with one gauge\<close>

definition gauge_rworld :: rmem where
  "gauge_rworld = \<lparr>strs = strs gauge_world, brk = brk gauge_world, oom = [], samples = samples gauge_world,
     phbs = Map.empty, default_buckets = NULL, hists = Map.empty, metrics = metrics gauge_world, collectors = Map.empty,
     ppcs = Map.empty, page_sz = 0, clk_tck = 0, last_starttime = 0, stat_timestamp = 0, registries = Map.empty,
     PROM_COLLECTOR_REGISTRY = NULL, ticks = 0\<rparr>"

lemma gauge_rworld_ok: "mem_ok gauge_rworld" "oom gauge_rworld = []" "PROM_COLLECTOR_REGISTRY gauge_rworld = NULL"
    "metrics gauge_rworld 7 = Some one_gauge"
  using gauge_world_ok(1) by (simp_all add: gauge_rworld_def mem_ok_def) (simp add: gauge_world_def)

lemma gauge_rworld_shows: "metric_shows gauge_rworld one_gauge [(''abc'', d_one)]"
proof -
  have s: "strs gauge_rworld = strs gauge_world" "samples gauge_rworld = samples gauge_world"
    by (simp_all add: gauge_rworld_def)
  have "map_ok m gauge_rworld = map_ok m gauge_world" "lookup_map gauge_rworld m = lookup_map gauge_world m" for m
    by (simp_all add: map_ok_def tab_ok_def in_bucket_def lookup_map_def tlookup_def pairs_def s fun_eq_iff)
  moreover from this have "key_shows gauge_rworld m = key_shows gauge_world m" for m
    by (simp add: key_shows_def sample_shows_def load_opt_def load_str_def s fun_eq_iff)
  ultimately show ?thesis using gauge_world_ok(3) by (simp add: metric_shows_def one_gauge_def)
qed

text \<open>The gauge looks the same in every later state that has its strings and samples.\<close>

lemma gauge_shows_later:
  fixes w :: rmem
  assumes "same_on {..<brk gauge_rworld} gauge_rworld w" "objects w = objects gauge_rworld"
  shows "metric_shows w one_gauge [(''abc'', d_one)]"
proof -
  have sh: "map_ok (msamples one_gauge) gauge_rworld" "mem_ok gauge_rworld"
      "list_all2 (key_shows gauge_rworld (msamples one_gauge)) (keys (msamples one_gauge)) [(''abc'', d_one)]"
    using gauge_rworld_ok(1) gauge_rworld_shows by (simp_all add: metric_shows_def one_gauge_def)
  have old: "strs w a = strs gauge_rworld a" if "a < brk gauge_rworld" for a
    using assms(1) that by (simp add: same_on_def)
  have same: "same_on (owned (msamples one_gauge)) gauge_rworld w"
    using owned_old [OF sh(1,2)] old by (simp add: same_on_def)
  have sm: "samples w = samples gauge_rworld" using objectsD [OF assms(2)] by simp
  have "key_shows w (msamples one_gauge) k tx" if k: "key_shows gauge_rworld (msamples one_gauge) k tx" for k tx
  proof -
    obtain key a s where 1: "strs gauge_rworld k = Some key" "lookup_map gauge_rworld (msamples one_gauge) key = Some a" "a \<noteq> NULL"
        "samples gauge_rworld a = Some s" "r_value s = snd tx" "load_opt (l_value s) gauge_rworld = Some (Some (fst tx))"
      using k by (auto simp: key_shows_def sample_shows_def split: prod.splits)
    then have "strs gauge_rworld (l_value s) = Some (fst tx)" "l_value s \<noteq> NULL"
      by (auto simp: load_opt_def load_str_def split: if_splits)
    then have "strs w (l_value s) = Some (fst tx)" "strs w k = Some key"
      using mem_ok_live [OF sh(2)] old 1(1) by auto
    then show ?thesis
      using 1 lookup_map_cong [OF same] sm \<open>l_value s \<noteq> NULL\<close>
      by (cases tx) (auto simp: key_shows_def sample_shows_def load_opt_def load_str_def)
  qed
  then have "list_all2 (key_shows w (msamples one_gauge)) (keys (msamples one_gauge)) [(''abc'', d_one)]"
    using sh(3) by (rule list_all2_mono [rotated])
  then show ?thesis using map_ok_cong [OF sh(1) same] by (simp add: metric_shows_def one_gauge_def)
qed

lemma single_key:
  assumes "map_ok m w" "keys_ok m" "map_count m \<le> 1" "lookup_map w m n = Some v"
  shows "\<exists>k. keys m = [k] \<and> strs w k = Some n"
proof -
  obtain e where e: "entries (addrs m) = [e]"
    using assms(3,4) by (cases "entries (addrs m)") (auto simp: map_count_def lookup_map_def tlookup_def pairs_def)
  have "strs w (mkey e) = Some n" using assms(4) e by (auto simp: lookup_map_def tlookup_def pairs_def split: if_splits)
  moreover have "keys m = [mkey e]" using assms(2) e by (simp add: keys_ok_def)
  ultimately show ?thesis by blast
qed

text \<open>The default registry is set up with the prefix \<open>p_\<close> and the gauge is added to it.\<close>

lemma gauge_registry:
  obtains self p cs d c ms and w :: rmem and f where "registry_wf w self p cs d c ms"
    "list_all2 (collector_shows w cs) (keys cs) [[(one_gauge, [(''abc'', d_one)])]]"
    "load_opt (mprefix p) w = Some (Some ''p_'')" "scrape_duration p = NULL" "\<not> has (features p) PROM_COMPACT"
    "metric_formatter p = Some f" "idle f"
proof -
  have "plain_features 0" by (simp add: plain_features_def)
  then obtain self p cs d c ms and w1 :: rmem and f where 1: "registry_wf w1 self p cs d c ms" "fresh_collector c ms w1"
    "keys_ok cs" "lookup_map w1 cs = [''default'' \<mapsto> d]" "map_count cs = 1"
    "load_opt (mprefix p) w1 = Some (Some ''p_'')" "scrape_duration p = NULL"
    "has (features p) PROM_COMPACT = has 0 PROM_COMPACT" "metric_formatter p = Some f" "idle f"
    "objects w1 = objects gauge_rworld" "same_on {..<brk gauge_rworld} gauge_rworld w1"
    "brk gauge_rworld \<le> brk w1"
    by (rule pcr_init_ok [OF gauge_rworld_ok(1-3), of 0 _ "Some ''p_''"]) fastforce
  have r: "mem_ok w1" "oom w1 = []" "self \<noteq> NULL" "PROM_COLLECTOR_REGISTRY w1 = self" "registries w1 self = Some p"
    "rcollectors p = Some cs" "map_ok cs w1" "lookup_map w1 cs ''default'' = Some d" "d \<noteq> NULL" "collectors w1 d = Some c"
    "cmetrics c = Some ms" "map_ok ms w1" "owned cs \<inter> owned ms = {}" "\<forall>n. lookup_map w1 ms n \<noteq> Some NULL"
    using 1(1) by (simp_all add: registry_wf_def)
  have ms: "lookup_map w1 ms = Map.empty" "keys_ok ms" "map_count ms = 0" "owned ms = {}" "collect c = Prom_Collector_Metrics_Get"
    using 1(2) by (simp_all add: fresh_collector_def)
  have m7: "metrics w1 7 = Some one_gauge" using objectsD [OF 1(11)] gauge_rworld_ok(4) by simp
  have lim: "map_count ms < map_limit" using ms(3) by (simp add: map_limit_def)
  obtain ms' w2 where 2: "map_ok ms' w2" "map_frame ms w1 ms' w2" "mem.more w2 = mem.more w1" "keys_ok ms \<longrightarrow> keys_ok ms'"
    "lookup_map w2 ms' = (lookup_map w1 ms)(''abc'' \<mapsto> 7)" "map_count ms' \<le> map_count ms + 1"
    by (rule add_metric_ok [OF r(1,2,9,10,11,12,14) m7 lim]) (auto simp: ms(1) one_gauge_def)
  note other = other_map_kept [OF 2(2) r(7,1,13)]
  define w where "w = put_collector d (c\<lparr>cmetrics := Some ms'\<rparr>) w2"
  have o2: "objects w = objects gauge_rworld" using objects_more [OF 2(3)] 1(11) by (simp add: w_def)
  note m2 = more_collectors [OF 2(3)]
  have keep: "strs w a = strs w1 a" if "a < brk w1" for a
    using map_frameD(6) [OF 2(2), of a] ms(4) that by (simp add: w_def)
  have "same_on {..<brk gauge_rworld} gauge_rworld w"
    using 1(12,13) keep by (simp add: same_on_def)
  from gauge_shows_later [OF this o2] have sh: "metric_shows w one_gauge [(''abc'', d_one)]" .
  have l: "lookup_map w ms' = [''abc'' \<mapsto> 7]" "lookup_map w cs = [''default'' \<mapsto> d]" "map_ok ms' w" "map_ok cs w"
    using 2(1,5) ms(1) other 1(4) by (simp_all add: w_def)
  obtain k where k: "keys ms' = [k]" "strs w k = Some ''abc''"
    using single_key [OF l(3), of "''abc''" 7] 2(4,6) ms(2,3) l(1) by auto
  obtain j where j: "keys cs = [j]" "strs w j = Some ''default''"
    using single_key [OF l(4) 1(3), of "''default''" d] 1(5) l(2) by auto
  have w7: "metrics w 7 = Some one_gauge" using objectsD [OF o2] gauge_rworld_ok(4) by simp
  have cw: "collectors w d = Some (c\<lparr>cmetrics := Some ms'\<rparr>)" by (simp add: w_def)
  have "catalog_shows w ms' k (one_gauge, [(''abc'', d_one)])"
    using k(2) l(1) w7 sh by (simp add: catalog_shows_def)
  then have cs: "list_all2 (collector_shows w cs) (keys cs) [[(one_gauge, [(''abc'', d_one)])]]"
    using j k(1) l r(9) cw ms(5) by (simp add: collector_shows_def)
  have reg: "registry_wf w self p cs d (c\<lparr>cmetrics := Some ms'\<rparr>) ms'"
    using r l other(3) cw map_frameD(1,2) [OF 2(2)] m2 by (simp add: registry_wf_def w_def)
  have "strs w1 (mprefix p) = Some ''p_''" "mprefix p \<noteq> NULL"
    using 1(6) by (auto simp: load_opt_def load_str_def split: if_splits)
  then have "load_opt (mprefix p) w = Some (Some ''p_'')"
    using mem_ok_live [OF r(1)] keep by (simp add: load_opt_def load_str_def)
  then show thesis using reg cs 1(7-10) by (intro that) simp_all
qed

text \<open>A scrape of a registry that times nothing returns a new string: the text of every
  metric of every collector, collectors and metrics each in the order of their lists of
  keys, with the prefix of the registry; no other string changes.\<close>

lemma pcr_bridge_ok:
  fixes w :: "'z rworld"
  assumes "registries w self = Some p" "self \<noteq> NULL" "scrape_duration p = NULL" "rcollectors p = Some cs"
    and "metric_formatter p = Some f" "psb_ok (string_builder f)" "mem_ok w" "oom w = []" "map_ok cs w"
    and "list_all2 (collector_shows w cs) (keys cs) mtss" "load_opt (mprefix p) w = Some prefix" "prefix \<noteq> Some []"
    and "length (metrics_text prefix (has (features p) PROM_COMPACT) (concat mtss)) < psb_limit"
  shows "\<exists>a w'. pcr_bridge env self w = Some (a, w') \<and> brk w \<le> a \<and>
    strs w' = (strs w)(a \<mapsto> metrics_text prefix (has (features p) PROM_COMPACT) (concat mtss))"
proof -
  let ?c = "has (features p) PROM_COMPACT"
  let ?t = "metrics_text prefix ?c (concat mtss)"
  have "init_size (string_builder f) = 128" using assms(6) by (elim psb_okE) simp
  from psb_clear_ok [OF this assms(8,7)] obtain b1 w1 where
    1: "psb_clear (string_builder f) w = (0, b1, w1)" "grown w w1" "oom w1 = []" "psb_ok b1" "content b1 = []" by blast
  define f1 where "f1 = f\<lparr>string_builder := b1\<rparr>"
  have cl: "pmf_clear f w = (0, f1, w1)" using 1(1) by (simp add: pmf_clear_def f1_def)
  have f1: "psb_ok (string_builder f1)" "room_for f1 ?t" using 1(4,5) assms(13) by (simp_all add: f1_def room_for_def)
  have same: "strs w1 = strs w" "mem.more w1 = mem.more w" using 1(2) by (simp_all add: grown_strs grown_more)
  have m1: "mem_ok w1" using 1(2) assms(7) by (rule grown_mem_ok)
  have "map_ok cs w1" "list_all2 (collector_shows w1 cs) (keys cs) mtss"
    using assms(9,10) map_ok_strs [OF same(1)] collector_shows_cong [OF same] by simp_all
  from load_collectors_ok [OF f1(1) m1 1(3) this f1(2) assms(12), of env 0] obtain f2 w2 where
    2: "load_collectors env (Some f1) cs NULL prefix ?c 0 (keys cs) w1 = Some (0, Some f2, w2)" "appended f1 w1 ?t f2 w2"
    by blast
  note w2 = appended_world [OF 2(2)]
  have c2: "content (string_builder f2) = ?t" using 2(2) 1(5) by (simp add: appended_def f1_def)
  obtain b where "pmf_dump (Some f2) w2 = Some (brk w2, Some (f2\<lparr>string_builder := b\<rparr>),
      w2\<lparr>brk := Suc (Suc (brk w2)), strs := (strs w2)(brk w2 \<mapsto> ?t)\<rparr>)"
    using pmf_dump_ok [OF w2(5) w2(4) w2(3) [OF m1]] c2 by auto
  moreover have "load_opt (mprefix p) w1 = Some prefix" using assms(11) load_opt_strs [OF same(1)] by simp
  ultimately have "\<exists>w'. pcr_bridge env self w = Some (brk w2, w') \<and> strs w' = (strs w2)(brk w2 \<mapsto> ?t)"
    using assms(1-5) cl 2(1) by (simp add: pcr_bridge_def pmf_load_metrics_def put_registry_def)
  moreover have "brk w \<le> brk w2" "strs w2 = strs w"
    using 1(2) 2(2) w2(1) same(1) by (auto simp: appended_def dest!: grown_brk)
  ultimately show ?thesis by auto
qed

theorem pcr_register_metric_refines_witness:
  "\<exists>self p cs d c ms. \<exists>w w' :: rmem. registry_wf w self p cs d c ms \<and> pcr_register_metric 7 w = Some (0, w') \<and>
    metrics w 7 = Some one_gauge"
proof -
  have "plain_features 0" by (simp add: plain_features_def)
  then obtain self p cs d c ms and w :: rmem where 1: "registry_wf w self p cs d c ms" "fresh_collector c ms w"
    "objects w = objects gauge_rworld"
    by (rule pcr_init_ok [OF gauge_rworld_ok(1-3)]) blast
  have m7: "metrics w 7 = Some one_gauge" using objectsD [OF 1(3)] gauge_rworld_ok(4) by simp
  have "map_count ms < map_limit" "catalog w ms = Map.empty"
    using 1(2) by (simp_all add: fresh_collector_def map_limit_def catalog_def)
  then show ?thesis using pcr_register_metric_refines [OF 1(1) m7] 1(1) m7 by fastforce
qed

theorem pcr_init_wf_witness:
  "\<forall>env. \<exists>self p cs d c ms w'. pcr_init env PROM_COMPACT (Some ''app_'') gauge_rworld = Some (0, w') \<and>
    registry_wf w' self p cs d c ms \<and> catalog w' ms = Map.empty \<and> pcr_init env 0 None w' = Some (1, w')"
proof -
  have "plain_features PROM_COMPACT"
    by (simp add: plain_features_def has_def feature_defs)
  from pcr_init_wf [OF gauge_rworld_ok(1-3) this] show ?thesis by blast
qed

end
