(* ===== verification/PromHttp.thy ===== *)
theory PromHttp
  imports RegistryUse
begin

text \<open>
  \<open>lib/promhttp/src/promhttp.c\<close>: the answer to an HTTP request. What libmicrohttpd does is the
  record \<open>mhd\<close>: whether a response can be made of a text, and the result of queueing it. A
  queued response is sent with its status; the text of a response that was handed over with
  \<open>MHD_RESPMEM_MUST_FREE\<close> is freed by libmicrohttpd once the response is destroyed.
\<close>

section \<open>State\<close>

record http =
  prom :: rmem
  PROM_ACTIVE_REGISTRY :: addr

text \<open>The warning for a registry that is still NULL is not part of the state.\<close>

definition promhttp_set_active_collector_registry :: "addr \<Rightarrow> 'z http_scheme \<Rightarrow> 'z http_scheme" where
  "promhttp_set_active_collector_registry registry h =
     h\<lparr>PROM_ACTIVE_REGISTRY := if registry = NULL then PROM_COLLECTOR_REGISTRY (prom h) else registry\<rparr>"

section \<open>The handler\<close>

record mhd =
  create_response :: "string \<Rightarrow> bool"
  queue_response :: "nat \<Rightarrow> string \<Rightarrow> int"

definition MHD_NO :: int where "MHD_NO = 0"
definition MHD_HTTP_OK :: nat where "MHD_HTTP_OK = 200"
definition MHD_HTTP_BAD_REQUEST :: nat where "MHD_HTTP_BAD_REQUEST = 400"

lemmas mhd_defs = MHD_NO_def MHD_HTTP_OK_def MHD_HTTP_BAD_REQUEST_def

text \<open>The body: a literal (\<open>MHD_RESPMEM_PERSISTENT\<close>) or a heap string (\<open>MHD_RESPMEM_MUST_FREE\<close>).\<close>

datatype body = Persistent string | Must_Free addr

fun body_text :: "body \<Rightarrow> 'z http_scheme \<Rightarrow> string option" where
  "body_text (Persistent s) h = Some s"
| "body_text (Must_Free a) h = (if a = NULL then None else load_str a (prom h))"

fun free_body :: "body \<Rightarrow> 'z http_scheme \<Rightarrow> 'z http_scheme option" where
  "free_body (Persistent s) h = Some h"
| "free_body (Must_Free a) h = do { w \<leftarrow> free_str a (prom h); Some (h\<lparr>prom := w\<rparr>) }"

definition choose_body :: "os \<Rightarrow> string \<Rightarrow> string \<Rightarrow> 'z http_scheme \<Rightarrow> (body \<times> nat \<times> 'z http_scheme) option" where
  "choose_body env url method h = (if strcmp method ''GET'' \<noteq> 0
     then Some (Persistent (''Invalid HTTP Method'' @ [newline]), MHD_HTTP_BAD_REQUEST, h)
     else if strcmp url ''/'' = 0
     then Some (Persistent (''<html><body>See <a href='/metrics'>/metrics</a>.'' @ [CHR 0x0D, newline]), MHD_HTTP_OK, h)
     else if strcmp url ''/metrics'' = 0
     then do {
       (a, w) \<leftarrow> pcr_bridge env (PROM_ACTIVE_REGISTRY h) (prom h);
       Some (Must_Free a, MHD_HTTP_OK, h\<lparr>prom := w\<rparr>) }
     else Some (Persistent (''Bad Request'' @ [newline]), MHD_HTTP_BAD_REQUEST, h))"

text \<open>
  The result, and the status and text that are sent if the response was queued. A NULL body is
  undefined in \<open>strlen\<close>.
\<close>

definition promhttp_handler :: "os \<Rightarrow> mhd \<Rightarrow> string \<Rightarrow> string \<Rightarrow> 'z http_scheme
    \<Rightarrow> (int \<times> (nat \<times> string) option \<times> 'z http_scheme) option" where
  "promhttp_handler env m url method h = do {
     (body, status, h) \<leftarrow> choose_body env url method h;
     s \<leftarrow> body_text body h;
     if \<not> create_response m s then do {
       h \<leftarrow> free_body body h;
       Some (MHD_NO, None, h) }
     else do {
       let ret = queue_response m status s;
       h \<leftarrow> free_body body h;
       Some (ret, if ret = MHD_NO then None else Some (status, s), h) } }"

section \<open>Answers\<close>

text \<open>What the handler returns for a text.\<close>

definition replied :: "mhd \<Rightarrow> nat \<Rightarrow> string \<Rightarrow> int \<times> (nat \<times> string) option" where
  "replied m status s = (if \<not> create_response m s then (MHD_NO, None)
     else (queue_response m status s, if queue_response m status s = MHD_NO then None else Some (status, s)))"

text \<open>Requests other than a GET of the metrics are answered without touching the state: status 400
  for another method or an unknown path, 200 for the page that links to the metrics.\<close>

theorem handler_static:
  "method \<noteq> ''GET'' \<or> url \<noteq> ''/metrics'' \<Longrightarrow>
   promhttp_handler env m url method h = (let
       (status, s) = (if method \<noteq> ''GET'' then (400, ''Invalid HTTP Method'' @ [newline])
         else if url = ''/'' then (200, ''<html><body>See <a href='/metrics'>/metrics</a>.'' @ [CHR 0x0D, newline])
         else (400, ''Bad Request'' @ [newline]));
       (ret, sent) = replied m status s in Some (ret, sent, h))"
  by (auto simp: promhttp_handler_def choose_body_def replied_def mhd_defs Let_def)

definition willing :: mhd where
  "willing = \<lparr>create_response = (\<lambda>s. True), queue_response = (\<lambda>status s. 1)\<rparr>"

theorem handler_static_witness:
  "\<forall>env. \<forall>h :: http. promhttp_handler env willing ''/index'' ''GET'' h = Some (1, Some (400, ''Bad Request'' @ [newline]), h)"
proof (intro allI)
  fix env and h :: http
  show "promhttp_handler env willing ''/index'' ''GET'' h = Some (1, Some (400, ''Bad Request'' @ [newline]), h)"
    using handler_static [of "''GET''" "''/index''" env willing h] by (simp add: replied_def willing_def mhd_defs)
qed

text \<open>A scrape that returns a new string is answered with it, and the string is freed.\<close>

lemma handler_bridge:
  assumes "pcr_bridge env (PROM_ACTIVE_REGISTRY h) (prom h) = Some (a, w')" "strs w' = (strs (prom h))(a \<mapsto> s)"
    and "a \<noteq> NULL" "strs (prom h) a = None"
  shows "\<exists>w. promhttp_handler env m ''/metrics'' ''GET'' h =
      Some (fst (replied m 200 s), snd (replied m 200 s), h\<lparr>prom := w\<rparr>) \<and> strs w = strs (prom h)"
proof -
  have "(strs (prom h))(a := None) = strs (prom h)" using assms(4) by auto
  then show ?thesis using assms
    by (auto simp: promhttp_handler_def choose_body_def replied_def mhd_defs load_str_def free_str_def Let_def)
qed

text \<open>C6. A GET of \<open>/metrics\<close> is answered with status 200 and the text of every metric registered with
  the active registry, in the order of its collectors, and leaves no string behind, whether or not the response could
  be sent. This is for a registry without features: it does not time the scrape (\<open>scrape_duration\<close> is NULL), none of
  its collectors has a collect function of its own, as when \<open>pcr_init\<close> was called without \<open>PROM_PROCESS\<close> and
  \<open>PROM_SCRAPETIME\<close>, memory is available and the page fits the string builder. The default registry of the
  program, which times the scrape and has the process collector, is the subject of \<open>MonitorScrape\<close>.\<close>

theorem handler_metrics:
  assumes "registries (prom h) (PROM_ACTIVE_REGISTRY h) = Some p" "PROM_ACTIVE_REGISTRY h \<noteq> NULL" "scrape_duration p = NULL"
    and "rcollectors p = Some cs" "metric_formatter p = Some f" "psb_ok (string_builder f)" "mem_ok (prom h)" "oom (prom h) = []"
    and "map_ok cs (prom h)" "list_all2 (collector_shows (prom h) cs) (keys cs) mtss"
    and "load_opt (mprefix p) (prom h) = Some prefix" "prefix \<noteq> Some []"
    and "s = metrics_text prefix (has (features p) PROM_COMPACT) (concat mtss)" "length s < psb_limit"
  shows "\<exists>w. promhttp_handler env m ''/metrics'' ''GET'' h =
      Some (fst (replied m 200 s), snd (replied m 200 s), h\<lparr>prom := w\<rparr>) \<and> strs w = strs (prom h)"
proof -
  obtain a w' where "pcr_bridge env (PROM_ACTIVE_REGISTRY h) (prom h) = Some (a, w')" "brk (prom h) \<le> a"
      "strs w' = (strs (prom h))(a \<mapsto> s)"
    using pcr_bridge_ok [OF assms(1-12), of env] assms(13,14) by blast
  moreover from this have "a \<noteq> NULL" "strs (prom h) a = None"
    using mem_ok_brk_pos [OF assms(7)] mem_ok_fresh [OF assms(7)] by auto
  ultimately show ?thesis by (intro handler_bridge) 
qed

text \<open>The registry set up by \<open>pcr_init\<close> with one gauge added.\<close>

theorem handler_metrics_witness:
  "\<forall>env. \<exists>(h :: http) w. promhttp_handler env willing ''/metrics'' ''GET'' h = Some (1, Some (200,
      ''# HELP p_abc h'' @ [newline] @ ''# TYPE p_abc gauge'' @ [newline] @ ''p_abc 1'' @ [newline, newline]), h\<lparr>prom := w\<rparr>)"
proof
  fix env :: os
  let ?s = "''# HELP p_abc h'' @ [newline] @ ''# TYPE p_abc gauge'' @ [newline] @ ''p_abc 1'' @ [newline, newline]"
  obtain self p cs d c ms and w :: rmem and f where r: "registry_wf w self p cs d c ms"
    "list_all2 (collector_shows w cs) (keys cs) [[(one_gauge, [(''abc'', d_one)])]]"
    "load_opt (mprefix p) w = Some (Some ''p_'')" "scrape_duration p = NULL" "\<not> has (features p) PROM_COMPACT"
    "metric_formatter p = Some f" "idle f"
    by (rule gauge_registry)
  define h :: http where "h = \<lparr>prom = w, PROM_ACTIVE_REGISTRY = self\<rparr>"
  have one: "fmt_g17 d_one = ''1''" by (simp add: dbl_simps d_one_def)
  have t: "?s = metrics_text (Some ''p_'') (has (features p) PROM_COMPACT) (concat [[(one_gauge, [(''abc'', d_one)])]])"
    using r(5) by (simp add: metric_text_def metric_head_def help_text_def type_text_def samples_text_def sample_text_def
        opt_str_def one one_gauge_def)
  have 1: "registries (prom h) (PROM_ACTIVE_REGISTRY h) = Some p" "PROM_ACTIVE_REGISTRY h \<noteq> NULL" "rcollectors p = Some cs"
    "mem_ok (prom h)" "oom (prom h) = []" "map_ok cs (prom h)" "psb_ok (string_builder f)"
    "list_all2 (collector_shows (prom h) cs) (keys cs) [[(one_gauge, [(''abc'', d_one)])]]"
    "load_opt (mprefix p) (prom h) = Some (Some ''p_'')"
    using r by (simp_all add: registry_wf_def idle_def h_def)
  have "length ?s < psb_limit" by (simp add: psb_limit_def)
  from handler_metrics [OF 1(1,2) r(4) 1(3) r(6) 1(7,4,5,6,8,9) _ t this, of env willing]
  show "\<exists>(h :: http) w. promhttp_handler env willing ''/metrics'' ''GET'' h = Some (1, Some (200, ?s), h\<lparr>prom := w\<rparr>)"
    by (auto simp: replied_def willing_def mhd_defs)
qed

text \<open>While no registry was set the scrape still succeeds, with a comment in place of the metrics.\<close>

theorem handler_no_registry:
  assumes "PROM_ACTIVE_REGISTRY h = NULL" "mem_ok (prom h)" "oom (prom h) = []"
  shows "\<exists>w. promhttp_handler env willing ''/metrics'' ''GET'' h =
      Some (1, Some (200, ''# pcr_bridge(NULL)''), h\<lparr>prom := w\<rparr>) \<and> strs w = strs (prom h)"
proof -
  have "brk (prom h) \<noteq> NULL" using mem_ok_brk_pos [OF assms(2)] by simp
  moreover have "strs (prom h) (brk (prom h)) = None" using assms(2) by (simp add: mem_ok_fresh)
  moreover have "pcr_bridge env (PROM_ACTIVE_REGISTRY h) (prom h) = Some (brk (prom h), (prom h)\<lparr>brk := Suc (brk (prom h)),
      strs := (strs (prom h))(brk (prom h) \<mapsto> ''# pcr_bridge(NULL)'')\<rparr>)"
    using assms by (simp add: pcr_bridge_def strdup_ok)
  ultimately show ?thesis
    using handler_bridge [of env h "brk (prom h)" _ "''# pcr_bridge(NULL)''" willing]
    by (simp add: replied_def willing_def mhd_defs)
qed

theorem handler_no_registry_witness:
  "\<forall>env. \<exists>(h :: http) w. promhttp_handler env willing ''/metrics'' ''GET'' h =
    Some (1, Some (200, ''# pcr_bridge(NULL)''), h\<lparr>prom := w\<rparr>)"
proof
  fix env :: os
  have "PROM_ACTIVE_REGISTRY \<lparr>prom = gauge_rworld, PROM_ACTIVE_REGISTRY = NULL\<rparr> = NULL"
    "mem_ok (prom \<lparr>prom = gauge_rworld, PROM_ACTIVE_REGISTRY = NULL\<rparr>)"
    "oom (prom \<lparr>prom = gauge_rworld, PROM_ACTIVE_REGISTRY = NULL\<rparr>) = []"
    using gauge_rworld_ok by simp_all
  from handler_no_registry [OF this, of env]
  show "\<exists>(h :: http) w. promhttp_handler env willing ''/metrics'' ''GET'' h =
    Some (1, Some (200, ''# pcr_bridge(NULL)''), h\<lparr>prom := w\<rparr>)" by blast
qed

end
