(* ===== verification/ProcReaders.thy ===== *)
theory ProcReaders
  imports CScan
begin

text \<open>
  \<open>src/metrics.c\<close>: the readers of \<open>/proc\<close> and of the output of \<open>top\<close>. A file is the text
  \<open>fopen\<close> finds, None when it cannot be opened; the arrays the readers return are lists, and
  their NULL is None inside the result. The outer None is undefined behaviour (a number that
  does not fit the variable \<open>sscanf\<close> stores it to).
\<close>

section \<open>Memory\<close>

definition BUFFER_SIZE :: nat where
  "BUFFER_SIZE = 256"

definition meminfo_line :: "string \<Rightarrow> u64 \<times> u64 \<Rightarrow> (bool \<times> u64 \<times> u64) option" where
  "meminfo_line buffer = (\<lambda>(total_mem, free_mem). do {
     (n, vs) \<leftarrow> sscanf buffer ''MemTotal: %llu kB'';
     let total_mem = int_arg vs 0 total_mem;
     if n = 1 then Some (False, total_mem, free_mem)
     else do {
       (n, vs) \<leftarrow> sscanf buffer ''MemAvailable: %llu kB'';
       Some (n = 1, total_mem, int_arg vs 0 free_mem) } })"

definition get_memory_usage :: "string option \<Rightarrow> double list option option" where
  "get_memory_usage meminfo = (case meminfo of None \<Rightarrow> Some None
     | Some file \<Rightarrow> do {
         (total_mem, free_mem) \<leftarrow> each_line BUFFER_SIZE meminfo_line file (0, 0);
         if total_mem = 0 \<or> free_mem = 0 then Some None
         else let used_mem = total_mem - free_mem;
           mem_usage_percent = dmul (ddiv (d_of_nat (unat used_mem)) (d_of_nat (unat total_mem))) (d_of_nat 100) in
         Some (Some [d_of_nat (unat total_mem), d_of_nat (unat used_mem), d_of_nat (unat free_mem),
           mem_usage_percent]) })"

section \<open>CPU\<close>

text \<open>The static variables \<open>prev_*\<close>.\<close>

record cpu_times =
  t_user :: u64
  t_nice :: u64
  t_system :: u64
  t_idle :: u64
  t_iowait :: u64
  t_irq :: u64
  t_softirq :: u64
  t_steal :: u64

definition no_times :: cpu_times where
  "no_times = \<lparr>t_user = 0, t_nice = 0, t_system = 0, t_idle = 0, t_iowait = 0, t_irq = 0, t_softirq = 0, t_steal = 0\<rparr>"

definition idle_sum :: "cpu_times \<Rightarrow> u64" where
  "idle_sum t = t_idle t + t_iowait t"

definition non_idle_sum :: "cpu_times \<Rightarrow> u64" where
  "non_idle_sum t = t_user t + t_nice t + t_system t + t_irq t + t_softirq t + t_steal t"

definition minus_one :: double where
  "minus_one = duminus d_one"

definition read_times :: "string \<Rightarrow> cpu_times option option" where
  "read_times buffer = do {
     (ret, vs) \<leftarrow> sscanf buffer ''cpu  %llu %llu %llu %llu %llu %llu %llu %llu'';
     Some (if ret < 8 then None
       else Some \<lparr>t_user = int_arg vs 0 0, t_nice = int_arg vs 1 0, t_system = int_arg vs 2 0, t_idle = int_arg vs 3 0,
         t_iowait = int_arg vs 4 0, t_irq = int_arg vs 5 0, t_softirq = int_arg vs 6 0, t_steal = int_arg vs 7 0\<rparr>) }"

definition cpu_percent :: "cpu_times \<Rightarrow> cpu_times \<Rightarrow> double option" where
  "cpu_percent prev t = (let
       prev_total = idle_sum prev + non_idle_sum prev;
       total_time = idle_sum t + non_idle_sum t;
       totald = total_time - prev_total;
       idled = idle_sum t - idle_sum prev in
     if totald = 0 then None
     else Some (dmul (ddiv (d_of_nat (unat (totald - idled))) (d_of_nat (unat totald))) (d_of_nat 100)))"

definition get_cpu_usage :: "string option \<Rightarrow> cpu_times \<Rightarrow> (double \<times> cpu_times) option" where
  "get_cpu_usage stat prev = (case stat of None \<Rightarrow> Some (minus_one, prev)
     | Some file \<Rightarrow> (case fgets (BUFFER_SIZE * 4) file of None \<Rightarrow> Some (minus_one, prev)
         | Some (buffer, _) \<Rightarrow> do {
             t \<leftarrow> read_times buffer;
             Some (case t of None \<Rightarrow> (minus_one, prev)
               | Some t \<Rightarrow> (case cpu_percent prev t of None \<Rightarrow> (minus_one, prev) | Some p \<Rightarrow> (p, t))) }))"

section \<open>Disk\<close>

definition diskstats_line :: "string \<Rightarrow> u64 list \<Rightarrow> (bool \<times> u64 list) option" where
  "diskstats_line buffer vars = do {
     (n, vs) \<leftarrow> sscanf buffer ''%*u       %*u sda %*u %*u %llu %llu %*u %*u %llu %llu'';
     Some (n = 4, map (\<lambda>i. int_arg vs i (vars ! i)) [0, 1, 2, 3]) }"

definition get_disk_usage :: "string option \<Rightarrow> double list option option" where
  "get_disk_usage diskstats = (case diskstats of None \<Rightarrow> Some None
     | Some file \<Rightarrow> do {
         vars \<leftarrow> each_line BUFFER_SIZE diskstats_line file [0, 0, 0, 0];
         let d = (\<lambda>i. d_of_nat (unat (vars ! i)));
         if vars ! 0 = 0 \<or> vars ! 1 = 0 \<or> vars ! 2 = 0 \<or> vars ! 3 = 0 then Some None
         else Some (Some [ddiv (d 0) (d 1), ddiv (d 2) (d 3)]) })"

section \<open>Network\<close>

definition net_dev_line :: "string \<Rightarrow> bool \<times> u64 list \<Rightarrow> (bool \<times> bool \<times> u64 list) option" where
  "net_dev_line buffer = (\<lambda>(data_read, vars). do {
     (n, vs) \<leftarrow> sscanf buffer ''en%*s %llu %*u %llu %llu %*u %*u %*u %*u %llu %*u %llu %llu'';
     let vars = map (\<lambda>i. int_arg vs i (vars ! i)) [0, 1, 2, 3, 4, 5];
     Some (n = 6, data_read \<or> n = 6, vars) })"

definition get_network_usage :: "string option \<Rightarrow> double list option option" where
  "get_network_usage net_dev = (case net_dev of None \<Rightarrow> Some None
     | Some file \<Rightarrow> do {
         (data_read, vars) \<leftarrow> each_line BUFFER_SIZE net_dev_line file (False, [0, 0, 0, 0, 0, 0]);
         Some (if data_read then Some (map (\<lambda>x. d_of_nat (unat x)) vars) else None) })"

section \<open>Processes\<close>

text \<open>
  What the system does to the calls of \<open>get_processes_usage\<close>: \<open>top_runs\<close> is the output and
  the exit status of \<open>top\<close>, None when \<open>execlp\<close> fails.
\<close>

record child_env =
  fork_ok :: bool
  open_ok :: bool
  dup2_ok :: bool
  top_runs :: "(string \<times> u8) option"
  waitpid_ok :: bool

text \<open>The child: its exit status and the temporary file; \<open>open\<close> creates or empties the file.\<close>

definition top_child :: "child_env \<Rightarrow> string option \<Rightarrow> u8 \<times> string option" where
  "top_child env old = (if \<not> open_ok env then (- 1, old)
     else if \<not> dup2_ok env then (- 1, Some [])
     else case top_runs env of None \<Rightarrow> (- 1, Some []) | Some (out, status) \<Rightarrow> (status, Some out))"

definition tasks_line :: "string \<Rightarrow> u32 \<times> u32 \<Rightarrow> (bool \<times> u32 \<times> u32) option" where
  "tasks_line buffer = (\<lambda>(existing, running). do {
     (n, vs) \<leftarrow> sscanf buffer ''Tasks: %u total, %u'';
     Some (n = 2, int_arg vs 0 existing, int_arg vs 1 running) })"

text \<open>
  \<open>WEXITSTATUS\<close> is a number from 0 to 255. The result holds the temporary file afterwards;
  a failed \<open>waitpid\<close> leaves the child running, what it writes is not seen here.
\<close>

definition get_processes_usage :: "child_env \<Rightarrow> string option \<Rightarrow> (double list option \<times> string option) option" where
  "get_processes_usage env tmp = (if \<not> fork_ok env then Some (None, tmp)
     else let (status, tmp) = top_child env tmp in
     if \<not> waitpid_ok env then Some (None, tmp)
     else if uint status = -1 then Some (None, tmp)
     else case tmp of None \<Rightarrow> Some (None, tmp)
     | Some file \<Rightarrow> do {
         (existing, running) \<leftarrow> each_line BUFFER_SIZE tasks_line file (0, 0);
         Some (if existing = 0 \<or> running = 0 then None
           else Some [d_of_nat (unat existing), d_of_nat (unat running)], tmp) })"


section \<open>Reading lines that are not the one sought\<close>

lemma scan_other:
  assumes "format_of fmt = map Lit p @ ds" "newline \<notin> set p" "take (length p) l \<noteq> p" "line_for n l"
  shows "\<exists>k. sscanf (l @ [newline]) fmt = Some (k, []) \<and> k \<le> 0"
proof -
  have "take (length p) (l @ [newline]) \<noteq> p"
  proof
    assume eq: "take (length p) (l @ [newline]) = p"
    then have "length p \<le> length l"
      using assms(2) by (cases "length p \<le> length l") (auto simp: take_Cons' split: if_splits)
    then show False using eq assms(3) by simp
  qed
  from scan_prefix_differs [OF this, of ds False "[]"] show ?thesis
    by (simp add: sscanf_def assms(1) c_string_line [OF assms(4)])
qed

lemma meminfo_formats:
  "format_of ''MemTotal: %llu kB'' = map Lit ''MemTotal:'' @ [Space, Conv False (Int_Conv False 64), Space, Lit (CHR ''k''), Lit (CHR ''B'')]"
  "format_of ''MemAvailable: %llu kB'' = map Lit ''MemAvailable:'' @ [Space, Conv False (Int_Conv False 64), Space, Lit (CHR ''k''), Lit (CHR ''B'')]"
  by (simp_all add: isspace_def)

definition not_starting :: "string list \<Rightarrow> string \<Rightarrow> bool" where
  "not_starting ps l \<longleftrightarrow> (\<forall>p \<in> set ps. take (length p) l \<noteq> p)"

text \<open>An entry \<open>name:   n kB\<close>.\<close>

definition entry :: "string \<Rightarrow> string \<Rightarrow> nat \<Rightarrow> string" where
  "entry name sp n = name @ sp @ dec n @ '' kB''"

lemma meminfo_other:
  assumes "line_for n l" "not_starting [''MemTotal:'', ''MemAvailable:''] l"
  shows "meminfo_line (l @ [newline]) v = Some (False, v)"
proof -
  obtain t f where v: "v = (t, f)" by (cases v)
  obtain k where k: "sscanf (l @ [newline]) ''MemTotal: %llu kB'' = Some (k, [])" "k \<le> 0"
    using scan_other [OF meminfo_formats(1) _ _ assms(1)] assms(2) by (auto simp: not_starting_def)
  obtain j where j: "sscanf (l @ [newline]) ''MemAvailable: %llu kB'' = Some (j, [])" "j \<le> 0"
    using scan_other [OF meminfo_formats(2) _ _ assms(1)] assms(2) by (auto simp: not_starting_def)
  show ?thesis using k j by (simp add: meminfo_line_def v int_arg_def)
qed

lemma scan_entry:
  assumes "format_of fmt = map Lit name @ [Space, Conv False (Int_Conv False 64), Space, Lit (CHR ''k''), Lit (CHR ''B'')]"
    and "line_for k (entry name sp n)" "blank sp" "n < 2 ^ 64"
  shows "sscanf (entry name sp n @ [newline]) fmt = Some (1, [SInt (int n)])"
proof -
  have 1: "scan_int False False 64 (dec n @ CHR '' '' # ''kB'' @ [newline]) = Some (Matched (SInt (int n)) (CHR '' '' # ''kB'' @ [newline]))"
    using scan_int_dec [of "CHR '' '' # ''kB'' @ [newline]" False n False 64 "[]"] assms(4)
    by (simp add: no_digit_def isdigit_def blank_def)
  have 2: "skip_space (CHR '' '' # ''kB'' @ [newline]) = ''kB'' @ [newline]"
    by (simp add: skip_space_def isspace_def)
  show ?thesis
    unfolding sscanf_def c_string_line [OF assms(2)] assms(1) scan_prefix
    using 1 2 by (simp add: entry_def skip_space_blank [OF assms(3)] skip_space_dec scan_conv_def)
qed

text \<open>The memory reader finds the two entries wherever they stand among other lines and
  reports the total, the difference, the available memory and a percentage from 0 to 100.\<close>

lemma memory_usage_ok:
  assumes "\<forall>l \<in> set ls. line_for BUFFER_SIZE l \<and> not_starting [''MemTotal:'', ''MemAvailable:''] l"
    and "\<forall>l \<in> set ms. line_for BUFFER_SIZE l \<and> not_starting [''MemTotal:'', ''MemAvailable:''] l"
    and "line_for BUFFER_SIZE (entry ''MemTotal:'' sp t)" "line_for BUFFER_SIZE (entry ''MemAvailable:'' sq a)"
    and "blank sp" "blank sq" "0 < a" "a \<le> t" "t < 2 ^ 64"
    and p_def: "p = dmul (ddiv (d_of_nat (t - a)) (d_of_nat t)) (d_of_nat 100)"
  shows "get_memory_usage (Some (lines (ls @ [entry ''MemTotal:'' sp t] @ ms @ [entry ''MemAvailable:'' sq a]) @ rest))
      = Some (Some [d_of_nat t, d_of_nat (t - a), d_of_nat a, p]) \<and> is_fin p \<and> 0 \<le> dval p \<and> dval p \<le> 100"
proof -
  let ?M = "entry ''MemTotal:'' sp t" and ?A = "entry ''MemAvailable:'' sq a"
  have skip: "each_line BUFFER_SIZE meminfo_line (lines xs @ s) v = each_line BUFFER_SIZE meminfo_line s v"
    if "\<forall>l \<in> set xs. line_for BUFFER_SIZE l \<and> not_starting [''MemTotal:'', ''MemAvailable:''] l" for xs s v
    using that meminfo_other by (intro each_line_skip) blast
  have M: "meminfo_line (?M @ [newline]) (0, 0) = Some (False, word_of_nat t, 0)"
    using scan_entry [OF meminfo_formats(1) assms(3,5,9)] by (simp add: meminfo_line_def int_arg_def)
  have "not_starting [''MemTotal:''] ?A" by (simp add: not_starting_def entry_def)
  then obtain k where "sscanf (?A @ [newline]) ''MemTotal: %llu kB'' = Some (k, [])" "k \<le> 0"
    using scan_other [OF meminfo_formats(1) _ _ assms(4)] by (auto simp: not_starting_def)
  then have A: "meminfo_line (?A @ [newline]) (x, 0) = Some (True, x, word_of_nat a)" for x
    using scan_entry [OF meminfo_formats(2) assms(4,6)] assms(8,9) by (simp add: meminfo_line_def int_arg_def)
  have "each_line BUFFER_SIZE meminfo_line (lines (ls @ [?M] @ ms @ [?A]) @ rest) (0, 0) = Some (word_of_nat t, word_of_nat a)"
    using skip [OF assms(1)] skip [OF assms(2)] each_line_line [OF assms(3), of meminfo_line] M
      each_line_line [OF assms(4), of meminfo_line] A by (simp add: lines_def)
  moreover have "unat (word_of_nat t :: u64) = t" "unat (word_of_nat a :: u64) = a"
    using assms(8,9) by (simp_all add: unat_of_nat_u64)
  moreover from this have "unat (word_of_nat t - word_of_nat a :: u64) = t - a"
    using assms(8) by (simp add: unat_sub word_le_nat_alt)
  ultimately have "get_memory_usage (Some (lines (ls @ [?M] @ ms @ [?A]) @ rest)) = Some (Some [d_of_nat t, d_of_nat (t - a), d_of_nat a, p])"
    using assms(7,8) by (simp add: get_memory_usage_def p_def Let_def unat_eq_zero flip: unat_eq_zero)
  moreover have "is_fin p \<and> 0 \<le> dval p \<and> dval p \<le> 100"
    using percent_range [OF _ _ assms(9) p_def] assms(7,8) by simp
  ultimately show ?thesis by simp
qed


section \<open>Rows of numbers\<close>

text \<open>
  Conversions of unsigned numbers with blanks between them, given with the numbers they
  meet: whether the assignment is suppressed, the width, and the number.
\<close>

definition row_format :: "(bool \<times> nat \<times> nat) list \<Rightarrow> directive list" where
  "row_format fs = concat (map (\<lambda>(su, b, _). [Space, Conv su (Int_Conv False b)]) fs)"

definition row :: "nat list \<Rightarrow> string" where
  "row ns = concat (map (\<lambda>n. CHR '' '' # dec n) ns)"

definition row_values :: "(bool \<times> nat \<times> nat) list \<Rightarrow> scanned list" where
  "row_values fs = map (\<lambda>(_, _, n). SInt (int n)) (filter (\<lambda>(su, _, _). \<not> su) fs)"

lemma no_digit_row: "no_digit s \<Longrightarrow> no_digit (row ns @ s)"
  by (cases ns) (simp_all add: row_def no_digit_def isdigit_def)

lemma scan_row:
  assumes "\<forall>(su, b, n) \<in> set fs. su \<or> n < 2 ^ b" "no_digit s"
  shows "scan (row_format fs @ ds) cd vs (row (map (\<lambda>(_, _, n). n) fs) @ s) =
    scan ds (cd \<or> fs \<noteq> []) (vs @ row_values fs) s"
  using assms(1)
proof (induction fs arbitrary: cd vs)
  case Nil
  then show ?case by (simp add: row_format_def row_def row_values_def)
next
  case (Cons f fs)
  obtain su b n where f: "f = (su, b, n)" by (cases f)
  let ?s = "row (map (\<lambda>(_, _, n). n) fs) @ s"
  have 1: "scan_int su False b (dec n @ ?s) = Some (Matched (SInt (if su then 0 else int n)) ?s)"
    using scan_int_dec [OF no_digit_row [OF assms(2)], of su n False b "[]"] Cons.prems f by (simp add: blank_def)
  have 2: "skip_space (row (n # map (\<lambda>(_, _, n). n) fs) @ s) = dec n @ ?s"
    using skip_space_blank [of "'' ''" "dec n @ ?s"] skip_space_dec [of n ?s]
    by (simp add: f row_def blank_def isspace_def)
  show ?case
    using Cons.IH [of True "if su then vs else vs @ [SInt (int n)]"] Cons.prems
      1 2 by (cases su) (simp_all add: f row_format_def row_values_def scan_conv_def)
qed

section \<open>CPU usage\<close>

definition times_of :: "nat list \<Rightarrow> cpu_times" where
  "times_of ns = \<lparr>t_user = word_of_nat (ns ! 0), t_nice = word_of_nat (ns ! 1), t_system = word_of_nat (ns ! 2),
     t_idle = word_of_nat (ns ! 3), t_iowait = word_of_nat (ns ! 4), t_irq = word_of_nat (ns ! 5),
     t_softirq = word_of_nat (ns ! 6), t_steal = word_of_nat (ns ! 7)\<rparr>"

lemma cpu_format:
  "format_of ''cpu  %llu %llu %llu %llu %llu %llu %llu %llu'' =
     map Lit ''cpu'' @ Space # concat (replicate 8 [Space, Conv False (Int_Conv False 64)])"
  by (simp add: isspace_def eval_nat_numeral(2,3) BitM.simps)

lemma read_times_row:
  assumes "length ns = 8" "\<forall>n \<in> set ns. n < 2 ^ 64" "no_digit s" "line_for k (''cpu '' @ row ns @ s)"
  shows "read_times (''cpu '' @ row ns @ s @ [newline]) = Some (Some (times_of ns))"
proof -
  define fs where "fs = map (\<lambda>n. (False, 64 :: nat, n)) ns"
  have fs: "row_format fs = concat (replicate 8 [Space, Conv False (Int_Conv False 64)])"
    "map (\<lambda>(_, _, n). n) fs = ns" "row_values fs = map (\<lambda>n. SInt (int n)) ns" "fs \<noteq> []"
    using assms(1) by (auto simp: fs_def row_format_def row_values_def comp_def map_replicate_const filter_map)
  have nd: "no_digit (s @ [newline])" using assms(3) by (cases s) (simp_all add: no_digit_def isdigit_def)
  have sk: "skip_space (CHR '' '' # row ns @ s @ [newline]) = skip_space (row ns @ s @ [newline])"
    by (simp add: skip_space_def isspace_def)
  have sk2: "scan (row_format fs) cd vs (skip_space (row ns @ t)) = scan (row_format fs) cd vs (row ns @ t)" for cd vs t
    using fs(4) by (cases fs) (auto simp: row_format_def skip_space_def)
  have "sscanf (''cpu '' @ row ns @ s @ [newline]) ''cpu  %llu %llu %llu %llu %llu %llu %llu %llu'' =
      scan (row_format fs) False [] (row ns @ s @ [newline])"
    unfolding sscanf_def using c_string_line [OF assms(4)]
    by (simp add: cpu_format scan_prefix sk fs(1) [symmetric] sk2 del: parse_format.simps)
  also have "\<dots> = Some (8, map (\<lambda>n. SInt (int n)) ns)"
    using scan_row [of fs "s @ [newline]" "[]" False "[]"] assms(1,2) nd fs by (simp add: fs_def)
  finally show ?thesis using assms(1)
    by (auto simp: read_times_def int_arg_def times_of_def)
qed

text \<open>Neither the idle nor the busy time ran backwards, and the counters did not wrap.\<close>

definition time_passes :: "cpu_times \<Rightarrow> cpu_times \<Rightarrow> bool" where
  "time_passes prev t \<longleftrightarrow> idle_sum prev \<le> idle_sum t \<and> non_idle_sum prev \<le> non_idle_sum t \<and>
     unat (idle_sum t) + unat (non_idle_sum t) < 2 ^ 64"

lemma cpu_percent_range:
  assumes "time_passes prev t"
  shows "case cpu_percent prev t of
      None \<Rightarrow> idle_sum t = idle_sum prev \<and> non_idle_sum t = non_idle_sum prev
    | Some p \<Rightarrow> is_fin p \<and> 0 \<le> dval p \<and> dval p \<le> 100"
proof -
  let ?i = "unat (idle_sum t)" and ?j = "unat (idle_sum prev)" and ?b = "unat (non_idle_sum t)" and ?c = "unat (non_idle_sum prev)"
  have le: "?j \<le> ?i" "?c \<le> ?b" "?i + ?b < 2 ^ 64"
    using assms by (simp_all add: time_passes_def word_le_nat_alt)
  have s: "unat (idle_sum t + non_idle_sum t) = ?i + ?b" "unat (idle_sum prev + non_idle_sum prev) = ?j + ?c"
    using le by (simp_all add: unat_add_u64)
  define totald where "totald = idle_sum t + non_idle_sum t - (idle_sum prev + non_idle_sum prev)"
  have d: "unat totald = ?i + ?b - (?j + ?c)"
    using le s by (simp add: totald_def unat_sub word_le_nat_alt)
  have busy: "totald - (idle_sum t - idle_sum prev) = non_idle_sum t - non_idle_sum prev" by (simp add: totald_def)
  have u: "unat (non_idle_sum t - non_idle_sum prev) = ?b - ?c" using le(2) by (simp add: unat_sub word_le_nat_alt)
  show ?thesis
  proof (cases "totald = 0")
    case True
    then have "unat totald = 0" by simp
    then have "?i + ?b - (?j + ?c) = 0" using d by simp
    then have "?i = ?j" "?b = ?c" using le by linarith+
    then have "idle_sum t = idle_sum prev" "non_idle_sum t = non_idle_sum prev" by (simp_all add: word_unat_eq_iff)
    then show ?thesis by (simp add: cpu_percent_def)
  next
    case False
    then have pos: "0 < unat totald" by (simp add: unat_gt_0)
    have "?b - ?c \<le> unat totald" using d le by linarith
    moreover have "unat totald < 2 ^ 64" using unsigned_less [of totald, where ?'a = nat] by simp
    moreover have "cpu_percent prev t = Some (dmul (ddiv (d_of_nat (?b - ?c)) (d_of_nat (unat totald))) (d_of_nat 100))"
      unfolding cpu_percent_def Let_def totald_def [symmetric] busy u using False by simp
    ultimately show ?thesis using percent_range [OF _ pos _ refl, of "?b - ?c"] by simp
  qed
qed

text \<open>The first line of \<open>/proc/stat\<close> is read back; while neither the idle nor the busy time
  runs backwards the usage is -1 exactly when no time has passed, and else from 0 to 100, and
  the readings become the previous ones.\<close>

lemma cpu_usage_ok:
  assumes "length ns = 8" "\<forall>n \<in> set ns. n < 2 ^ 64" "no_digit s"
    and "line_for (BUFFER_SIZE * 4) (''cpu '' @ row ns @ s)" and "time_passes prev (times_of ns)"
  shows "\<exists>p next. get_cpu_usage (Some (''cpu '' @ row ns @ s @ [newline] @ rest)) prev = Some (p, next) \<and>
    (if idle_sum (times_of ns) = idle_sum prev \<and> non_idle_sum (times_of ns) = non_idle_sum prev
     then p = minus_one \<and> next = prev
     else is_fin p \<and> 0 \<le> dval p \<and> dval p \<le> 100 \<and> next = times_of ns)"
proof -
  have "take_line (BUFFER_SIZE * 4 - 1) ((''cpu '' @ row ns @ s) @ newline # rest) = ((''cpu '' @ row ns @ s) @ [newline], rest)"
    using assms(4) by (intro take_line_line) (auto simp: line_for_def)
  then have "fgets (BUFFER_SIZE * 4) (''cpu '' @ row ns @ s @ [newline] @ rest) = Some (''cpu '' @ row ns @ s @ [newline], rest)"
    by (simp add: fgets_def)
  then have "get_cpu_usage (Some (''cpu '' @ row ns @ s @ [newline] @ rest)) prev =
      Some (case cpu_percent prev (times_of ns) of None \<Rightarrow> (minus_one, prev) | Some p \<Rightarrow> (p, times_of ns))"
    using read_times_row [OF assms(1-4)] by (simp add: get_cpu_usage_def)
  moreover have "cpu_percent prev (times_of ns) = None \<longleftrightarrow>
      idle_sum (times_of ns) = idle_sum prev \<and> non_idle_sum (times_of ns) = non_idle_sum prev"
    using cpu_percent_range [OF assms(5)] by (auto simp: cpu_percent_def Let_def split: option.splits if_splits)
  ultimately show ?thesis
    using cpu_percent_range [OF assms(5)] by (auto split: option.splits)
qed

text \<open>
  \<open>iowait\<close> may decrease (the kernel documents it so). Idle time that runs backwards is taken
  from the divisor: here three ticks passed, eight of them busy.
\<close>

lemma cpu_usage_over_100:
  "cpu_percent (no_times\<lparr>t_iowait := 5\<rparr>) (no_times\<lparr>t_user := 8\<rparr>) = Some p \<Longrightarrow> d_to_uchar p = None"
  by (auto simp: cpu_percent_def idle_sum_def non_idle_sum_def no_times_def d_to_uchar_def dbl_simps)

section \<open>Network usage\<close>

text \<open>
  The format starts with \<open>en\<close>: a name that \<open>/proc/net/dev\<close> pads with blanks in front, as
  it does for names shorter than six characters, is never read.
\<close>

lemma net_padded_name_missed:
  assumes "\<forall>l \<in> set ls. line_for BUFFER_SIZE l \<and> l \<noteq> [] \<and> isspace (hd l)"
  shows "get_network_usage (Some (lines ls)) = Some None"
proof -
  have f: "format_of ''en%*s %llu %*u %llu %llu %*u %*u %*u %*u %llu %*u %llu %llu'' = map Lit ''en'' @
      tl (tl (format_of ''en%*s %llu %*u %llu %llu %*u %*u %*u %*u %llu %*u %llu %llu''))" by (simp add: isspace_def)
  let ?v = "(False, [0, 0, 0, 0, 0, 0])"
  have "net_dev_line (l @ [newline]) ?v = Some (False, ?v)" if "l \<in> set ls" for l
  proof -
    have l: "line_for BUFFER_SIZE l" "take (length ''en'') l \<noteq> ''en''" using assms that by (cases l; auto simp: isspace_def)+
    obtain k where "sscanf (l @ [newline]) ''en%*s %llu %*u %llu %llu %*u %*u %*u %*u %llu %*u %llu %llu'' = Some (k, [])" "k \<le> 0"
      using scan_other [OF f _ l(2,1)] by auto
    then show ?thesis by (simp add: net_dev_line_def int_arg_def)
  qed
  then have "each_line BUFFER_SIZE net_dev_line (lines ls @ []) ?v = each_line BUFFER_SIZE net_dev_line [] ?v"
    using assms by (intro each_line_skip) blast
  then show ?thesis by (simp add: get_network_usage_def each_line.simps [of _ _ "[]"])
qed

section \<open>Processes\<close>

text \<open>C39. A child that fails before it opens the temporary file goes unnoticed: what an
  earlier call left there is reported exactly as if \<open>top\<close> had just printed it.\<close>

theorem child_failure_unnoticed:
  assumes "fork_ok env" "waitpid_ok env" "\<not> open_ok env"
  shows "get_processes_usage env (Some file) =
    get_processes_usage (env\<lparr>open_ok := True, dup2_ok := True, top_runs := Some (file, 0)\<rparr>) old"
proof -
  have "uint (- 1 :: u8) \<noteq> -1" using uint_ge_0 [of "- 1 :: u8"] by linarith
  then show ?thesis using assms by (simp add: get_processes_usage_def top_child_def)
qed

theorem child_failure_unnoticed_witness:
  "get_processes_usage \<lparr>fork_ok = True, open_ok = False, dup2_ok = True, top_runs = None, waitpid_ok = True\<rparr>
      (Some ''Tasks: 201 total, 3 running'') =
    get_processes_usage (\<lparr>fork_ok = True, open_ok = False, dup2_ok = True, top_runs = None, waitpid_ok = True\<rparr>
      \<lparr>open_ok := True, dup2_ok := True, top_runs := Some (''Tasks: 201 total, 3 running'', 0)\<rparr>) None"
  by (rule child_failure_unnoticed) simp_all

end
