(* ===== verification/MetricSet.thy ===== *)
theory MetricSet
  imports Exposition
begin

text \<open>
  Several metrics in one state. Metrics that own different strings and samples are
  independent: an update of one leaves the readings of the others as they were. A set of
  metrics with one label set each is a finite map from metrics to numbers, and what happens to
  a part of the set does not change the rest.
\<close>

section \<open>Independent metrics\<close>

definition apart :: "'z mworld \<Rightarrow> metric \<Rightarrow> metric \<Rightarrow> bool" where
  "apart w m n \<longleftrightarrow> owned (msamples m) \<inter> owned (msamples n) = {} \<and> slots_of w m \<inter> slots_of w n = {} \<and>
     (set (label_keys m) \<union> texts_of w m) \<inter> owned (msamples n) = {} \<and>
     (set (label_keys n) \<union> texts_of w n) \<inter> owned (msamples m) = {}"

lemma apart_sym: "apart w m n \<Longrightarrow> apart w n m"
  by (auto simp: apart_def)

text \<open>What a metric is made of was allocated before.\<close>

lemma metric_wf_old:
  assumes "metric_wf x w n ls"
  shows "owned (msamples n) \<subseteq> {..<brk w}" "slots_of w n \<subseteq> {..<brk w}" "set (label_keys n) \<subseteq> {..<brk w}"
    "texts_of w n \<subseteq> {..<brk w}" "texts_of w n \<inter> owned (msamples n) = {}"
proof -
  have n: "mem_ok w" "map_ok (msamples n) w" "list_all2 (\<lambda>a k. strs w a = Some k \<and> a \<notin> owned (msamples n)) (label_keys n) ls"
    "sample_slots (owned (msamples n)) (lookup_map w (msamples n)) (mtype n) w" using assms by (simp_all add: metric_wf_def)
  show "owned (msamples n) \<subseteq> {..<brk w}" using owned_old [OF n(2,1)] by blast
  show "slots_of w n \<subseteq> {..<brk w}" using n(4) by (auto simp: slots_of_def ran_def sample_slots_def)
  show "set (label_keys n) \<subseteq> {..<brk w}"
    using n(3) mem_ok_live [OF n(1)] by (fastforce simp: list_all2_conv_all_nth in_set_conv_nth)
  have "\<exists>u. strs w a = Some u \<and> a \<notin> owned (msamples n)" if "a \<in> texts_of w n" for a
    using n(4) that unfolding texts_of_def slots_of_def ran_def sample_slots_def by fastforce
  then show "texts_of w n \<subseteq> {..<brk w}" "texts_of w n \<inter> owned (msamples n) = {}" using mem_ok_live [OF n(1)] by blast+
qed

text \<open>The part of the state a metric depends on.\<close>

definition same_parts :: "metric \<Rightarrow> 'z mworld \<Rightarrow> 'z mworld \<Rightarrow> bool" where
  "same_parts n w w' \<longleftrightarrow> (\<forall>a \<in> owned (msamples n) \<union> set (label_keys n) \<union> texts_of w n. strs w' a = strs w a) \<and>
     (\<forall>a \<in> slots_of w n. samples w' a = samples w a) \<and> brk w \<le> brk w' \<and> mem_ok w' \<and> oom w' = []"

lemma same_parts_keep:
  assumes "same_parts n w w'" "metric_wf x w n ls" "metrics w' x = metrics w x"
  shows "metric_wf x w' n ls" "metric_reading w' x ls us = metric_reading w x ls us" "slots_of w' n = slots_of w n"
    "texts_of w' n = texts_of w n"
proof -
  have n: "mem_ok w" "map_ok (msamples n) w" "list_all2 (\<lambda>a k. strs w a = Some k \<and> a \<notin> owned (msamples n)) (label_keys n) ls"
    "sample_slots (owned (msamples n)) (lookup_map w (msamples n)) (mtype n) w" "metrics w x = Some n" "length ls = length (label_keys n)"
    using assms(2) by (auto simp: metric_wf_def dest: list_all2_lengthD)
  have so: "same_on (owned (msamples n)) w w'" using assms(1) by (simp add: same_parts_def same_on_def)
  have l: "lookup_map w' (msamples n) = lookup_map w (msamples n)" "map_ok (msamples n) w'"
    using lookup_map_cong [OF so] map_ok_cong [OF n(2) so] by auto
  then show s: "slots_of w' n = slots_of w n" by (simp add: slots_of_def)
  then show "texts_of w' n = texts_of w n" using assms(1) by (intro texts_of_cong) (simp_all add: same_parts_def)
  have sm: "samples w' a = samples w a" if "lookup_map w (msamples n) u = Some a" for u a
    using assms(1) that by (auto simp: same_parts_def slots_of_def ran_def)
  have "sample_slots (owned (msamples n)) (lookup_map w (msamples n)) (mtype n) w'"
    unfolding sample_slots_def
  proof (intro conjI allI impI)
    fix u a assume a: "lookup_map w (msamples n) u = Some a"
    then obtain s where "0 < a" "a < brk w" "samples w a = Some s" "stype s = mtype n" "strs w (l_value s) = Some u"
        "l_value s \<notin> owned (msamples n)" using n(4) unfolding sample_slots_def by blast
    moreover from this a have "l_value s \<in> texts_of w n" by (auto simp: texts_of_def slots_of_def ran_def)
    ultimately show "0 < a" "a < brk w'" "\<exists>s. samples w' a = Some s \<and> stype s = mtype n \<and> strs w' (l_value s) = Some u \<and>
        l_value s \<notin> owned (msamples n)" using sm [OF a] assms(1) by (auto simp: same_parts_def)
  qed (use n(4) in \<open>auto simp: sample_slots_def\<close>)
  moreover have "list_all2 (\<lambda>a k. strs w' a = Some k \<and> a \<notin> owned (msamples n)) (label_keys n) ls"
    using n(3,6) assms(1) by (auto simp: list_all2_conv_all_nth same_parts_def)
  ultimately show "metric_wf x w' n ls"
    using assms l by (simp add: metric_wf_def same_parts_def)
  have "value_of w' a = value_of w a" if "metric_slot w n ls us = Some a" for a
    using sm that by (simp add: value_of_def metric_slot_def)
  then show "metric_reading w' x ls us = metric_reading w x ls us"
    using l(1) n(5) assms(3) by (cases "metric_slot w n ls us") (simp_all add: metric_reading_def metric_slot_def)
qed

lemma same_parts_trans:
  assumes "same_parts n w w1" "same_parts n w1 w2" "slots_of w1 n = slots_of w n" "texts_of w1 n = texts_of w n" shows "same_parts n w w2"
  using assms by (auto simp: same_parts_def)

lemma frame_same_parts:
  assumes f: "metric_frame self w m w' m'" and ok: "mem_ok w'" "oom w' = []"
    and n: "metric_wf x w n ls" "apart w m n"
  shows "same_parts n w w'"
proof -
  note old = metric_wf_old [OF n(1)]
  have "strs w' a = strs w a" if "a \<in> owned (msamples n) \<union> set (label_keys n) \<union> texts_of w n" for a
  proof -
    have "a < brk w" "a \<notin> owned (msamples m)" using old(1,3,4) n(2) that by (auto simp: apart_def)
    then show ?thesis using f by (simp add: metric_frame_def frame_def)
  qed
  moreover have "samples w' a = samples w a" if "a \<in> slots_of w n" for a
  proof -
    have "a < brk w" "a \<notin> slots_of w m" using old(2) n(2) that by (auto simp: apart_def)
    then show ?thesis using f by (simp add: metric_frame_def)
  qed
  ultimately show ?thesis using f ok by (simp add: same_parts_def metric_frame_def frame_def)
qed

lemma disjoint_grown:
  fixes b :: nat
  assumes "A' \<subseteq> A \<union> {b..}" "B \<subseteq> {..<b}" "A \<inter> B = {}" shows "A' \<inter> B = {}" "B \<inter> A' = {}"
  using assms by fastforce+

lemma within: "A' \<subseteq> A \<Longrightarrow> A \<inter> B = {} \<Longrightarrow> A' \<inter> B = {}"
  by blast

lemma frame_apart:
  assumes f: "metric_frame self w m w' m'" and k: "label_keys m' = label_keys m"
    and n: "metric_wf x w n ls" "apart w m n" "slots_of w' n = slots_of w n"
    "texts_of w' n = texts_of w n"
  shows "apart w' m' n"
proof -
  note old = metric_wf_old [OF n(1)]
  have g: "owned (msamples m') \<subseteq> owned (msamples m) \<union> {brk w..}" "slots_of w' m' \<subseteq> slots_of w m \<union> {brk w..}"
    "texts_of w' m' \<subseteq> texts_of w m \<union> {brk w..}"
    using f by (auto simp: metric_frame_def frame_def)
  have d: "owned (msamples m) \<inter> owned (msamples n) = {}" "slots_of w m \<inter> slots_of w n = {}"
    "set (label_keys m) \<inter> owned (msamples n) = {}" "texts_of w m \<inter> owned (msamples n) = {}"
    "owned (msamples m) \<inter> set (label_keys n) = {}" "owned (msamples m) \<inter> texts_of w n = {}"
    using n(2) unfolding apart_def by blast+
  show ?thesis
    unfolding apart_def Int_Un_distrib2 Un_empty n(3,4) k
    using disjoint_grown [OF g(1) old(1) d(1)] disjoint_grown [OF g(2) old(2) d(2)] disjoint_grown [OF g(3) old(1) d(4)]
      disjoint_grown [OF g(1) old(3) d(5)] disjoint_grown [OF g(1) old(4) d(6)] d(3) by simp
qed

section \<open>Sets of metrics\<close>

definition same_metrics :: "addr set \<Rightarrow> 'z mworld \<Rightarrow> 'z mworld \<Rightarrow> bool" where
  "same_metrics A w w' \<longleftrightarrow> (\<forall>x \<in> A. same_metric (the (metrics w x)) (the (metrics w' x)))"

lemma same_metric_refl: "same_metric m m"
  by (simp add: same_metric_def)

lemma same_metric_text: "same_metric m m' \<Longrightarrow> metric_text p c m' txs = metric_text p c m txs"
  by (simp add: same_metric_def metric_text_def metric_head_def split: option.split)

text \<open>The keys of their samples, the samples, and the strings the samples hold.\<close>

definition metric_strs :: "'z mworld \<Rightarrow> addr set \<Rightarrow> addr set" where
  "metric_strs w A = (\<Union>x \<in> A. owned (msamples (the (metrics w x))))"

definition metric_slots :: "'z mworld \<Rightarrow> addr set \<Rightarrow> addr set" where
  "metric_slots w A = (\<Union>x \<in> A. slots_of w (the (metrics w x)))"

definition metric_texts :: "'z mworld \<Rightarrow> addr set \<Rightarrow> addr set" where
  "metric_texts w A = (\<Union>x \<in> A. texts_of w (the (metrics w x)))"

text \<open>A step that touches nothing but the samples of these metrics.\<close>

definition metrics_only :: "addr set \<Rightarrow> 'z mworld \<Rightarrow> 'z mworld \<Rightarrow> bool" where
  "metrics_only A w w' \<longleftrightarrow> same_metrics A w w' \<and> (\<forall>x. x \<notin> A \<longrightarrow> metrics w' x = metrics w x) \<and>
     frame (metric_strs w A) w (metric_strs w' A) w' \<and> (\<forall>a < brk w. a \<notin> metric_slots w A \<longrightarrow> samples w' a = samples w a) \<and>
     metric_slots w' A \<subseteq> metric_slots w A \<union> {brk w..} \<and> metric_texts w' A \<subseteq> metric_texts w A \<union> {brk w..} \<and>
     mmem.more w' = mmem.more w \<and> (mem_ok w \<and> oom w = [] \<longrightarrow> mem_ok w' \<and> oom w' = [])"

lemma metrics_only_refl: "metrics_only A w w"
  by (simp add: metrics_only_def same_metrics_def same_metric_refl frame_def)

lemma metrics_only_trans:
  assumes "metrics_only A u v" "metrics_only A v w" shows "metrics_only A u w"
proof -
  have b: "brk u \<le> brk v" using assms(1) by (simp add: metrics_only_def frame_def)
  have up: "C \<subseteq> S \<union> {brk u..}" if "C \<subseteq> B \<union> {brk v..}" "B \<subseteq> S \<union> {brk u..}" for S B C
    using that b by fastforce
  have "samples w a = samples u a" if a: "a < brk u" "a \<notin> metric_slots u A" for a
  proof -
    have "a < brk v" "a \<notin> metric_slots v A" using a b assms(1) by (auto simp: metrics_only_def)
    then show ?thesis using a assms by (simp add: metrics_only_def)
  qed
  moreover have "metric_slots w A \<subseteq> metric_slots u A \<union> {brk u..}" "metric_texts w A \<subseteq> metric_texts u A \<union> {brk u..}"
    using up assms unfolding metrics_only_def by blast+
  moreover have "same_metrics A u w" using assms by (simp add: metrics_only_def same_metrics_def same_metric_def)
  ultimately show ?thesis using assms frame_trans [of "metric_strs u A" u "metric_strs v A" v "metric_strs w A" w]
    by (simp add: metrics_only_def)
qed

text \<open>A larger set.\<close>

lemma metric_sets_Un:
  "metric_strs w (A \<union> B) = metric_strs w A \<union> metric_strs w B" "metric_slots w (A \<union> B) = metric_slots w A \<union> metric_slots w B"
  "metric_texts w (A \<union> B) = metric_texts w A \<union> metric_texts w B"
  by (simp_all add: metric_strs_def metric_slots_def metric_texts_def)

section \<open>One sample each\<close>

text \<open>\<open>L x\<close> is the label set of the metric at \<open>x\<close>, which reads \<open>r\<close>, None before the first update.\<close>

type_synonym labelling = "addr \<Rightarrow> string list \<times> string list"

definition single_at :: "'z mworld \<Rightarrow> labelling \<Rightarrow> addr \<Rightarrow> metric \<Rightarrow> double option \<Rightarrow> bool" where
  "single_at w L x m r \<longleftrightarrow> (case L x of (ks, vs) \<Rightarrow> x \<noteq> NULL \<and> x < brk w \<and> metric_wf x w m ks \<and> mtype m \<noteq> PROM_HISTOGRAM \<and>
     label_set ks vs \<and> fits (mname m) None ks vs \<and> metric_reading w x ks vs = r \<and>
     map_count (msamples m) \<le> (if r = None then 0 else 1))"

definition singles :: "'z mworld \<Rightarrow> labelling \<Rightarrow> addr set \<Rightarrow> (addr \<Rightarrow> double option) \<Rightarrow> bool" where
  "singles w L A R \<longleftrightarrow> (\<forall>x \<in> A. single_at w L x (the (metrics w x)) (R x)) \<and>
     (\<forall>x \<in> A. \<forall>y \<in> A. x \<noteq> y \<longrightarrow> apart w (the (metrics w x)) (the (metrics w y)))"

lemma single_atD:
  assumes "single_at w L x m r"
  shows "metric_wf x w m (fst (L x))" "metrics w x = Some m" "x \<noteq> NULL" "x < brk w" "mem_ok w" "oom w = []"
  using assms by (auto simp: single_at_def metric_wf_def split: prod.splits)

lemma singlesD:
  assumes "singles w L A R" "x \<in> A"
  shows "single_at w L x (the (metrics w x)) (R x)" "metric_wf x w (the (metrics w x)) (fst (L x))"
    "metrics w x = Some (the (metrics w x))" "x \<noteq> NULL" "x < brk w" "mem_ok w" "oom w = []"
  using assms single_atD [of w L x "the (metrics w x)" "R x"] by (auto simp: singles_def)

lemma singles_subset: "singles w L A R \<Longrightarrow> B \<subseteq> A \<Longrightarrow> singles w L B R"
  by (auto simp: singles_def)

lemma singles_cong: "singles w L A R \<Longrightarrow> (\<And>x. x \<in> A \<Longrightarrow> R' x = R x) \<Longrightarrow> singles w L A R'"
  by (simp add: singles_def)

lemma single_keeps:
  assumes "single_at w L x m r" "same_parts m w w'" "metrics w' x = metrics w x"
  shows "single_at w' L x m r" "slots_of w' m = slots_of w m" "texts_of w' m = texts_of w m"
proof -
  obtain ks vs where L: "L x = (ks, vs)" by (cases "L x")
  note wf = single_atD(1) [OF assms(1), unfolded L fst_conv]
  note k = same_parts_keep [OF assms(2) wf assms(3)]
  have "brk w \<le> brk w'" using assms(2) by (simp add: same_parts_def)
  then show "single_at w' L x m r" using assms(1) k(1) k(2) [of vs] by (simp add: single_at_def L)
  show "slots_of w' m = slots_of w m" "texts_of w' m = texts_of w m" by (rule k(3), rule k(4))
qed

text \<open>What happens to some of the metrics leaves the others as they were.\<close>

lemma singles_frame_rule:
  assumes A: "singles w L (G \<union> S) R" and d: "G \<inter> S = {}" and f: "metrics_only G w w'" and G: "singles w' L G R'"
    and ok: "mem_ok w'" "oom w' = []"
  shows "singles w' L (G \<union> S) (\<lambda>x. if x \<in> G then R' x else R x)" "metrics_only (G \<union> S) w w'"
proof -
  define m where "m x = the (metrics w x)" for x
  have at: "single_at w L x (m x) (R x)" if "x \<in> G \<union> S" for x using singlesD(1) [OF A that] by (simp add: m_def)
  have ap: "apart w (m x) (m y)" if "x \<in> G \<union> S" "y \<in> G \<union> S" "x \<noteq> y" for x y
    using A that unfolding singles_def m_def by blast
  have b: "brk w \<le> brk w'" using f by (simp add: metrics_only_def frame_def)
  have keep: "single_at w' L s (m s) (R s)" "slots_of w' (m s) = slots_of w (m s)" "texts_of w' (m s) = texts_of w (m s)"
    "metrics w' s = metrics w s" if s: "s \<in> S" for s
  proof -
    have m: "metrics w' s = metrics w s" using f d s by (auto simp: metrics_only_def)
    note old = metric_wf_old [OF single_atD(1) [OF at]]
    have sp: "s \<in> G \<union> S" using s by simp
    have g: "apart w (m g) (m s)" if "g \<in> G" for g using ap [of g s] that s d by blast
    have dj: "(owned (msamples (m s)) \<union> set (label_keys (m s)) \<union> texts_of w (m s)) \<inter> metric_strs w G = {}"
      "slots_of w (m s) \<inter> metric_slots w G = {}"
      using g unfolding metric_strs_def metric_slots_def apart_def m_def [symmetric] by blast+
    then have "a \<notin> metric_strs w G" if "a \<in> owned (msamples (m s)) \<union> set (label_keys (m s)) \<union> texts_of w (m s)" for a
      using that by blast
    moreover have "a \<notin> metric_slots w G" if "a \<in> slots_of w (m s)" for a using that dj(2) by blast
    ultimately have "same_parts (m s) w w'"
      using f ok b old(1-4) [OF sp] unfolding same_parts_def metrics_only_def frame_def by blast
    from single_keeps [OF at [OF sp] this m] m
    show "single_at w' L s (m s) (R s)" "slots_of w' (m s) = slots_of w (m s)" "texts_of w' (m s) = texts_of w (m s)"
      "metrics w' s = metrics w s" by blast+
  qed
  have m': "the (metrics w' s) = m s" if "s \<in> S" for s using keep(4) [OF that] by (simp add: m_def)
  have mixed: "apart w' (the (metrics w' g)) (m s)" if gs: "g \<in> G" "s \<in> S" for g s
  proof -
    have sp: "s \<in> G \<union> S" "g \<in> G \<union> S" using gs by simp_all
    note old = metric_wf_old [OF single_atD(1) [OF at [OF sp(1)]]]
    have a: "apart w (m h) (m s)" if "h \<in> G" for h using ap [of h s] that gs(2) d by blast
    have dj: "metric_strs w G \<inter> owned (msamples (m s)) = {}" "metric_slots w G \<inter> slots_of w (m s) = {}"
      "metric_texts w G \<inter> owned (msamples (m s)) = {}" "metric_strs w G \<inter> set (label_keys (m s)) = {}"
      "metric_strs w G \<inter> texts_of w (m s) = {}"
      using a unfolding metric_strs_def metric_slots_def metric_texts_def apart_def m_def [symmetric] by blast+
    have up: "metric_strs w' G \<subseteq> metric_strs w G \<union> {brk w..}" "metric_slots w' G \<subseteq> metric_slots w G \<union> {brk w..}"
      "metric_texts w' G \<subseteq> metric_texts w G \<union> {brk w..}" using f by (auto simp: metrics_only_def frame_def)
    have k: "label_keys (the (metrics w' g)) = label_keys (m g)"
      using f gs(1) by (simp add: metrics_only_def same_metrics_def same_metric_def m_def)
    have l: "set (label_keys (m g)) \<inter> owned (msamples (m s)) = {}" using a [OF gs(1)] by (auto simp: apart_def)
    have i: "owned (msamples (the (metrics w' g))) \<subseteq> metric_strs w' G" "slots_of w' (the (metrics w' g)) \<subseteq> metric_slots w' G"
      "texts_of w' (the (metrics w' g)) \<subseteq> metric_texts w' G"
      using gs(1) by (auto simp: metric_strs_def metric_slots_def metric_texts_def)
    note dis = within [OF i(1) disjoint_grown(1) [OF up(1) old(1) dj(1)]] within [OF i(2) disjoint_grown(1) [OF up(2) old(2) dj(2)]]
      within [OF i(3) disjoint_grown(1) [OF up(3) old(1) dj(3)]] within [OF i(1) disjoint_grown(1) [OF up(1) old(3) dj(4)]]
      within [OF i(1) disjoint_grown(1) [OF up(1) old(4) dj(5)]]
    show ?thesis
      unfolding apart_def keep(2,3) [OF gs(2)] k Int_Un_distrib2 Un_empty using dis l by (simp add: Int_commute)
  qed
  have "apart w' (the (metrics w' x)) (the (metrics w' y))" if xy: "x \<in> G \<union> S" "y \<in> G \<union> S" "x \<noteq> y" for x y
  proof -
    consider "x \<in> G" "y \<in> G" | "x \<in> G" "y \<in> S" | "x \<in> S" "y \<in> G" | "x \<in> S" "y \<in> S" using xy by blast
    then show ?thesis
    proof cases
      case 1
      then show ?thesis using G xy(3) unfolding singles_def by blast
    next
      case 2
      then show ?thesis using mixed m' by simp
    next
      case 3
      then show ?thesis using mixed [of y x] m' by (simp add: apart_sym)
    next
      case 4
      then show ?thesis using ap [OF xy] keep(2,3) m' by (simp add: apart_def)
    qed
  qed
  moreover have "single_at w' L x (the (metrics w' x)) (if x \<in> G then R' x else R x)" if "x \<in> G \<union> S" for x
    using that G keep(1) [of x] m' [of x] singlesD(1) [OF G, of x] by (cases "x \<in> G") auto
  ultimately show "singles w' L (G \<union> S) (\<lambda>x. if x \<in> G then R' x else R x)" by (simp add: singles_def)
  have "metric_strs w' S = metric_strs w S" "metric_slots w' S = metric_slots w S" "metric_texts w' S = metric_texts w S"
    using keep(2,3) m' by (auto simp: metric_strs_def metric_slots_def metric_texts_def m_def)
  moreover have "same_metrics S w w'" using m' by (simp add: same_metrics_def m_def same_metric_refl)
  ultimately show "metrics_only (G \<union> S) w w'"
    using f unfolding metrics_only_def metric_sets_Un by (auto simp: same_metrics_def frame_def)
qed

text \<open>An operation on one of the metrics changes its number and no other.\<close>

lemma metric_frame_only:
  assumes "metric_frame x w (the (metrics w x)) w' m'" "metrics w' x = Some m'" "same_metric (the (metrics w x)) m'" "mem_ok w'" "oom w' = []"
  shows "metrics_only {x} w w'"
  using assms unfolding metrics_only_def metric_frame_def frame_metrics_def
  by (simp add: same_metrics_def metric_strs_def metric_slots_def metric_texts_def)

lemma single_updated:
  assumes at: "single_at w L x m r" and L: "L x = (ks, vs)" and u: "updated res e x w m ks (metric_reading w x ks) vs v"
  obtains w' m' where "res = Some (e, w')" "single_at w' L x m' (Some v)" "same_metric m m'" "metric_frame x w m w' m'"
proof -
  have a: "x \<noteq> NULL" "x < brk w" "mtype m \<noteq> PROM_HISTOGRAM" "label_set ks vs" "fits (mname m) None ks vs"
    "metric_reading w x ks vs = r" "map_count (msamples m) \<le> (if r = None then 0 else 1)"
    using at by (simp_all add: single_at_def L)
  obtain w' m' where 1: "res = Some (e, w')" "metric_wf x w' m' ks" "same_metric m m'"
    "reads_as w' x ks ((metric_reading w x ks)(vs \<mapsto> v))" "metric_frame x w m w' m'" "one_more (metric_reading w x ks vs = None) m m'"
    using u by (auto simp: updated_def)
  have "x < brk w'" using a(2) 1(5) by (simp add: metric_frame_def frame_def)
  moreover have "metric_reading w' x ks vs = Some v" using 1(4) a(4) by (simp add: reads_as_def)
  ultimately have "single_at w' L x m' (Some v)"
    using a 1(2,3,6) by (auto simp: single_at_def L same_metric_def one_more_def split: if_splits)
  then show thesis using 1(1,3,5) by (rule_tac that)
qed

lemma singles_update:
  assumes A: "singles w L A R" and x: "x \<in> A" and L: "L x = (ks, vs)"
    and u: "updated res e x w (the (metrics w x)) ks (metric_reading w x ks) vs v"
  shows "\<exists>w'. res = Some (e, w') \<and> singles w' L A (R(x \<mapsto> v)) \<and> metrics_only A w w'"
proof -
  obtain w' m' where 1: "res = Some (e, w')" "single_at w' L x m' (Some v)" "same_metric (the (metrics w x)) m'"
    "metric_frame x w (the (metrics w x)) w' m'"
    by (rule single_updated [OF singlesD(1) [OF A x] L u])
  note m' = single_atD [OF 1(2)]
  have o: "metrics_only {x} w w'" by (rule metric_frame_only [OF 1(4) m'(2) 1(3) m'(5,6)])
  have "singles w' L {x} (\<lambda>_. Some v)" using 1(2) m'(2) by (simp add: singles_def)
  moreover have "singles w L ({x} \<union> (A - {x})) R" using A x by (simp add: insert_absorb)
  moreover have "{x} \<inter> (A - {x}) = {}" by blast
  ultimately have "singles w' L ({x} \<union> (A - {x})) (\<lambda>y. if y \<in> {x} then Some v else R y)" "metrics_only ({x} \<union> (A - {x})) w w'"
    using singles_frame_rule [of w L "{x}" "A - {x}" R w' "\<lambda>_. Some v", OF _ _ o _ m'(5,6)] by blast+
  moreover have "{x} \<union> (A - {x}) = A" using x by blast
  moreover have "(\<lambda>y. if y \<in> {x} then Some v else R y) = R(x \<mapsto> v)" by auto
  ultimately show ?thesis using 1(1) by simp
qed

lemma single_room: "single_at w L x m r \<Longrightarrow> L x = (ks, vs) \<Longrightarrow> metric_room m ks vs"
  by (auto simp: single_at_def metric_room_def map_limit_def split: if_splits)

lemma reads_itself: "reads_as w x ks (metric_reading w x ks)"
  by (simp add: reads_as_def)

lemma singles_gauge_set:
  assumes A: "singles w L A R" and x: "x \<in> A" "mtype (the (metrics w x)) = PROM_GAUGE" and L: "L x = (ks, vs)"
  shows "\<exists>w'. prom_gauge_set warn x v (map Some vs) w = Some (0, w') \<and> singles w' L A (R(x \<mapsto> v)) \<and> metrics_only A w w'"
proof (rule singles_update [OF A x(1) L])
  note d = singlesD [OF A x(1)]
  show "updated (prom_gauge_set warn x v (map Some vs) w) 0 x w (the (metrics w x)) ks (metric_reading w x ks) vs v"
    using gauge_set.refines [OF d(2) [unfolded L fst_conv] x(2) d(4) single_room [OF d(1) L] reads_itself, of warn v]
    by (simp add: prom_gauge_set_def)
qed

lemma singles_counter_reset:
  assumes A: "singles w L A R" and x: "x \<in> A" "mtype (the (metrics w x)) = PROM_COUNTER" and L: "L x = (ks, vs)" and v: "\<not> dlt v dzero"
  shows "\<exists>w'. prom_counter_reset warn x v (map Some vs) w = Some (0, w') \<and> singles w' L A (R(x \<mapsto> v)) \<and> metrics_only A w w'"
proof (rule singles_update [OF A x(1) L])
  note d = singlesD [OF A x(1)]
  show "updated (prom_counter_reset warn x v (map Some vs) w) 0 x w (the (metrics w x)) ks (metric_reading w x ks) vs v"
    using sample_op.refines [OF counter_set_op [OF v] d(2) [unfolded L fst_conv] x(2) d(4) single_room [OF d(1) L] reads_itself]
    by (simp add: prom_counter_reset_def)
qed

text \<open>A metric without labels that was never set depends on no string and no sample.\<close>

lemma empty_map:
  fixes w :: "'z mem_scheme"
  assumes "map_ok m w" "keys_ok m" "map_count m = 0" shows "owned m = {}" "lookup_map w m = Map.empty"
proof -
  have e: "entries (addrs m) = []" using assms(3) by (simp add: map_count_def)
  then show "owned m = {}" by (simp add: owned_def)
  have k: "keys m = []" using assms(2) e by (simp add: keys_ok_def)
  obtain names where "list_all2 (\<lambda>k s. strs w k = Some s) (keys m) names" "set names = dom (lookup_map w m)"
    by (rule map_keys [OF assms(1,2)])
  then show "lookup_map w m = Map.empty" using k by auto
qed

definition bare :: "'z mworld \<Rightarrow> addr \<Rightarrow> metric \<Rightarrow> bool" where
  "bare w x m \<longleftrightarrow> metric_wf x w m [] \<and> map_count (msamples m) = 0"

lemma bare_owns:
  assumes "bare w x m"
  shows "owned (msamples m) = {}" "lookup_map w (msamples m) = Map.empty" "slots_of w m = {}" "texts_of w m = {}" "label_keys m = []"
proof -
  have m: "map_ok (msamples m) w" "keys_ok (msamples m)" "map_count (msamples m) = 0" "label_keys m = []"
    using assms by (simp_all add: bare_def metric_wf_def)
  show o: "owned (msamples m) = {}" and l: "lookup_map w (msamples m) = Map.empty" using empty_map [OF m(1-3)] by simp_all
  show "slots_of w m = {}" using l by (simp add: slots_of_def)
  then show "texts_of w m = {}" by (simp add: texts_of_def)
  show "label_keys m = []" by (rule m(4))
qed

lemma bare_keeps:
  fixes w w' :: "'z mworld"
  assumes "bare w x m" "metrics w' x = metrics w x" "mem_ok w'" "oom w' = []" shows "bare w' x m"
proof -
  have m: "metric_wf x w m []" "map_count (msamples m) = 0" using assms(1) by (simp_all add: bare_def)
  note o = bare_owns [OF assms(1)]
  have s: "same_on (owned (msamples m)) w w'" by (simp add: o(1) same_on_def)
  have "map_ok (msamples m) w'" using map_ok_cong [OF _ s] m(1) by (simp add: metric_wf_def)
  moreover have "lookup_map w' (msamples m) = Map.empty" using lookup_map_cong [OF s] o(2) by simp
  ultimately show ?thesis using m assms(2-4) by (simp add: bare_def metric_wf_def sample_slots_def)
qed

text \<open>Changes of other strings.\<close>

definition metric_parts :: "'z mworld \<Rightarrow> addr set \<Rightarrow> addr set" where
  "metric_parts w A = metric_strs w A \<union> metric_texts w A \<union> (\<Union>x \<in> A. set (label_keys (the (metrics w x))))"

lemma singles_later:
  fixes w w' :: "'z mworld"
  assumes A: "singles w L A R" and ok: "mem_ok w'" "oom w' = []" "brk w \<le> brk w'"
    and "\<And>a. a < brk w \<Longrightarrow> a \<notin> B \<Longrightarrow> strs w' a = strs w a" "\<And>a. a < brk w \<Longrightarrow> samples w' a = samples w a"
    and "\<And>x. x \<in> A \<Longrightarrow> metrics w' x = metrics w x" and B: "B \<inter> metric_parts w A = {}"
  shows "singles w' L A R" "metric_parts w' A = metric_parts w A" "metric_strs w' A = metric_strs w A"
proof -
  define m where "m x = the (metrics w x)" for x
  have keep: "single_at w' L x (m x) (R x)" "slots_of w' (m x) = slots_of w (m x)" "texts_of w' (m x) = texts_of w (m x)"
    "the (metrics w' x) = m x" if x: "x \<in> A" for x
  proof -
    note d = singlesD [OF A x, folded m_def]
    note old = metric_wf_old [OF d(2)]
    have "a \<notin> B" if "a \<in> owned (msamples (m x)) \<union> set (label_keys (m x)) \<union> texts_of w (m x)" for a
      using that B x unfolding metric_parts_def metric_strs_def metric_texts_def m_def by blast
    then have "strs w' a = strs w a" if "a \<in> owned (msamples (m x)) \<union> set (label_keys (m x)) \<union> texts_of w (m x)" for a
      using that old(1,3,4) assms(5) by blast
    moreover have "\<forall>a \<in> slots_of w (m x). samples w' a = samples w a" using old(2) assms(6) by auto
    ultimately have "same_parts (m x) w w'" using ok by (simp add: same_parts_def)
    from single_keeps [OF d(1) this assms(7) [OF x]]
    show "single_at w' L x (m x) (R x)" "slots_of w' (m x) = slots_of w (m x)" "texts_of w' (m x) = texts_of w (m x)" by blast+
    show "the (metrics w' x) = m x" using assms(7) [OF x] by (simp add: m_def)
  qed
  show "singles w' L A R"
    using keep A unfolding singles_def m_def [symmetric] by (simp add: apart_def)
  show "metric_parts w' A = metric_parts w A" "metric_strs w' A = metric_strs w A"
    using keep(3,4) by (simp_all add: metric_parts_def metric_strs_def metric_texts_def m_def)
qed

lemma metric_parts_old: "singles w L A R \<Longrightarrow> a \<in> metric_parts w A \<Longrightarrow> a < brk w"
proof -
  assume A: "singles w L A R" and a: "a \<in> metric_parts w A"
  then obtain x where x: "x \<in> A" "a \<in> owned (msamples (the (metrics w x))) \<union> texts_of w (the (metrics w x)) \<union> set (label_keys (the (metrics w x)))"
    by (auto simp: metric_parts_def metric_strs_def metric_texts_def)
  show "a < brk w" using metric_wf_old(1,3,4) [OF singlesD(2) [OF A x(1)]] x(2) by auto
qed

text \<open>After a step that touches only the metrics their strings are still their own.\<close>

lemma metrics_only_beside:
  assumes "metrics_only A w w'" "metric_strs w A \<inter> B = {}" "B \<subseteq> {..<brk w}"
  shows "metric_strs w' A \<inter> B = {}" "same_on B w w'"
proof -
  have "metric_strs w' A \<subseteq> metric_strs w A \<union> {brk w..}" using assms(1) by (auto simp: metrics_only_def frame_def)
  from disjoint_grown(1) [OF this assms(3,2)] show "metric_strs w' A \<inter> B = {}" .
  have "strs w' a = strs w a" if "a \<in> B" for a
  proof -
    have "a < brk w" "a \<notin> metric_strs w A" using that assms(2,3) by auto
    then show ?thesis using assms(1) by (simp add: metrics_only_def frame_def)
  qed
  then show "same_on B w w'" by (simp add: same_on_def)
qed

section \<open>What is printed\<close>

text \<open>The readings of a metric that is no histogram, in the order of its list of keys.\<close>

lemma metric_wf_shows:
  fixes w :: "'z mworld"
  assumes wf: "metric_wf self w m ks" and "mtype m \<noteq> PROM_HISTOGRAM"
  obtains txs where "metric_shows w m txs" "distinct (map fst txs)"
    "\<forall>t x. (t, x) \<in> set txs \<longleftrightarrow> (\<exists>a. lookup_map w (msamples m) t = Some a \<and> value_of w a = x)"
proof -
  let ?sm = "msamples m"
  have m: "map_ok ?sm w" "keys_ok ?sm" "mem_ok w" "sample_slots (owned ?sm) (lookup_map w ?sm) (mtype m) w"
    using wf by (simp_all add: metric_wf_def)
  obtain names where n: "list_all2 (\<lambda>k s. strs w k = Some s) (keys ?sm) names" "distinct names"
      "set names = dom (lookup_map w ?sm)"
    by (rule map_keys [OF m(1,2)])
  define txs where "txs = map (\<lambda>t. (t, value_of w (the (lookup_map w ?sm t)))) names"
  have "key_shows w ?sm k (t, value_of w (the (lookup_map w ?sm t)))" if "strs w k = Some t" "t \<in> set names" for k t
  proof -
    obtain a where a: "lookup_map w ?sm t = Some a" using n(3) \<open>t \<in> set names\<close> by auto
    then obtain s where s: "0 < a" "samples w a = Some s" "strs w (l_value s) = Some t"
      using m(4) unfolding sample_slots_def by blast
    then have "l_value s \<noteq> NULL" using mem_ok_live [OF m(3)] by blast
    then show ?thesis using that(1) a s by (simp add: key_shows_def sample_shows_def value_of_def load_opt_def load_str_def)
  qed
  then have "list_all2 (key_shows w ?sm) (keys ?sm) txs"
    using n(1) unfolding txs_def list_all2_map2 by (elim list.rel_mono_strong) blast
  then have "metric_shows w m txs" using m(1) assms(2) by (simp add: metric_shows_def)
  moreover have "distinct (map fst txs)" using n(2) by (simp add: txs_def comp_def)
  moreover have "\<forall>t x. (t, x) \<in> set txs \<longleftrightarrow> (\<exists>a. lookup_map w ?sm t = Some a \<and> value_of w a = x)"
    using n(3) by (auto simp: txs_def image_iff)
  ultimately show thesis by (rule that)
qed

text \<open>A metric with one sample prints it.\<close>

lemma single_shows:
  assumes at: "single_at w L x m r" and L: "L x = (ks, vs)"
  shows "metric_shows w m (case r of None \<Rightarrow> [] | Some v \<Rightarrow> [(l_text (mname m) None ks vs, v)])"
proof -
  have g: "metric_wf x w m ks" "mtype m \<noteq> PROM_HISTOGRAM" "metric_reading w x ks vs = r" "map_count (msamples m) \<le> (if r = None then 0 else 1)"
    using at by (simp_all add: single_at_def L)
  have w: "metrics w x = Some m" "keys_ok (msamples m)" using g(1) by (simp_all add: metric_wf_def)
  obtain txs where t: "metric_shows w m txs" "distinct (map fst txs)"
    "\<forall>t y. (t, y) \<in> set txs \<longleftrightarrow> (\<exists>a. lookup_map w (msamples m) t = Some a \<and> value_of w a = y)"
    by (rule metric_wf_shows [OF g(1,2)])
  have "r = None \<or> (\<exists>v. r = Some v \<and> (l_text (mname m) None ks vs, v) \<in> set txs)"
    using g(3) w(1) t(3) by (auto simp: metric_reading_def metric_slot_def)
  moreover have "length txs = map_count (msamples m)"
    using t(1) w(2) g(2) mset_eq_length [of "keys (msamples m)" "map mkey (entries (addrs (msamples m)))"]
    by (auto simp: metric_shows_def keys_ok_def map_count_def dest: list_all2_lengthD)
  then have "length txs \<le> (if r = None then 0 else 1)" using g(4) by simp
  ultimately have "txs = (case r of None \<Rightarrow> [] | Some v \<Rightarrow> [(l_text (mname m) None ks vs, v)])"
    by (cases txs) (auto split: if_splits)
  then show ?thesis using t(1) by simp
qed

end
