(* ===== verification/MetricUse.thy ===== *)
theory MetricUse
  imports MetricSet
begin

text \<open>
  The gauges the monitor uses have no labels, and are a finite map from gauges to numbers.
\<close>

section \<open>Gauges without labels\<close>

text \<open>The gauge at \<open>g\<close> reads \<open>r\<close>, None before the first update.\<close>

definition gauge_at :: "'z mworld \<Rightarrow> addr \<Rightarrow> metric \<Rightarrow> double option \<Rightarrow> bool" where
  "gauge_at w g m r \<longleftrightarrow> g \<noteq> NULL \<and> g < brk w \<and> metric_wf g w m [] \<and> mtype m = PROM_GAUGE \<and> fits (mname m) None [] [] \<and>
     metric_reading w g [] [] = r \<and> map_count (msamples m) \<le> (if r = None then 0 else 1)"

text \<open>The abstract state of a set of gauges: a number for some of them.\<close>

definition gauges_ok :: "'z mworld \<Rightarrow> addr set \<Rightarrow> (addr \<Rightarrow> double option) \<Rightarrow> bool" where
  "gauges_ok w G R \<longleftrightarrow> (\<forall>g \<in> G. gauge_at w g (the (metrics w g)) (R g)) \<and>
     (\<forall>g \<in> G. \<forall>h \<in> G. g \<noteq> h \<longrightarrow> apart w (the (metrics w g)) (the (metrics w h)))"

lemma label_set_nil [simp]: "label_set [] vs \<longleftrightarrow> vs = []"
  by (auto simp: label_set_def)

definition no_labels :: labelling where
  "no_labels x = ([], [])"

lemma gauge_single: "gauge_at w g m r \<longleftrightarrow> single_at w no_labels g m r \<and> mtype m = PROM_GAUGE"
  by (auto simp: gauge_at_def single_at_def no_labels_def)

lemma gauges_singles:
  "gauges_ok w G R \<longleftrightarrow> singles w no_labels G R \<and> (\<forall>g \<in> G. mtype (the (metrics w g)) = PROM_GAUGE)"
  by (auto simp: gauges_ok_def singles_def gauge_single)

text \<open>\<open>prom_gauge_set\<close> changes the number of one gauge.\<close>

lemma gauge_set_ok:
  assumes G: "gauges_ok w G R" and g: "g \<in> G"
  shows "\<exists>w'. prom_gauge_set warn g v [] w = Some (0, w') \<and> gauges_ok w' G (R(g \<mapsto> v)) \<and> metrics_only G w w'"
proof -
  have G': "singles w no_labels G R" "\<forall>x \<in> G. mtype (the (metrics w x)) = PROM_GAUGE" using G by (simp_all add: gauges_singles)
  obtain w' where 1: "prom_gauge_set warn g v [] w = Some (0, w')" "singles w' no_labels G (R(g \<mapsto> v))" "metrics_only G w w'"
    using singles_gauge_set [OF G'(1) g _ no_labels_def, of warn v] G'(2) g by auto
  have "mtype (the (metrics w' x)) = PROM_GAUGE" if "x \<in> G" for x
    using 1(3) G'(2) that by (simp add: metrics_only_def same_metrics_def same_metric_def)
  then show ?thesis using 1 by (auto simp: gauges_singles)
qed

section \<open>New gauges\<close>

text \<open>Later states in which the strings and samples of the gauges have stayed as they were.\<close>

lemma gauges_ok_frame:
  fixes w w' :: "'z mworld"
  assumes G: "gauges_ok w G R" and "mem_ok w'" "oom w' = []" "brk w \<le> brk w'"
    and "\<And>a. a < brk w \<Longrightarrow> a \<notin> A \<Longrightarrow> strs w' a = strs w a" "\<And>a. a < brk w \<Longrightarrow> samples w' a = samples w a"
    and "\<And>g. g \<in> G \<Longrightarrow> metrics w' g = metrics w g" and A: "A \<inter> metric_parts w G = {}"
  shows "gauges_ok w' G R" "metric_parts w' G = metric_parts w G"
proof -
  have G': "singles w no_labels G R" "\<forall>g \<in> G. mtype (the (metrics w g)) = PROM_GAUGE" using G by (simp_all add: gauges_singles)
  note l = singles_later [OF G'(1) assms(2-7) A]
  show "gauges_ok w' G R" using l(1) G'(2) assms(7) by (simp add: gauges_singles)
  show "metric_parts w' G = metric_parts w G" by (rule l(2))
qed

lemma gauges_ok_later:
  fixes w w' :: "'z mworld"
  assumes "gauges_ok w G R" "mem_ok w'" "oom w' = []" "brk w \<le> brk w'"
    and "\<And>a. a < brk w \<Longrightarrow> strs w' a = strs w a" "\<And>a. a < brk w \<Longrightarrow> samples w' a = samples w a"
    and "\<And>g. g \<in> G \<Longrightarrow> metrics w' g = metrics w g"
  shows "gauges_ok w' G R"
  using gauges_ok_frame(1) [OF assms(1-4), of "{}"] assms(5-7) by simp

text \<open>\<open>g\<close> is a gauge named \<open>d\<close>.\<close>

definition gauge_named :: "'z mworld \<Rightarrow> addr \<Rightarrow> string \<times> string \<Rightarrow> bool" where
  "gauge_named w g d \<longleftrightarrow> (\<exists>m. metrics w g = Some m \<and> mname m = fst d \<and> mhelp m = Some (snd d))"

text \<open>A step that only adds: strings, samples and metrics that were there stay as they are.\<close>

definition adds :: "'z mworld \<Rightarrow> 'z mworld \<Rightarrow> bool" where
  "adds w w' \<longleftrightarrow> mem_ok w' \<and> oom w' = [] \<and> brk w \<le> brk w' \<and> (\<forall>a < brk w. strs w' a = strs w a) \<and>
     samples w' = samples w \<and> (\<forall>a < brk w. metrics w' a = metrics w a) \<and> mmem.more w' = mmem.more w"

lemma adds_refl: "mem_ok w \<Longrightarrow> oom w = [] \<Longrightarrow> adds w w"
  by (simp add: adds_def)

lemma adds_trans: "adds u v \<Longrightarrow> adds v w \<Longrightarrow> adds u w"
  by (auto simp: adds_def)

lemma adds_gauges:
  assumes "adds w w'" "gauges_ok w G R" shows "gauges_ok w' G R"
proof -
  have "g < brk w" if "g \<in> G" for g using assms(2) that by (simp add: gauges_ok_def gauge_at_def)
  then show ?thesis using assms(1) by (intro gauges_ok_later [OF assms(2)]) (auto simp: adds_def)
qed

lemma adds_named: "adds w w' \<Longrightarrow> g < brk w \<Longrightarrow> gauge_named w g d \<Longrightarrow> gauge_named w' g d"
  by (simp add: adds_def gauge_named_def)

lemma new_gauge_ok:
  assumes G: "gauges_ok w G R" and m: "mem_ok w" "oom w = []" and name: "fits name None [] []"
  obtains g w' where "prom_gauge_new name (Some descr) 0 [] w = Some (g, w')" "g \<notin> G" "gauges_ok w' (insert g G) (R(g := None))"
    "adds w w'" "gauge_named w' g (name, descr)" "g < brk w'" "brk w \<le> g"
proof -
  obtain g n w1 M where 1: "prom_gauge_new name (Some descr) 0 [] w = Some (g, put_metric g n w1)"
    "g \<noteq> NULL" "metric_wf g (put_metric g n w1) n []" "mtype n = PROM_GAUGE" "mname n = name" "mhelp n = Some descr"
    "lookup_map w1 (msamples n) = Map.empty" "map_count (msamples n) = 0" "g = brk w" "stores w M w1" "owned (msamples n) = {}"
    "brk w < brk w1"
    by (rule metric_new_ok [of "[]" w PROM_GAUGE name "Some descr"]) (auto simp: prom_gauge_new_def m)
  let ?w = "put_metric g n w1"
  have old: "strs w1 a = strs w a" if "a < brk w" for a
    using frame_stores [OF 1(10), of "{}"] that by (simp add: frame_def)
  note more = more_metrics [OF stores_more [OF 1(10)]]
  have ad: "adds w ?w"
    using storesD(1-3) [OF 1(10)] old more 1(9) by (auto simp: adds_def)
  have g: "g \<notin> G" using G 1(9) by (auto simp: gauges_ok_def gauge_at_def)
  have n: "label_keys n = []" "slots_of ?w n = {}" using 1(3,7) by (auto simp: metric_wf_def slots_of_def)
  have at: "gauge_at ?w g n None"
    using 1 name by (simp add: gauge_at_def metric_reading_def metric_slot_def)
  note G' = adds_gauges [OF ad G]
  have ap: "apart ?w n (the (metrics ?w x))" if "x \<in> G" for x
  proof -
    have "metric_wf x ?w (the (metrics ?w x)) []" using G' that by (simp add: gauges_ok_def gauge_at_def)
    then have "label_keys (the (metrics ?w x)) = []" by (simp add: metric_wf_def)
    moreover have "texts_of ?w n = {}" using n(2) by (simp add: texts_of_def)
    ultimately show ?thesis using n 1(11) by (simp add: apart_def)
  qed
  have same: "x \<in> G \<Longrightarrow> (R(g := None)) x = R x" for x using g by auto
  define mx where "mx x = the (metrics ?w x)" for x
  have "mx g = n" by (simp add: mx_def)
  then have "gauges_ok ?w (insert g G) (R(g := None))"
    using G' at ap g same unfolding gauges_ok_def mx_def [symmetric] by (auto intro: apart_sym)
  then show thesis
    using that [OF 1(1) g] ad 1(5,6,9,12) by (simp add: gauge_named_def)
qed

lemma new_gauge_same:
  assumes "gauges_ok w G R" "mem_ok w" "oom w = []" "fits name None [] []" "dom R \<subseteq> G"
  obtains g w' where "prom_gauge_new name (Some descr) 0 [] w = Some (g, w')" "g \<notin> G" "gauges_ok w' (insert g G) R"
    "adds w w'" "gauge_named w' g (name, descr)" "g < brk w'" "brk w \<le> g"
proof -
  obtain g w' where 1: "prom_gauge_new name (Some descr) 0 [] w = Some (g, w')" "g \<notin> G" "gauges_ok w' (insert g G) (R(g := None))"
    "adds w w'" "gauge_named w' g (name, descr)" "g < brk w'" "brk w \<le> g"
    by (rule new_gauge_ok [OF assms(1-4)])
  moreover have "R g = None" using 1(2) assms(5) by (cases "R g") auto
  then have "R(g := None) = R" by (simp add: fun_upd_idem)
  ultimately show thesis using that by simp
qed

section \<open>What is printed is what was set\<close>

text \<open>A gauge without labels prints the number it was set to, under its name.\<close>

lemma l_text_plain: "l_value_text n None [] [] = n"
  by (simp add: l_value_text_def head_text_def labels_text_def)

lemma gauge_shows:
  assumes "gauge_at w g m r"
  shows "metric_shows w m (case r of None \<Rightarrow> [] | Some v \<Rightarrow> [(mname m, v)])"
  using single_shows [of w no_labels g m r "[]" "[]"] assms by (cases r) (simp_all add: gauge_single no_labels_def l_text_plain)

text \<open>What a gauge is set to is what the next scrape prints for it, under its name; the other
  gauges show what they did.\<close>

theorem gauge_printed:
  assumes "gauges_ok w G R" "g \<in> G" "metrics w g = Some m" "psb_ok (string_builder f)" "prefix \<noteq> Some []"
    and "room_for f (metric_text prefix is_compact m [(mname m, v)])"
  shows "\<exists>w' f' w''. prom_gauge_set warn g v [] w = Some (0, w') \<and> gauges_ok w' G (R(g \<mapsto> v)) \<and>
    pmf_load_metric (Some f) g prefix is_compact w' = Some (0, Some f', w'') \<and>
    content (string_builder f') = content (string_builder f) @ metric_text prefix is_compact m [(mname m, v)]"
proof -
  obtain w' where 1: "prom_gauge_set warn g v [] w = Some (0, w')" "gauges_ok w' G (R(g \<mapsto> v))" "metrics_only G w w'"
    using gauge_set_ok [OF assms(1,2), of warn v] by blast
  obtain m' where m': "metrics w' g = Some m'" "gauge_at w' g m' (Some v)"
    using 1(2) assms(2) by (auto simp: gauges_ok_def gauge_at_def metric_wf_def)
  have sm: "same_metric m m'" using 1(3) assms(2,3) m'(1) by (auto simp: metrics_only_def same_metrics_def)
  then have n: "mname m' = mname m" by (simp add: same_metric_def)
  have "mem_ok w'" "oom w' = []" using m'(2) by (simp_all add: gauge_at_def metric_wf_def)
  moreover have "metric_shows w' m' [(mname m, v)]" using gauge_shows [OF m'(2)] n by simp
  ultimately obtain f' w'' where "pmf_load_metric (Some f) g prefix is_compact w' = Some (0, Some f', w'')"
      "appended f w' (metric_text prefix is_compact m' [(mname m, v)]) f' w''"
    using load_metric_ok [OF assms(4) _ _ m'(1) _ assms(5)] assms(6) same_metric_text [OF sm] by metis
  then show ?thesis using 1(1,2) same_metric_text [OF sm] by (auto simp: appended_def)
qed

lemma one_new_gauge:
  obtains g w' where "prom_gauge_new ''m'' (Some ''h'') 0 [] mworld0 = Some (g, w')" "gauges_ok w' {g} Map.empty"
    "gauge_named w' g (''m'', ''h'')"
proof -
  have "gauges_ok mworld0 {} Map.empty" by (simp add: gauges_ok_def)
  moreover have "fits ''m'' None [] []" by (simp add: fits_def head_text_def labels_text_def opt_str_def psb_limit_def)
  ultimately obtain g w' where 1: "prom_gauge_new ''m'' (Some ''h'') 0 [] mworld0 = Some (g, w')"
    "gauges_ok w' (insert g {}) Map.empty" "gauge_named w' g (''m'', ''h'')"
    by (rule new_gauge_same [OF _ mworld0_ok]) auto
  then show thesis using that by simp
qed

theorem gauge_printed_witness:
  "\<exists>g w w' w'' f. prom_gauge_new ''m'' (Some ''h'') 0 [] mworld0 = Some (g, w) \<and> prom_gauge_set False g d_one [] w = Some (0, w') \<and>
    pmf_load_metric (Some fresh_pmf) g (Some ''p_'') True w' = Some (0, Some f, w'') \<and>
    content (string_builder f) = ''p_m 1'' @ [CHR 0x0A, CHR 0x0A]"
proof -
  obtain g w where g: "prom_gauge_new ''m'' (Some ''h'') 0 [] mworld0 = Some (g, w)" "gauges_ok w {g} Map.empty"
    "gauge_named w g (''m'', ''h'')" by (rule one_new_gauge)
  then obtain m where m: "metrics w g = Some m" "mname m = ''m''" by (auto simp: gauge_named_def)
  have one: "fmt_g17 d_one = ''1''" by (simp add: dbl_simps d_one_def)
  have t: "metric_text (Some ''p_'') True m [(mname m, d_one)] = ''p_m 1'' @ [CHR 0x0A, CHR 0x0A]"
    by (simp add: metric_text_def samples_text_def sample_text_def opt_str_def one m(2))
  have "psb_ok (string_builder fresh_pmf)" "content (string_builder fresh_pmf) = []" by (simp_all add: fresh_pmf_def)
  moreover from this have "room_for fresh_pmf (metric_text (Some ''p_'') True m [(mname m, d_one)])"
    unfolding t by (simp add: room_for_def psb_limit_def)
  ultimately show ?thesis
    using gauge_printed [OF g(2) _ m(1), of fresh_pmf "Some ''p_''" True d_one False] g(1) unfolding t by auto
qed

end
