(* ===== verification/ExposeMetrics.thy ===== *)
theory ExposeMetrics
  imports PromHttp ProcReaders MetricUse
begin

text \<open>
  \<open>src/expose_metrics.c\<close>: the gauges of the monitor, how they are made and registered, and the
  routines that bring them up to date. The state extends that of the HTTP server by the
  variables of the file, those \<open>metrics.c\<close> keeps between calls, and the configuration.
\<close>

section \<open>State\<close>

text \<open>
  The mutex as its users see it. It is a static variable, so that it starts as a free one on
  the systems this is built for. Locking a held mutex never returns for the thread that holds
  it, a destroyed one must not be used: both are undefined here.
\<close>

datatype mutex = Free | Held | Destroyed

fun mutex_lock :: "mutex \<Rightarrow> mutex option" where
  "mutex_lock Free = Some Held" | "mutex_lock Held = None" | "mutex_lock Destroyed = None"

fun mutex_unlock :: "mutex \<Rightarrow> mutex option" where
  "mutex_unlock Held = Some Free" | "mutex_unlock Free = None" | "mutex_unlock Destroyed = None"

fun mutex_destroy :: "mutex \<Rightarrow> mutex option" where
  "mutex_destroy Free = Some Destroyed" | "mutex_destroy Held = None" | "mutex_destroy Destroyed = None"

record monitor = http +
  lock :: mutex
  cpu_usage_metric :: addr
  memory_metrics :: "addr list"
  disk_metrics :: "addr list"
  network_metrics :: "addr list"
  processes_count :: "addr list"
  g_status :: "u8 list"
  config :: "u8 list"
  prev_times :: cpu_times
  temp_file :: "string option"

text \<open>What the machine shows at an update: the files of \<open>/proc\<close> and the run of \<open>top\<close>.\<close>

record machine =
  stat_file :: "string option"
  meminfo_file :: "string option"
  diskstats_file :: "string option"
  net_dev_file :: "string option"
  top_env :: child_env

definition N_MEM_METRICS :: nat where "N_MEM_METRICS = 4"
definition N_DISK_METRICS :: nat where "N_DISK_METRICS = 2"
definition N_NET_METRICS :: nat where "N_NET_METRICS = 6"
definition N_PROC_COUNT :: nat where "N_PROC_COUNT = 2"
definition G_STATUS_N_METRICS_TRACKED :: nat where "G_STATUS_N_METRICS_TRACKED = 4"

lemmas count_defs = N_MEM_METRICS_def N_DISK_METRICS_def N_NET_METRICS_def N_PROC_COUNT_def

section \<open>Updates\<close>

definition guarded_set :: "os \<Rightarrow> addr \<Rightarrow> double \<Rightarrow> monitor \<Rightarrow> monitor option" where
  "guarded_set env gauge v h = do {
     l \<leftarrow> mutex_lock (lock h);
     (_, w) \<leftarrow> prom_gauge_set (logging env) gauge v [] (prom h);
     l \<leftarrow> mutex_unlock l;
     Some (h\<lparr>prom := w, lock := l\<rparr>) }"

text \<open>The loop over the metrics of a group; reading the group past its end is undefined.\<close>

fun guarded_sets :: "os \<Rightarrow> nat \<Rightarrow> addr list \<Rightarrow> double list \<Rightarrow> monitor \<Rightarrow> monitor option" where
  "guarded_sets env 0 gs vs h = Some h"
| "guarded_sets env (Suc n) (g # gs) (v # vs) h = do { h \<leftarrow> guarded_set env g v h; guarded_sets env n gs vs h }"
| "guarded_sets env (Suc n) _ _ h = None"

definition track :: "nat \<Rightarrow> u8 \<Rightarrow> monitor \<Rightarrow> monitor" where
  "track i b h = h\<lparr>g_status := (g_status h)[i := b]\<rparr>"

definition update_cpu_gauge :: "os \<Rightarrow> machine \<Rightarrow> monitor \<Rightarrow> monitor option" where
  "update_cpu_gauge env mach h = do {
     (usage, prev) \<leftarrow> get_cpu_usage (stat_file mach) (prev_times h);
     let h = h\<lparr>prev_times := prev\<rparr>;
     if dle dzero usage then do {
       b \<leftarrow> d_to_uchar usage;
       guarded_set env (cpu_usage_metric h) usage (track 0 b h) }
     else Some h }"

definition update_memory_gauges :: "os \<Rightarrow> machine \<Rightarrow> monitor \<Rightarrow> monitor option" where
  "update_memory_gauges env mach h = do {
     usage \<leftarrow> get_memory_usage (meminfo_file mach);
     case usage of None \<Rightarrow> Some h
     | Some usage \<Rightarrow> do {
         b \<leftarrow> d_to_uchar (usage ! 3);
         guarded_sets env N_MEM_METRICS (memory_metrics h) usage (track 1 b h) } }"

text \<open>The conversion that avoids an overflow.\<close>

definition clamp :: "double \<Rightarrow> u8 option" where
  "clamp x = (if dle (d_of_nat 255) x then Some 255 else d_to_uchar x)"

definition update_disk_gauges :: "os \<Rightarrow> machine \<Rightarrow> monitor \<Rightarrow> monitor option" where
  "update_disk_gauges env mach h = do {
     usage \<leftarrow> get_disk_usage (diskstats_file mach);
     case usage of None \<Rightarrow> Some h
     | Some usage \<Rightarrow> do {
         b \<leftarrow> clamp (usage ! 0);
         c \<leftarrow> clamp (usage ! 1);
         guarded_sets env N_DISK_METRICS (disk_metrics h) usage (track 3 c (track 2 b h)) } }"

definition update_network_gauges :: "os \<Rightarrow> machine \<Rightarrow> monitor \<Rightarrow> monitor option" where
  "update_network_gauges env mach h = do {
     usage \<leftarrow> get_network_usage (net_dev_file mach);
     case usage of None \<Rightarrow> Some h
     | Some usage \<Rightarrow> guarded_sets env N_NET_METRICS (network_metrics h) usage h }"

definition update_processes_gauge :: "os \<Rightarrow> machine \<Rightarrow> monitor \<Rightarrow> monitor option" where
  "update_processes_gauge env mach h = do {
     (usage, f) \<leftarrow> get_processes_usage (top_env mach) (temp_file h);
     let h = h\<lparr>temp_file := f\<rparr>;
     case usage of None \<Rightarrow> Some h
     | Some usage \<Rightarrow> guarded_sets env N_PROC_COUNT (processes_count h) usage h }"

section \<open>Set-up\<close>

definition memory_gauges :: "(string \<times> string) list" where
  "memory_gauges = [(''memory_total'', ''Memoria total''), (''memory_used'', ''Memoria en uso''),
     (''memory_free'', ''Memoria libre''), (''memory_used_percentage'', ''Porcentaje de memoria en uso'')]"

definition disk_gauges :: "(string \<times> string) list" where
  "disk_gauges = [(''sectors_read_rate'', ''Sectores (512 KB c/u) de HDD leidos p/s''),
     (''sectors_written_rate'', ''Sectores (512 KB c/u) de HDD escritos p/s'')]"

definition network_gauges :: "(string \<times> string) list" where
  "network_gauges = [(''rx_bytes'', ''RX Bytes''), (''rx_errors'', ''RX packets with errors''),
     (''rx_packets_dropped'', ''RX packets dropped''), (''tx_bytes'', ''TX Bytes''),
     (''tx_errors'', ''TX packets with errors''), (''tx_packets_dropped'', ''TX packets dropped'')]"

definition processes_gauges :: "(string \<times> string) list" where
  "processes_gauges = [(''existing_processes'', ''Procesos existentes en el sistema''),
     (''running_processes'', ''Procesos actualmente corriendo en el sistema'')]"

fun new_gauges :: "(string \<times> string) list \<Rightarrow> rmem \<Rightarrow> (addr list \<times> rmem) option" where
  "new_gauges [] w = Some ([], w)"
| "new_gauges ((name, descr) # ds) w = do {
     (g, w) \<leftarrow> prom_gauge_new name (Some descr) 0 [] w;
     (gs, w) \<leftarrow> new_gauges ds w;
     Some (g # gs, w) }"

definition EXIT_SUCCESS :: int where "EXIT_SUCCESS = 0"
definition EXIT_FAILURE :: int where "EXIT_FAILURE = 1"

definition required :: "nat \<Rightarrow> monitor \<Rightarrow> bool" where
  "required i h \<longleftrightarrow> config h ! i \<noteq> 0"

text \<open>
  A group of gauges is made if it is required; the first result tells whether all could be
  made. The last argument stores their addresses.
\<close>

definition make_group :: "nat \<Rightarrow> (string \<times> string) list \<Rightarrow> (addr list \<Rightarrow> monitor \<Rightarrow> monitor) \<Rightarrow> monitor
    \<Rightarrow> (bool \<times> monitor) option" where
  "make_group i ds store h = (if required i h then do {
       (gs, w) \<leftarrow> new_gauges ds (prom h);
       Some (list_all (\<lambda>g. g \<noteq> NULL) gs, store gs (h\<lparr>prom := w\<rparr>)) }
     else Some (True, h))"

fun make_groups :: "(nat \<times> (string \<times> string) list \<times> (addr list \<Rightarrow> monitor \<Rightarrow> monitor)) list \<Rightarrow> monitor
    \<Rightarrow> (bool \<times> monitor) option" where
  "make_groups [] h = Some (True, h)"
| "make_groups ((i, ds, store) # gs) h = do {
     (ok, h) \<leftarrow> make_group i ds store h;
     if \<not> ok then Some (False, h) else make_groups gs h }"

text \<open>The first \<open>NULL\<close> that \<open>pcr_must_register_metric\<close> returns would end the loop with a failure.\<close>

fun register_all :: "addr list \<Rightarrow> rmem \<Rightarrow> (int run \<times> rmem) option" where
  "register_all [] w = Some (Return EXIT_SUCCESS, w)"
| "register_all (g # gs) w = do {
     (r, w) \<leftarrow> pcr_must_register_metric g w;
     case r of Exit e \<Rightarrow> Some (Exit e, w)
     | Return m \<Rightarrow> if m = NULL then Some (Return EXIT_FAILURE, w) else register_all gs w }"

definition groups :: "(nat \<times> (string \<times> string) list \<times> (addr list \<Rightarrow> monitor \<Rightarrow> monitor)) list" where
  "groups = [(1, [(''cpu_usage_percentage'', ''Porcentaje de uso de CPU'')], \<lambda>gs h. h\<lparr>cpu_usage_metric := gs ! 0\<rparr>),
     (2, memory_gauges, \<lambda>gs h. h\<lparr>memory_metrics := gs\<rparr>),
     (3, disk_gauges, \<lambda>gs h. h\<lparr>disk_metrics := gs\<rparr>),
     (4, network_gauges, \<lambda>gs h. h\<lparr>network_metrics := gs\<rparr>),
     (5, processes_gauges, \<lambda>gs h. h\<lparr>processes_count := gs\<rparr>)]"

definition required_metrics :: "monitor \<Rightarrow> addr list" where
  "required_metrics h = (if required 1 h then [cpu_usage_metric h] else []) @
     (if required 2 h then memory_metrics h else []) @ (if required 3 h then disk_metrics h else []) @
     (if required 4 h then network_metrics h else []) @ (if required 5 h then processes_count h else [])"

text \<open>\<open>mutex_ok\<close>: \<open>pthread_mutex_init\<close> succeeds.\<close>

definition init_metrics :: "os \<Rightarrow> bool \<Rightarrow> monitor \<Rightarrow> (int run \<times> monitor) option" where
  "init_metrics env mutex_ok h = (if \<not> mutex_ok then Some (Return EXIT_FAILURE, h)
     else do {
       let h = h\<lparr>lock := Free\<rparr>;
       (r, w) \<leftarrow> pcr_default_init env (prom h);
       let h = h\<lparr>prom := w\<rparr>;
       if r \<noteq> 0 then Some (Return EXIT_FAILURE, h) else do {
       (ok, h) \<leftarrow> make_groups groups h;
       if \<not> ok then Some (Return EXIT_FAILURE, h) else do {
       (r, w) \<leftarrow> register_all (required_metrics h) (prom h);
       Some (r, h\<lparr>prom := w\<rparr>) }}})"

definition destroy_mutex :: "monitor \<Rightarrow> monitor option" where
  "destroy_mutex h = do { l \<leftarrow> mutex_destroy (lock h); Some (h\<lparr>lock := l\<rparr>) }"

end
