(* ===== verification/MonitorMain.thy ===== *)
theory MonitorMain
  imports ExposeMetrics
begin

text \<open>
  \<open>src/main.c\<close>: the configuration file, the signal handlers, and the two threads of the
  program. The main thread makes and updates the gauges; the other one answers scrapes. The
  state of the process and its steps are at the end of this theory.
\<close>

section \<open>The configuration\<close>

definition N_JSON_ENTRIES :: nat where "N_JSON_ENTRIES = 6"

definition JSON_ENTRIES_DEF_VAL :: "u8 list" where
  "JSON_ENTRIES_DEF_VAL = [1, 1, 1, 1, 1, 1]"

definition config_format :: string where
  "config_format = ''{ \"update_interval\": %hhu, \"metrics\": { \"cpu\": %[truefals], \"mem\": %[truefals], '' @
     ''\"hdd\": %[truefals], \"net\": %[truefals], \"procs\": %[truefals] } } ''"

text \<open>\<open>fscanf\<close> reads from the file itself, where a NUL is a character as any other.\<close>

definition fscanf :: "string \<Rightarrow> string \<Rightarrow> (int \<times> scanned list) option" where
  "fscanf file fmt = scan (format_of fmt) False [] file"

text \<open>The strings go to arrays of 6 characters.\<close>

definition temps_fit :: "scanned list \<Rightarrow> bool" where
  "temps_fit vs \<longleftrightarrow> list_all (\<lambda>v. case v of SStr s \<Rightarrow> length s < 6 | _ \<Rightarrow> True) vs"

definition temp_at :: "scanned list \<Rightarrow> nat \<Rightarrow> string" where
  "temp_at vs i = (case vs ! (i + 1) of SStr s \<Rightarrow> s | _ \<Rightarrow> [])"

definition set_flag :: "string \<Rightarrow> u8 \<Rightarrow> u8" where
  "set_flag temp old = (if strcmp temp ''true'' = 0 then 1 else if strcmp temp ''false'' = 0 then 0 else old)"

text \<open>
  The new configuration; a file that cannot be opened, and one that is wrongly parsed, are
  reported. The interval is stored as soon as it is read.
\<close>

definition set_configuration :: "string option \<Rightarrow> u8 list \<Rightarrow> u8 list option" where
  "set_configuration file cfg = (case file of None \<Rightarrow> Some cfg
     | Some file \<Rightarrow> do {
         (n, vs) \<leftarrow> fscanf file config_format;
         if \<not> temps_fit vs then None
         else let cfg = cfg[0 := int_arg vs 0 (cfg ! 0)] in
         if n \<noteq> 6 then Some cfg
         else Some (foldl (\<lambda>cfg i. cfg[i + 1 := set_flag (temp_at vs i) (cfg ! (i + 1))]) cfg [0..<5]) })"

text \<open>The argument of the program is a path, given as what can be read there.\<close>

definition configure :: "string option option \<Rightarrow> monitor \<Rightarrow> monitor option" where
  "configure arg h = (case arg of None \<Rightarrow> Some h
     | Some file \<Rightarrow> do { cfg \<leftarrow> set_configuration file (config h); Some (h\<lparr>config := cfg\<rparr>) })"

section \<open>Signals\<close>

text \<open>
  The four bytes of the status in one \<open>int\<close>. The last one is shifted into the sign bit,
  which the C standard leaves undefined and the compilers this is built with define.
\<close>

definition encoded_data :: "u8 list \<Rightarrow> u32" where
  "encoded_data g = or (or (or (ucast (g ! 0)) (push_bit 8 (ucast (g ! 1)))) (push_bit 16 (ucast (g ! 2))))
     (push_bit 24 (ucast (g ! 3)))"

text \<open>The receiver and the value of the signal that is sent back.\<close>

definition handle_sigusr1 :: "int \<Rightarrow> monitor \<Rightarrow> int \<times> u32" where
  "handle_sigusr1 si_pid h = (si_pid, encoded_data (g_status h))"

definition handle_sigint_and_sigterm :: "monitor \<Rightarrow> (int \<times> monitor) option" where
  "handle_sigint_and_sigterm h = do {
     h \<leftarrow> destroy_mutex (h\<lparr>temp_file := None\<rparr>);
     Some (EXIT_SUCCESS, h) }"

section \<open>The main loop\<close>

definition update_if :: "nat \<Rightarrow> (monitor \<Rightarrow> monitor option) \<Rightarrow> monitor \<Rightarrow> monitor option" where
  "update_if i f h = (if required i h then f h else Some h)"

definition update_round :: "os \<Rightarrow> machine \<Rightarrow> monitor \<Rightarrow> monitor option" where
  "update_round env mach h = do {
     h \<leftarrow> update_if 1 (update_cpu_gauge env mach) h;
     h \<leftarrow> update_if 2 (update_memory_gauges env mach) h;
     h \<leftarrow> update_if 3 (update_disk_gauges env mach) h;
     h \<leftarrow> update_if 4 (update_network_gauges env mach) h;
     update_if 5 (update_processes_gauge env mach) h }"

section \<open>The process\<close>

text \<open>
  Where the threads are. The main thread creates the other one before it sets up the
  registry, and goes on whatever \<open>init_metrics\<close> returns.
\<close>

datatype main_pc = At_Create | At_Init | At_Signals | In_Loop | Exited int

datatype http_pc = Not_Created | Created | Registry_Set | Serving | Returned

record process =
  mon :: monitor
  main :: main_pc
  http :: http_pc
  replies :: "(string \<times> nat \<times> string) list"
  signals :: "(int \<times> u32) list"

text \<open>The static variables before \<open>main\<close> runs.\<close>

definition initial_monitor :: "rmem \<Rightarrow> monitor" where
  "initial_monitor w = \<lparr>prom = w, PROM_ACTIVE_REGISTRY = NULL, lock = Free, cpu_usage_metric = NULL,
     memory_metrics = replicate N_MEM_METRICS NULL, disk_metrics = replicate N_DISK_METRICS NULL,
     network_metrics = replicate N_NET_METRICS NULL, processes_count = replicate N_PROC_COUNT NULL,
     g_status = replicate G_STATUS_N_METRICS_TRACKED 0, config = JSON_ENTRIES_DEF_VAL, prev_times = no_times, temp_file = None\<rparr>"

text \<open>The process once the configuration has been read.\<close>

definition start :: "monitor \<Rightarrow> process" where
  "start h = \<lparr>mon = h, main = At_Create, http = Not_Created, replies = [], signals = []\<rparr>"

definition running :: "process \<Rightarrow> bool" where
  "running p \<longleftrightarrow> (\<forall>e. main p \<noteq> Exited e)"

text \<open>
  One step of either thread; a step whose result is undefined does not exist. The set-up and
  one round of updates are single steps: a scrape reads the numbers before or after it.
\<close>

inductive step :: "os \<Rightarrow> process \<Rightarrow> process \<Rightarrow> bool" for env where
  create: "main p = At_Create \<Longrightarrow> step env p (p\<lparr>main := At_Init, http := Created\<rparr>)"
| create_fails: "main p = At_Create \<Longrightarrow> step env p (p\<lparr>main := Exited EXIT_FAILURE\<rparr>)"
| init: "main p = At_Init \<Longrightarrow> init_metrics env ok (mon p) = Some (Return r, h) \<Longrightarrow>
    step env p (p\<lparr>mon := h, main := At_Signals\<rparr>)"
| init_exits: "main p = At_Init \<Longrightarrow> init_metrics env ok (mon p) = Some (Exit e, h) \<Longrightarrow>
    step env p (p\<lparr>mon := h, main := Exited e\<rparr>)"
| register_signal_handlers: "main p = At_Signals \<Longrightarrow> step env p (p\<lparr>main := In_Loop\<rparr>)"
| round: "main p = In_Loop \<Longrightarrow> update_round env mach (mon p) = Some h \<Longrightarrow> step env p (p\<lparr>mon := h\<rparr>)"
| sigusr1: "main p = In_Loop \<Longrightarrow> step env p (p\<lparr>signals := signals p @ [handle_sigusr1 si_pid (mon p)]\<rparr>)"
| sigint: "main p = In_Loop \<Longrightarrow> handle_sigint_and_sigterm (mon p) = Some (e, h) \<Longrightarrow>
    step env p (p\<lparr>mon := h, main := Exited e\<rparr>)"
| set_registry: "running p \<Longrightarrow> http p = Created \<Longrightarrow>
    step env p (p\<lparr>mon := promhttp_set_active_collector_registry NULL (mon p), http := Registry_Set\<rparr>)"
| start_daemon: "running p \<Longrightarrow> http p = Registry_Set \<Longrightarrow> step env p (p\<lparr>http := Serving\<rparr>)"
| start_daemon_fails: "running p \<Longrightarrow> http p = Registry_Set \<Longrightarrow> step env p (p\<lparr>http := Returned\<rparr>)"
| request: "running p \<Longrightarrow> http p = Serving \<Longrightarrow> promhttp_handler env m url method (mon p) = Some (ret, Some (st, s), h) \<Longrightarrow>
    step env p (p\<lparr>mon := h, replies := replies p @ [(url, st, s)]\<rparr>)"
| request_fails: "running p \<Longrightarrow> http p = Serving \<Longrightarrow> promhttp_handler env m url method (mon p) = Some (ret, None, h) \<Longrightarrow>
    step env p (p\<lparr>mon := h\<rparr>)"

inductive_cases stepE: "step env p p'"

end
