(* ===== verification/MonitorUse.thy ===== *)
theory MonitorUse
  imports MonitorMain
begin

text \<open>
  What the monitor promises: the configuration file and the status code are read back, the
  updates store what the readers return and keep the state of the monitor, and what a thread
  that starts serving too early does.
\<close>

section \<open>The configuration file\<close>

definition json_bool :: "bool \<Rightarrow> string" where
  "json_bool b = (if b then ''true'' else ''false'')"

text \<open>The file of the documentation, with any blanks \<open>sp i\<close> at the \<open>i\<close>th place where it may have some.\<close>

definition config_json :: "(nat \<Rightarrow> string) \<Rightarrow> nat \<Rightarrow> bool list \<Rightarrow> string" where
  "config_json sp n bs = ''{'' @ sp 0 @ ''\"update_interval\":'' @ sp 1 @ dec n @ '','' @ sp 2 @ ''\"metrics\":'' @ sp 3 @
     ''{'' @ sp 4 @ ''\"cpu\":'' @ sp 5 @ json_bool (bs ! 0) @ '','' @ sp 6 @ ''\"mem\":'' @ sp 7 @ json_bool (bs ! 1) @
     '','' @ sp 8 @ ''\"hdd\":'' @ sp 9 @ json_bool (bs ! 2) @ '','' @ sp 10 @ ''\"net\":'' @ sp 11 @ json_bool (bs ! 3) @
     '','' @ sp 12 @ ''\"procs\":'' @ sp 13 @ json_bool (bs ! 4) @ sp 14 @ ''}'' @ sp 15 @ ''}'' @ sp 16"

lemma skip_space_plain: "\<not> isspace c \<Longrightarrow> skip_space (c # s) = c # s"
  by (simp add: skip_space_def)

lemma scan_flag:
  assumes "s = [] \<or> hd s \<notin> set ''truefals''"
  shows "scan_conv False (Set_Conv ''truefals'') (json_bool b @ s) = Some (Matched (SStr (json_bool b)) s)"
proof -
  have "takeWhile (\<lambda>c. c \<in> set ''truefals'') s = []" "dropWhile (\<lambda>c. c \<in> set ''truefals'') s = s"
    using assms by (cases s; auto)+
  then show ?thesis by (simp add: scan_conv_def json_bool_def)
qed

lemma skip_blank_bool: "skip_space (json_bool b @ s) = json_bool b @ s"
  by (simp add: json_bool_def skip_space_def isspace_def)

lemma blank_no_flag: "blank sp \<Longrightarrow> sp @ CHR ''}'' # s = [] \<or> hd (sp @ CHR ''}'' # s) \<notin> set ''truefals''"
  by (cases sp) (auto simp: blank_def isspace_def)

lemma config_directives:
  "format_of config_format =
     Lit CHR ''{'' # Space # map Lit ''\"update_interval\":'' @ Space # Conv False (Int_Conv False 8) # Lit CHR '','' # Space #
     map Lit ''\"metrics\":'' @ Space # Lit CHR ''{'' # Space #
     map Lit ''\"cpu\":'' @ Space # Conv False (Set_Conv ''truefals'') # Lit CHR '','' # Space #
     map Lit ''\"mem\":'' @ Space # Conv False (Set_Conv ''truefals'') # Lit CHR '','' # Space #
     map Lit ''\"hdd\":'' @ Space # Conv False (Set_Conv ''truefals'') # Lit CHR '','' # Space #
     map Lit ''\"net\":'' @ Space # Conv False (Set_Conv ''truefals'') # Lit CHR '','' # Space #
     map Lit ''\"procs\":'' @ Space # Conv False (Set_Conv ''truefals'') # Space # Lit CHR ''}'' # Space # Lit CHR ''}'' # [Space]"
  by (simp add: config_format_def isspace_def)

text \<open>A number and a blank before it, as \<open>%hhu\<close> reads them.\<close>

lemma scan_interval:
  assumes "n < 256" "no_digit s"
  shows "scan_conv False (Int_Conv False 8) (dec n @ s) = Some (Matched (SInt (int n)) s)"
  using scan_int_dec [OF assms(2), of False n False 8 "[]"] assms(1) by (simp add: scan_conv_def blank_def)

lemma scan_config:
  assumes "\<forall>i. blank (sp i)" "n < 256"
  shows "fscanf (config_json sp n bs) config_format =
    Some (6, SInt (int n) # map (\<lambda>i. SStr (json_bool (bs ! i))) [0, 1, 2, 3, 4])"
proof -
  have c: "scan_conv False (Set_Conv ''truefals'') (json_bool b @ CHR '','' # s) = Some (Matched (SStr (json_bool b)) (CHR '','' # s))" for b s
    by (rule scan_flag) simp
  have l: "scan_conv False (Set_Conv ''truefals'') (json_bool b @ sp m @ CHR ''}'' # s) =
      Some (Matched (SStr (json_bool b)) (sp m @ CHR ''}'' # s))" for b s m
    using scan_flag [OF blank_no_flag [OF spec [OF assms(1), of m]]] by simp
  have k: "skip_space (CHR ''\"'' # s) = CHR ''\"'' # s" "skip_space (CHR ''{'' # s) = CHR ''{'' # s"
    "skip_space (CHR ''}'' # s) = CHR ''}'' # s" for s by (simp_all add: skip_space_plain isspace_def)
  have i: "scan_conv False (Int_Conv False 8) (dec n @ CHR '','' # s) = Some (Matched (SInt (int n)) (CHR '','' # s))" for s
    using assms(2) by (intro scan_interval) (simp_all add: no_digit_def isdigit_def)
  show ?thesis
    unfolding fscanf_def config_directives config_json_def
    by (simp add: scan_prefix skip_space_blank [OF spec [OF assms(1)]] skip_space_dec skip_blank_bool c l k i)
qed

lemma temp_at_flag: "set_flag (json_bool b) old = (if b then 1 else 0)"
  by (simp add: set_flag_def json_bool_def)

text \<open>C13. A configuration file is read back, whatever blanks and line ends, different ones or none, stand
  after its braces, colons and commas and before its closing braces: the interval and one flag for
  each group of metrics.\<close>

theorem config_reads:
  assumes "\<forall>i. blank (sp i)" "n < 256" "length bs = 5" "length cfg = N_JSON_ENTRIES"
  shows "set_configuration (Some (config_json sp n bs)) cfg = Some (word_of_nat n # map (\<lambda>b. if b then 1 else 0) bs)"
proof -
  obtain c0 c1 c2 c3 c4 c5 where cfg: "cfg = [c0, c1, c2, c3, c4, c5]"
    using assms(4) by (auto simp: N_JSON_ENTRIES_def length_Suc_conv eval_nat_numeral)
  obtain b0 b1 b2 b3 b4 where bs: "bs = [b0, b1, b2, b3, b4]"
    using assms(3) by (auto simp: length_Suc_conv eval_nat_numeral)
  have "temps_fit (SInt (int n) # map (\<lambda>i. SStr (json_bool (bs ! i))) [0, 1, 2, 3, 4])"
    by (simp add: temps_fit_def json_bool_def)
  then show ?thesis
    unfolding set_configuration_def
    by (simp add: scan_config [OF assms(1,2)] cfg bs temp_at_def temp_at_flag int_arg_def upt_rec)
qed

text \<open>The file as it is usually laid out: one entry to a line, indented, a blank after a colon.\<close>

definition indented :: "nat \<Rightarrow> string" where
  "indented i = (if i \<in> {1, 3, 5, 7, 9, 11, 13} then '' '' else if i \<in> {0, 2, 15} then [newline, CHR '' '']
     else if i = 16 then [newline] else [newline, CHR '' '', CHR '' ''])"

theorem config_reads_witness:
  "set_configuration (Some (config_json indented 5 [True, False, True, True, False])) JSON_ENTRIES_DEF_VAL =
    Some (word_of_nat 5 # map (\<lambda>b. if b then 1 else 0) [True, False, True, True, False])"
  by (rule config_reads) (simp_all add: blank_def isspace_def indented_def JSON_ENTRIES_DEF_VAL_def N_JSON_ENTRIES_def)



section \<open>The status\<close>

text \<open>C14. The four bytes of the status are recovered from the code that is sent.\<close>

theorem status_roundtrip:
  "length g = G_STATUS_N_METRICS_TRACKED \<Longrightarrow> map (\<lambda>i. ucast (drop_bit (8 * i) (encoded_data g)) :: u8) [0, 1, 2, 3] = g"
proof -
  assume "length g = G_STATUS_N_METRICS_TRACKED"
  then obtain a b c d where g: "g = [a, b, c, d]"
    by (auto simp: G_STATUS_N_METRICS_TRACKED_def length_Suc_conv eval_nat_numeral)
  show ?thesis
    by (simp add: g encoded_data_def) (intro conjI; rule bit_word_eqI; auto simp: bit_simps dest: bit_imp_le_length)
qed

theorem status_roundtrip_witness:
  "map (\<lambda>i. ucast (drop_bit (8 * i) (encoded_data [12, 200, 0, 255])) :: u8) [0, 1, 2, 3] = [12, 200, 0, 255]"
  by (rule status_roundtrip) (simp add: G_STATUS_N_METRICS_TRACKED_def)

section \<open>Updates\<close>

lemma unlocked_again: "lock h = Free \<Longrightarrow> h\<lparr>prom := w, lock := Free\<rparr> = h\<lparr>prom := w\<rparr>" for h :: monitor
  by (cases h) simp

lemma guarded_set_ok:
  assumes "lock h = Free" "gauges_ok (prom h) G R" "g \<in> G"
  shows "\<exists>w. guarded_set env g v h = Some (h\<lparr>prom := w\<rparr>) \<and> gauges_ok w G (R(g \<mapsto> v)) \<and> metrics_only G (prom h) w"
  using gauge_set_ok [OF assms(2,3), of "logging env" v] assms(1) unlocked_again
  by (fastforce simp: guarded_set_def)

text \<open>A group of gauges is updated one by one.\<close>

lemma guarded_sets_ok:
  assumes "lock h = Free" "gauges_ok (prom h) G R" "set gs \<subseteq> G" "length gs = n" "length vs = n"
  shows "\<exists>w. guarded_sets env n gs vs h = Some (h\<lparr>prom := w\<rparr>) \<and> gauges_ok w G (R(gs [\<mapsto>] vs)) \<and> metrics_only G (prom h) w"
  using assms
proof (induction n arbitrary: gs vs h R)
  case 0
  then show ?case by (intro exI [of _ "prom h"]) (simp add: metrics_only_refl)
next
  case (Suc n)
  then obtain g gs' v vs' where l: "gs = g # gs'" "vs = v # vs'" by (auto simp: length_Suc_conv)
  obtain w where 1: "guarded_set env g v h = Some (h\<lparr>prom := w\<rparr>)" "gauges_ok w G (R(g \<mapsto> v))" "metrics_only G (prom h) w"
    using guarded_set_ok [OF Suc.prems(1,2), of g env v] Suc.prems(3) l by auto
  then show ?case
    using Suc.IH [of "h\<lparr>prom := w\<rparr>" "R(g \<mapsto> v)" gs' vs'] Suc.prems l metrics_only_trans
    by (fastforce simp del: fun_upd_apply)
qed

text \<open>
  The state of a running monitor: the mutex is free, and the gauges that are required show
  the numbers \<open>R\<close>.
\<close>

definition monitor_ok :: "monitor \<Rightarrow> (addr \<Rightarrow> double option) \<Rightarrow> bool" where
  "monitor_ok h R \<longleftrightarrow> lock h = Free \<and> length (g_status h) = G_STATUS_N_METRICS_TRACKED \<and>
     gauges_ok (prom h) (set (required_metrics h)) R \<and>
     (required 2 h \<longrightarrow> length (memory_metrics h) = N_MEM_METRICS) \<and> (required 3 h \<longrightarrow> length (disk_metrics h) = N_DISK_METRICS) \<and>
     (required 4 h \<longrightarrow> length (network_metrics h) = N_NET_METRICS) \<and> (required 5 h \<longrightarrow> length (processes_count h) = N_PROC_COUNT)"

text \<open>What an update leaves alone: the set-up of the monitor, and everything of the library but its metrics.\<close>

definition same_setup :: "monitor \<Rightarrow> monitor \<Rightarrow> bool" where
  "same_setup h h' \<longleftrightarrow> config h' = config h \<and> required_metrics h' = required_metrics h \<and> memory_metrics h' = memory_metrics h \<and>
     disk_metrics h' = disk_metrics h \<and> network_metrics h' = network_metrics h \<and> processes_count h' = processes_count h \<and>
     cpu_usage_metric h' = cpu_usage_metric h \<and> PROM_ACTIVE_REGISTRY h' = PROM_ACTIVE_REGISTRY h \<and>
     metrics_only (set (required_metrics h)) (prom h) (prom h')"

lemma same_setup_refl: "same_setup h h"
  by (simp add: same_setup_def metrics_only_refl)

lemma same_setup_trans: "same_setup h1 h2 \<Longrightarrow> same_setup h2 h3 \<Longrightarrow> same_setup h1 h3"
  using metrics_only_trans by (auto simp: same_setup_def)

lemma track_simps [simp]:
  "prom (track i b h) = prom h" "lock (track i b h) = lock h" "config (track i b h) = config h"
  "required_metrics (track i b h) = required_metrics h" "memory_metrics (track i b h) = memory_metrics h"
  "disk_metrics (track i b h) = disk_metrics h" "network_metrics (track i b h) = network_metrics h"
  "processes_count (track i b h) = processes_count h" "cpu_usage_metric (track i b h) = cpu_usage_metric h"
  "PROM_ACTIVE_REGISTRY (track i b h) = PROM_ACTIVE_REGISTRY h" "g_status (track i b h) = (g_status h)[i := b]"
  "prev_times (track i b h) = prev_times h" "temp_file (track i b h) = temp_file h"
  by (simp_all add: track_def required_metrics_def required_def)

lemma track_prom [simp]: "(track i b h)\<lparr>prom := w\<rparr> = track i b (h\<lparr>prom := w\<rparr>)"
  by (simp add: track_def)

lemma required_upd [simp]:
  "required_metrics (h\<lparr>prom := w\<rparr>) = required_metrics h" "required_metrics (h\<lparr>prev_times := t\<rparr>) = required_metrics h"
  "required_metrics (h\<lparr>temp_file := f\<rparr>) = required_metrics h" "required i (h\<lparr>prom := w\<rparr>) = required i h"
  "required i (h\<lparr>prev_times := t\<rparr>) = required i h" "required i (h\<lparr>temp_file := f\<rparr>) = required i h"
  "required i (track j b h) = required i h"
  by (simp_all add: required_metrics_def required_def track_def)

lemma monitor_ok_upd [simp]:
  "monitor_ok (track i b h) R = monitor_ok h R" "monitor_ok (h\<lparr>prev_times := t\<rparr>) R = monitor_ok h R"
  "monitor_ok (h\<lparr>temp_file := f\<rparr>) R = monitor_ok h R"
  by (simp_all add: monitor_ok_def)

lemma same_setup_upd [simp]:
  "same_setup h (track i b k) = same_setup h k" "same_setup h (k\<lparr>prev_times := t\<rparr>) = same_setup h k"
  "same_setup h (k\<lparr>temp_file := f\<rparr>) = same_setup h k" "same_setup (track i b k) h = same_setup k h"
  "same_setup (k\<lparr>prev_times := t\<rparr>) h = same_setup k h" "same_setup (k\<lparr>temp_file := f\<rparr>) h = same_setup k h"
  by (simp_all add: same_setup_def)

lemma required_group:
  "required 1 h \<Longrightarrow> cpu_usage_metric h \<in> set (required_metrics h)" "required 2 h \<Longrightarrow> set (memory_metrics h) \<subseteq> set (required_metrics h)"
  "required 3 h \<Longrightarrow> set (disk_metrics h) \<subseteq> set (required_metrics h)"
  "required 4 h \<Longrightarrow> set (network_metrics h) \<subseteq> set (required_metrics h)"
  "required 5 h \<Longrightarrow> set (processes_count h) \<subseteq> set (required_metrics h)"
  by (auto simp: required_metrics_def)

text \<open>
  The outcome of an update: the gauges of \<open>rs\<close> read the numbers given there, in order, and
  the others what they did. The flag says that the temporary file stays.
\<close>

definition updates_to :: "bool \<Rightarrow> monitor option \<Rightarrow> monitor \<Rightarrow> (addr \<Rightarrow> double option) \<Rightarrow> (addr \<times> double) list \<Rightarrow> bool" where
  "updates_to keep res h R rs \<longleftrightarrow> (\<exists>h'. res = Some h' \<and> same_setup h h' \<and> monitor_ok h' (R ++ map_of (rev rs)) \<and>
     (keep \<longrightarrow> temp_file h' = temp_file h))"

lemma updates_none: "monitor_ok h R \<Longrightarrow> updates_to keep (Some h) h R []"
  by (simp add: updates_to_def same_setup_refl)

lemma updates_seq:
  assumes "updates_to True res h R rs"
    and "\<And>h'. same_setup h h' \<Longrightarrow> temp_file h' = temp_file h \<Longrightarrow> monitor_ok h' (R ++ map_of (rev rs)) \<Longrightarrow>
      updates_to keep (f h') h' (R ++ map_of (rev rs)) rs'"
  shows "updates_to keep (Option.bind res f) h R (rs @ rs')"
proof -
  obtain h' where 1: "res = Some h'" "same_setup h h'" "monitor_ok h' (R ++ map_of (rev rs))" "temp_file h' = temp_file h"
    using assms(1) by (auto simp: updates_to_def)
  obtain h2 where 2: "f h' = Some h2" "same_setup h' h2" "monitor_ok h2 ((R ++ map_of (rev rs)) ++ map_of (rev rs'))"
    "keep \<longrightarrow> temp_file h2 = temp_file h'"
    using assms(2) [OF 1(2,4,3)] by (auto simp: updates_to_def)
  then show ?thesis using 1 same_setup_trans [OF 1(2) 2(2)] by (simp add: updates_to_def)
qed

lemma updates_if:
  assumes "monitor_ok h R" "required i h \<Longrightarrow> updates_to keep (f h) h R rs"
  shows "updates_to keep (update_if i f h) h R (if required i h then rs else [])"
  using assms updates_none by (simp add: update_if_def)

lemma group_updates:
  assumes "monitor_ok h R" "set gs \<subseteq> set (required_metrics h)" "length gs = n" "length vs = n"
  shows "\<exists>w. guarded_sets env n gs vs h = Some (h\<lparr>prom := w\<rparr>) \<and> same_setup h (h\<lparr>prom := w\<rparr>) \<and>
    monitor_ok (h\<lparr>prom := w\<rparr>) (R ++ map_of (rev (zip gs vs)))"
proof -
  have "lock h = Free" "gauges_ok (prom h) (set (required_metrics h)) R" using assms(1) by (simp_all add: monitor_ok_def)
  from guarded_sets_ok [OF this assms(2-4), of env] show ?thesis
    using assms(1) by (auto simp: monitor_ok_def same_setup_def map_upds_def)
qed

text \<open>A status byte is the number without its fraction, or 255 for a larger one.\<close>

definition tracks :: "u8 \<Rightarrow> double \<Rightarrow> bool" where
  "tracks b x \<longleftrightarrow> real (unat b) \<le> dval x \<and> (dval x < real (unat b) + 1 \<or> b = 255)"

lemma clamp_ok:
  assumes "is_fin x" "0 \<le> dval x"
  shows "\<exists>b. clamp x = Some b \<and> tracks b x"
proof -
  have "dle (d_of_nat 255) x \<longleftrightarrow> 255 \<le> dval x"
    using fin_compare(3) [OF _ assms(1), of "d_of_nat 255"] d_of_nat_exact [of 255] by simp
  then show ?thesis using d_to_uchar_range [OF assms] by (cases "255 \<le> dval x") (auto simp: clamp_def tracks_def)
qed

lemma quotient_fin:
  assumes "0 < a" "a < 2 ^ 64" "0 < b" "b < 2 ^ 64"
  shows "is_fin (ddiv (d_of_nat a) (d_of_nat b))" "0 \<le> dval (ddiv (d_of_nat a) (d_of_nat b))"
proof -
  note fin = d_of_nat_range [OF assms(2)] d_of_nat_range [OF assms(4)]
  have b1: "1 \<le> dval (d_of_nat b)" using d_of_nat_mono [of 1 b] d_of_nat_exact [of 1] assms by simp
  have "dval (d_of_nat a) \<le> 2 ^ 64"
    using rounds_to_le [OF d_of_nat_rounds, of "DFin False (2 ^ 52) 12" a] repr_pow2 [of 12] fin(1) assms(2)
    by (auto simp flip: of_nat_power)
  then have "dval (d_of_nat a) / dval (d_of_nat b) \<le> 2 ^ 64"
    using b1 fin(2) by (simp add: divide_le_eq mult_le_one)
  moreover have "0 \<le> dval (d_of_nat a) / dval (d_of_nat b)" using b1 fin(2) by simp
  ultimately have "is_fin (ddiv (d_of_nat a) (d_of_nat b)) \<and> dval dzero \<le> dval (ddiv (d_of_nat a) (d_of_nat b)) \<and>
      dval (ddiv (d_of_nat a) (d_of_nat b)) \<le> dval (DFin False (2 ^ 52) 12)"
    using b1 repr_pow2 [of 12] by (intro rounds_to_between [OF ddiv_rounds [OF fin(1,4)]]) simp_all
  then show "is_fin (ddiv (d_of_nat a) (d_of_nat b))" "0 \<le> dval (ddiv (d_of_nat a) (d_of_nat b))" by simp_all
qed

section \<open>A round\<close>

lemma each_line_inv:
  assumes "each_line n body s v = Some v'" "P v" "\<And>l v r v1. body l v = Some (r, v1) \<Longrightarrow> P v \<Longrightarrow> P v1"
  shows "P v'"
  using assms
proof (induction n body s v rule: each_line.induct)
  case (1 n body s v)
  show ?case
  proof (cases "s = [] \<or> n < 2")
    case True
    then show ?thesis using "1.prems" by (subst (asm) each_line.simps) simp
  next
    case False
    obtain l r where lr: "take_line (n - 1) s = (l, r)" by force
    have "each_line n body s v = (case body l v of None \<Rightarrow> None
        | Some (stop, v) \<Rightarrow> if stop then Some v else each_line n body r v)"
      using False lr by (subst each_line.simps) simp
    then obtain stop v1 where b: "body l v = Some (stop, v1)" "if stop then v1 = v' else each_line n body r v1 = Some v'"
      using "1.prems"(1) by (cases "body l v") (auto split: if_splits)
    then show ?thesis using "1.IH" [OF False lr [symmetric] refl b(1)] "1.prems"(3) [OF b(1) "1.prems"(2)] "1.prems"(3)
      by (cases stop) auto
  qed
qed

text \<open>What a round stores, for each group the numbers its reader returns.\<close>

definition cpu_readings :: "machine \<Rightarrow> monitor \<Rightarrow> (addr \<times> double) list" where
  "cpu_readings mach h = (case get_cpu_usage (stat_file mach) (prev_times h) of None \<Rightarrow> []
     | Some (usage, _) \<Rightarrow> if dle dzero usage then [(cpu_usage_metric h, usage)] else [])"

definition group_readings :: "addr list \<Rightarrow> double list option option \<Rightarrow> (addr \<times> double) list" where
  "group_readings gs usage = (case usage of Some (Some us) \<Rightarrow> zip gs us | _ \<Rightarrow> [])"

definition round_readings :: "machine \<Rightarrow> monitor \<Rightarrow> (addr \<times> double) list" where
  "round_readings mach h = (if required 1 h then cpu_readings mach h else []) @
     (if required 2 h then group_readings (memory_metrics h) (get_memory_usage (meminfo_file mach)) else []) @
     (if required 3 h then group_readings (disk_metrics h) (get_disk_usage (diskstats_file mach)) else []) @
     (if required 4 h then group_readings (network_metrics h) (get_network_usage (net_dev_file mach)) else []) @
     (if required 5 h then group_readings (processes_count h) (map_option fst (get_processes_usage (top_env mach) (temp_file h)))
      else [])"

text \<open>
  The readers are defined: no number in the files overflows its variable, and the percentages
  fit the bytes of the status.
\<close>

definition readable :: "machine \<Rightarrow> monitor \<Rightarrow> bool" where
  "readable mach h \<longleftrightarrow>
     (required 1 h \<longrightarrow> (\<exists>u t. get_cpu_usage (stat_file mach) (prev_times h) = Some (u, t) \<and> (dle dzero u \<longrightarrow> d_to_uchar u \<noteq> None))) \<and>
     (required 2 h \<longrightarrow> (\<exists>usage. get_memory_usage (meminfo_file mach) = Some usage \<and>
        (\<forall>us. usage = Some us \<longrightarrow> d_to_uchar (us ! 3) \<noteq> None))) \<and>
     (required 3 h \<longrightarrow> get_disk_usage (diskstats_file mach) \<noteq> None) \<and>
     (required 4 h \<longrightarrow> get_network_usage (net_dev_file mach) \<noteq> None) \<and>
     (required 5 h \<longrightarrow> get_processes_usage (top_env mach) (temp_file h) \<noteq> None)"

lemma cpu_updates:
  assumes "monitor_ok h R" "required 1 h" "get_cpu_usage (stat_file mach) (prev_times h) = Some (u, t)"
    "dle dzero u \<longrightarrow> d_to_uchar u = Some b"
  shows "updates_to True (update_cpu_gauge env mach h) h R (cpu_readings mach h)"
    and "dle dzero u \<Longrightarrow> \<exists>w. update_cpu_gauge env mach h = Some (track 0 b (h\<lparr>prev_times := t, prom := w\<rparr>))"
proof -
  let ?h = "track 0 b (h\<lparr>prev_times := t\<rparr>)"
  have ok: "lock ?h = Free" "gauges_ok (prom ?h) (set (required_metrics ?h)) R"
    using assms(1) by (simp_all add: monitor_ok_def)
  have "cpu_usage_metric h \<in> set (required_metrics ?h)" using required_group(1) [OF assms(2)] by simp
  from guarded_set_ok [OF ok this, of env u] obtain w where
    w: "guarded_set env (cpu_usage_metric h) u ?h = Some (?h\<lparr>prom := w\<rparr>)" "gauges_ok w (set (required_metrics h)) (R(cpu_usage_metric h \<mapsto> u))"
      "metrics_only (set (required_metrics h)) (prom h) w" by auto
  have e: "?h\<lparr>prom := w\<rparr> = track 0 b (h\<lparr>prev_times := t, prom := w\<rparr>)" by (simp add: track_def)
  show "updates_to True (update_cpu_gauge env mach h) h R (cpu_readings mach h)"
    using assms w(1) e by (auto simp: updates_to_def cpu_readings_def update_cpu_gauge_def monitor_ok_def same_setup_def w(2,3) metrics_only_refl)
  show "dle dzero u \<Longrightarrow> \<exists>w. update_cpu_gauge env mach h = Some (track 0 b (h\<lparr>prev_times := t, prom := w\<rparr>))"
    using assms(3,4) w(1) e by (auto simp: update_cpu_gauge_def)
qed

text \<open>What the readers return has the length the loops rely on.\<close>

lemma reader_lengths:
  "get_memory_usage f = Some (Some us) \<Longrightarrow> length us = N_MEM_METRICS"
  "get_network_usage f = Some (Some us) \<Longrightarrow> length us = N_NET_METRICS"
  "get_processes_usage e tmp = Some (Some us, tmp') \<Longrightarrow> length us = N_PROC_COUNT"
proof -
  show "get_memory_usage f = Some (Some us) \<Longrightarrow> length us = N_MEM_METRICS"
    by (auto simp: get_memory_usage_def Let_def count_defs bind_Some_iff split: option.splits if_splits)
  show "get_processes_usage e tmp = Some (Some us, tmp') \<Longrightarrow> length us = N_PROC_COUNT"
    by (auto simp: get_processes_usage_def Let_def count_defs bind_Some_iff split: option.splits if_splits prod.splits)
  assume n: "get_network_usage f = Some (Some us)"
  then obtain s vars where v: "each_line BUFFER_SIZE net_dev_line s (False, [0, 0, 0, 0, 0, 0]) = Some (True, vars)"
      "us = map (\<lambda>x. d_of_nat (unat x)) vars"
    by (auto simp: get_network_usage_def bind_Some_iff split: option.splits if_splits)
  have "length (snd (True, vars)) = 6"
    by (rule each_line_inv [OF v(1), of "\<lambda>v. length (snd v) = 6"])
      (auto simp: net_dev_line_def bind_Some_iff Let_def)
  then show "length us = N_NET_METRICS" using v(2) by (simp add: count_defs)
qed

lemma disk_reads:
  assumes "get_disk_usage f = Some (Some us)"
  shows "length us = N_DISK_METRICS" "\<exists>b c. clamp (us ! 0) = Some b \<and> clamp (us ! 1) = Some c \<and> tracks b (us ! 0) \<and> tracks c (us ! 1)"
proof -
  obtain vars :: "u64 list" where v: "us = [ddiv (d_of_nat (unat (vars ! 0))) (d_of_nat (unat (vars ! 1))),
      ddiv (d_of_nat (unat (vars ! 2))) (d_of_nat (unat (vars ! 3)))]"
      "vars ! 0 \<noteq> 0" "vars ! 1 \<noteq> 0" "vars ! 2 \<noteq> 0" "vars ! 3 \<noteq> 0"
    using assms by (auto simp: get_disk_usage_def Let_def bind_Some_iff split: option.splits if_splits)
  show "length us = N_DISK_METRICS" by (simp add: v(1) count_defs)
  have u: "0 < unat x" "unat x < 2 ^ 64" if "x \<noteq> 0" for x :: u64
    using that unsigned_less [of x, where ?'a = nat] by (simp_all add: unat_gt_0)
  have "\<exists>b. clamp (us ! 0) = Some b \<and> tracks b (us ! 0)" "\<exists>b. clamp (us ! 1) = Some b \<and> tracks b (us ! 1)"
    using clamp_ok [OF quotient_fin [OF u [OF v(2)] u [OF v(3)]]] clamp_ok [OF quotient_fin [OF u [OF v(4)] u [OF v(5)]]]
    by (simp_all add: v(1))
  then show "\<exists>b c. clamp (us ! 0) = Some b \<and> clamp (us ! 1) = Some c \<and> tracks b (us ! 0) \<and> tracks c (us ! 1)" by blast
qed

lemma monitor_groups:
  assumes "monitor_ok h R"
  shows "required 2 h \<Longrightarrow> length (memory_metrics h) = N_MEM_METRICS" "required 3 h \<Longrightarrow> length (disk_metrics h) = N_DISK_METRICS"
    "required 4 h \<Longrightarrow> length (network_metrics h) = N_NET_METRICS" "required 5 h \<Longrightarrow> length (processes_count h) = N_PROC_COUNT"
  using assms by (simp_all add: monitor_ok_def)

text \<open>A group update, whatever the status bytes tracked before it.\<close>

lemma tracked_group:
  assumes "monitor_ok h R" "set gs \<subseteq> set (required_metrics h)" "length gs = n" "length us = n"
    and k: "monitor_ok k R" "same_setup h k" "prom k = prom h" "temp_file k = temp_file h"
  shows "updates_to True (guarded_sets env n gs us k) h R (group_readings gs (Some (Some us)))"
    and "\<exists>w. guarded_sets env n gs us k = Some (k\<lparr>prom := w\<rparr>)"
proof -
  have "set gs \<subseteq> set (required_metrics k)" using assms(2) k(2) by (simp add: same_setup_def)
  from group_updates [OF k(1) this assms(3,4), of env] obtain w where
    w: "guarded_sets env n gs us k = Some (k\<lparr>prom := w\<rparr>)" "same_setup k (k\<lparr>prom := w\<rparr>)"
      "monitor_ok (k\<lparr>prom := w\<rparr>) (R ++ map_of (rev (zip gs us)))" by blast
  then show "updates_to True (guarded_sets env n gs us k) h R (group_readings gs (Some (Some us)))"
    using same_setup_trans [OF k(2) w(2)] k(4) by (simp add: updates_to_def group_readings_def)
  show "\<exists>w. guarded_sets env n gs us k = Some (k\<lparr>prom := w\<rparr>)" using w(1) by blast
qed

lemma memory_updates:
  assumes "monitor_ok h R" "required 2 h" "get_memory_usage (meminfo_file mach) = Some usage"
    "\<forall>us. usage = Some us \<longrightarrow> d_to_uchar (us ! 3) = Some b"
  shows "updates_to True (update_memory_gauges env mach h) h R (group_readings (memory_metrics h) (Some usage))"
    and "usage \<noteq> None \<Longrightarrow> \<exists>w. update_memory_gauges env mach h = Some (track 1 b (h\<lparr>prom := w\<rparr>))"
proof -
  have "updates_to True (update_memory_gauges env mach h) h R (group_readings (memory_metrics h) (Some usage)) \<and>
      (usage \<noteq> None \<longrightarrow> (\<exists>w. update_memory_gauges env mach h = Some (track 1 b (h\<lparr>prom := w\<rparr>))))"
  proof (cases usage)
    case None
    then show ?thesis using assms updates_none by (simp add: update_memory_gauges_def group_readings_def)
  next
    case (Some us)
    note g = tracked_group [OF assms(1) required_group(2) [OF assms(2)] monitor_groups(1) [OF assms(1,2)] reader_lengths(1), of _ us "track 1 b h" env]
    show ?thesis using g [of "meminfo_file mach"] assms Some
      by (auto simp: update_memory_gauges_def same_setup_refl)
  qed
  then show "updates_to True (update_memory_gauges env mach h) h R (group_readings (memory_metrics h) (Some usage))"
    and "usage \<noteq> None \<Longrightarrow> \<exists>w. update_memory_gauges env mach h = Some (track 1 b (h\<lparr>prom := w\<rparr>))" by blast+
qed

lemma disk_updates:
  assumes "monitor_ok h R" "required 3 h" "get_disk_usage (diskstats_file mach) = Some usage"
  shows "updates_to True (update_disk_gauges env mach h) h R (group_readings (disk_metrics h) (Some usage))"
proof (cases usage)
  case None
  then show ?thesis using assms updates_none by (simp add: update_disk_gauges_def group_readings_def)
next
  case (Some us)
  obtain b c where bc: "clamp (us ! 0) = Some b" "clamp (us ! 1) = Some c"
    using disk_reads(2) assms(3) Some by blast
  have "length us = N_DISK_METRICS" using disk_reads(1) assms(3) Some by blast
  from tracked_group(1) [OF assms(1) required_group(3) [OF assms(2)] monitor_groups(2) [OF assms(1,2)] this, of "track 3 c (track 2 b h)" env]
  show ?thesis using assms Some bc by (simp add: update_disk_gauges_def same_setup_refl)
qed

lemma network_updates:
  assumes "monitor_ok h R" "required 4 h" "get_network_usage (net_dev_file mach) = Some usage"
  shows "updates_to True (update_network_gauges env mach h) h R (group_readings (network_metrics h) (Some usage))"
proof (cases usage)
  case None
  then show ?thesis using assms updates_none by (simp add: update_network_gauges_def group_readings_def)
next
  case (Some us)
  have "length us = N_NET_METRICS" using reader_lengths(2) assms(3) Some by blast
  from tracked_group(1) [OF assms(1) required_group(4) [OF assms(2)] monitor_groups(3) [OF assms(1,2)] this assms(1) same_setup_refl, of env]
  show ?thesis using assms Some by (simp add: update_network_gauges_def)
qed

lemma processes_updates:
  assumes "monitor_ok h R" "required 5 h" "get_processes_usage (top_env mach) (temp_file h) = Some (usage, f)"
  shows "updates_to False (update_processes_gauge env mach h) h R (group_readings (processes_count h) (Some usage))"
proof (cases usage)
  case None
  then show ?thesis using assms
    by (simp add: update_processes_gauge_def group_readings_def updates_to_def same_setup_refl)
next
  case (Some us)
  let ?h = "h\<lparr>temp_file := f\<rparr>"
  have k: "monitor_ok ?h R" "required 5 ?h" using assms(1,2) by simp_all
  have "length us = N_PROC_COUNT" using reader_lengths(3) assms(3) Some by blast
  from tracked_group(1) [OF k(1) required_group(5) [OF k(2)] monitor_groups(4) [OF k] this k(1) same_setup_refl, of env]
  show ?thesis using assms Some by (auto simp: update_processes_gauge_def updates_to_def)
qed

text \<open>A state in the course of a round that started in \<open>h\<close>.\<close>

definition follows :: "monitor \<Rightarrow> monitor \<Rightarrow> bool" where
  "follows h k \<longleftrightarrow> same_setup h k \<and> temp_file k = temp_file h"

lemma follows_same:
  assumes "follows h k"
  shows "required i k = required i h" "memory_metrics k = memory_metrics h" "disk_metrics k = disk_metrics h"
    "network_metrics k = network_metrics h" "processes_count k = processes_count h" "temp_file k = temp_file h"
  using assms by (simp_all add: follows_def same_setup_def required_def)

lemma updates_next:
  assumes "follows h k" "updates_to True res k S rs"
    and "\<And>k' S'. follows h k' \<Longrightarrow> monitor_ok k' S' \<Longrightarrow> updates_to keep (f k') k' S' rs'"
  shows "updates_to keep (Option.bind res f) k S (rs @ rs')"
  using assms(2)
proof (rule updates_seq)
  fix k' assume "same_setup k k'" "temp_file k' = temp_file k" "monitor_ok k' (S ++ map_of (rev rs))"
  then show "updates_to keep (f k') k' (S ++ map_of (rev rs)) rs'"
    using assms(1) same_setup_trans by (intro assms(3)) (auto simp: follows_def)
qed

lemma updates_optional:
  assumes "follows h k" "monitor_ok k S" "required i h \<Longrightarrow> updates_to keep (f k) k S rs"
  shows "updates_to keep (update_if i f k) k S (if required i h then rs else [])"
  using updates_if [OF assms(2), of i keep f rs] assms(3) follows_same(1) [OF assms(1)] by simp

lemma update_round_ok:
  assumes "monitor_ok h R" "readable mach h"
  shows "updates_to False (update_round env mach h) h R (round_readings mach h)"
proof -
  have c1: "updates_to True (update_if 1 (update_cpu_gauge env mach) h) h R (if required 1 h then cpu_readings mach h else [])"
  proof (rule updates_if [OF assms(1)])
    assume r: "required 1 h"
    then obtain u t where "get_cpu_usage (stat_file mach) (prev_times h) = Some (u, t)" "dle dzero u \<longrightarrow> d_to_uchar u \<noteq> None"
      using assms(2) by (auto simp: readable_def)
    then show "updates_to True (update_cpu_gauge env mach h) h R (cpu_readings mach h)"
      using cpu_updates(1) [OF assms(1) r, of mach u t "the (d_to_uchar u)"] by auto
  qed
  have c2: "updates_to True (update_if 2 (update_memory_gauges env mach) k) k S
      (if required 2 h then group_readings (memory_metrics h) (get_memory_usage (meminfo_file mach)) else [])"
    if k: "follows h k" "monitor_ok k S" for k S
  proof (rule updates_optional [OF k])
    assume r: "required 2 h"
    then obtain usage where u: "get_memory_usage (meminfo_file mach) = Some usage" "\<forall>us. usage = Some us \<longrightarrow> d_to_uchar (us ! 3) \<noteq> None"
      using assms(2) by (auto simp: readable_def)
    then have "\<forall>us. usage = Some us \<longrightarrow> d_to_uchar (us ! 3) = Some (the (d_to_uchar (the usage ! 3)))" by auto
    from memory_updates(1) [OF k(2) _ u(1) this, of env]
    show "updates_to True (update_memory_gauges env mach k) k S
        (group_readings (memory_metrics h) (get_memory_usage (meminfo_file mach)))"
      using r u(1) follows_same [OF k(1)] by simp
  qed
  have c3: "updates_to True (update_if 3 (update_disk_gauges env mach) k) k S
      (if required 3 h then group_readings (disk_metrics h) (get_disk_usage (diskstats_file mach)) else [])"
    if k: "follows h k" "monitor_ok k S" for k S
    using disk_updates [OF k(2), of mach _ env] follows_same [OF k(1)] assms(2)
    by (intro updates_optional [OF k]) (auto simp: readable_def)
  have c4: "updates_to True (update_if 4 (update_network_gauges env mach) k) k S
      (if required 4 h then group_readings (network_metrics h) (get_network_usage (net_dev_file mach)) else [])"
    if k: "follows h k" "monitor_ok k S" for k S
    using network_updates [OF k(2), of mach _ env] follows_same [OF k(1)] assms(2)
    by (intro updates_optional [OF k]) (auto simp: readable_def)
  have c5: "updates_to False (update_if 5 (update_processes_gauge env mach) k) k S
      (if required 5 h then group_readings (processes_count h) (map_option fst (get_processes_usage (top_env mach) (temp_file h))) else [])"
    if k: "follows h k" "monitor_ok k S" for k S
    using processes_updates [OF k(2), of mach _ _ env] follows_same [OF k(1)] assms(2)
    by (intro updates_optional [OF k]) (auto simp: readable_def)
  have h: "follows h h" by (simp add: follows_def same_setup_refl)
  show ?thesis
    unfolding update_round_def round_readings_def
    by (intro updates_next [OF h c1] updates_next [OF _ c2] updates_next [OF _ c3] updates_next [OF _ c4] c5)
qed

text \<open>C1. A round of the main loop refines one assignment to the numbers the gauges show: every
  required gauge whose group could be read shows what was read, every other one what it
  showed before, and the state of the monitor stays well formed.\<close>

theorem update_round_refines:
  assumes "monitor_ok h R" "readable mach h"
  shows "updates_to False (update_round env mach h) h R (round_readings mach h)"
  using assms by (rule update_round_ok)

section \<open>Making the gauges\<close>

lemma new_gauges_ok:
  assumes "gauges_ok w G R" "mem_ok w" "oom w = []" "dom R \<subseteq> G" "list_all (\<lambda>d. fits (fst d) None [] []) ds"
  shows "\<exists>gs w'. new_gauges ds w = Some (gs, w') \<and> distinct gs \<and> gauges_ok w' (set gs \<union> G) R \<and> adds w w' \<and>
    list_all2 (gauge_named w') gs ds \<and> set gs \<subseteq> {brk w..<brk w'} \<and> set gs \<inter> G = {}"
  using assms
proof (induction ds arbitrary: w G)
  case Nil
  then show ?case by (simp add: adds_refl)
next
  case (Cons d ds)
  have nm: "fits (fst d) None [] []" using Cons.prems(5) by simp
  obtain g w1 where 1: "prom_gauge_new (fst d) (Some (snd d)) 0 [] w = Some (g, w1)" "g \<notin> G" "gauges_ok w1 (insert g G) R"
    "adds w w1" "gauge_named w1 g (fst d, snd d)" "g < brk w1" "brk w \<le> g"
    by (rule new_gauge_same [OF Cons.prems(1-3) nm Cons.prems(4)])
  have m1: "mem_ok w1" "oom w1 = []" "dom R \<subseteq> insert g G" using 1(4) Cons.prems(4) by (auto simp: adds_def)
  obtain gs w2 where 2: "new_gauges ds w1 = Some (gs, w2)" "distinct gs" "gauges_ok w2 (set gs \<union> insert g G) R" "adds w1 w2"
    "list_all2 (gauge_named w2) gs ds" "set gs \<subseteq> {brk w1..<brk w2}" "set gs \<inter> insert g G = {}"
    using Cons.IH [OF 1(3) m1] Cons.prems(5) by auto
  have "brk w \<le> brk w1" "brk w1 \<le> brk w2" using 1(4) 2(4) by (simp_all add: adds_def)
  then show ?case
    using 1 2 adds_trans [OF 1(4) 2(4)] adds_named [OF 2(4) 1(6,5)]
    by (cases d) (auto simp: Un_insert_right)
qed

text \<open>The groups the configuration requires.\<close>

definition required_gauges :: "monitor \<Rightarrow> (string \<times> string) list" where
  "required_gauges h = concat (map (\<lambda>(i, ds, _). if required i h then ds else []) groups)"

text \<open>Gauges with no reading, not made before \<open>b\<close>.\<close>

definition fresh_gauges :: "rmem \<Rightarrow> addr \<Rightarrow> addr list \<Rightarrow> (string \<times> string) list \<Rightarrow> bool" where
  "fresh_gauges w b gs ds \<longleftrightarrow> distinct gs \<and> gauges_ok w (set gs) Map.empty \<and> list_all2 (gauge_named w) gs ds \<and>
     set gs \<subseteq> {b..<brk w} \<and> mem_ok w \<and> oom w = []"

lemma make_group_ok:
  assumes "fresh_gauges (prom h) b gs ds" "list_all (\<lambda>d. fits (fst d) None [] []) es" "b \<le> brk (prom h)"
  obtains gs' w' where "make_group i es store h = Some (True, if required i h then store gs' (h\<lparr>prom := w'\<rparr>) else h)"
    "fresh_gauges w' b (gs @ gs') (ds @ (if required i h then es else []))" "adds (prom h) w'" "b \<le> brk w'"
    "if required i h then length gs' = length es else gs' = [] \<and> w' = prom h"
proof -
  have f: "distinct gs" "gauges_ok (prom h) (set gs) Map.empty" "list_all2 (gauge_named (prom h)) gs ds"
    "set gs \<subseteq> {b..<brk (prom h)}" "mem_ok (prom h)" "oom (prom h) = []"
    using assms(1) by (simp_all add: fresh_gauges_def)
  show thesis
  proof (cases "required i h")
    case False
    then show thesis using assms f(5,6) by (intro that [of "[]" "prom h"]) (simp_all add: make_group_def adds_refl)
  next
    case True
    obtain gs' w' where 1: "new_gauges es (prom h) = Some (gs', w')" "distinct gs'" "gauges_ok w' (set gs' \<union> set gs) Map.empty"
      "adds (prom h) w'" "list_all2 (gauge_named w') gs' es" "set gs' \<subseteq> {brk (prom h)..<brk w'}" "set gs' \<inter> set gs = {}"
      using new_gauges_ok [OF f(2,5,6) _ assms(2)] by auto
    have "\<forall>g \<in> set gs'. g \<noteq> NULL" using 1(3) by (simp add: gauges_ok_def gauge_at_def)
    then have e: "make_group i es store h = Some (True, store gs' (h\<lparr>prom := w'\<rparr>))"
      using True 1(1) by (simp add: make_group_def list_all_iff)
    have "list_all2 (gauge_named w') gs ds"
      using f(4) adds_named [OF 1(4)] by (intro list.rel_mono_strong [OF f(3)]) auto
    then have n: "list_all2 (gauge_named w') (gs @ gs') (ds @ es)" using 1(5) by (rule list_all2_appendI)
    have w': "brk (prom h) \<le> brk w'" "mem_ok w'" "oom w' = []" using 1(4) by (simp_all add: adds_def)
    then have "set (gs @ gs') \<subseteq> {b..<brk w'}" using f(4) 1(6) assms(3) by fastforce
    moreover have "distinct (gs @ gs')" using f(1) 1(2,7) by auto
    moreover have "gauges_ok w' (set (gs @ gs')) Map.empty" using 1(3) by (simp add: Un_commute)
    ultimately have "fresh_gauges w' b (gs @ gs') (ds @ es)" using n w' by (simp add: fresh_gauges_def)
    then show thesis using True e 1(4) assms(3) w'(1) list_all2_lengthD [OF 1(5)] by (intro that [of gs' w']) auto
  qed
qed

text \<open>The monitor before its gauges are made.\<close>

definition set_up :: "monitor \<Rightarrow> bool" where
  "set_up h \<longleftrightarrow> lock h = Free \<and> length (g_status h) = G_STATUS_N_METRICS_TRACKED \<and> mem_ok (prom h) \<and> oom (prom h) = []"

lemma gauge_names_fit:
  "list_all (\<lambda>d. fits (fst d) None [] []) [(''cpu_usage_percentage'', ''Porcentaje de uso de CPU'')]"
  "list_all (\<lambda>d. fits (fst d) None [] []) memory_gauges" "list_all (\<lambda>d. fits (fst d) None [] []) disk_gauges"
  "list_all (\<lambda>d. fits (fst d) None [] []) network_gauges" "list_all (\<lambda>d. fits (fst d) None [] []) processes_gauges"
  by (simp_all add: fits_def head_text_def labels_text_def opt_str_def psb_limit_def memory_gauges_def disk_gauges_def
      network_gauges_def processes_gauges_def)

text \<open>The effect of storing the addresses of several groups.\<close>

fun store_all :: "(nat \<times> (string \<times> string) list \<times> (addr list \<Rightarrow> monitor \<Rightarrow> monitor)) list \<Rightarrow> addr list list \<Rightarrow> monitor \<Rightarrow> monitor" where
  "store_all ((i, es, store) # gl) (g # gss) h = store_all gl gss (if required i h then store g h else h)"
| "store_all gl gss h = h"

definition plain_store :: "(addr list \<Rightarrow> monitor \<Rightarrow> monitor) \<Rightarrow> bool" where
  "plain_store store \<longleftrightarrow> (\<forall>gs h w. store gs (h\<lparr>prom := w\<rparr>) = (store gs h)\<lparr>prom := w\<rparr>) \<and> (\<forall>gs h. config (store gs h) = config h)"

definition gauges_for :: "monitor \<Rightarrow> (nat \<times> (string \<times> string) list \<times> (addr list \<Rightarrow> monitor \<Rightarrow> monitor)) list \<Rightarrow> (string \<times> string) list" where
  "gauges_for h gl = concat (map (\<lambda>(i, es, _). if required i h then es else []) gl)"

lemma make_groups_all:
  assumes "fresh_gauges (prom h) b gs ds" "b \<le> brk (prom h)"
    and "list_all (\<lambda>(i, es, store). list_all (\<lambda>d. fits (fst d) None [] []) es \<and> plain_store store) gl"
  shows "\<exists>gss h'. make_groups gl h = Some (True, h') \<and> h' = store_all gl gss (h\<lparr>prom := prom h'\<rparr>) \<and>
    fresh_gauges (prom h') b (gs @ concat gss) (ds @ gauges_for h gl) \<and> adds (prom h) (prom h') \<and>
    list_all2 (\<lambda>g (i, es, _). if required i h then length g = length es else g = []) gss gl"
  using assms
proof (induction gl arbitrary: h gs ds)
  case Nil
  then show ?case by (intro exI [of _ "[]"] exI [of _ h]) (simp add: gauges_for_def fresh_gauges_def adds_refl)
next
  case (Cons e gl)
  obtain i es store where e: "e = (i, es, store)" by (cases e)
  have es: "list_all (\<lambda>d. fits (fst d) None [] []) es" "plain_store store" using Cons.prems(3) e by simp_all
  obtain gs' w1 where 1: "make_group i es store h = Some (True, if required i h then store gs' (h\<lparr>prom := w1\<rparr>) else h)"
    "fresh_gauges w1 b (gs @ gs') (ds @ (if required i h then es else []))" "adds (prom h) w1" "b \<le> brk w1"
    "if required i h then length gs' = length es else gs' = [] \<and> w1 = prom h"
    by (rule make_group_ok [OF Cons.prems(1) es(1) Cons.prems(2)])
  define h1 where "h1 = (if required i h then store gs' (h\<lparr>prom := w1\<rparr>) else h)"
  have c: "config h1 = config h" using es(2) by (simp add: h1_def plain_store_def)
  have p: "prom h1 = w1" using es(2) 1(5) by (auto simp: h1_def plain_store_def)
  have r: "required j h1 = required j h" for j using c by (simp add: required_def)
  obtain gss h' where 2: "make_groups gl h1 = Some (True, h')" "h' = store_all gl gss (h1\<lparr>prom := prom h'\<rparr>)"
    "fresh_gauges (prom h') b ((gs @ gs') @ concat gss) ((ds @ (if required i h then es else [])) @ gauges_for h1 gl)"
    "adds (prom h1) (prom h')" "list_all2 (\<lambda>g (i, es, _). if required i h1 then length g = length es else g = []) gss gl"
    using Cons.IH [of h1 "gs @ gs'" "ds @ (if required i h then es else [])"] 1(2,4) Cons.prems(3) e p by auto
  have "h1\<lparr>prom := prom h'\<rparr> = (if required i h then store gs' (h\<lparr>prom := prom h'\<rparr>) else h\<lparr>prom := prom h'\<rparr>)"
    using es(2) by (simp add: h1_def plain_store_def)
  then have "h' = store_all (e # gl) (gs' # gss) (h\<lparr>prom := prom h'\<rparr>)" using 2(2) by (simp add: e)
  moreover have "make_groups (e # gl) h = Some (True, h')" using 1(1) 2(1) by (simp add: e h1_def)
  moreover have "fresh_gauges (prom h') b (gs @ concat (gs' # gss)) (ds @ gauges_for h (e # gl))"
    using 2(3) r by (simp add: gauges_for_def e)
  moreover have "adds (prom h) (prom h')" using adds_trans [OF 1(3)] 2(4) p by simp
  moreover have "list_all2 (\<lambda>g (i, es, _). if required i h then length g = length es else g = []) (gs' # gss) (e # gl)"
    using 2(5) r 1(5) e by simp
  ultimately show ?case by blast
qed

lemma make_groups_ok:
  assumes "set_up h"
  shows "\<exists>h'. make_groups groups h = Some (True, h') \<and> monitor_ok h' Map.empty \<and> config h' = config h \<and>
    PROM_ACTIVE_REGISTRY h' = PROM_ACTIVE_REGISTRY h \<and> prev_times h' = prev_times h \<and> temp_file h' = temp_file h \<and>
    adds (prom h) (prom h') \<and>
    fresh_gauges (prom h') (brk (prom h)) (required_metrics h') (required_gauges h)"
proof -
  let ?b = "brk (prom h)"
  have f: "fresh_gauges (prom h) ?b [] []" using assms by (simp add: set_up_def fresh_gauges_def gauges_ok_def)
  have "list_all (\<lambda>(i, es, store). list_all (\<lambda>d. fits (fst d) None [] []) es \<and> plain_store store) groups"
    using gauge_names_fit by (simp add: groups_def plain_store_def)
  from make_groups_all [OF f _ this] obtain gss h' where 1: "make_groups groups h = Some (True, h')"
    "h' = store_all groups gss (h\<lparr>prom := prom h'\<rparr>)" "fresh_gauges (prom h') ?b (concat gss) (required_gauges h)"
    "adds (prom h) (prom h')" "list_all2 (\<lambda>g (i, es, _). if required i h then length g = length es else g = []) gss groups"
    by (auto simp: gauges_for_def required_gauges_def)
  obtain g1 g2 g3 g4 g5 where gss: "gss = [g1, g2, g3, g4, g5]"
    using list_all2_lengthD [OF 1(5)] by (auto simp: groups_def length_Suc_conv)
  have g: "(if required 1 h then [g1 ! 0] else []) = g1" "(if required 2 h then g2 else []) = g2" "(if required 3 h then g3 else []) = g3"
    "(if required 4 h then g4 else []) = g4" "(if required 5 h then g5 else []) = g5"
    using 1(5) by (auto simp: gss groups_def length_Suc_conv split: if_splits)
  have h': "prom (store_all groups gss k) = prom k" "config (store_all groups gss k) = config k"
    "lock (store_all groups gss k) = lock k" "g_status (store_all groups gss k) = g_status k"
    "PROM_ACTIVE_REGISTRY (store_all groups gss k) = PROM_ACTIVE_REGISTRY k"
    "prev_times (store_all groups gss k) = prev_times k" "temp_file (store_all groups gss k) = temp_file k" for k
    by (simp_all add: groups_def gss)
  have fields: "cpu_usage_metric (store_all groups gss k) = (if required 1 k then g1 ! 0 else cpu_usage_metric k)"
    "memory_metrics (store_all groups gss k) = (if required 2 k then g2 else memory_metrics k)"
    "disk_metrics (store_all groups gss k) = (if required 3 k then g3 else disk_metrics k)"
    "network_metrics (store_all groups gss k) = (if required 4 k then g4 else network_metrics k)"
    "processes_count (store_all groups gss k) = (if required 5 k then g5 else processes_count k)" for k
    by (simp_all add: groups_def gss required_def)
  let ?k = "h\<lparr>prom := prom h'\<rparr>"
  have c: "config h' = config h" "PROM_ACTIVE_REGISTRY h' = PROM_ACTIVE_REGISTRY h" "lock h' = lock h" "g_status h' = g_status h"
    "prev_times h' = prev_times h" "temp_file h' = temp_file h"
    using h' [of ?k] by (simp_all add: 1(2) [symmetric])
  have r: "required i h' = required i h" for i using c(1) by (simp add: required_def)
  have fs: "required 1 h \<Longrightarrow> cpu_usage_metric h' = g1 ! 0" "required 2 h \<Longrightarrow> memory_metrics h' = g2"
    "required 3 h \<Longrightarrow> disk_metrics h' = g3" "required 4 h \<Longrightarrow> network_metrics h' = g4" "required 5 h \<Longrightarrow> processes_count h' = g5"
    using fields [of ?k] by (simp_all add: 1(2) [symmetric])
  have "required_metrics h' = (if required 1 h then [g1 ! 0] else []) @ (if required 2 h then g2 else []) @
      (if required 3 h then g3 else []) @ (if required 4 h then g4 else []) @ (if required 5 h then g5 else [])"
    using fs by (simp add: required_metrics_def r cong: if_cong)
  then have rm: "required_metrics h' = concat gss" unfolding g by (simp add: gss)
  have "length memory_gauges = N_MEM_METRICS" "length disk_gauges = N_DISK_METRICS" "length network_gauges = N_NET_METRICS"
    "length processes_gauges = N_PROC_COUNT"
    by (simp_all add: memory_gauges_def disk_gauges_def network_gauges_def processes_gauges_def count_defs)
  then have "monitor_ok h' Map.empty"
    using assms c r rm fs 1(3,5) by (auto simp: monitor_ok_def set_up_def fresh_gauges_def gss groups_def)
  then show ?thesis using 1 c rm by auto
qed

section \<open>The status bytes\<close>

lemma percent_byte:
  assumes "is_fin p" "0 \<le> dval p" "dval p \<le> 100"
  obtains b where "d_to_uchar p = Some b" "tracks b p" "dle dzero p"
proof -
  have "dval p < 256" using assms(3) by simp
  from d_to_uchar_range [OF assms(1,2) this] obtain b where "d_to_uchar p = Some b" "tracks b p" by (auto simp: tracks_def)
  moreover have "dle dzero p" using fin_compare(3) [OF _ assms(1), of dzero] assms(2) by simp
  ultimately show thesis by (rule that)
qed

text \<open>C11. With the two entries of \<open>/proc/meminfo\<close> the update sets the gauges to the total, the memory in use,
  which is the total without the available memory, the available memory, and the memory in use divided by
  the total and multiplied by 100 in double arithmetic, a percentage from 0 to 100, and its status byte to that percentage
  without its fraction; the other bytes stay. (\<open>metrics.h\<close> documents the percentage of available memory.)\<close>

theorem update_memory_tracks:
  assumes "monitor_ok h R" "required 2 h"
    and "meminfo_file mach = Some (lines (ls @ [entry ''MemTotal:'' sp t] @ ms @ [entry ''MemAvailable:'' sq a]) @ rest)"
    and "\<forall>l \<in> set ls. line_for BUFFER_SIZE l \<and> not_starting [''MemTotal:'', ''MemAvailable:''] l"
    and "\<forall>l \<in> set ms. line_for BUFFER_SIZE l \<and> not_starting [''MemTotal:'', ''MemAvailable:''] l"
    and "line_for BUFFER_SIZE (entry ''MemTotal:'' sp t)" "line_for BUFFER_SIZE (entry ''MemAvailable:'' sq a)"
    and "blank sp" "blank sq" "0 < a" "a \<le> t" "t < 2 ^ 64"
    and "p = dmul (ddiv (d_of_nat (t - a)) (d_of_nat t)) (d_of_nat 100)"
  shows "\<exists>h' b. update_memory_gauges env mach h = Some h' \<and>
    monitor_ok h' (R ++ map_of (rev (zip (memory_metrics h) [d_of_nat t, d_of_nat (t - a), d_of_nat a, p]))) \<and>
    0 \<le> dval p \<and> dval p \<le> 100 \<and> g_status h' = (g_status h)[1 := b] \<and> tracks b p"
proof -
  have p: "get_memory_usage (meminfo_file mach) = Some (Some [d_of_nat t, d_of_nat (t - a), d_of_nat a, p])"
    "is_fin p" "0 \<le> dval p" "dval p \<le> 100"
    using memory_usage_ok [OF assms(4-13), of rest] assms(3) by simp_all
  obtain b where b: "d_to_uchar p = Some b" "tracks b p" by (rule percent_byte [OF p(2-4)])
  note u = memory_updates [OF assms(1,2) p(1), of b env]
  obtain w where "update_memory_gauges env mach h = Some (track 1 b (h\<lparr>prom := w\<rparr>))" using u(2) b(1) by auto
  then show ?thesis using u(1) b p(3,4) by (auto simp: updates_to_def group_readings_def)
qed

text \<open>C12. With a complete \<open>cpu\<close> row and readings that did not run backwards, the update after some time sets the
  gauge to a percentage, its status byte to that percentage without its fraction, and keeps the row for the next one.\<close>

theorem update_cpu_tracks:
  assumes "monitor_ok h R" "required 1 h" "stat_file mach = Some (''cpu '' @ row ns @ s @ [newline] @ rest)"
    and "length ns = 8" "\<forall>n \<in> set ns. n < 2 ^ 64" "no_digit s" "line_for (BUFFER_SIZE * 4) (''cpu '' @ row ns @ s)"
    and "time_passes (prev_times h) (times_of ns)"
    and "idle_sum (times_of ns) \<noteq> idle_sum (prev_times h) \<or> non_idle_sum (times_of ns) \<noteq> non_idle_sum (prev_times h)"
  shows "\<exists>h' b p. update_cpu_gauge env mach h = Some h' \<and> monitor_ok h' (R(cpu_usage_metric h \<mapsto> p)) \<and>
    0 \<le> dval p \<and> dval p \<le> 100 \<and> g_status h' = (g_status h)[0 := b] \<and> tracks b p \<and> prev_times h' = times_of ns"
proof -
  obtain p where p: "get_cpu_usage (stat_file mach) (prev_times h) = Some (p, times_of ns)"
    "is_fin p" "0 \<le> dval p" "dval p \<le> 100"
    using cpu_usage_ok [OF assms(4-8), of rest] assms(3,9) by auto
  obtain b where b: "d_to_uchar p = Some b" "tracks b p" "dle dzero p" by (rule percent_byte [OF p(2-4)])
  note u = cpu_updates [OF assms(1,2) p(1), of b env]
  obtain w where "update_cpu_gauge env mach h = Some (track 0 b (h\<lparr>prev_times := times_of ns, prom := w\<rparr>))" using u(2) b(1,3) by auto
  then show ?thesis using u(1) b p by (auto simp: updates_to_def cpu_readings_def)
qed

section \<open>Witnesses\<close>

text \<open>A monitor whose gauges are still to be made, and a machine that shows its memory.\<close>

definition bare_monitor :: "u8 list \<Rightarrow> monitor" where
  "bare_monitor cfg = (initial_monitor gauge_rworld)\<lparr>config := cfg\<rparr>"

lemma bare_monitor_simps:
  "prom (bare_monitor cfg) = gauge_rworld" "PROM_ACTIVE_REGISTRY (bare_monitor cfg) = NULL" "lock (bare_monitor cfg) = Free"
  "config (bare_monitor cfg) = cfg" "prev_times (bare_monitor cfg) = no_times" "temp_file (bare_monitor cfg) = None"
  "length (g_status (bare_monitor cfg)) = G_STATUS_N_METRICS_TRACKED"
  by (simp_all add: bare_monitor_def initial_monitor_def)

lemma bare_monitor_set_up: "set_up (bare_monitor cfg)"
  using gauge_rworld_ok by (simp add: set_up_def bare_monitor_simps)

lemma made_monitor:
  obtains h where "make_groups groups (bare_monitor cfg) = Some (True, h)" "monitor_ok h Map.empty" "config h = cfg"
    "prev_times h = no_times" "temp_file h = None"
  using make_groups_ok [OF bare_monitor_set_up, of cfg] that by (auto simp: bare_monitor_simps)

definition meminfo :: string where
  "meminfo = lines ([] @ [entry ''MemTotal:'' '' '' 8000] @ [''MemFree: 9 kB''] @ [entry ''MemAvailable:'' '' '' 6000]) @ []"

definition idle_machine :: machine where
  "idle_machine = \<lparr>stat_file = None, meminfo_file = Some meminfo, diskstats_file = None, net_dev_file = None,
     top_env = \<lparr>fork_ok = False, open_ok = False, dup2_ok = False, top_runs = None, waitpid_ok = False\<rparr>\<rparr>"

lemma meminfo_lines:
  "\<forall>l \<in> set []. line_for BUFFER_SIZE l \<and> not_starting [''MemTotal:'', ''MemAvailable:''] l"
  "\<forall>l \<in> set [''MemFree: 9 kB'']. line_for BUFFER_SIZE l \<and> not_starting [''MemTotal:'', ''MemAvailable:''] l"
  "line_for BUFFER_SIZE (entry ''MemTotal:'' '' '' 8000)" "line_for BUFFER_SIZE (entry ''MemAvailable:'' '' '' 6000)"
  "blank '' ''" "(0::nat) < 6000" "(6000::nat) \<le> 8000" "(8000::nat) < 2 ^ 64"
  by (simp_all add: line_for_def BUFFER_SIZE_def not_starting_def entry_def blank_def isspace_def dec.simps digit_def char_of_def)

lemma meminfo_reads:
  obtains p where "get_memory_usage (Some meminfo) = Some (Some [d_of_nat 8000, d_of_nat 2000, d_of_nat 6000, p])"
    "is_fin p" "0 \<le> dval p" "dval p \<le> 100"
  using memory_usage_ok [OF meminfo_lines(1-5,5-8) refl, of "[]"] that by (auto simp: meminfo_def)

theorem update_round_refines_witness:
  "\<forall>env. \<exists>h h' p. monitor_ok h Map.empty \<and> update_round env idle_machine h = Some h' \<and>
    monitor_ok h' (map_of (rev (zip (memory_metrics h) [d_of_nat 8000, d_of_nat 2000, d_of_nat 6000, p])))"
proof
  fix env :: os
  obtain h where h: "monitor_ok h Map.empty" "config h = [1, 0, 1, 0, 0, 0]" by (rule made_monitor)
  obtain p where p: "get_memory_usage (Some meminfo) = Some (Some [d_of_nat 8000, d_of_nat 2000, d_of_nat 6000, p])"
    "is_fin p" "0 \<le> dval p" "dval p \<le> 100" by (rule meminfo_reads)
  have r: "required 2 h" "\<not> required 1 h" "\<not> required 3 h" "\<not> required 4 h" "\<not> required 5 h"
    using h(2) by (simp_all add: required_def)
  obtain b where "d_to_uchar p = Some b" by (rule percent_byte [OF p(2-4)])
  then have "readable idle_machine h" using r p(1) by (simp add: readable_def idle_machine_def)
  from update_round_refines [OF h(1) this, of env]
  show "\<exists>h h' p. monitor_ok h Map.empty \<and> update_round env idle_machine h = Some h' \<and>
      monitor_ok h' (map_of (rev (zip (memory_metrics h) [d_of_nat 8000, d_of_nat 2000, d_of_nat 6000, p])))"
    using h(1) r p(1) by (auto simp: updates_to_def round_readings_def group_readings_def idle_machine_def)
qed

theorem update_memory_tracks_witness:
  "\<forall>env. \<exists>h h' b. update_memory_gauges env idle_machine h = Some h' \<and>
    monitor_ok h' (map_of (rev (zip (memory_metrics h) [d_of_nat 8000, d_of_nat (8000 - 6000), d_of_nat 6000,
      dmul (ddiv (d_of_nat (8000 - 6000)) (d_of_nat 8000)) (d_of_nat 100)]))) \<and>
    g_status h' = (g_status h)[1 := b] \<and> tracks b (dmul (ddiv (d_of_nat (8000 - 6000)) (d_of_nat 8000)) (d_of_nat 100))"
proof
  fix env :: os
  obtain h where h: "monitor_ok h Map.empty" "config h = [1, 0, 1, 0, 0, 0]" by (rule made_monitor)
  have r: "required 2 h" using h(2) by (simp add: required_def)
  have "meminfo_file idle_machine = Some meminfo" by (simp add: idle_machine_def)
  from update_memory_tracks [OF h(1) r this [unfolded meminfo_def] meminfo_lines(1-5,5-8) refl, of env]
  show "\<exists>h h' b. update_memory_gauges env idle_machine h = Some h' \<and>
      monitor_ok h' (map_of (rev (zip (memory_metrics h) [d_of_nat 8000, d_of_nat (8000 - 6000), d_of_nat 6000,
      dmul (ddiv (d_of_nat (8000 - 6000)) (d_of_nat 8000)) (d_of_nat 100)]))) \<and>
      g_status h' = (g_status h)[1 := b] \<and> tracks b (dmul (ddiv (d_of_nat (8000 - 6000)) (d_of_nat 8000)) (d_of_nat 100))"
    by auto
qed

text \<open>A \<open>cpu\<close> row.\<close>

definition busy_machine :: machine where
  "busy_machine = idle_machine\<lparr>stat_file := Some (''cpu '' @ row [5, 0, 2, 9, 0, 0, 0, 0] @ '' '' @ [newline] @ ''intr'')\<rparr>"

theorem update_cpu_tracks_witness:
  "\<forall>env. \<exists>h h' b p. update_cpu_gauge env busy_machine h = Some h' \<and>
    monitor_ok h' [cpu_usage_metric h \<mapsto> p] \<and> g_status h' = (g_status h)[0 := b] \<and> tracks b p"
proof
  fix env :: os
  obtain h where h: "monitor_ok h Map.empty" "config h = [1, 1, 0, 0, 0, 0]" "prev_times h = no_times" by (rule made_monitor)
  have r: "required 1 h" using h(2) by (simp add: required_def)
  let ?t = "times_of [5, 0, 2, 9, 0, 0, 0, 0]"
  have t: "time_passes (prev_times h) ?t" "idle_sum ?t \<noteq> idle_sum (prev_times h)"
    using h(3) by (simp_all add: time_passes_def times_of_def idle_sum_def non_idle_sum_def no_times_def)
  have l: "line_for (BUFFER_SIZE * 4) (''cpu '' @ row [5, 0, 2, 9, 0, 0, 0, 0] @ '' '')" "no_digit '' ''"
    by (simp_all add: line_for_def BUFFER_SIZE_def row_def no_digit_def isdigit_def dec.simps digit_def char_of_def)
  have f: "stat_file busy_machine = Some (''cpu '' @ row [5, 0, 2, 9, 0, 0, 0, 0] @ '' '' @ [newline] @ ''intr'')"
    by (simp add: busy_machine_def)
  from update_cpu_tracks [OF h(1) r f _ _ l(2,1) t(1) disjI1 [OF t(2)], of env]
  show "\<exists>h h' b p. update_cpu_gauge env busy_machine h = Some h' \<and>
      monitor_ok h' [cpu_usage_metric h \<mapsto> p] \<and> g_status h' = (g_status h)[0 := b] \<and> tracks b p"
    by auto
qed

end
