(* ===== verification/MonitorRun.thy ===== *)
theory MonitorRun
  imports MonitorUse
begin

text \<open>
  Runs of the process: what holds in every reachable state, and what a server does that was
  started before the registry was there.
\<close>

section \<open>What no step changes\<close>

text \<open>The active registry is chosen once; the configuration is read before the threads start.\<close>

definition settled :: "monitor \<Rightarrow> monitor \<Rightarrow> bool" where
  "settled h h' \<longleftrightarrow> PROM_ACTIVE_REGISTRY h' = PROM_ACTIVE_REGISTRY h \<and> config h' = config h \<and>
     length (g_status h') = length (g_status h) \<and> (lock h = Free \<longrightarrow> lock h' = Free)"

lemma settled_refl [simp]: "settled h h"
  by (simp add: settled_def)

lemma settled_trans: "settled h1 h2 \<Longrightarrow> settled h2 h3 \<Longrightarrow> settled h1 h3"
  by (simp add: settled_def)

lemma settled_upd [simp]:
  "settled h (h\<lparr>prom := w\<rparr>)" "settled h (h\<lparr>prev_times := t\<rparr>)" "settled h (h\<lparr>temp_file := f\<rparr>)" "settled h (track i b h)"
  by (simp_all add: settled_def)

lemma settled_set: "guarded_set env g v h = Some h' \<Longrightarrow> settled h h'"
  by (cases "lock h") (auto simp: guarded_set_def settled_def bind_Some_iff)

lemma settled_sets: "guarded_sets env n gs vs h = Some h' \<Longrightarrow> settled h h'"
  by (induction env n gs vs h rule: guarded_sets.induct) (auto simp: bind_Some_iff intro: settled_trans settled_set)

lemma settled_round: "update_round env mach h = Some h' \<Longrightarrow> settled h h'"
proof -
  have 1: "update_if i f k = Some k' \<Longrightarrow> settled k k'" if "\<And>k k'. f k = Some k' \<Longrightarrow> settled k k'" for i f k k'
    using that by (auto simp: update_if_def split: if_splits)
  have cpu: "settled k k'" if "update_cpu_gauge env mach k = Some k'" for k k'
    using that by (auto simp: update_cpu_gauge_def bind_Some_iff Let_def split: if_splits dest!: settled_set)
      (auto simp: settled_def track_def)
  have mem: "settled k k'" if "update_memory_gauges env mach k = Some k'" for k k'
    using that by (auto simp: update_memory_gauges_def bind_Some_iff split: option.splits dest!: settled_sets)
      (auto simp: settled_def track_def)
  have disk: "settled k k'" if "update_disk_gauges env mach k = Some k'" for k k'
    using that by (auto simp: update_disk_gauges_def bind_Some_iff split: option.splits dest!: settled_sets)
      (auto simp: settled_def track_def)
  have net: "settled k k'" if "update_network_gauges env mach k = Some k'" for k k'
    using that by (auto simp: update_network_gauges_def bind_Some_iff split: option.splits dest!: settled_sets)
  have procs: "settled k k'" if "update_processes_gauge env mach k = Some k'" for k k'
    using that by (auto simp: update_processes_gauge_def bind_Some_iff Let_def split: option.splits dest!: settled_sets)
      (auto simp: settled_def track_def)
  assume "update_round env mach h = Some h'"
  then obtain h1 h2 h3 h4 where "update_if 1 (update_cpu_gauge env mach) h = Some h1" "update_if 2 (update_memory_gauges env mach) h1 = Some h2"
    "update_if 3 (update_disk_gauges env mach) h2 = Some h3" "update_if 4 (update_network_gauges env mach) h3 = Some h4"
    "update_if 5 (update_processes_gauge env mach) h4 = Some h'"
    by (auto simp: update_round_def bind_Some_iff)
  note steps = 1 [OF cpu this(1)] 1 [OF mem this(2)] 1 [OF disk this(3)] 1 [OF net this(4)] 1 [OF procs this(5)]
  show "settled h h'"
    by (rule settled_trans [OF settled_trans [OF settled_trans [OF settled_trans [OF steps(1,2)] steps(3)] steps(4)] steps(5)])
qed

lemma settled_groups:
  assumes "make_groups gl h = Some (ok, h')"
    and "list_all (\<lambda>(i, ds, store). \<forall>gs k. settled k (store gs k)) gl"
  shows "settled h h'"
  using assms
proof (induction gl arbitrary: h)
  case (Cons e gl)
  obtain i ds store where e: "e = (i, ds, store)" by (cases e)
  have s: "settled k (store gs k)" for gs k using Cons.prems(2) e by simp
  have g: "settled h k" if "make_group i ds store h = Some (b, k)" for b k
    using that s settled_trans [OF settled_upd(1) s] by (auto simp: make_group_def bind_Some_iff split: if_splits)
  show ?case
    using Cons.prems e g Cons.IH by (auto simp: bind_Some_iff split: if_splits intro: settled_trans)
qed simp

lemma settled_init: "init_metrics env ok h = Some (r, h') \<Longrightarrow> settled h h'"
proof -
  have g: "list_all (\<lambda>(i, ds, store). \<forall>gs k. settled k (store gs k)) groups"
    by (simp add: groups_def settled_def)
  have l: "settled h (h\<lparr>lock := Free, prom := w\<rparr>)" for w by (simp add: settled_def)
  show "init_metrics env ok h = Some (r, h') \<Longrightarrow> settled h h'"
    by (auto simp: init_metrics_def bind_Some_iff Let_def split: if_splits dest!: settled_groups [OF _ g])
      (auto simp: settled_def)
qed

lemma handler_settled: "promhttp_handler env m url method h = Some (ret, sent, h') \<Longrightarrow> settled h h'"
proof -
  have f: "settled h k" if "free_body b h = Some k" for b and h k :: monitor
    using that by (cases b) (auto simp: bind_Some_iff)
  show "promhttp_handler env m url method h = Some (ret, sent, h') \<Longrightarrow> settled h h'"
    by (auto simp: promhttp_handler_def choose_body_def bind_Some_iff Let_def split: if_splits dest!: f)
      (auto simp: settled_def)
qed

section \<open>Invariants of the process\<close>

text \<open>
  The mutex is free whenever no update is under way, until the program ends; the
  configuration is the one that was read; the other thread exists from the first step on.
\<close>

definition process_inv :: "monitor \<Rightarrow> process \<Rightarrow> bool" where
  "process_inv h p \<longleftrightarrow> config (mon p) = config h \<and> length (g_status (mon p)) = length (g_status h) \<and>
     (lock (mon p) = Free \<or> lock (mon p) = Destroyed \<and> main p = Exited EXIT_SUCCESS) \<and>
     (http p = Not_Created \<longrightarrow> main p = At_Create \<or> \<not> running p) \<and> (main p = At_Create \<longrightarrow> http p = Not_Created \<and> mon p = h)"

lemma step_inv:
  assumes "step env p p'" "process_inv h p"
  shows "process_inv h p'"
  using assms
proof (cases rule: step.cases)
  case (init ok r k)
  then show ?thesis using assms(2) settled_init [OF init(3)] by (auto simp: process_inv_def settled_def running_def)
next
  case (init_exits ok e k)
  then show ?thesis using assms(2) settled_init [OF init_exits(3)] by (auto simp: process_inv_def settled_def running_def)
next
  case (round mach k)
  then show ?thesis using assms(2) settled_round [OF round(3)] by (auto simp: process_inv_def settled_def running_def)
next
  case (request m url mth ret st s k)
  then show ?thesis using assms(2) handler_settled [OF request(4)] by (auto simp: process_inv_def settled_def running_def)
next
  case (request_fails m url mth ret k)
  then show ?thesis using assms(2) handler_settled [OF request_fails(4)] by (auto simp: process_inv_def settled_def running_def)
qed (auto simp: process_inv_def running_def handle_sigint_and_sigterm_def destroy_mutex_def bind_Some_iff EXIT_SUCCESS_def
    EXIT_FAILURE_def promhttp_set_active_collector_registry_def)

text \<open>C9. In every state the process can reach the mutex is free between two steps until the program has ended,
  and the configuration and the number of status bytes are those it started with.\<close>

theorem process_invariant:
  assumes "(step env)\<^sup>*\<^sup>* (start h) p" "lock h = Free"
  shows "process_inv h p"
  using assms
proof (induction rule: rtranclp_induct)
  case base
  then show ?case by (simp add: process_inv_def start_def)
next
  case (step p p')
  then show ?case by (blast intro: step_inv)
qed

section \<open>Updates without gauges\<close>

text \<open>The monitor when \<open>init_metrics\<close> gave up before it made a gauge.\<close>

definition no_gauges :: "monitor \<Rightarrow> bool" where
  "no_gauges h \<longleftrightarrow> lock h = Free \<and> cpu_usage_metric h = NULL \<and> memory_metrics h = replicate N_MEM_METRICS NULL \<and>
     disk_metrics h = replicate N_DISK_METRICS NULL \<and> network_metrics h = replicate N_NET_METRICS NULL \<and>
     processes_count h = replicate N_PROC_COUNT NULL"

text \<open>Steps that change no more than the status bytes and the previous readings.\<close>

definition stays :: "bool \<Rightarrow> monitor \<Rightarrow> monitor option \<Rightarrow> bool" where
  "stays keep h res \<longleftrightarrow> (\<exists>h'. res = Some h' \<and> prom h' = prom h \<and> no_gauges h' \<and> config h' = config h \<and>
     (keep \<longrightarrow> temp_file h' = temp_file h))"

lemma set_of_nothing: "lock h = Free \<Longrightarrow> guarded_set env NULL v h = Some h"
  by (simp add: guarded_set_def prom_gauge_set_def on_sample_def)

lemma sets_of_nothing:
  assumes "lock h = Free" "length vs = n"
  shows "guarded_sets env n (replicate n NULL) vs h = Some h"
  using assms
proof (induction n arbitrary: vs)
  case (Suc n)
  then show ?case by (cases vs) (auto simp: set_of_nothing)
qed simp

lemma stays_next:
  assumes "stays True h res" "\<And>k. prom k = prom h \<Longrightarrow> no_gauges k \<Longrightarrow> config k = config h \<Longrightarrow> temp_file k = temp_file h \<Longrightarrow> stays keep k (f k)"
  shows "stays keep h (Option.bind res f)"
  using assms by (fastforce simp: stays_def)

lemma stays_if: "no_gauges h \<Longrightarrow> (required i h \<Longrightarrow> stays keep h (f h)) \<Longrightarrow> stays keep h (update_if i f h)"
  by (auto simp: update_if_def stays_def)

lemma no_gauges_upd [simp]:
  "no_gauges (track i b h) = no_gauges h" "no_gauges (h\<lparr>prev_times := t\<rparr>) = no_gauges h" "no_gauges (h\<lparr>temp_file := f\<rparr>) = no_gauges h"
  by (simp_all add: no_gauges_def)

lemma no_gaugesD: "no_gauges h \<Longrightarrow> lock h = Free \<and> cpu_usage_metric h = NULL \<and> memory_metrics h = replicate N_MEM_METRICS NULL \<and>
     disk_metrics h = replicate N_DISK_METRICS NULL \<and> network_metrics h = replicate N_NET_METRICS NULL \<and>
     processes_count h = replicate N_PROC_COUNT NULL"
  by (simp add: no_gauges_def)

lemma cpu_stays:
  assumes "no_gauges h" "readable mach h"
  shows "stays True h (update_if 1 (update_cpu_gauge env mach) h)"
proof (rule stays_if [OF assms(1)])
  assume "required 1 h"
  then obtain u t where "get_cpu_usage (stat_file mach) (prev_times h) = Some (u, t)" "dle dzero u \<longrightarrow> (\<exists>b. d_to_uchar u = Some b)"
    using assms(2) by (auto simp: readable_def)
  then show "stays True h (update_cpu_gauge env mach h)"
    using assms(1) no_gaugesD [OF assms(1)] by (cases "dle dzero u") (auto simp: stays_def update_cpu_gauge_def set_of_nothing Let_def)
qed

lemma memory_stays:
  assumes "readable mach h" "no_gauges k" "config k = config h"
  shows "stays True k (update_if 2 (update_memory_gauges env mach) k)"
proof (rule stays_if [OF assms(2)])
  assume "required 2 k"
  then obtain usage where "get_memory_usage (meminfo_file mach) = Some usage" "\<forall>us. usage = Some us \<longrightarrow> (\<exists>b. d_to_uchar (us ! 3) = Some b)"
    using assms(1,3) by (auto simp: readable_def required_def)
  then show "stays True k (update_memory_gauges env mach k)"
    using assms(2) no_gaugesD [OF assms(2)] reader_lengths(1) [of "meminfo_file mach"]
    by (cases usage) (auto simp: stays_def update_memory_gauges_def sets_of_nothing)
qed

lemma disk_stays:
  assumes "readable mach h" "no_gauges k" "config k = config h"
  shows "stays True k (update_if 3 (update_disk_gauges env mach) k)"
proof (rule stays_if [OF assms(2)])
  assume "required 3 k"
  then obtain usage where u: "get_disk_usage (diskstats_file mach) = Some usage"
    using assms(1,3) by (auto simp: readable_def required_def)
  show "stays True k (update_disk_gauges env mach k)"
  proof (cases usage)
    case (Some us)
    then show ?thesis using assms(2) no_gaugesD [OF assms(2)] disk_reads [of "diskstats_file mach" us] u
      by (auto simp: stays_def update_disk_gauges_def sets_of_nothing)
  qed (use assms(2) u in \<open>simp add: stays_def update_disk_gauges_def\<close>)
qed

lemma network_stays:
  assumes "readable mach h" "no_gauges k" "config k = config h"
  shows "stays True k (update_if 4 (update_network_gauges env mach) k)"
proof (rule stays_if [OF assms(2)])
  assume "required 4 k"
  then obtain usage where "get_network_usage (net_dev_file mach) = Some usage"
    using assms(1,3) by (auto simp: readable_def required_def)
  then show "stays True k (update_network_gauges env mach k)"
    using assms(2) no_gaugesD [OF assms(2)] reader_lengths(2) [of "net_dev_file mach"]
    by (cases usage) (auto simp: stays_def update_network_gauges_def sets_of_nothing)
qed

lemma processes_stays:
  assumes "readable mach h" "no_gauges k" "config k = config h" "temp_file k = temp_file h"
  shows "stays False k (update_if 5 (update_processes_gauge env mach) k)"
proof (rule stays_if [OF assms(2)])
  assume "required 5 k"
  then obtain usage f where "get_processes_usage (top_env mach) (temp_file k) = Some (usage, f)"
    using assms(1,3,4) by (auto simp: readable_def required_def)
  then show "stays False k (update_processes_gauge env mach k)"
    using assms(2) no_gaugesD [OF assms(2)] reader_lengths(3) [of "top_env mach" "temp_file k"]
    by (cases usage) (auto simp: stays_def update_processes_gauge_def sets_of_nothing)
qed

lemma round_stays:
  assumes "no_gauges h" "readable mach h"
  shows "stays False h (update_round env mach h)"
  unfolding update_round_def
  using cpu_stays [OF assms] memory_stays [OF assms(2)] disk_stays [OF assms(2)] network_stays [OF assms(2)]
    processes_stays [OF assms(2)]
  by (intro stays_next) auto

text \<open>\<open>init_metrics\<close> gives up before it makes a gauge.\<close>

lemma early_failure:
  assumes "no_gauges h" "\<not> mutex_ok \<or> (\<exists>c w. pcr_default_init env (prom h) = Some (c, w) \<and> c \<noteq> 0)"
  shows "\<exists>k. init_metrics env mutex_ok h = Some (Return EXIT_FAILURE, k) \<and> no_gauges k"
proof (cases mutex_ok)
  case False
  then show ?thesis using assms(1) by (simp add: init_metrics_def)
next
  case True
  then obtain c w where "pcr_default_init env (prom h) = Some (c, w)" "c \<noteq> 0" using assms(2) by blast
  then show ?thesis using True assms(1) by (simp add: init_metrics_def no_gauges_def)
qed

text \<open>C10. When \<open>init_metrics\<close> fails at the mutex or at the registry, before it has made a gauge, it returns
  \<open>EXIT_FAILURE\<close>, yet \<open>main\<close> goes on to its loop, and every round of updates on readable files then runs
  to its end without an error and without storing a reading: the updates ignore that \<open>prom_gauge_set\<close>
  refuses. A failure at a later gauge, when some gauges exist already, is not covered.\<close>

theorem failed_init_unnoticed:
  assumes "main p = At_Init" "no_gauges (mon p)"
    and "\<not> mutex_ok \<or> (\<exists>c w. pcr_default_init env (prom (mon p)) = Some (c, w) \<and> c \<noteq> 0)"
  shows "\<exists>h. init_metrics env mutex_ok (mon p) = Some (Return EXIT_FAILURE, h) \<and>
    step env p (p\<lparr>mon := h, main := At_Signals\<rparr>) \<and>
    (\<forall>mach k. no_gauges k \<and> readable mach k \<longrightarrow>
       (\<exists>k'. update_round env mach k = Some k' \<and> prom k' = prom k \<and> no_gauges k' \<and> config k' = config k)) \<and> no_gauges h"
proof -
  obtain h where h: "init_metrics env mutex_ok (mon p) = Some (Return EXIT_FAILURE, h)" "no_gauges h"
    using early_failure [OF assms(2,3)] by blast
  moreover have "step env p (p\<lparr>mon := h, main := At_Signals\<rparr>)" using assms(1) h(1) by (rule step.init)
  ultimately show ?thesis using round_stays by (fastforce simp: stays_def)
qed

section \<open>Serving too early\<close>

text \<open>The server thread has asked for the registry while there was none.\<close>

definition lost :: "process \<Rightarrow> bool" where
  "lost p \<longleftrightarrow> main p \<noteq> At_Create \<and> http p \<notin> {Not_Created, Created} \<and> PROM_ACTIVE_REGISTRY (mon p) = NULL"

definition no_metrics :: "string \<times> nat \<times> string \<Rightarrow> bool" where
  "no_metrics r \<longleftrightarrow> (case r of (url, st, s) \<Rightarrow> url = ''/metrics'' \<and> st = MHD_HTTP_OK \<longrightarrow> s = ''# pcr_bridge(NULL)'')"

lemma strdup_text: "strdup s w = (a, w') \<Longrightarrow> a \<noteq> NULL \<Longrightarrow> strs w' a = Some s"
  by (auto simp: strdup_def malloc_def Let_def split: list.splits if_splits)

lemma handler_lost:
  assumes "promhttp_handler env m url method h = Some (ret, Some (st, s), h')" "PROM_ACTIVE_REGISTRY h = NULL"
  shows "no_metrics (url, st, s)"
  using assms
  by (auto simp: promhttp_handler_def choose_body_def no_metrics_def pcr_bridge_def bind_Some_iff Let_def mhd_defs load_str_def
      split: if_splits prod.splits dest!: strdup_text)

lemma lost_step:
  assumes "step env p p'" "lost p"
  shows "lost p' \<and> (\<exists>rs. replies p' = replies p @ rs \<and> list_all no_metrics rs)"
  using assms
proof (cases rule: step.cases)
  case (init ok r k)
  then show ?thesis using assms(2) settled_init [OF init(3)] by (auto simp: lost_def settled_def)
next
  case (init_exits ok e k)
  then show ?thesis using assms(2) settled_init [OF init_exits(3)] by (auto simp: lost_def settled_def)
next
  case (round mach k)
  then show ?thesis using assms(2) settled_round [OF round(3)] by (auto simp: lost_def settled_def)
next
  case (request m url mth ret st s k)
  then show ?thesis using assms(2) handler_settled [OF request(4)] handler_lost [OF request(4)] by (auto simp: lost_def settled_def)
next
  case (request_fails m url mth ret k)
  then show ?thesis using assms(2) handler_settled [OF request_fails(4)] by (auto simp: lost_def settled_def)
qed (auto simp: lost_def handle_sigint_and_sigterm_def destroy_mutex_def bind_Some_iff promhttp_set_active_collector_registry_def)

text \<open>C8. A server thread that asks for the registry before the main thread has made it never gets one: whatever
  happens afterwards, every scrape is answered with a comment and no metric.\<close>

theorem lost_race:
  assumes "(step env)\<^sup>*\<^sup>* p p'" "lost p"
  shows "lost p' \<and> (\<exists>rs. replies p' = replies p @ rs \<and> list_all no_metrics rs)"
  using assms
proof (induction rule: rtranclp_induct)
  case base
  then show ?case by simp
next
  case (step p1 p2)
  then have 1: "lost p1" "\<exists>rs. replies p1 = replies p @ rs \<and> list_all no_metrics rs" by blast+
  show ?case using lost_step [OF step(2) 1(1)] 1(2) by auto
qed

section \<open>Witnesses\<close>

text \<open>The server thread runs first.\<close>

definition early :: process where
  "early = (start (bare_monitor JSON_ENTRIES_DEF_VAL))\<lparr>main := At_Init, http := Registry_Set\<rparr>"

lemma early_reachable: "(step env)\<^sup>*\<^sup>* (start (bare_monitor JSON_ENTRIES_DEF_VAL)) early"
proof -
  let ?s = "start (bare_monitor JSON_ENTRIES_DEF_VAL)" and ?m = "bare_monitor JSON_ENTRIES_DEF_VAL"
  have "step env ?s (?s\<lparr>main := At_Init, http := Created\<rparr>)" by (rule create) (simp add: start_def)
  moreover have "promhttp_set_active_collector_registry NULL ?m = ?m"
    by (simp add: promhttp_set_active_collector_registry_def bare_monitor_simps gauge_rworld_ok)
  then have "step env (?s\<lparr>main := At_Init, http := Created\<rparr>) early"
    using set_registry [of "?s\<lparr>main := At_Init, http := Created\<rparr>" env]
    by (simp add: running_def start_def early_def)
  ultimately show ?thesis by (blast intro: rtranclp.rtrancl_into_rtrancl)
qed

theorem process_invariant_witness:
  "\<forall>env. process_inv (bare_monitor JSON_ENTRIES_DEF_VAL) early"
proof
  fix env :: os
  show "process_inv (bare_monitor JSON_ENTRIES_DEF_VAL) early"
    by (rule process_invariant [OF early_reachable [of env]]) (simp add: bare_monitor_simps)
qed

text \<open>The memory runs out at the first allocation of the registry.\<close>

definition starved :: process where
  "starved = (start ((bare_monitor [1, 0, 1, 0, 0, 0])\<lparr>prom := gauge_rworld\<lparr>oom := [True], PROM_COLLECTOR_REGISTRY := NULL\<rparr>\<rparr>))
     \<lparr>main := At_Init\<rparr>"

theorem failed_init_unnoticed_witness:
  "\<forall>env. \<exists>h h'. init_metrics env True (mon starved) = Some (Return EXIT_FAILURE, h) \<and>
    step env starved (starved\<lparr>mon := h, main := At_Signals\<rparr>) \<and>
    update_round env idle_machine h = Some h' \<and> prom h' = prom h"
proof
  fix env :: os
  obtain q where q: "get_memory_usage (Some meminfo) = Some (Some [d_of_nat 8000, d_of_nat 2000, d_of_nat 6000, q])"
    "is_fin q" "0 \<le> dval q" "dval q \<le> 100" by (rule meminfo_reads)
  obtain b where b: "d_to_uchar q = Some b" by (rule percent_byte [OF q(2-4)])
  let ?w = "gauge_rworld\<lparr>oom := [True], PROM_COLLECTOR_REGISTRY := NULL\<rparr>"
  have e: "pcr_default_init env (prom (mon starved)) = Some (1, ?w\<lparr>oom := []\<rparr>)"
    by (simp add: starved_def start_def pcr_default_init_def pcr_init_def pcr_new_def malloc_def)
  moreover have "no_gauges (mon starved)" by (simp add: no_gauges_def starved_def start_def bare_monitor_def initial_monitor_def)
  ultimately obtain h where h: "init_metrics env True (mon starved) = Some (Return EXIT_FAILURE, h)"
      "step env starved (starved\<lparr>mon := h, main := At_Signals\<rparr>)" "no_gauges h"
      "\<forall>mach k. no_gauges k \<and> readable mach k \<longrightarrow> (\<exists>k'. update_round env mach k = Some k' \<and> prom k' = prom k)"
    using failed_init_unnoticed [of starved True env] by (force simp: starved_def start_def)
  have "readable idle_machine h"
    using h(1) e q(1) b by (auto simp: init_metrics_def starved_def start_def readable_def idle_machine_def required_def bare_monitor_simps)
  then show "\<exists>h h'. init_metrics env True (mon starved) = Some (Return EXIT_FAILURE, h) \<and>
      step env starved (starved\<lparr>mon := h, main := At_Signals\<rparr>) \<and>
      update_round env idle_machine h = Some h' \<and> prom h' = prom h"
    using h by blast
qed

text \<open>A scrape after the race.\<close>

theorem lost_race_witness:
  "\<forall>env. lost early \<and> (\<exists>p. (step env)\<^sup>*\<^sup>* early p \<and> lost p \<and> replies p = [(''/metrics'', 200, ''# pcr_bridge(NULL)'')])"
proof
  fix env :: os
  let ?m = "bare_monitor JSON_ENTRIES_DEF_VAL"
  have l: "lost early" by (simp add: lost_def early_def start_def bare_monitor_simps)
  have r: "PROM_ACTIVE_REGISTRY ?m = NULL" "mem_ok (prom ?m)" "oom (prom ?m) = []"
    using gauge_rworld_ok by (simp_all add: bare_monitor_simps)
  let ?w = "(prom ?m)\<lparr>brk := Suc (brk (prom ?m)), strs := (strs (prom ?m))(brk (prom ?m) \<mapsto> ''# pcr_bridge(NULL)'')\<rparr>"
  have "brk (prom ?m) \<noteq> NULL" "strs (prom ?m) (brk (prom ?m)) = None"
    using mem_ok_brk_pos [OF r(2)] mem_ok_fresh [OF r(2)] by simp_all
  moreover have "pcr_bridge env (PROM_ACTIVE_REGISTRY ?m) (prom ?m) = Some (brk (prom ?m), ?w)"
    using r by (simp add: pcr_bridge_def strdup_ok)
  ultimately obtain w where w: "promhttp_handler env willing ''/metrics'' ''GET'' ?m = Some (1, Some (200, ''# pcr_bridge(NULL)''), ?m\<lparr>prom := w\<rparr>)"
    using handler_bridge [of env ?m "brk (prom ?m)" _ "''# pcr_bridge(NULL)''" willing]
    by (auto simp: replied_def willing_def mhd_defs)
  define p where "p = early\<lparr>http := Serving, mon := ?m\<lparr>prom := w\<rparr>, replies := [(''/metrics'', 200, ''# pcr_bridge(NULL)'')]\<rparr>"
  have 1: "step env early (early\<lparr>http := Serving\<rparr>)" by (rule start_daemon) (simp_all add: early_def running_def)
  have "step env (early\<lparr>http := Serving\<rparr>) p"
    using request [of "early\<lparr>http := Serving\<rparr>" env willing "''/metrics''" "''GET''"] w
    by (simp add: early_def start_def running_def p_def)
  with r_into_rtranclp [of "step env", OF 1] have 2: "(step env)\<^sup>*\<^sup>* early p" by (rule rtranclp.rtrancl_into_rtrancl)
  have "replies p = [(''/metrics'', 200, ''# pcr_bridge(NULL)'')]" by (simp add: p_def)
  then show "lost early \<and> (\<exists>p. (step env)\<^sup>*\<^sup>* early p \<and> lost p \<and> replies p = [(''/metrics'', 200, ''# pcr_bridge(NULL)'')])"
    using l 2 lost_race [OF 2 l] by blast
qed

end
