(* ===== verification/RegistryInit.thy ===== *)
theory RegistryInit
  imports RegistryUse MetricSet
begin

text \<open>
  \<open>pcr_default_init\<close> with everything it makes: the process collector with its metrics and the
  gauge of the scrape times. While memory is available and the statistics of the process can be
  opened it succeeds, and the default collector is empty.
\<close>

section \<open>Steps that keep what is there\<close>

text \<open>Strings, samples and metrics from before stay; new collectors and collector data may appear.\<close>

definition extends :: "'z mworld \<Rightarrow> 'z mworld \<Rightarrow> bool" where
  "extends w w' \<longleftrightarrow> mem_ok w' \<and> oom w' = [] \<and> brk w \<le> brk w' \<and> (\<forall>a < brk w. strs w' a = strs w a) \<and>
     samples w' = samples w \<and> (\<forall>a < brk w. metrics w' a = metrics w a)"

lemma extends_refl: "mem_ok w \<Longrightarrow> oom w = [] \<Longrightarrow> extends w w"
  by (simp add: extends_def)

lemma extends_trans: "extends u v \<Longrightarrow> extends v w \<Longrightarrow> extends u w"
  by (auto simp: extends_def)

lemma extendsD: "extends w w' \<Longrightarrow> mem_ok w'" "extends w w' \<Longrightarrow> oom w' = []" "extends w w' \<Longrightarrow> brk w \<le> brk w'"
    "extends w w' \<Longrightarrow> same_on {..<brk w} w w'" "extends w w' \<Longrightarrow> a < brk w \<Longrightarrow> metrics w' a = metrics w a"
  by (simp_all add: extends_def same_on_def)

lemma stores_extends: "stores w M w' \<Longrightarrow> extends w w'"
  for w w' :: "'z mworld"
  using frame_stores [of w M w' "{}"] storesD(1-3) [of w M w'] more_metrics [OF stores_more [of w M w']]
  by (auto simp: extends_def frame_def)

lemma extends_map:
  assumes "extends w w'" "map_ok m w" "mem_ok w"
  shows "map_ok m w'" "lookup_map w' m = lookup_map w m"
proof -
  have "same_on (owned m) w w'" using owned_old [OF assms(2,3)] extendsD(4) [OF assms(1)] by (auto simp: same_on_def)
  then show "map_ok m w'" "lookup_map w' m = lookup_map w m" using map_ok_cong [OF assms(2)] lookup_map_cong by auto
qed

text \<open>A new metric of any kind.\<close>

lemma metric_new_extends:
  assumes "list_all (\<lambda>k. \<not> reserved k) ks" "mem_ok w" "oom w = []"
  obtains g m w' where "prom_metric_new t name help (length ks) (map Some ks) w = Some (g, w')" "extends w w'"
    "metrics w' g = Some m" "mname m = name" "g \<noteq> NULL" "brk w \<le> g" "mmem.more w' = mmem.more w"
    "g < brk w'" "mtype m = t" "metric_wf g w' m ks" "map_count (msamples m) = 0" "set (label_keys m) \<inter> {..<brk w} = {}" "mhelp m = help"
proof -
  obtain m g w' where 1: "prom_metric_new t name help (length ks) (map Some ks) w = Some (g, put_metric g m w')"
    "g \<noteq> NULL" "metric_wf g (put_metric g m w') m ks" "mname m = name" "g = brk w" "\<exists>M. stores w M w'"
    "brk w < brk w'" "mtype m = t" "map_count (msamples m) = 0" "set (label_keys m) \<inter> {..<brk w} = {}" "mhelp m = help"
    by (rule metric_new_ok [OF assms])
  then obtain M where s: "stores w M w'" by blast
  have "mem_ok (put_metric g m w')" "oom (put_metric g m w') = []" using 1(3) by (simp_all add: metric_wf_def)
  then have "extends w (put_metric g m w')"
    using stores_extends [OF s] 1(5) by (auto simp: extends_def)
  moreover have "mmem.more (put_metric g m w') = mmem.more w" using more_metrics [OF stores_more [OF s]] by simp
  ultimately show thesis using 1(1-5,7-11) by (intro that [of g "put_metric g m w'" m]) simp_all
qed

section \<open>Filling a collector\<close>

text \<open>The collector at \<open>d\<close> with its map of metrics.\<close>

definition collector_at :: "'z cworld \<Rightarrow> addr \<Rightarrow> collector \<Rightarrow> pmap \<Rightarrow> bool" where
  "collector_at w d c ms \<longleftrightarrow> d \<noteq> NULL \<and> collectors w d = Some c \<and> cmetrics c = Some ms \<and> map_ok ms w \<and> keys_ok ms \<and>
     (\<forall>n. lookup_map w ms n \<noteq> Some NULL)"

text \<open>What a collector has beside its metrics, and the layers above.\<close>

definition beyond :: "'z cworld \<Rightarrow> (addr \<Rightarrow> ppc_data option) \<times> int \<times> u64 \<times> u64 \<times> u64 \<times> 'z" where
  "beyond w = (ppcs w, page_sz w, clk_tck w, last_starttime w, stat_timestamp w, cmem.more w)"

lemma beyond_more: "mmem.more w' = mmem.more w \<Longrightarrow> beyond w' = beyond w \<and> collectors w' = collectors w"
  for w w' :: "'z cworld"
  by (cases w; cases w') (simp add: beyond_def)

lemma samples_put [simp]: "samples (put_collector d c w) = samples w"
  by (simp add: put_collector_def)

lemma beyond_put [simp]: "beyond (put_collector d c w) = beyond w"
  by (simp add: beyond_def put_collector_def)

lemma beyond_data: "beyond w = beyond w' \<Longrightarrow> beyond (put_data a d w) = beyond (put_data a d w')"
  by (simp add: beyond_def put_data_def)

lemma put_data_simps [simp]:
  fixes w :: "'z cworld"
  shows "strs (put_data a d w) = strs w" "brk (put_data a d w) = brk w" "oom (put_data a d w) = oom w" "collectors (put_data a d w) = collectors w"
    "objects (put_data a d w) = objects w" "mem_ok (put_data a d w) = mem_ok w" "metrics (put_data a d w) = metrics w"
    "samples (put_data a d w) = samples w" "map_ok m (put_data a d w) = map_ok m w" "lookup_map (put_data a d w) m = lookup_map w m"
  using map_ok_strs [of "put_data a d w" w] lookup_strs [of "put_data a d w" w]
  by (simp_all add: put_data_def mem_ok_def objects_def)

lemma more_cw: "mem.more w' = mem.more w \<Longrightarrow> collectors w' = collectors w \<and> beyond w' = beyond w"
  for w w' :: "'z cworld"
  using beyond_more [of w' w, OF more_metrics(6) [of w' w]] by blast

lemma mem_more: "mem.more w' = mem.more w \<Longrightarrow> mmem.more w' = mmem.more w"
  for w w' :: "'z mworld"
  by (rule more_metrics(6))

text \<open>One metric of a new name, then all of them.\<close>

lemma collector_add:
  fixes w :: "'z cworld"
  assumes "collector_at w d c ms" "mem_ok w" "oom w = []" "metrics w x = Some m" "x \<noteq> NULL" "map_count ms < map_limit"
    "lookup_map w ms (mname m) = None"
  obtains w' ms' where "prom_collector_add_metric d x w = Some (0, w')" "collector_at w' d (c\<lparr>cmetrics := Some ms'\<rparr>) ms'"
    "map_frame ms w ms' w'" "objects w' = objects w" "beyond w' = beyond w" "collectors w' = (collectors w)(d \<mapsto> c\<lparr>cmetrics := Some ms'\<rparr>)"
    "lookup_map w' ms' = (lookup_map w ms)(mname m \<mapsto> x)" "map_count ms' \<le> map_count ms + 1"
proof -
  have d: "d \<noteq> NULL" "collectors w d = Some c" "cmetrics c = Some ms" "map_ok ms w" "keys_ok ms" "\<forall>n. lookup_map w ms n \<noteq> Some NULL"
    using assms(1) by (simp_all add: collector_at_def)
  have nd: "mname m \<notin> dom (lookup_map w ms)" using assms(7) by (simp add: domIff)
  obtain ms' w1 where 1: "prom_collector_add_metric d x w = Some (0, put_collector d (c\<lparr>cmetrics := Some ms'\<rparr>) w1)"
    "map_ok ms' w1" "map_frame ms w ms' w1" "mem.more w1 = mem.more w" "keys_ok ms'"
    "lookup_map w1 ms' = (lookup_map w ms)(mname m \<mapsto> x)" "map_count ms' \<le> map_count ms + 1"
    by (rule add_metric_ok [OF assms(2,3) d(1-4,6) assms(4,6), unfolded if_not_P [OF nd]]) (use d(5) in blast)
  let ?w = "put_collector d (c\<lparr>cmetrics := Some ms'\<rparr>) w1"
  note b = beyond_more [OF mem_more [OF 1(4)]]
  have "collector_at ?w d (c\<lparr>cmetrics := Some ms'\<rparr>) ms'"
    using d(1,6) 1(2,5,6) assms(5) by (auto simp: collector_at_def)
  moreover have "map_frame ms w ms' ?w" using 1(3) by (simp add: map_frame_def)
  moreover have "objects ?w = objects w" using objects_more [OF 1(4)] by simp
  ultimately show thesis using 1(1,6,7) b by (intro that [of ?w ms']) (simp_all del: fun_upd_apply)
qed

definition name_at :: "'z mworld \<Rightarrow> addr \<Rightarrow> string" where
  "name_at w g = mname (the (metrics w g))"

lemma collector_add_all:
  fixes w :: "'z cworld"
  assumes "collector_at w d c ms" "mem_ok w" "oom w = []" "\<forall>x \<in> set xs. metrics w x \<noteq> None \<and> x \<noteq> NULL"
    "map_count ms + length xs \<le> map_limit" "distinct (map (name_at w) xs)" "\<forall>x \<in> set xs. lookup_map w ms (name_at w x) = None"
  shows "\<exists>w' ms'. add_metrics d xs w = Some w' \<and> collector_at w' d (c\<lparr>cmetrics := Some ms'\<rparr>) ms' \<and> map_frame ms w ms' w' \<and>
    objects w' = objects w \<and> beyond w' = beyond w \<and> collectors w' = (collectors w)(d \<mapsto> c\<lparr>cmetrics := Some ms'\<rparr>) \<and>
    lookup_map w' ms' = lookup_map w ms ++ map_of (zip (map (name_at w) xs) xs)"
  using assms
proof (induction xs arbitrary: w c ms)
  case Nil
  then have "map_frame ms w ms w" "c\<lparr>cmetrics := Some ms\<rparr> = c" "(collectors w)(d \<mapsto> c) = collectors w"
    by (auto simp: map_frame_def collector_at_def)
  then show ?case using Nil.prems(1) by (intro exI [of _ w] exI [of _ ms]) simp
next
  case (Cons x xs)
  obtain m where m: "metrics w x = Some m" "x \<noteq> NULL" "name_at w x = mname m" using Cons.prems(4) by (auto simp: name_at_def)
  have lim: "map_count ms < map_limit" and new: "lookup_map w ms (mname m) = None" using Cons.prems(5,7) m(3) by auto
  obtain w1 ms1 where 1: "prom_collector_add_metric d x w = Some (0, w1)" "collector_at w1 d (c\<lparr>cmetrics := Some ms1\<rparr>) ms1"
    "map_frame ms w ms1 w1" "objects w1 = objects w" "beyond w1 = beyond w" "collectors w1 = (collectors w)(d \<mapsto> c\<lparr>cmetrics := Some ms1\<rparr>)"
    "lookup_map w1 ms1 = (lookup_map w ms)(mname m \<mapsto> x)" "map_count ms1 \<le> map_count ms + 1"
    by (rule collector_add [OF Cons.prems(1-3) m(1,2) lim new])
  have o: "metrics w1 = metrics w" using objectsD [OF 1(4)] by simp
  then have n: "name_at w1 = name_at w" by (simp add: name_at_def fun_eq_iff)
  have "\<forall>x \<in> set xs. metrics w1 x \<noteq> None \<and> x \<noteq> NULL" "map_count ms1 + length xs \<le> map_limit" "distinct (map (name_at w1) xs)"
    "\<forall>x \<in> set xs. lookup_map w1 ms1 (name_at w1 x) = None"
    using Cons.prems(4-7) 1(7,8) o n m(3) by (auto simp: image_iff)
  from Cons.IH [OF 1(2) map_frameD(1,2) [OF 1(3)] this] obtain w' ms' where 2: "add_metrics d xs w1 = Some w'"
    "collector_at w' d (c\<lparr>cmetrics := Some ms'\<rparr>) ms'" "map_frame ms1 w1 ms' w'" "objects w' = objects w1" "beyond w' = beyond w1"
    "collectors w' = (collectors w1)(d \<mapsto> c\<lparr>cmetrics := Some ms'\<rparr>)"
    "lookup_map w' ms' = lookup_map w1 ms1 ++ map_of (zip (map (name_at w1) xs) xs)" by (auto simp del: fun_upd_apply)
  have "mname m \<notin> dom (map_of (zip (map (name_at w) xs) xs))" using Cons.prems(6) m(3) by (simp add: dom_map_of_zip)
  then have cat: "lookup_map w' ms' = lookup_map w ms ++ map_of (zip (map (name_at w) (x # xs)) (x # xs))"
    using 2(7) 1(7) n m(3) by (simp add: map_add_upd_left)
  have run: "add_metrics d (x # xs) w = Some w'" using 1(1) 2(1) by simp
  have same: "objects w' = objects w" "beyond w' = beyond w" "collectors w' = (collectors w)(d \<mapsto> c\<lparr>cmetrics := Some ms'\<rparr>)"
    using 2(4-6) 1(4-6) by simp_all
  show ?case
    by (intro exI conjI)
      (rule run, rule 2(2), rule map_frame_trans [OF 1(3) 2(3)], rule same(1), rule same(2), rule same(3), rule cat)
qed

lemma extends_frame:
  fixes w w' :: "'z mworld"
  assumes "map_frame ms w ms' w'" "owned ms = {}" "objects w' = objects w"
  shows "extends w w'"
  using map_frameD(1-3) [OF assms(1)] map_frameD(6) [OF assms(1)] assms(2) objectsD [OF assms(3)] by (simp add: extends_def)

section \<open>The process collector\<close>

text \<open>\<open>g\<close> is a metric of this name and type, made since \<open>b\<close> and never set.\<close>

definition short :: "metric \<Rightarrow> bool" where
  "short m \<longleftrightarrow> length (mname m) \<le> 100 \<and> (case mhelp m of None \<Rightarrow> True | Some h \<Rightarrow> length h \<le> 100)"

lemma short_same: "same_metric m m' \<Longrightarrow> short m' = short m"
  by (simp add: same_metric_def short_def)

definition made :: "addr \<Rightarrow> 'z mworld \<Rightarrow> string \<times> prom_metric_type \<Rightarrow> addr \<Rightarrow> bool" where
  "made b w k g \<longleftrightarrow> g \<noteq> NULL \<and> b \<le> g \<and> g < brk w \<and>
     (\<exists>m. metrics w g = Some m \<and> mname m = fst k \<and> mtype m = snd k \<and> bare w g m \<and> short m)"

lemma made_keeps:
  fixes w w' :: "'z mworld"
  assumes "made b w k g" "metrics w' g = metrics w g" "mem_ok w'" "oom w' = []" "brk w \<le> brk w'" shows "made b w' k g"
  using assms bare_keeps [of w g _ w'] unfolding made_def by auto

lemma made_later: "made b w k g \<Longrightarrow> extends w w' \<Longrightarrow> made b w' k g"
  using made_keeps [of b w k g w'] by (auto simp: made_def extends_def)

lemma made_before: "made b w n g \<Longrightarrow> c \<le> b \<Longrightarrow> made c w n g"
  by (auto simp: made_def)

lemma made_names: "list_all2 (made b w) ks gs \<Longrightarrow> map (name_at w) gs = map fst ks"
  by (induction rule: list_all2_induct) (auto simp: made_def name_at_def)

lemma plain_new_made:
  fixes w :: "'z mworld"
  assumes "length name \<le> 100 \<and> length descr \<le> 100" "mem_ok w" "oom w = []"
  obtains g w' where "prom_metric_new t name (Some descr) 0 [] w = Some (g, w')" "extends w w'" "made (brk w) w' (name, t) g" "mmem.more w' = mmem.more w"
proof -
  obtain g m w' where 1: "prom_metric_new t name (Some descr) (length []) (map Some []) w = Some (g, w')" "extends w w'"
    "metrics w' g = Some m" "mname m = name" "g \<noteq> NULL" "brk w \<le> g" "mmem.more w' = mmem.more w" "g < brk w'"
    "mtype m = t" "metric_wf g w' m []" "map_count (msamples m) = 0" "mhelp m = Some descr"
    by (rule metric_new_extends [of "[]" w t name "Some descr"]) (use assms in auto)
  moreover have "short m" using 1(4,12) assms(1) by (simp add: short_def)
  ultimately show thesis by (intro that [of g w']) (auto simp: made_def bare_def)
qed

text \<open>The names and types the metrics get.\<close>

definition kind_of :: "proc_metric \<times> prom_metric_type \<times> string \<times> string \<Rightarrow> string \<times> prom_metric_type" where
  "kind_of = (\<lambda>(what, t, name, descr). (name, if t = PROM_COUNTER then PROM_COUNTER else PROM_GAUGE))"

lemma new_stats_ok:
  fixes w :: "'z cworld"
  assumes "list_all (\<lambda>(_, _, name, descr). length name \<le> 100 \<and> length descr \<le> 100) ts" "mem_ok w" "oom w = []"
  shows "\<exists>gs w'. new_stats ts m w = Some (foldl (\<lambda>m (t, g). m[pm_index (fst t) := g]) m (zip ts gs), w') \<and> extends w w' \<and>
    mmem.more w' = mmem.more w \<and> list_all2 (\<lambda>t g. made (brk w) w' (kind_of t) g) ts gs"
  using assms
proof (induction ts arbitrary: m w)
  case Nil
  then show ?case by (auto intro: extends_refl)
next
  case (Cons t ts)
  obtain what ty name descr where t: "t = (what, ty, name, descr)" by (cases t)
  have l: "length name \<le> 100 \<and> length descr \<le> 100" using Cons.prems(1) t by simp
  have lts: "list_all (\<lambda>(_, _, name, descr). length name \<le> 100 \<and> length descr \<le> 100) ts" using Cons.prems(1) by simp
  obtain g w1 where 1: "(if ty = PROM_COUNTER then prom_counter_new name (Some descr) 0 [] w
      else prom_gauge_new name (Some descr) 0 [] w) = Some (g, w1)"
      "extends w w1" "made (brk w) w1 (kind_of t) g" "mmem.more w1 = mmem.more w"
  proof (cases "ty = PROM_COUNTER")
    case True
    then show thesis using plain_new_made [OF l Cons.prems(2,3), of PROM_COUNTER] that t by (simp add: prom_counter_new_def kind_of_def) blast
  next
    case False
    then show thesis using plain_new_made [OF l Cons.prems(2,3), of PROM_GAUGE] that t by (simp add: prom_gauge_new_def kind_of_def) blast
  qed
  obtain gs w2 where 2: "new_stats ts (m[pm_index what := g]) w1 =
      Some (foldl (\<lambda>m (t, g). m[pm_index (fst t) := g]) (m[pm_index what := g]) (zip ts gs), w2)" "extends w1 w2"
      "mmem.more w2 = mmem.more w1" "list_all2 (\<lambda>t g. made (brk w1) w2 (kind_of t) g) ts gs"
    using Cons.IH [OF lts extendsD(1,2) [OF 1(2)]] by blast
  have "list_all2 (\<lambda>t g. made (brk w) w2 (kind_of t) g) ts gs"
    using 2(4) made_before extendsD(3) [OF 1(2)] by (rule_tac list.rel_mono_strong [OF 2(4)]) blast
  then show ?case
    using 1 2 t extends_trans [OF 1(2) 2(2)] made_later [OF 1(3) 2(2)]
    by (intro exI [of _ "g # gs"] exI [of _ w2]) simp
qed

definition ppc_kinds :: "(string \<times> prom_metric_type) list" where
  "ppc_kinds = (''process_open_fds'', PROM_GAUGE) # (''process_max_fds'', PROM_GAUGE) # map kind_of stats_metrics"

definition ppc_names :: "string list" where
  "ppc_names = map fst ppc_kinds"

lemma ppc_names_distinct: "distinct ppc_names"
  by (simp add: ppc_names_def ppc_kinds_def stats_metrics_def kind_of_def)

lemma stats_indices:
  assumes "length gs = 15"
  shows "foldl (\<lambda>m (t, g). m[pm_index (fst t) := g]) ([a, b] @ replicate 15 NULL) (zip stats_metrics gs) = a # b # gs"
proof -
  obtain g2 g3 g4 g5 g6 g7 g8 g9 g10 g11 g12 g13 g14 g15 g16 where
    "gs = [g2, g3, g4, g5, g6, g7, g8, g9, g10, g11, g12, g13, g14, g15, g16]"
    using assms by (auto simp: length_Suc_conv eval_nat_numeral)
  moreover have "replicate 15 (NULL :: addr) = [0, 0, 0, 0, 0, 0, 0, 0, 0, 0, 0, 0, 0, 0, 0]" by (simp add: eval_nat_numeral)
  ultimately show ?thesis by (simp add: stats_metrics_def)
qed

lemma stats_short: "list_all (\<lambda>(_, _, name, descr). length name \<le> 100 \<and> length descr \<le> 100) stats_metrics"
  by (simp add: stats_metrics_def)

text \<open>The set of bits that says which metrics could be made.\<close>

lemma some_made: "i \<in> set is \<Longrightarrow> m ! i \<noteq> NULL \<Longrightarrow> 0 < (\<Sum>i \<leftarrow> is. if m ! i \<noteq> NULL then (2::int) ^ i else 0)"
proof (induction "is")
  case (Cons j js)
  have "0 \<le> (\<Sum>i \<leftarrow> js. if m ! i \<noteq> NULL then (2::int) ^ i else 0)" by (intro sum_list_nonneg) auto
  moreover have "m ! j \<noteq> NULL \<Longrightarrow> 0 < (2::int) ^ j" by simp
  ultimately show ?case using Cons by (cases "i = j") (auto intro: add_pos_nonneg add_nonneg_pos)
qed simp

lemma ppc_stats_new_ok:
  assumes "new_stats stats_metrics m w = Some (m', w')" "m' ! 2 \<noteq> NULL"
  obtains r where "ppc_stats_new m w = Some (r, m', w')" "r \<noteq> 0"
proof -
  let ?r = "\<Sum>i \<leftarrow> [pm_index PM_MINFLT..<PM_COUNT]. if m' ! i \<noteq> NULL then (2::int) ^ i else 0"
  have "2 \<in> set [pm_index PM_MINFLT..<PM_COUNT]" by (simp only: set_upt) (simp add: PM_COUNT_def)
  from some_made [of 2 "[pm_index PM_MINFLT..<PM_COUNT]" m', OF this assms(2)] have "?r \<noteq> 0" by linarith
  moreover have "ppc_stats_new m w = Some (?r, m', w')" using assms(1) unfolding ppc_stats_new_def Let_def by (simp only: bind.simps case_prod_conv)
  ultimately show thesis by (rule that [rotated])
qed

lemma ppc_metrics_ok:
  fixes w :: "'z cworld"
  assumes c: "collector_at w self c ms" "owned ms = {}" "map_count ms = 0" "lookup_map w ms = Map.empty"
    and m: "mem_ok w" "oom w = []" and d: "pm d = replicate PM_COUNT NULL" and old: "self < brk w"
  shows "\<exists>gs w' ms'. ppc_metrics self data d [] w = Some (self, w') \<and> extends w w' \<and>
    collector_at w' self (c\<lparr>cmetrics := Some ms', collect := Ppc_Collect\<rparr>) ms' \<and>
    collectors w' = (collectors w)(self \<mapsto> c\<lparr>cmetrics := Some ms', collect := Ppc_Collect\<rparr>) \<and>
    beyond w' = beyond (put_data data (d\<lparr>pm := gs\<rparr>) w) \<and> list_all2 (made (brk w) w') ppc_kinds gs \<and>
    lookup_map w' ms' = map_of (zip ppc_names gs) \<and> owned ms' \<subseteq> {brk w..}"
proof -
  obtain g1 w1 where 1: "prom_gauge_new ''process_max_fds'' (Some ''Max. number of open file descriptors (soft limit)'') 0 [] w = Some (g1, w1)"
    "extends w w1" "made (brk w) w1 (''process_max_fds'', PROM_GAUGE) g1" "mmem.more w1 = mmem.more w"
    unfolding prom_gauge_new_def
    by (rule plain_new_made [OF _ m, of "''process_max_fds''" "''Max. number of open file descriptors (soft limit)''" PROM_GAUGE]) simp_all
  obtain g0 w2 where 2: "prom_gauge_new ''process_open_fds'' (Some ''Number of open file descriptors'') 0 [] w1 = Some (g0, w2)"
    "extends w1 w2" "made (brk w1) w2 (''process_open_fds'', PROM_GAUGE) g0" "mmem.more w2 = mmem.more w1"
    unfolding prom_gauge_new_def
    by (rule plain_new_made [OF _ extendsD(1,2) [OF 1(2)], of "''process_open_fds''" "''Number of open file descriptors''" PROM_GAUGE]) simp_all
  let ?m0 = "[g0, g1] @ replicate 15 NULL"
  obtain gs w3 where 3: "new_stats stats_metrics ?m0 w2 = Some (foldl (\<lambda>m (t, g). m[pm_index (fst t) := g]) ?m0 (zip stats_metrics gs), w3)"
    "extends w2 w3" "mmem.more w3 = mmem.more w2" "list_all2 (\<lambda>t g. made (brk w2) w3 (kind_of t) g) stats_metrics gs"
    using new_stats_ok [OF stats_short extendsD(1,2) [OF 2(2)]] by blast
  have len: "length gs = 15" using list_all2_lengthD [OF 3(4)] by (simp add: stats_metrics_def)
  let ?gs = "g0 # g1 # gs"
  have s: "new_stats stats_metrics ?m0 w2 = Some (?gs, w3)" using 3(1) stats_indices [OF len] by simp
  have "?gs ! 2 = gs ! 0" "gs \<noteq> []" using len by auto
  moreover have "gs ! 0 \<noteq> NULL" using 3(4) by (cases gs) (auto simp: stats_metrics_def made_def)
  ultimately obtain r where st: "ppc_stats_new ?m0 w2 = Some (r, ?gs, w3)" "r \<noteq> 0" using ppc_stats_new_ok [OF s] by metis
  have m17: "(replicate PM_COUNT NULL)[pm_index PM_MAX_FDS := g1, pm_index PM_OPEN_FDS := g0] = ?m0"
    by (simp add: PM_COUNT_def eval_nat_numeral)
  have e: "extends w w3" using extends_trans [OF extends_trans [OF 1(2) 2(2)] 3(2)] .
  have b: "brk w \<le> brk w1" "brk w \<le> brk w2" using extendsD(3) [OF 1(2)] extendsD(3) [OF 2(2)] by simp_all
  have mg: "list_all2 (\<lambda>t g. made (brk w) w3 (kind_of t) g) stats_metrics gs"
    using made_before [OF _ b(2)] by (intro list.rel_mono_strong [OF 3(4)]) blast
  have all: "list_all2 (made (brk w) w3) ppc_kinds ?gs"
    using mg made_later [OF made_later [OF 1(3) 2(2)] 3(2)] made_before [OF made_later [OF 2(3) 3(2)] b(1)]
    by (simp add: ppc_kinds_def list.rel_map)
  have nn: "\<forall>x \<in> set ?gs. metrics w3 x \<noteq> None \<and> x \<noteq> NULL \<and> x < brk w3"
  proof -
    have "\<exists>n. made (brk w) w3 n x" if "x \<in> set ?gs" for x
      using all that by (metis in_set_conv_nth list_all2_conv_all_nth)
    then show ?thesis by (fastforce simp: made_def)
  qed
  have names: "map (name_at w3) ?gs = ppc_names"
    using made_names [OF all] by (simp add: ppc_names_def)
  define w4 where "w4 = put_data data (d\<lparr>pm := ?gs\<rparr>) w3"
  have more: "beyond w3 = beyond w" "collectors w3 = collectors w" using beyond_more [of w3 w] 1(4) 2(4) 3(3) by simp_all
  have same: "same_on (owned ms) w w4" by (simp add: c(2) same_on_def)
  have c4: "collector_at w4 self c ms"
    using c(1) map_ok_cong [OF _ same] lookup_map_cong [OF same] more(2) by (simp add: collector_at_def w4_def)
  have m4: "mem_ok w4" "oom w4 = []" using extendsD(1,2) [OF e] by (simp_all add: w4_def)
  have l4: "lookup_map w4 ms = Map.empty" using lookup_map_cong [OF same] c(4) by simp
  have n4: "name_at w4 = name_at w3" by (simp add: w4_def name_at_def fun_eq_iff)
  have "\<forall>x \<in> set ?gs. metrics w4 x \<noteq> None \<and> x \<noteq> NULL" using nn by (simp add: w4_def)
  moreover have "map_count ms + length ?gs \<le> map_limit" using len c(3) by (simp add: map_limit_def)
  moreover have "distinct (map (name_at w4) ?gs)" unfolding n4 names by (rule ppc_names_distinct)
  moreover have "\<forall>x \<in> set ?gs. lookup_map w4 ms (name_at w4 x) = None" by (simp add: l4)
  ultimately obtain w5 ms' where 5: "add_metrics self ?gs w4 = Some w5" "collector_at w5 self (c\<lparr>cmetrics := Some ms'\<rparr>) ms'"
    "map_frame ms w4 ms' w5" "objects w5 = objects w4" "beyond w5 = beyond w4"
    "collectors w5 = (collectors w4)(self \<mapsto> c\<lparr>cmetrics := Some ms'\<rparr>)"
    "lookup_map w5 ms' = lookup_map w4 ms ++ map_of (zip (map (name_at w4) ?gs) ?gs)"
    using collector_add_all [OF c4 m4, of ?gs] by blast
  let ?c = "c\<lparr>cmetrics := Some ms', collect := Ppc_Collect\<rparr>"
  define w6 where "w6 = put_collector self ?c w5"
  have "prom_collector_set_collect_fn self Ppc_Collect w5 = Some (0, w6)"
    using 5(2) by (simp add: prom_collector_set_collect_fn_def collector_at_def w6_def)
  then have run: "ppc_metrics self data d [] w = Some (self, w6)"
    using 1(1,3) 2(1,3) st 5(1) d m17 unfolding w4_def
    by (simp add: ppc_metrics_def ppc_limits_new_def ppc_fds_new_def made_def del: add_metrics.simps)
  have e46: "extends w4 w6"
    using extends_frame [OF 5(3) c(2) 5(4)] by (simp add: extends_def w6_def)
  have e34: "extends w3 w4" using extendsD(1,2) [OF e] by (simp add: extends_def w4_def)
  have e6: "extends w w6" using extends_trans [OF e extends_trans [OF e34 e46]] .
  have "collector_at w6 self ?c ms'" using 5(2) by (simp add: collector_at_def w6_def)
  moreover have "collectors w6 = (collectors w)(self \<mapsto> ?c)" using 5(6) more(2) by (simp add: w6_def w4_def)
  moreover have "beyond w6 = beyond (put_data data (d\<lparr>pm := ?gs\<rparr>) w)" using 5(5) beyond_data [OF more(1)] by (simp add: w6_def w4_def)
  moreover have "list_all2 (made (brk w) w6) ppc_kinds ?gs"
    using made_later [OF _ extends_trans [OF e34 e46]] by (intro list.rel_mono_strong [OF all]) blast
  moreover have "lookup_map w5 ms' = map_of (zip ppc_names ?gs)" using 5(7) unfolding l4 n4 names by (simp only: empty_map_add)
  then have "lookup_map w6 ms' = map_of (zip ppc_names ?gs)" by (simp add: w6_def)
  moreover have "owned ms' \<subseteq> {brk w..}" using map_frameD(5) [OF 5(3)] c(2) extendsD(3) [OF e] by (fastforce simp: w4_def)
  ultimately show ?thesis using run e6 by blast
qed

definition stat_path :: "os \<Rightarrow> string" where
  "stat_path env = ''/proc/'' @ dec_int (os_pid env) @ ''/stat''"

definition fd_path :: "os \<Rightarrow> string" where
  "fd_path env = ''/proc/'' @ dec_int (os_pid env) @ ''/fd''"

text \<open>The process collector at \<open>self\<close> with its 17 metrics \<open>gs\<close>, made since \<open>b\<close>.\<close>

definition process_collector :: "os \<Rightarrow> 'z cworld \<Rightarrow> addr \<Rightarrow> addr \<Rightarrow> addr list \<Rightarrow> bool" where
  "process_collector env w b self gs \<longleftrightarrow> (\<exists>c ms dir. collector_at w self c ms \<and> collect c = Ppc_Collect \<and> cdata c \<noteq> NULL \<and>
     ppcs w (cdata c) = Some \<lparr>label_vals = [], fds = [-2, os_open env (stat_path env)], fd_dir = dir, pid = os_pid env, pm = gs\<rparr> \<and>
     dir \<noteq> NULL \<and> b \<le> dir \<and> dir < brk w \<and> strs w dir = Some (fd_path env) \<and> dir \<notin> owned ms \<and> list_all2 (made b w) ppc_kinds gs \<and>
     lookup_map w ms = map_of (zip ppc_names gs) \<and> owned ms \<subseteq> {b..})"

lemma ppc_new_ok:
  fixes w :: "'z cworld"
  assumes m: "mem_ok w" "oom w = []" and st: "os_open env (stat_path env) \<noteq> -1"
  obtains c gs w' where "ppc_new env None None 0 [] [] w = Some (brk w, w')" "extends w w'" "brk w < brk w'"
    "collectors w' = (collectors w)(brk w \<mapsto> c)" "cmem.more w' = cmem.more w" "process_collector env w' (brk w) (brk w) gs"
proof -
  let ?self = "brk w"
  obtain c0 ms0 w1 M where 1: "prom_collector_new ''process'' w = Some (?self, put_collector ?self c0 w1)" "stores w M w1"
    "fresh_collector c0 ms0 w1" "?self < brk w1"
    by (rule collector_new_ok [OF m])
  have nz: "(?self = NULL) = False" using mem_ok_brk_pos [OF m(1)] by simp
  have m1: "mem_ok w1" "oom w1 = []" using storesD(1,2) [OF 1(2)] by simp_all
  have e1: "extends w w1" by (rule stores_extends [OF 1(2)])
  define data where "data = brk w1"
  have dz: "(data = NULL) = False" using mem_ok_brk_pos [OF m1(1)] by (simp add: data_def)
  define c1 where "c1 = c0\<lparr>cdata := data, free_data := Ppc_Free_Data\<rparr>"
  define w2 where "w2 = put_collector ?self c1 (w1\<lparr>brk := Suc (brk w1)\<rparr>)"
  have m2: "mem_ok w2" "oom w2 = []" using m1 by (simp_all add: w2_def mem_ok_brk)
  define dir where "dir = brk w2"
  define w3 where "w3 = w2\<lparr>brk := Suc (brk w2), strs := (strs w2)(dir \<mapsto> fd_path env)\<rparr>"
  have sd: "strdup (fd_path env) w2 = (dir, w3)" "stores w2 [dir \<mapsto> fd_path env] w3"
    using stores_strdup [OF m2, of "fd_path env"] by (simp_all add: dir_def w3_def)
  have m3: "mem_ok w3" "oom w3 = []" using storesD(1,2) [OF sd(2)] by simp_all
  let ?d = "\<lparr>label_vals = [], fds = [-2, os_open env (stat_path env)], fd_dir = dir, pid = os_pid env, pm = replicate PM_COUNT NULL\<rparr>"
  define w4 where "w4 = put_data data ?d w3"
  have f: "cmetrics c0 = Some ms0" "keys_ok ms0" "map_count ms0 = 0" "owned ms0 = {}" "map_ok ms0 w1" "lookup_map w1 ms0 = Map.empty"
    using 1(3) by (simp_all add: fresh_collector_def)
  have same: "same_on (owned ms0) w1 w4" by (simp add: f(4) same_on_def)
  have cs4: "collectors w4 = (collectors w)(?self \<mapsto> c1)"
    using more_cw [OF stores_more [OF sd(2)]] more_cw [OF stores_more [OF 1(2)]] by (simp add: w4_def w2_def)
  have at: "collector_at w4 ?self c1 ms0"
    using nz f map_ok_cong [OF f(5) same] lookup_map_cong [OF same] cs4 by (simp add: collector_at_def c1_def)
  have l4: "lookup_map w4 ms0 = Map.empty" using lookup_map_cong [OF same] f(6) by simp
  have m4: "mem_ok w4" "oom w4 = []" using m3 by (simp_all add: w4_def)
  have b4: "?self < brk w4" using 1(4) by (simp add: w4_def w3_def w2_def)
  obtain gs w' ms' where 5: "ppc_metrics ?self data ?d [] w4 = Some (?self, w')" "extends w4 w'"
    "collector_at w' ?self (c1\<lparr>cmetrics := Some ms', collect := Ppc_Collect\<rparr>) ms'"
    "collectors w' = (collectors w4)(?self \<mapsto> c1\<lparr>cmetrics := Some ms', collect := Ppc_Collect\<rparr>)"
    "beyond w' = beyond (put_data data (?d\<lparr>pm := gs\<rparr>) w4)" "list_all2 (made (brk w4) w') ppc_kinds gs"
    "lookup_map w' ms' = map_of (zip ppc_names gs)" "owned ms' \<subseteq> {brk w4..}"
    using ppc_metrics_ok [OF at f(4,3) l4 m4 _ b4, of ?d data] by auto
  have run: "ppc_new env None None 0 [] [] w = Some (?self, w')"
    using 1(1) nz dz m1 5(1) sd(1) st
    by (simp add: ppc_new_def malloc_ok prom_collector_data_set_def put_collector_def w2_def w4_def data_def c1_def stat_path_def fd_path_def)
  let ?c = "c1\<lparr>cmetrics := Some ms', collect := Ppc_Collect\<rparr>"
  have e4: "extends w1 w4" using storesD(1-3) [OF sd(2)] frame_stores [OF sd(2), of "{}"] more_metrics [OF stores_more [OF sd(2)]] m4
    by (auto simp: extends_def w4_def w3_def w2_def dir_def)
  have e: "extends w w'" using extends_trans [OF e1 extends_trans [OF e4 5(2)]] .
  have old: "brk w \<le> brk w4" using extendsD(3) [OF e1] extendsD(3) [OF e4] by simp
  have cs: "collectors w' = (collectors w)(?self \<mapsto> ?c)" using 5(4) cs4 by simp
  have up: "cmem.more w' = cmem.more w"
    using 5(5) more_cw [OF stores_more [OF sd(2)]] more_cw [OF stores_more [OF 1(2)]]
    by (simp add: beyond_def put_data_def w4_def w2_def put_collector_def)
  have pp: "ppcs w' data = Some \<lparr>label_vals = [], fds = [-2, os_open env (stat_path env)], fd_dir = dir, pid = os_pid env, pm = gs\<rparr>"
    using 5(5) by (simp add: beyond_def put_data_def)
  have dir: "dir < brk w4" "dir \<noteq> NULL" using mem_ok_brk_pos [OF m2(1)] by (simp_all add: w4_def w3_def dir_def)
  have dir2: "?self \<le> dir" "dir < brk w'" using 1(4) extendsD(3) [OF 5(2)] dir(1) by (simp_all add: w2_def dir_def)
  have sdir: "strs w' dir = Some (fd_path env)" using extendsD(4) [OF 5(2)] dir(1) by (simp add: same_on_def w4_def w3_def)
  have nd: "dir \<notin> owned ms'" using 5(8) dir(1) by auto
  have all: "list_all2 (made (brk w) w') ppc_kinds gs"
    using made_before [OF _ old] by (intro list.rel_mono_strong [OF 5(6)]) blast
  have own: "owned ms' \<subseteq> {brk w..}" using 5(8) old by auto
  have pc: "process_collector env w' ?self ?self gs" unfolding process_collector_def
    by (rule exI [of _ ?c], rule exI [of _ ms'], rule exI [of _ dir])
      (use 5(3,7) pp dir(2) dir2 sdir nd all own dz in \<open>simp add: c1_def\<close>)
  have "brk w < brk w'" using b4 extendsD(3) [OF 5(2)] by simp
  then show thesis by (rule that [OF run e _ cs up pc])
qed

section \<open>The features of the default registry\<close>

lemma put_registry_samples: "samples (put_registry self p w) = samples w"
  by (simp add: put_registry_def)

lemma process_collector_cong:
  fixes w w' :: "'z cworld"
  assumes "process_collector env w b x gs" "mem_ok w" "brk w \<le> brk w'" "\<forall>a. b \<le> a \<and> a < brk w \<longrightarrow> strs w' a = strs w a \<and> metrics w' a = metrics w a"
    "collectors w' x = collectors w x" "ppcs w' = ppcs w" "mem_ok w'" "oom w' = []"
  shows "process_collector env w' b x gs"
proof -
  obtain c ms dir where 1: "collector_at w x c ms" "collect c = Ppc_Collect" "cdata c \<noteq> NULL"
    "ppcs w (cdata c) = Some \<lparr>label_vals = [], fds = [-2, os_open env (stat_path env)], fd_dir = dir, pid = os_pid env, pm = gs\<rparr>"
    "dir \<noteq> NULL" "b \<le> dir" "dir < brk w" "strs w dir = Some (fd_path env)" "dir \<notin> owned ms" "list_all2 (made b w) ppc_kinds gs"
    "lookup_map w ms = map_of (zip ppc_names gs)" "owned ms \<subseteq> {b..}"
    using assms(1) unfolding process_collector_def by blast
  have ok: "map_ok ms w" using 1(1) by (simp add: collector_at_def)
  have s: "same_on (owned ms) w w'" using owned_old [OF ok assms(2)] 1(12) assms(4) by (auto simp: same_on_def)
  have m: "list_all2 (made b w') ppc_kinds gs"
    using assms(3,4,7,8) made_keeps [of b w _ _ w'] by (intro list.rel_mono_strong [OF 1(10)]) (auto simp: made_def)
  have at: "collector_at w' x c ms" using 1(1) map_ok_cong [OF ok s] lookup_map_cong [OF s] assms(5) by (simp add: collector_at_def)
  have l: "lookup_map w' ms = map_of (zip ppc_names gs)" using 1(11) lookup_map_cong [OF s] by simp
  have d: "dir < brk w'" "strs w' dir = Some (fd_path env)" using 1(6-8) assms(3,4) by auto
  have p: "ppcs w' (cdata c) = Some \<lparr>label_vals = [], fds = [-2, os_open env (stat_path env)], fd_dir = dir, pid = os_pid env, pm = gs\<rparr>"
    using 1(4) assms(6) by simp
  show ?thesis unfolding process_collector_def using at l d p m 1(2,3,5,6,9,12) by blast
qed

lemma process_collector_before: "process_collector env w b x gs \<Longrightarrow> c \<le> b \<Longrightarrow> process_collector env w c x gs"
proof -
  assume p: "process_collector env w b x gs" and c: "c \<le> b"
  have "list_all2 (made c w) ppc_kinds gs" if "list_all2 (made b w) ppc_kinds gs"
    using made_before [OF _ c] by (intro list.rel_mono_strong [OF that]) blast
  moreover have "c \<le> a" if "b \<le> a" for a using that c by simp
  ultimately show ?thesis using p unfolding process_collector_def by (meson atLeast_subset_iff c order_trans)
qed

text \<open>A registry with its map of collectors, and a step that leaves everything but that map in place.\<close>

definition registry_at :: "'z rworld \<Rightarrow> addr \<Rightarrow> pcr \<Rightarrow> pmap \<Rightarrow> bool" where
  "registry_at w self p cs \<longleftrightarrow> self \<noteq> NULL \<and> registries w self = Some p \<and> rcollectors p = Some cs \<and> map_ok cs w \<and> keys_ok cs \<and>
     mem_ok w \<and> oom w = []"

lemma more_registry: "cmem.more w' = cmem.more w \<Longrightarrow> registries w' = registries w \<and> PROM_COLLECTOR_REGISTRY w' = PROM_COLLECTOR_REGISTRY w"
  for w w' :: "'z rworld"
  by (cases w; cases w') simp

lemma more_data: "mem.more w' = mem.more w \<Longrightarrow> metrics w' = metrics w \<and> collectors w' = collectors w \<and> ppcs w' = ppcs w"
  for w w' :: "'z cworld"
  by (cases w; cases w') simp

lemma map_frame_extends:
  fixes w w' :: "'z mworld"
  assumes "extends w w'" "map_frame m w' m' w''" "owned m \<subseteq> {..<brk w}"
  shows "map_frame m w m' w''"
  using extendsD(3,4) [OF assms(1)] map_frameD [OF assms(2)] assms(3) unfolding map_frame_def
  by (auto simp: same_on_def less_le_trans) (meson le_trans)

lemma enable_process_ok:
  fixes w :: "'z rworld"
  assumes r: "registry_at w self p cs" and none: "lookup_map w cs ''process'' = None" and lim: "map_count cs < map_limit"
    and st: "os_open env (stat_path env) \<noteq> -1"
  obtains x c gs cs' w' where "pcr_enable_process_metrics env self w = Some (0, w')"
    "registry_at w' self (p\<lparr>rcollectors := Some cs', features := or (features p) PROM_PROCESS\<rparr>) cs'"
    "lookup_map w' cs' = (lookup_map w cs)(''process'' \<mapsto> x)" "map_count cs' = map_count cs + 1" "map_frame cs w cs' w'"
    "collectors w' = (collectors w)(x \<mapsto> c)" "brk w \<le> x" "process_collector env w' (brk w) x gs"
    "PROM_COLLECTOR_REGISTRY w' = PROM_COLLECTOR_REGISTRY w" "\<forall>a < brk w. metrics w' a = metrics w a"
proof -
  have a: "self \<noteq> NULL" "registries w self = Some p" "rcollectors p = Some cs" "map_ok cs w" "keys_ok cs" "mem_ok w" "oom w = []"
    using r by (simp_all add: registry_at_def)
  define w1 where "w1 = w\<lparr>brk := Suc (Suc (brk w))\<rparr>"
  note g = get_skip [OF a(4,6,7), folded w1_def]
  have w1: "oom w1 = []" "brk w1 = Suc (Suc (brk w))" "collectors w1 = collectors w" "metrics w1 = metrics w" "strs w1 = strs w"
    using a(7) by (simp_all add: w1_def)
  obtain c gs w2 where 2: "ppc_new env None None 0 [] [] w1 = Some (brk w1, w2)" "extends w1 w2" "brk w1 < brk w2"
    "collectors w2 = (collectors w1)(brk w1 \<mapsto> c)" "cmem.more w2 = cmem.more w1" "process_collector env w2 (brk w1) (brk w1) gs"
    by (rule ppc_new_ok [OF g(2) w1(1) st])
  define x where "x = brk w1"
  have x: "x \<noteq> NULL" "brk w \<le> x" using w1(2) by (simp_all add: x_def)
  have m2: "mem_ok w2" "oom w2 = []" using extendsD(1,2) [OF 2(2)] by simp_all
  note k2 = extends_map [OF 2(2) g(3,2)]
  have own: "owned cs \<subseteq> {..<brk w1}" using owned_old [OF g(3,2)] by blast
  then have own2: "a \<notin> owned cs" if "brk w1 \<le> a" for a using that by (meson lessThan_iff not_le subsetD)
  have l2: "lookup_map w2 cs ''process'' = None" using k2(2) g(4) none by simp
  obtain cs' w3 where 3: "prom_map_set run_registry cs ''process'' x w2 = Some (0, cs', w3)" "map_ok cs' w3"
    "lookup_map w3 cs' = (lookup_map w2 cs)(''process'' \<mapsto> x)" "map_frame cs w2 cs' w3"
    "map_count cs' = map_count cs + 1" "mem.more w3 = mem.more w2" "keys_ok cs \<longrightarrow> keys_ok cs'"
    by (rule put_fresh [OF k2(1) m2 lim l2])
  note c3 = more_collectors [OF 3(6)]
  have reg: "registries w3 = registries w" "PROM_COLLECTOR_REGISTRY w3 = PROM_COLLECTOR_REGISTRY w"
    using c3(2,3) more_registry [OF 2(5)] by (simp_all add: w1_def)
  define q where "q = p\<lparr>rcollectors := Some cs', features := or (features p) PROM_PROCESS\<rparr>"
  define w4 where "w4 = put_registry self q w3"
  have run: "pcr_enable_process_metrics env self w = Some (0, w4)"
    using a(1-3) g(1) none 2(1) 3(1) x(1) reg(1)
    by (simp add: pcr_enable_process_metrics_def collectors_of_def put_collectors_def enable_def q_def w4_def x_def put_registry_def)
  have f1: "map_frame cs w cs w1" using a(7) g(2) by (simp add: map_frame_def w1_def)
  have fr: "map_frame cs w cs' w3" by (rule map_frame_trans [OF f1 map_frame_extends [OF 2(2) 3(4) own]])
  have m3: "metrics w3 = metrics w2" "collectors w3 = collectors w2" "ppcs w3 = ppcs w2"
    using more_data [OF 3(6)] by simp_all
  have "process_collector env w4 x x gs"
  proof (rule process_collector_cong [OF 2(6) [folded x_def] m2(1)])
    show "brk w2 \<le> brk w4" using map_frameD(3) [OF 3(4)] by (simp add: w4_def)
    show "\<forall>a. x \<le> a \<and> a < brk w2 \<longrightarrow> strs w4 a = strs w2 a \<and> metrics w4 a = metrics w2 a"
      using map_frameD(6) [OF 3(4)] own2 m3(1) by (simp add: w4_def x_def)
  qed (use m3 map_frameD(1,2) [OF fr] in \<open>simp_all add: w4_def, simp add: put_registry_def\<close>)
  then have pc: "process_collector env w4 (brk w) x gs"
    using x(2) by (rule process_collector_before)
  have "registry_at w4 self q cs'"
    using a(1,5) 3(2,7) map_frameD(1,2) [OF fr] by (simp add: registry_at_def w4_def q_def)
  moreover have "lookup_map w4 cs' = (lookup_map w cs)(''process'' \<mapsto> x)" using 3(3) k2(2) g(4) by (simp add: w4_def)
  moreover have "map_frame cs w cs' w4" using fr by (simp add: map_frame_def w4_def)
  moreover have "collectors w4 = (collectors w)(x \<mapsto> c)" using m3(2) 2(4) w1(3) by (simp add: w4_def x_def)
  moreover have "\<forall>a < brk w. metrics w4 a = metrics w a" using m3(1) extendsD(5) [OF 2(2)] w1(2,4) by (simp add: w4_def)
  moreover have "PROM_COLLECTOR_REGISTRY w4 = PROM_COLLECTOR_REGISTRY w" using reg(2) by (simp add: w4_def)
  ultimately show thesis using run 3(5) x(2) pc unfolding q_def by (intro that)
qed

text \<open>The gauge of the scrape times, made since \<open>b\<close> and never set.\<close>

definition scrape_made :: "addr \<Rightarrow> 'z mworld \<Rightarrow> addr \<Rightarrow> bool" where
  "scrape_made b w g \<longleftrightarrow> g \<noteq> NULL \<and> b \<le> g \<and> g < brk w \<and> (\<exists>m. metrics w g = Some m \<and> mname m = ''scrape_duration_seconds'' \<and>
     mtype m = PROM_GAUGE \<and> metric_wf g w m [''collector''] \<and> map_count (msamples m) = 0 \<and> set (label_keys m) \<subseteq> {b..} \<and> short m)"

lemma scrape_made_later:
  fixes w w' :: "'z mworld"
  assumes "scrape_made b w g" "extends w w'" "c \<le> b" shows "scrape_made c w' g"
proof -
  obtain m where m: "g \<noteq> NULL" "b \<le> g" "g < brk w" "metrics w g = Some m" "mname m = ''scrape_duration_seconds''" "mtype m = PROM_GAUGE"
    "metric_wf g w m [''collector'']" "map_count (msamples m) = 0" "set (label_keys m) \<subseteq> {b..}" "short m"
    using assms(1) by (auto simp: scrape_made_def)
  have "same_parts m w w'"
    using metric_wf_old(1-4) [OF m(7)] extendsD(1-4) [OF assms(2)] assms(2)
    by (auto simp: same_parts_def same_on_def extends_def)
  moreover have "metrics w' g = metrics w g" using extendsD(5) [OF assms(2) m(3)] .
  ultimately have "metric_wf g w' m [''collector'']" using same_parts_keep(1) [OF _ m(7)] by blast
  moreover have "c \<le> g" "g < brk w'" "set (label_keys m) \<subseteq> {c..}" using m(2,3,9) assms(3) extendsD(3) [OF assms(2)] by auto
  ultimately show ?thesis using m(1,4-6,8,10) extendsD(5) [OF assms(2) m(3)] by (auto simp: scrape_made_def)
qed

lemma enable_scrape_ok:
  fixes w :: "'z rworld"
  assumes r: "registry_at w self p cs"
  obtains g w' where "pcr_enable_scrape_metrics self w =
      Some (0, put_registry self (p\<lparr>scrape_duration := g, features := or (features p) PROM_SCRAPETIME\<rparr>) w')"
    "extends w w'" "mmem.more w' = mmem.more w" "scrape_made (brk w) w' g"
proof -
  have a: "self \<noteq> NULL" "registries w self = Some p" "mem_ok w" "oom w = []" using r by (simp_all add: registry_at_def)
  have k: "list_all (\<lambda>k. \<not> reserved k) [''collector'']" by (simp add: reserved_def)
  obtain g m w1 where 1: "prom_metric_new PROM_GAUGE ''scrape_duration_seconds'' (Some ''Duration of a collector scrape'')
      (length [''collector'']) (map Some [''collector'']) w = Some (g, w1)" "extends w w1" "metrics w1 g = Some m"
      "mname m = ''scrape_duration_seconds''" "g \<noteq> NULL" "brk w \<le> g" "mmem.more w1 = mmem.more w" "g < brk w1"
      "mtype m = PROM_GAUGE" "metric_wf g w1 m [''collector'']" "map_count (msamples m) = 0" "set (label_keys m) \<inter> {..<brk w} = {}"
    "mhelp m = Some ''Duration of a collector scrape''"
    by (rule metric_new_extends [OF k a(3,4)])
  have "cmem.more w1 = cmem.more w" using 1(7) by (cases w; cases w1) simp
  then have "registries w1 self = Some p" using more_registry [of w1 w] a(2) by simp
  then have "pcr_enable_scrape_metrics self w =
      Some (0, put_registry self (p\<lparr>scrape_duration := g, features := or (features p) PROM_SCRAPETIME\<rparr>) w1)"
    using a(1) 1(1,5) by (simp add: pcr_enable_scrape_metrics_def prom_gauge_new_def enable_def put_registry_def)
  moreover have "set (label_keys m) \<subseteq> {brk w..}" using 1(12) by (auto simp: not_less [symmetric])
  then have "scrape_made (brk w) w1 g" using 1(3-6,8-11,13) by (auto simp: scrape_made_def short_def)
  ultimately show thesis using 1(2,7) by (intro that)
qed

lemma fresh_anywhere: "fresh_collector c ms w \<Longrightarrow> fresh_collector c ms w'" for w w' :: "'z mem_scheme"
proof -
  assume f: "fresh_collector c ms w"
  then have s: "same_on (owned ms) w w'" by (simp add: fresh_collector_def same_on_def)
  show ?thesis using f map_ok_cong [OF _ s] lookup_map_cong [OF s] by (simp add: fresh_collector_def)
qed

lemma default_features:
  "has (or PROM_PROCESS PROM_SCRAPETIME) PROM_PROCESS" "has (or PROM_PROCESS PROM_SCRAPETIME) PROM_SCRAPETIME"
  "\<not> has (or PROM_PROCESS PROM_SCRAPETIME) PROM_SCRAPETIME_ALL" "\<not> has (or PROM_PROCESS PROM_SCRAPETIME) PROM_COMPACT"
  by (simp_all add: has_def feature_defs)

text \<open>The default registry: the empty default collector and the process collector at \<open>x\<close>.\<close>

definition default_registry :: "os \<Rightarrow> 'z rworld \<Rightarrow> addr \<Rightarrow> addr \<Rightarrow> pcr \<Rightarrow> pmap \<Rightarrow> addr \<Rightarrow> collector \<Rightarrow> pmap \<Rightarrow> bool" where
  "default_registry env w b self p cs d c ms \<longleftrightarrow> registry_wf w self p cs d c ms \<and> fresh_collector c ms w \<and> keys_ok cs \<and> map_count cs = 2 \<and>
     (\<exists>x gs. lookup_map w cs = [''default'' \<mapsto> d, ''process'' \<mapsto> x] \<and> process_collector env w b x gs \<and> scrape_duration p \<notin> set gs) \<and>
     load_opt (mprefix p) w = Some (Some ''libprom_'') \<and> scrape_made b w (scrape_duration p) \<and>
     features p = or PROM_PROCESS PROM_SCRAPETIME \<and> (\<exists>f. metric_formatter p = Some f \<and> idle f)"

lemma metric_wf_put: "metric_wf g (put_registry self p w) m ks = metric_wf g w m ks"
  by (simp add: metric_wf_def sample_slots_def put_registry_samples)

lemma process_members: "process_collector env w b x gs \<Longrightarrow> g \<in> set gs \<Longrightarrow> b \<le> g \<and> g < brk w"
  by (auto simp: process_collector_def list_all2_conv_all_nth in_set_conv_nth made_def)

lemma put_twice: "put_registry self a (put_registry self b v) = put_registry self a v"
  by (simp add: put_registry_def)

lemma pcr_default_init_ok:
  fixes w :: "'z rworld"
  assumes m: "mem_ok w" "oom w = []" and none: "PROM_COLLECTOR_REGISTRY w = NULL" and st: "os_open env (stat_path env) \<noteq> -1"
  obtains self p cs d c ms w' where "pcr_default_init env w = Some (0, w')" "default_registry env w' (brk w) self p cs d c ms"
    "brk w \<le> brk w'"
proof -
  define self where "self = brk w"
  have nz: "self \<noteq> NULL" using mem_ok_brk_pos [OF m(1)] by (simp add: self_def)
  obtain p cs d c ms w1 where 1: "pcr_new ''default'' w = Some (self, put_registry self p w1)" "new_registry p cs d c ms w1"
    "mem_ok w1" "oom w1 = []" "self < brk w1" "same_on {..<self} w w1" "d < brk w1"
    unfolding self_def by (rule pcr_new_ok [OF m])
  have n: "rcollectors p = Some cs" "map_ok cs w1" "keys_ok cs" "lookup_map w1 cs = [''default'' \<mapsto> d]" "map_count cs = 1" "d \<noteq> NULL"
    "collectors w1 d = Some c" "fresh_collector c ms w1" "features p = 0" "\<exists>f. metric_formatter p = Some f \<and> idle f"
    using 1(2) by (simp_all add: new_registry_def)
  define w2 where "w2 = (put_registry self p w1)\<lparr>PROM_COLLECTOR_REGISTRY := self\<rparr>"
  have w2: "strs w2 = strs w1" "brk w2 = brk w1" "collectors w2 = collectors w1" "PROM_COLLECTOR_REGISTRY w2 = self"
    by (simp_all add: w2_def)
  have at: "registry_at w2 self p cs" using nz n 1(3,4) map_ok_strs [OF w2(1)] by (simp add: registry_at_def w2_def mem_ok_def)
  have l: "lookup_map w2 cs = [''default'' \<mapsto> d]" using n(4) lookup_strs [OF w2(1)] by simp
  have lim: "map_count cs < map_limit" "lookup_map w2 cs ''process'' = None" using n(5) l by (simp_all add: map_limit_def)
  obtain x pc gs cs' w3 where 3: "pcr_enable_process_metrics env self w2 = Some (0, w3)"
    "registry_at w3 self (p\<lparr>rcollectors := Some cs', features := or (features p) PROM_PROCESS\<rparr>) cs'"
    "lookup_map w3 cs' = (lookup_map w2 cs)(''process'' \<mapsto> x)" "map_count cs' = map_count cs + 1" "map_frame cs w2 cs' w3"
    "collectors w3 = (collectors w2)(x \<mapsto> pc)" "brk w2 \<le> x" "process_collector env w3 (brk w2) x gs"
    "PROM_COLLECTOR_REGISTRY w3 = PROM_COLLECTOR_REGISTRY w2" "\<forall>a < brk w2. metrics w3 a = metrics w2 a"
    by (rule enable_process_ok [OF at lim(2,1) st])
  obtain g w4 where 4: "pcr_enable_scrape_metrics self w3 = Some (0, put_registry self
      (p\<lparr>rcollectors := Some cs', scrape_duration := g, features := or PROM_PROCESS PROM_SCRAPETIME\<rparr>) w4)"
    "extends w3 w4" "mmem.more w4 = mmem.more w3" "scrape_made (brk w3) w4 g"
    using enable_scrape_ok [OF 3(2)] by (simp add: n(9)) blast
  let ?q = "p\<lparr>rcollectors := Some cs', scrape_duration := g, features := or PROM_PROCESS PROM_SCRAPETIME\<rparr>"
  have m4: "mem_ok w4" "oom w4 = []" using extendsD(1,2) [OF 4(2)] by simp_all
  define w5 where "w5 = w4\<lparr>brk := Suc (brk w4), strs := (strs w4)(brk w4 \<mapsto> ''libprom_'')\<rparr>"
  have sd: "strdup ''libprom_'' (put_registry self ?q w4) = (brk w4, put_registry self ?q w5)" "stores w4 [brk w4 \<mapsto> ''libprom_''] w5"
  proof -
    have "mem_ok (put_registry self ?q w4)" "oom (put_registry self ?q w4) = []" using m4 by simp_all
    from strdup_ok [OF this(2,1), of "''libprom_''"]
    show "strdup ''libprom_'' (put_registry self ?q w4) = (brk w4, put_registry self ?q w5)" by (simp add: w5_def put_registry_def)
    show "stores w4 [brk w4 \<mapsto> ''libprom_''] w5" using stores_strdup [OF m4, of "''libprom_''"] by (simp add: w5_def)
  qed
  define w6 where "w6 = put_registry self (?q\<lparr>mprefix := brk w4\<rparr>) w5"
  have run: "pcr_default_init env w = Some (0, w6)"
    using none nz 1(1) 3(1) 4(1) sd(1) default_features
    by (simp add: pcr_default_init_def pcr_init_def w2_def [symmetric] w6_def put_twice)
  have m5: "mem_ok w5" "oom w5 = []" using storesD(1,2) [OF sd(2)] by simp_all
  have old: "strs w6 a = strs w4 a" if "a < brk w4" for a using that by (simp add: w6_def w5_def)
  have x: "strs w6 a = strs w3 a" "metrics w6 a = metrics w3 a" if "a < brk w3" for a
    using that old [of a] extendsD(3,4) [OF 4(2)] extendsD(5) [OF 4(2) that] by (simp_all add: same_on_def w6_def w5_def)
  have data: "collectors w6 = collectors w3" "ppcs w6 = ppcs w3" using beyond_more [OF 4(3)] by (simp_all add: w6_def w5_def put_registry_def beyond_def)
  have "cmem.more w4 = cmem.more w3" using beyond_more [OF 4(3)] by (simp add: beyond_def)
  then have reg: "PROM_COLLECTOR_REGISTRY w6 = self" using more_registry [of w4 w3] 3(9) w2(4) by (simp add: w6_def w5_def)
  have at3: "map_ok cs' w3" "keys_ok cs'" "mem_ok w3" using 3(2) by (simp_all add: registry_at_def)
  have b: "brk w3 \<le> brk w4" "brk w4 \<le> brk w6" using extendsD(3) [OF 4(2)] by (simp_all add: w6_def w5_def)
  have s: "same_on (owned cs') w3 w6" using owned_old [OF at3(1,3)] x(1) by (simp add: same_on_def)
  have cs': "map_ok cs' w6" "lookup_map w6 cs' = [''default'' \<mapsto> d, ''process'' \<mapsto> x]"
    using map_ok_cong [OF at3(1) s] lookup_map_cong [OF s] 3(3) l by simp_all
  have "process_collector env w6 (brk w2) x gs"
    using b x data m5 by (intro process_collector_cong [OF 3(8) at3(3)]) (simp_all add: w6_def)
  moreover have old2: "brk w \<le> brk w2" using 1(5) w2(2) by (simp add: self_def)
  ultimately have pc: "process_collector env w6 (brk w) x gs" by (rule process_collector_before)
  have fr: "fresh_collector c ms w6" using n(8) by (rule fresh_anywhere)
  have "d \<noteq> x" using 3(7) 1(7) w2(2) by auto
  then have d: "collectors w6 d = Some c" using data(1) 3(6) w2(3) n(7) by simp
  have "registry_wf w6 self (?q\<lparr>mprefix := brk w4\<rparr>) cs' d c ms"
    using nz reg m5 cs' n(6) d fr by (simp add: registry_wf_def fresh_collector_def w6_def)
  moreover have "load_opt (brk w4) w6 = Some (Some ''libprom_'')"
    using mem_ok_brk_pos [OF m4(1)] by (simp add: load_opt_def load_str_def w6_def w5_def)
  moreover have b3: "brk w \<le> brk w3" using old2 map_frameD(3) [OF 3(5)] by simp
  have "scrape_made (brk w) w5 g" by (rule scrape_made_later [OF 4(4) stores_extends [OF sd(2)] b3])
  then have "scrape_made (brk w) w6 g" by (simp add: scrape_made_def w6_def metric_wf_put)
  moreover have "g \<notin> set gs"
  proof
    assume "g \<in> set gs"
    then have "g < brk w3" using process_members [OF 3(8)] by blast
    then show False using 4(4) by (simp add: scrape_made_def)
  qed
  ultimately have "default_registry env w6 (brk w) self (?q\<lparr>mprefix := brk w4\<rparr>) cs' d c ms"
    using fr at3(2) 3(4) n(5,10) cs'(2) pc by (auto simp: default_registry_def)
  moreover have "brk w \<le> brk w6" using b3 b by simp
  ultimately show thesis by (rule that [OF run])
qed

end
