(* ===== verification/ProcessScrape.thy ===== *)
theory ProcessScrape
  imports RegistryInit
begin

text \<open>
  What \<open>ppc_collect\<close> does: every metric of the process collector gets the number read for it,
  and nothing else of the library changes.
\<close>

section \<open>What the statistics are computed from\<close>

type_synonym sys = "int \<times> u64 \<times> u64 \<times> u64"

fun sys_upd :: "sys \<Rightarrow> 'z cworld \<Rightarrow> 'z cworld" where
  "sys_upd (a, b, c, d) w = w\<lparr>page_sz := a, clk_tck := b, last_starttime := c, stat_timestamp := d\<rparr>"

definition sys_of :: "'z cworld \<Rightarrow> sys" where
  "sys_of w = (page_sz w, clk_tck w, last_starttime w, stat_timestamp w)"

lemma sys_upd_simps [simp]:
  fixes w :: "'z cworld"
  shows "strs (sys_upd t w) = strs w" "brk (sys_upd t w) = brk w" "oom (sys_upd t w) = oom w" "samples (sys_upd t w) = samples w"
    "metrics (sys_upd t w) = metrics w" "collectors (sys_upd t w) = collectors w" "ppcs (sys_upd t w) = ppcs w"
    "sys_of (sys_upd t w) = t" "cmem.more (sys_upd t w) = cmem.more w"
  by (cases t, simp add: sys_of_def)+

lemma sys_upd_twice [simp]: "sys_upd t (sys_upd u w) = sys_upd t w"
  by (cases t; cases u) simp

lemma sys_upd_self [simp]: "sys_upd (sys_of w) w = w"
  by (cases w) (simp add: sys_of_def)

lemma sys_upd_parts [simp]:
  fixes w :: "'z cworld"
  shows "mem_ok (sys_upd t w) = mem_ok w" "lookup_map (sys_upd t w) m = lookup_map w m" "map_ok m (sys_upd t w) = map_ok m w"
    "slots_of (sys_upd t w) n = slots_of w n" "texts_of (sys_upd t w) n = texts_of w n"
  using lookup_strs [of "sys_upd t w" w] map_ok_strs [of "sys_upd t w" w]
  by (simp_all add: mem_ok_def slots_of_def texts_of_def)

lemma fill_stats_sys:
  fixes u v :: "'z cworld"
  shows "fill_stats env fd (sys_upd t u) = map_option (\<lambda>(s, w). (s, sys_upd (sys_of w) u)) (fill_stats env fd (sys_upd t v))"
proof (cases "os_pread env fd")
  case None
  then show ?thesis by (simp add: fill_stats_def)
next
  case (Some text0)
  obtain a b c d where t: "t = (a, b, c, d)" by (cases t)
  show ?thesis
  proof (cases "sscanf (take 511 text0) stat_format")
    case None
    then show ?thesis using Some by (simp add: fill_stats_def)
  next
    case (Some r)
    obtain n vs where r: "r = (n, vs)" by (cases r)
    show ?thesis
      using \<open>os_pread env fd = Some text0\<close> Some r t
      by (simp add: fill_stats_def sys_conf_def start_time_def Let_def sys_of_def)
  qed
qed

lemma sys_upd_more:
  fixes w w' :: "'z cworld"
  shows "mmem.more w' = mmem.more w \<Longrightarrow> mmem.more (sys_upd t w') = mmem.more (sys_upd t w)"
  by (cases w; cases w'; cases t) simp

lemma metrics_only_sys:
  fixes w w' :: "'z cworld"
  assumes "metrics_only A w w'" shows "metrics_only A (sys_upd t w) (sys_upd t w')"
  using assms sys_upd_more [of w' w t]
  unfolding metrics_only_def same_metrics_def metric_strs_def metric_slots_def metric_texts_def frame_def by simp

lemma singles_sys:
  fixes w :: "'z cworld"
  assumes "singles w L A R" "mem_ok w" "oom w = []" shows "singles (sys_upd t w) L A R"
  using assms by (intro singles_later(1) [OF assms(1), of "sys_upd t w" "{}"]) simp_all

lemma metrics_only_more:
  fixes w w' :: "'z cworld"
  assumes "metrics_only A w w'"
  shows "collectors w' = collectors w" "ppcs w' = ppcs w" "sys_of w' = sys_of w" "cmem.more w' = cmem.more w"
  using assms beyond_more [of w' w] by (simp_all add: metrics_only_def beyond_def sys_of_def)

section \<open>The updates\<close>

text \<open>The metrics have the kinds the collector gave them.\<close>

definition kinds_at :: "'z mworld \<Rightarrow> addr list \<Rightarrow> bool" where
  "kinds_at w gs \<longleftrightarrow> list_all2 (\<lambda>k g. name_at w g = fst k \<and> mtype (the (metrics w g)) = snd k) ppc_kinds gs"

lemma kinds_at_index:
  assumes "kinds_at w gs" "i < 17"
  shows "gs ! i \<in> set gs" "mtype (the (metrics w (gs ! i))) = snd (ppc_kinds ! i)"
proof -
  have k: "list_all2 (\<lambda>k g. name_at w g = fst k \<and> mtype (the (metrics w g)) = snd k) ppc_kinds gs" using assms(1) by (simp add: kinds_at_def)
  have l: "length ppc_kinds = 17" "length gs = length ppc_kinds"
    using list_all2_lengthD [OF k] by (simp_all add: ppc_kinds_def stats_metrics_def)
  then show "gs ! i \<in> set gs" using assms(2) by simp
  show "mtype (the (metrics w (gs ! i))) = snd (ppc_kinds ! i)"
    using k assms(2) l by (simp add: list_all2_conv_all_nth)
qed

lemma kinds_at_keep: "kinds_at w gs \<Longrightarrow> metrics_only A w w' \<Longrightarrow> set gs \<subseteq> A \<Longrightarrow> kinds_at w' gs"
  unfolding kinds_at_def name_at_def metrics_only_def same_metrics_def same_metric_def
  by (auto simp: list_all2_conv_all_nth subset_iff)

text \<open>The abstract effect of the updates, and the numbers they store.\<close>

definition store_values :: "addr list \<Rightarrow> (proc_metric \<times> bool \<times> double) list \<Rightarrow> (addr \<Rightarrow> double option) \<Rightarrow> addr \<Rightarrow> double option" where
  "store_values gs vs R = foldl (\<lambda>R (what, _, v). R(gs ! pm_index what \<mapsto> v)) R vs"

definition process_values :: "os \<Rightarrow> stats option \<Rightarrow> (proc_metric \<times> bool \<times> double) list" where
  "process_values env s = (PM_OPEN_FDS, False, ppc_fds_count env (Some (fd_path env))) #
     (PM_MAX_FDS, False, ppc_limits_get_maxfds env (-2)) # (case s of None \<Rightarrow> no_stats_values | Some s \<Rightarrow> stats_values s)"

lemma process_values_kinds:
  assumes "(what, counter, v) \<in> set (process_values env s)"
  shows "pm_index what < 17" "snd (ppc_kinds ! pm_index what) = (if counter then PROM_COUNTER else PROM_GAUGE)"
  using assms by (cases s; auto simp: process_values_def no_stats_values_def stats_values_def stats_metrics_def ppc_kinds_def kind_of_def Let_def)+

text \<open>A value that can be stored: a counter refuses a negative one.\<close>

definition storable :: "addr list \<Rightarrow> addr set \<Rightarrow> 'z mworld \<Rightarrow> proc_metric \<times> bool \<times> double \<Rightarrow> bool" where
  "storable gs A w = (\<lambda>(what, counter, v). gs ! pm_index what \<in> A \<and> (counter \<longrightarrow> \<not> dlt v dzero) \<and>
     mtype (the (metrics w (gs ! pm_index what))) = (if counter then PROM_COUNTER else PROM_GAUGE))"

lemma storable_keep: "storable gs A w v \<Longrightarrow> metrics_only A w w' \<Longrightarrow> storable gs A w' v"
  by (auto simp: storable_def metrics_only_def same_metrics_def same_metric_def split: prod.splits)

lemma store_one:
  assumes A: "singles w L A R" and L: "\<forall>g \<in> set gs. L g = ([], [])" and v: "storable gs A w (what, counter, v)" "gs ! pm_index what \<in> set gs"
  shows "\<exists>b w'. (if counter then cup env gs [] what v w else gup env gs [] what v w) = Some (b, w') \<and>
    singles w' L A (R(gs ! pm_index what \<mapsto> v)) \<and> metrics_only A w w'"
proof -
  have x: "gs ! pm_index what \<in> A" "L (gs ! pm_index what) = ([], [])" using v L by (simp_all add: storable_def)
  show ?thesis
    using singles_counter_reset [OF A x(1) _ x(2), of v "logging env"] singles_gauge_set [OF A x(1) _ x(2), of "logging env" v] v(1)
    by (cases counter) (auto simp: storable_def cup_def gup_def)
qed

lemma store_stats_ok:
  assumes "singles w L A R" "\<forall>g \<in> set gs. L g = ([], [])" "\<forall>v \<in> set vs. storable gs A w v \<and> gs ! pm_index (fst v) \<in> set gs"
  shows "\<exists>b w'. store_stats env vs gs [] w = Some (b, w') \<and> singles w' L A (store_values gs vs R) \<and> metrics_only A w w'"
  using assms
proof (induction vs arbitrary: w R)
  case Nil
  then show ?case by (simp add: store_values_def metrics_only_refl)
next
  case (Cons v vs)
  obtain what counter x where v: "v = (what, counter, x)" by (cases v)
  obtain b w1 where 1: "(if counter then cup env gs [] what x w else gup env gs [] what x w) = Some (b, w1)"
    "singles w1 L A (R(gs ! pm_index what \<mapsto> x))" "metrics_only A w w1"
    using store_one [OF Cons.prems(1,2), of what counter x env] Cons.prems(3) v by auto
  have "\<forall>v \<in> set vs. storable gs A w1 v \<and> gs ! pm_index (fst v) \<in> set gs"
    using Cons.prems(3) storable_keep [OF _ 1(3)] by simp
  from Cons.IH [OF 1(2) Cons.prems(2) this] obtain res w2 where 2: "store_stats env vs gs [] w1 = Some (res, w2)"
    "singles w2 L A (store_values gs vs (R(gs ! pm_index what \<mapsto> x)))" "metrics_only A w1 w2" by blast
  then show ?case using 1(1) metrics_only_trans [OF 1(3) 2(3)] v by (simp add: store_values_def)
qed

section \<open>A collection\<close>

text \<open>The process collector at \<open>x\<close>: its map of metrics, the directory of its descriptors, its metrics.\<close>

definition process_at :: "os \<Rightarrow> 'z cworld \<Rightarrow> addr \<Rightarrow> pmap \<Rightarrow> addr \<Rightarrow> addr list \<Rightarrow> bool" where
  "process_at env w x xms dir gs \<longleftrightarrow> (\<exists>c. collector_at w x c xms \<and> collect c = Ppc_Collect \<and> cdata c \<noteq> NULL \<and>
     ppcs w (cdata c) = Some \<lparr>label_vals = [], fds = [-2, os_open env (stat_path env)], fd_dir = dir, pid = os_pid env, pm = gs\<rparr>) \<and>
     dir \<noteq> NULL \<and> strs w dir = Some (fd_path env) \<and> lookup_map w xms = map_of (zip ppc_names gs)"

lemma process_collector_at:
  assumes "process_collector env w b x gs"
  obtains xms dir where "process_at env w x xms dir gs" "list_all2 (made b w) ppc_kinds gs" "owned xms \<subseteq> {b..}" "b \<le> dir" "keys_ok xms"
  using assms unfolding process_collector_def process_at_def collector_at_def by blast

lemma process_at_cong:
  fixes w w' :: "'z cworld"
  assumes "process_at env w x xms dir gs" "same_on (owned xms \<union> {dir}) w w'" "collectors w' x = collectors w x" "ppcs w' = ppcs w"
  shows "process_at env w' x xms dir gs"
proof -
  have s: "same_on (owned xms) w w'" "strs w' dir = strs w dir" using assms(2) by (simp_all add: same_on_def)
  have "collector_at w' x c xms" if "collector_at w x c xms" for c
    using that map_ok_cong [OF _ s(1), of] lookup_map_cong [OF s(1)] assms(3) by (auto simp: collector_at_def)
  then show ?thesis using assms(1,4) s(2) lookup_map_cong [OF s(1)] unfolding process_at_def by auto
qed

text \<open>The statistics of the process as one collection sees them.\<close>

definition process_stats :: "os \<Rightarrow> 'z cworld \<Rightarrow> (stats option \<times> 'z cworld) option" where
  "process_stats env w = (if 0 \<le> os_open env (stat_path env) then fill_stats env (os_open env (stat_path env)) w else Some (None, w))"

text \<open>They are defined, and no time that is reported as a counter is negative.\<close>

definition process_readable :: "os \<Rightarrow> 'z cworld \<Rightarrow> bool" where
  "process_readable env w \<longleftrightarrow> (\<exists>s w'. process_stats env w = Some (s, w') \<and>
     list_all (\<lambda>(what, counter, v). counter \<longrightarrow> \<not> dlt v dzero) (process_values env s))"

lemma fill_stats_valid:
  assumes "fill_stats env fd w = Some (Some s, w')"
  shows "\<forall>(_, _, v) \<in> set (stats_values s). dvalid v"
proof -
  obtain x1 x2 x3 x4 t where "s_utime s = ddiv x1 t" "s_stime s = ddiv x2 t" "s_cutime s = ddiv x3 t" "s_cstime s = ddiv x4 t"
    using assms by (auto simp: fill_stats_def Let_def bind_Some_iff split: if_splits)
  then show ?thesis by (simp add: stats_values_def Let_def valid_ops)
qed

lemma process_values_valid:
  assumes "process_stats env w = Some (s, w')" "(what, counter, v) \<in> set (process_values env s)"
  shows "dvalid v"
proof -
  have "dvalid (ppc_fds_count env (Some (fd_path env)))" "dvalid (ppc_limits_get_maxfds env (-2))"
    by (simp_all add: ppc_fds_count_def ppc_limits_get_maxfds_def valid_ops split: option.split)
  moreover have "dvalid v" if "(what, counter, v) \<in> set no_stats_values" using that by (auto simp: no_stats_values_def)
  moreover have "dvalid v" if "s = Some st" "(what, counter, v) \<in> set (stats_values st)" for st
    using fill_stats_valid [of env "os_open env (stat_path env)" w st w'] assms(1) that
    by (auto simp: process_stats_def split: if_splits)
  ultimately show ?thesis using assms(2) by (auto simp: process_values_def split: option.splits)
qed

lemma process_stats_later:
  fixes u w :: "'z cworld"
  assumes "process_stats env w = Some (s, w1)" "sys_of u = sys_of w"
  shows "process_stats env u = Some (s, sys_upd (sys_of w1) u)"
proof (cases "0 \<le> os_open env (stat_path env)")
  case True
  have "fill_stats env (os_open env (stat_path env)) (sys_upd (sys_of w) u) =
      map_option (\<lambda>(s, w). (s, sys_upd (sys_of w) u)) (fill_stats env (os_open env (stat_path env)) (sys_upd (sys_of w) w))"
    by (rule fill_stats_sys)
  then show ?thesis using True assms sys_upd_self [of u] by (simp add: process_stats_def)
next
  case False
  then show ?thesis using assms sys_upd_self [of u] by (simp add: process_stats_def)
qed

lemma ppc_collect_ok:
  assumes x: "process_at env w x xms dir gs" and A: "singles w L A R" "set gs \<subseteq> A" "kinds_at w gs" "\<forall>g \<in> set gs. L g = ([], [])"
    and s: "process_stats env w = Some (s, ws)" "list_all (\<lambda>(what, counter, v). counter \<longrightarrow> \<not> dlt v dzero) (process_values env s)"
  shows "\<exists>w'. ppc_collect env x w = Some (Some xms, w') \<and> singles w' L A (store_values gs (process_values env s) R) \<and>
    metrics_only A (sys_upd (sys_of ws) w) w'"
proof -
  let ?v0 = "ppc_fds_count env (Some (fd_path env))" and ?v1 = "ppc_limits_get_maxfds env (-2)"
  define vs where "vs = (case s of None \<Rightarrow> no_stats_values | Some s \<Rightarrow> stats_values s)"
  have pv: "process_values env s = (PM_OPEN_FDS, False, ?v0) # (PM_MAX_FDS, False, ?v1) # vs" by (simp add: process_values_def vs_def)
  have st: "storable gs A w v \<and> gs ! pm_index (fst v) \<in> set gs" if v: "v \<in> set (process_values env s)" for v
  proof -
    obtain what counter y where e: "v = (what, counter, y)" by (cases v)
    note k = process_values_kinds [OF v [unfolded e]]
    have "gs ! pm_index what \<in> set gs" "mtype (the (metrics w (gs ! pm_index what))) = (if counter then PROM_COUNTER else PROM_GAUGE)"
      using kinds_at_index [OF A(3) k(1)] k(2) by simp_all
    then show ?thesis using s(2) v A(2) e by (auto simp: storable_def list_all_iff)
  qed
  obtain c where c: "collector_at w x c xms" "cdata c \<noteq> NULL"
    "ppcs w (cdata c) = Some \<lparr>label_vals = [], fds = [-2, os_open env (stat_path env)], fd_dir = dir, pid = os_pid env, pm = gs\<rparr>"
    "dir \<noteq> NULL" "strs w dir = Some (fd_path env)" using x by (auto simp: process_at_def)
  have cx: "x \<noteq> NULL" "collectors w x = Some c" "cmetrics c = Some xms" using c(1) by (simp_all add: collector_at_def)
  have in0: "(PM_OPEN_FDS, False, ?v0) \<in> set (process_values env s)" "(PM_MAX_FDS, False, ?v1) \<in> set (process_values env s)"
    by (simp_all add: pv)
  note st0 = conjunct1 [OF st [OF in0(1)]] conjunct2 [OF st [OF in0(1)], unfolded fst_conv]
  obtain b0 w0 where 0: "gup env gs [] PM_OPEN_FDS ?v0 w = Some (b0, w0)" "singles w0 L A (R(gs ! 0 \<mapsto> ?v0))" "metrics_only A w w0"
    using store_one [OF A(1,4) st0, of env] unfolding if_False pm_index.simps by blast
  have st1: "storable gs A w0 v \<and> gs ! pm_index (fst v) \<in> set gs" if "v \<in> set (process_values env s)" for v
    using st [OF that] storable_keep [OF _ 0(3)] by blast
  note st1' = conjunct1 [OF st1 [OF in0(2)]] conjunct2 [OF st1 [OF in0(2)], unfolded fst_conv]
  obtain b1 w1 where 1: "gup env gs [] PM_MAX_FDS ?v1 w0 = Some (b1, w1)" "singles w1 L A (R(gs ! 0 \<mapsto> ?v0, gs ! 1 \<mapsto> ?v1))" "metrics_only A w0 w1"
    using store_one [OF 0(2) A(4) st1', of env] unfolding if_False pm_index.simps by blast
  note o1 = metrics_only_trans [OF 0(3) 1(3)]
  define w2 where "w2 = sys_upd (sys_of ws) w1"
  have ps: "process_stats env w1 = Some (s, w2)" unfolding w2_def by (rule process_stats_later [OF s(1) metrics_only_more(3) [OF o1]])
  have g0: "gs ! 0 \<in> A" using st0(1) by (simp add: storable_def)
  then have m1: "mem_ok w1" "oom w1 = []" using singlesD(6,7) [OF 1(2)] by blast+
  have s2: "singles w2 L A (R(gs ! 0 \<mapsto> ?v0, gs ! 1 \<mapsto> ?v1))" unfolding w2_def by (rule singles_sys [OF 1(2) m1])
  have "\<forall>v \<in> set vs. storable gs A w2 v \<and> gs ! pm_index (fst v) \<in> set gs"
  proof
    fix v assume "v \<in> set vs"
    then have "v \<in> set (process_values env s)" by (simp add: pv)
    from st1 [OF this] show "storable gs A w2 v \<and> gs ! pm_index (fst v) \<in> set gs"
      using storable_keep [OF _ 1(3), of gs v] by (simp add: w2_def storable_def)
  qed
  from store_stats_ok [OF s2 A(4) this] obtain b2 w3 where 3: "store_stats env vs gs [] w2 = Some (b2, w3)"
    "singles w3 L A (store_values gs vs (R(gs ! 0 \<mapsto> ?v0, gs ! 1 \<mapsto> ?v1)))" "metrics_only A w2 w3" by blast
  have o: "metrics_only A (sys_upd (sys_of ws) w) w3"
    using metrics_only_trans [OF metrics_only_sys [OF o1] 3(3) [unfolded w2_def]] .
  have "ppc_stats_update env [-2, os_open env (stat_path env)] gs [] w1 = Some (b2, w3)"
  proof -
    have "ppc_stats_update env [-2, os_open env (stat_path env)] gs [] w1 = Option.bind (process_stats env w1)
        (\<lambda>(s, w). store_stats env (case s of None \<Rightarrow> no_stats_values | Some s \<Rightarrow> stats_values s) gs [] w)"
      by (simp add: ppc_stats_update_def process_stats_def)
    then show ?thesis using 3(1) by (simp add: ps vs_def)
  qed
  moreover have "collectors w3 x = Some c" using metrics_only_more(1) [OF o] cx(2) by simp
  ultimately have "ppc_collect env x w = Some (Some xms, w3)"
    using cx c(2-5) 0(1) 1(1)
    by (simp add: ppc_collect_def prom_collector_data_get_def prom_collector_metrics_get_def ppc_fds_update_def ppc_limits_update_def
        load_opt_def load_str_def)
  moreover have "store_values gs vs (R(gs ! 0 \<mapsto> ?v0, gs ! 1 \<mapsto> ?v1)) = store_values gs (process_values env s) R"
    by (simp add: store_values_def pv)
  ultimately show ?thesis using 3(2) o by auto
qed

end
