(* ===== verification/RegistryScrape.thy ===== *)
theory RegistryScrape
  imports ProcessScrape PromHttp
begin

text \<open>
  A scrape of the default registry, with the process collector and the timing: the state of a
  registry that is served, what keeps it, and the text \<open>pcr_bridge\<close> returns.
\<close>

section \<open>What a collector lists\<close>

text \<open>The catalog is made of the metrics \<open>G\<close>, each under its name.\<close>

definition lists :: "'z mworld \<Rightarrow> pmap \<Rightarrow> addr set \<Rightarrow> bool" where
  "lists w ms G \<longleftrightarrow> (\<forall>n g. catalog w ms n = Some g \<longleftrightarrow> g \<in> G \<and> name_at w g = n)"

lemma lists_zip:
  assumes "catalog w ms = map_of (zip (map (name_at w) gs) gs)" "distinct (map (name_at w) gs)"
  shows "lists w ms (set gs)"
proof -
  have "distinct (map fst (zip (map (name_at w) gs) gs))" using assms(2) by simp
  then have "catalog w ms n = Some g \<longleftrightarrow> (n, g) \<in> set (zip (map (name_at w) gs) gs)" for n g
    using assms(1) map_of_eq_Some_iff by metis
  then show ?thesis by (auto simp: lists_def in_set_zip in_set_conv_nth)
qed

text \<open>The samples of a metric that has at most one, and its text.\<close>

definition samples_at :: "'z mworld \<Rightarrow> labelling \<Rightarrow> (addr \<Rightarrow> double option) \<Rightarrow> addr \<Rightarrow> (string \<times> double) list" where
  "samples_at w L R g = (case R g of None \<Rightarrow> [] | Some v \<Rightarrow> [(l_text (name_at w g) None (fst (L g)) (snd (L g)), v)])"

definition metric_entry :: "string option \<Rightarrow> bool \<Rightarrow> 'z mworld \<Rightarrow> labelling \<Rightarrow> (addr \<Rightarrow> double option) \<Rightarrow> addr \<Rightarrow> string" where
  "metric_entry prefix is_compact w L R g = metric_text prefix is_compact (the (metrics w g)) (samples_at w L R g)"

lemma entry_same:
  assumes "same_metrics A w w'" "g \<in> A" "R' g = R g"
  shows "metric_entry prefix c w' L R' g = metric_entry prefix c w L R g"
proof -
  have m: "same_metric (the (metrics w g)) (the (metrics w' g))" using assms(1,2) by (simp add: same_metrics_def)
  then have "name_at w' g = name_at w g" by (simp add: same_metric_def name_at_def)
  then show ?thesis using assms(3) by (simp add: metric_entry_def samples_at_def same_metric_text [OF m] cong: option.case_cong)
qed

lemma entry_reading: "R' g = R g \<Longrightarrow> metric_entry p c w L R' g = metric_entry p c w L R g"
  by (simp add: metric_entry_def samples_at_def)

lemma lists_shows:
  fixes w :: "'z mworld"
  assumes "singles w L G R" "map_ok ms w" "keys_ok ms" "lists w ms G"
  obtains gs where "distinct gs" "set gs = G"
    "list_all2 (catalog_shows w ms) (keys ms) (map (\<lambda>g. (the (metrics w g), samples_at w L R g)) gs)"
proof -
  obtain names where n: "list_all2 (\<lambda>k s. strs w k = Some s) (keys ms) names" "distinct names" "set names = dom (lookup_map w ms)"
    by (rule map_keys [OF assms(2,3)])
  define gs where "gs = map (\<lambda>s. the (lookup_map w ms s)) names"
  have l: "lookup_map w ms s = Some g \<longleftrightarrow> g \<in> G \<and> name_at w g = s" for s g
    using assms(4) by (simp add: lists_def catalog_def)
  have at: "lookup_map w ms s = Some (the (lookup_map w ms s))" "the (lookup_map w ms s) \<in> G" "name_at w (the (lookup_map w ms s)) = s"
    if s: "s \<in> set names" for s
  proof -
    obtain g where g: "lookup_map w ms s = Some g" using s n(3) by auto
    have "the (lookup_map w ms s) = g" "g \<in> G" "name_at w g = s" using g l [of s g] by simp_all
    then show "lookup_map w ms s = Some (the (lookup_map w ms s))" "the (lookup_map w ms s) \<in> G"
      "name_at w (the (lookup_map w ms s)) = s" using g by simp_all
  qed
  have "inj_on (\<lambda>s. the (lookup_map w ms s)) (set names)" using at(3) by (rule inj_on_inverseI)
  then have d: "distinct gs" using n(2) by (simp add: gs_def distinct_map)
  have "G \<subseteq> set gs"
  proof
    fix g assume "g \<in> G"
    then have "lookup_map w ms (name_at w g) = Some g" using l by simp
    then show "g \<in> set gs" using n(3) by (force simp: gs_def image_iff)
  qed
  then have s: "set gs = G" using at(2) by (auto simp: gs_def)
  have "catalog_shows w ms k (the (metrics w g), samples_at w L R g)"
    if "strs w k = Some s" "s \<in> set names" "g = the (lookup_map w ms s)" for k s g
  proof -
    have g: "g \<in> G" using at(2) [OF that(2)] that(3) by simp
    note sg = singlesD [OF assms(1) g]
    have "metric_shows w (the (metrics w g)) (samples_at w L R g)"
      using single_shows [OF sg(1) prod.collapse [symmetric]] by (simp add: samples_at_def name_at_def cong: option.case_cong)
    moreover have "lookup_map w ms s = Some g" using at(1) [OF that(2)] that(3) by simp
    ultimately show ?thesis using that(1) sg(3,4) unfolding catalog_shows_def by blast
  qed
  then have "list_all2 (catalog_shows w ms) (keys ms) (map (\<lambda>g. (the (metrics w g), samples_at w L R g)) gs)"
    unfolding gs_def list.rel_map comp_def by (intro list.rel_mono_strong [OF n(1)]) auto
  then show thesis using d s by (intro that)
qed

section \<open>A registry that is served\<close>

text \<open>What it is made of: the default collector with the metrics of the program, the process
  collector with its own, the gauge of the scrape times.\<close>

record library =
  self_at :: addr
  colls :: pmap
  default_at :: addr
  default_map :: pmap
  process_addr :: addr
  process_map :: pmap
  dir_at :: addr
  prefix_at :: addr
  user_metrics :: "addr set"
  own_metrics :: "addr list"
  scrape_at :: addr

definition all_metrics :: "library \<Rightarrow> addr set" where
  "all_metrics l = user_metrics l \<union> set (own_metrics l) \<union> {scrape_at l}"

definition labels :: "library \<Rightarrow> labelling" where
  "labels l x = (if x = scrape_at l then ([''collector''], [''libprom'']) else ([], []))"

definition lib_strs :: "library \<Rightarrow> addr set" where
  "lib_strs l = owned (colls l) \<union> owned (default_map l) \<union> owned (process_map l) \<union> {dir_at l, prefix_at l}"

definition pcr_ok :: "library \<Rightarrow> pcr \<Rightarrow> bool" where
  "pcr_ok l p \<longleftrightarrow> mprefix p = prefix_at l \<and> scrape_duration p = scrape_at l \<and> features p = or PROM_PROCESS PROM_SCRAPETIME \<and>
     (\<exists>f. metric_formatter p = Some f \<and> psb_ok (string_builder f))"

definition library_ok :: "os \<Rightarrow> 'z rworld \<Rightarrow> library \<Rightarrow> bool" where
  "library_ok env w l \<longleftrightarrow> (\<exists>p c. registry_wf w (self_at l) p (colls l) (default_at l) c (default_map l) \<and> pcr_ok l p \<and>
       collect c = Prom_Collector_Metrics_Get) \<and> keys_ok (colls l) \<and> keys_ok (default_map l) \<and>
     lookup_map w (colls l) = [''default'' \<mapsto> default_at l, ''process'' \<mapsto> process_addr l] \<and>
     process_at env w (process_addr l) (process_map l) (dir_at l) (own_metrics l) \<and>
     prefix_at l \<noteq> NULL \<and> strs w (prefix_at l) = Some ''libprom_''"

definition numbers_ok :: "library \<Rightarrow> (addr \<Rightarrow> double option) \<Rightarrow> bool" where
  "numbers_ok l R \<longleftrightarrow> (\<forall>g \<in> all_metrics l. \<forall>v. R g = Some v \<longrightarrow> dvalid v)"

definition metrics_ok :: "'z rworld \<Rightarrow> library \<Rightarrow> (addr \<Rightarrow> double option) \<Rightarrow> bool" where
  "metrics_ok w l R \<longleftrightarrow> singles w (labels l) (all_metrics l) R \<and> metric_strs w (all_metrics l) \<inter> lib_strs l = {} \<and>
     lists w (default_map l) (user_metrics l) \<and> kinds_at w (own_metrics l) \<and>
     (\<forall>g \<in> insert (scrape_at l) (user_metrics l). mtype (the (metrics w g)) = PROM_GAUGE) \<and>
     user_metrics l \<inter> set (own_metrics l) = {} \<and> scrape_at l \<notin> user_metrics l \<union> set (own_metrics l) \<and>
     (\<forall>g \<in> all_metrics l. short (the (metrics w g))) \<and> card (user_metrics l) \<le> 100 \<and> numbers_ok l R"

definition serving :: "os \<Rightarrow> 'z rworld \<Rightarrow> library \<Rightarrow> (addr \<Rightarrow> double option) \<Rightarrow> bool" where
  "serving env w l R \<longleftrightarrow> library_ok env w l \<and> metrics_ok w l R"

text \<open>What a step leaves alone in the library; the formatter of the registry may change.\<close>

definition same_registry :: "library \<Rightarrow> 'z rworld \<Rightarrow> 'z rworld \<Rightarrow> bool" where
  "same_registry l w w' \<longleftrightarrow> (\<forall>p. registries w (self_at l) = Some p \<and> pcr_ok l p \<longrightarrow>
     (\<exists>p'. registries w' (self_at l) = Some p' \<and> rcollectors p' = rcollectors p \<and> pcr_ok l p'))"

lemma same_registry_eq: "registries w' = registries w \<Longrightarrow> same_registry l w w'"
  by (simp add: same_registry_def)

definition kept :: "library \<Rightarrow> 'z rworld \<Rightarrow> 'z rworld \<Rightarrow> bool" where
  "kept l w w' \<longleftrightarrow> same_on (lib_strs l) w w' \<and> collectors w' = collectors w \<and> ppcs w' = ppcs w \<and> same_registry l w w' \<and>
     PROM_COLLECTOR_REGISTRY w' = PROM_COLLECTOR_REGISTRY w \<and> mem_ok w' \<and> oom w' = [] \<and> same_metrics (all_metrics l) w w'"

lemma kept_trans: "kept l u v \<Longrightarrow> kept l v w \<Longrightarrow> kept l u w"
proof -
  assume k: "kept l u v" "kept l v w"
  then have "same_registry l u w" unfolding kept_def same_registry_def by metis
  then show "kept l u w" using k by (auto simp: kept_def same_on_def same_metrics_def same_metric_def)
qed

lemma library_kept:
  assumes "library_ok env w l" "kept l w w'" shows "library_ok env w' l"
proof -
  have s: "same_on (owned m) w w'" if "m \<in> {colls l, default_map l}" for m
    using assms(2) that by (auto simp: kept_def lib_strs_def same_on_def)
  have sp: "same_on (owned (process_map l) \<union> {dir_at l}) w w'" "strs w' (prefix_at l) = strs w (prefix_at l)"
    using assms(2) by (auto simp: kept_def lib_strs_def same_on_def)
  have k: "(map_ok m w \<longrightarrow> map_ok m w') \<and> lookup_map w' m = lookup_map w m" if "m \<in> {colls l, default_map l}" for m
    using map_ok_cong [OF _ s [OF that]] lookup_map_cong [OF s [OF that]] by blast
  have r: "\<exists>p'. registry_wf w' (self_at l) p' (colls l) (default_at l) c (default_map l) \<and> pcr_ok l p'"
    if rw: "registry_wf w (self_at l) p (colls l) (default_at l) c (default_map l)" "pcr_ok l p" for p c
  proof -
    have "registries w (self_at l) = Some p" using rw(1) by (simp add: registry_wf_def)
    then obtain p' where p': "registries w' (self_at l) = Some p'" "rcollectors p' = rcollectors p" "pcr_ok l p'"
      using assms(2) rw(2) by (auto simp: kept_def same_registry_def)
    have "registry_wf w' (self_at l) p' (colls l) (default_at l) c (default_map l)"
      using rw(1) k [of "colls l"] k [of "default_map l"] assms(2) p' by (simp add: registry_wf_def kept_def)
    then show ?thesis using p'(3) by blast
  qed
  have x: "process_at env w' (process_addr l) (process_map l) (dir_at l) (own_metrics l)"
    using assms by (intro process_at_cong [OF _ sp(1)]) (simp_all add: library_ok_def kept_def)
  obtain p c where "registry_wf w (self_at l) p (colls l) (default_at l) c (default_map l)" "pcr_ok l p"
    "collect c = Prom_Collector_Metrics_Get" using assms(1) by (auto simp: library_ok_def)
  then have "\<exists>p c. registry_wf w' (self_at l) p (colls l) (default_at l) c (default_map l) \<and> pcr_ok l p \<and>
      collect c = Prom_Collector_Metrics_Get" using r by blast
  then show ?thesis using assms(1) x k [of "colls l"] sp(2) unfolding library_ok_def by simp
qed

lemma metrics_kept:
  assumes "metrics_ok w l R" "library_ok env w l" "kept l w w'" "singles w' (labels l) (all_metrics l) R'"
    "metric_strs w' (all_metrics l) \<inter> lib_strs l = {}" "numbers_ok l R'"
  shows "metrics_ok w' l R'"
proof -
  have s: "same_metric (the (metrics w g)) (the (metrics w' g))" if "g \<in> all_metrics l" for g
    using assms(3) that by (simp add: kept_def same_metrics_def)
  then have n: "name_at w' g = name_at w g" "mtype (the (metrics w' g)) = mtype (the (metrics w g))" if "g \<in> all_metrics l" for g
    using that by (simp_all add: same_metric_def name_at_def)
  have "same_on (owned (default_map l)) w w'" using assms(3) by (auto simp: kept_def lib_strs_def same_on_def)
  then have c: "catalog w' (default_map l) = catalog w (default_map l)" by (simp add: catalog_def lookup_map_cong)
  have u: "g \<in> all_metrics l" if "g \<in> user_metrics l \<or> g = scrape_at l \<or> g \<in> set (own_metrics l)" for g
    using that by (auto simp: all_metrics_def)
  have "lists w' (default_map l) (user_metrics l)"
    using assms(1) n(1) [OF u] by (auto simp: metrics_ok_def lists_def c)
  moreover have "kinds_at w' (own_metrics l)"
    using assms(1) n [OF u] unfolding metrics_ok_def kinds_at_def by (auto elim!: list.rel_mono_strong)
  moreover have "\<forall>g \<in> all_metrics l. short (the (metrics w' g))"
    using assms(1) short_same [OF s] by (simp add: metrics_ok_def)
  ultimately show ?thesis using assms(1,4-6) n(2) [OF u] by (simp add: metrics_ok_def)
qed

lemma lib_strs_old:
  assumes "library_ok env w l" shows "lib_strs l \<subseteq> {..<brk w}"
proof -
  obtain p c where r: "registry_wf w (self_at l) p (colls l) (default_at l) c (default_map l)"
    using assms by (auto simp: library_ok_def)
  have m: "mem_ok w" "map_ok (colls l) w" "map_ok (default_map l) w" using r by (simp_all add: registry_wf_def)
  obtain c where "collector_at w (process_addr l) c (process_map l)" "strs w (dir_at l) = Some (fd_path env)"
    using assms by (auto simp: library_ok_def process_at_def)
  then have x: "map_ok (process_map l) w" "dir_at l < brk w" using mem_ok_live [OF m(1)] by (auto simp: collector_at_def)
  have "prefix_at l < brk w" using assms mem_ok_live [OF m(1)] by (auto simp: library_ok_def)
  then show ?thesis using owned_old [OF m(2,1)] owned_old [OF m(3,1)] owned_old [OF x(1) m(1)] x(2) by (auto simp: lib_strs_def)
qed

text \<open>The two kinds of step: the metrics are updated, or what is new does not belong to the library.\<close>

lemma serving_metrics:
  assumes "serving env w l R" "metrics_only (all_metrics l) w w'" "singles w' (labels l) (all_metrics l) R'" "numbers_ok l R'"
  shows "serving env w' l R'" "kept l w w'"
proof -
  have l: "library_ok env w l" "metrics_ok w l R" using assms(1) by (simp_all add: serving_def)
  then have m: "mem_ok w" "oom w = []" by (auto simp: library_ok_def registry_wf_def)
  have "metric_strs w (all_metrics l) \<inter> lib_strs l = {}" using l(2) by (simp add: metrics_ok_def)
  note b = metrics_only_beside [OF assms(2) this lib_strs_old [OF l(1)]]
  note more = metrics_only_more [OF assms(2)]
  show k: "kept l w w'"
    using b(2) more(1,2) more_registry [OF more(4)] assms(2) m same_registry_eq [of w' w l] by (simp add: kept_def metrics_only_def)
  show "serving env w' l R'" using library_kept [OF l(1) k] metrics_kept [OF l(2,1) k assms(3) b(1) assms(4)] by (simp add: serving_def)
qed

lemma same_metrics_refl: "metrics w' = metrics w \<Longrightarrow> same_metrics A w w'"
  by (simp add: same_metrics_def same_metric_refl)

lemma serving_change:
  assumes "serving env w l R" "same_on {..<brk w} w w'" "brk w \<le> brk w'" "mem_ok w'" "oom w' = []"
    and "samples w' = samples w" "metrics w' = metrics w" "collectors w' = collectors w" "ppcs w' = ppcs w"
    "same_registry l w w'" "PROM_COLLECTOR_REGISTRY w' = PROM_COLLECTOR_REGISTRY w"
  shows "serving env w' l R" "kept l w w'"
proof -
  have l: "library_ok env w l" "metrics_ok w l R" using assms(1) by (simp_all add: serving_def)
  have s: "singles w (labels l) (all_metrics l) R" "metric_strs w (all_metrics l) \<inter> lib_strs l = {}"
    using l(2) by (simp_all add: metrics_ok_def)
  have o: "strs w' a = strs w a" if "a < brk w" "a \<notin> {}" for a using assms(2) that by (simp add: same_on_def)
  have sw: "\<And>a. a < brk w \<Longrightarrow> samples w' a = samples w a" "\<And>x. x \<in> all_metrics l \<Longrightarrow> metrics w' x = metrics w x"
    using assms(6,7) by simp_all
  note later = singles_later [OF s(1) assms(4,5,3) o sw Int_empty_left]
  have "same_on (lib_strs l) w w'" using lib_strs_old [OF l(1)] assms(2) by (auto simp: same_on_def)
  then show k: "kept l w w'" using assms(4-11) by (simp add: kept_def same_metrics_refl)
  show "serving env w' l R"
    using library_kept [OF l(1) k] metrics_kept [OF l(2,1) k later(1)] later(3) s(2) l(2)
    by (simp add: serving_def metrics_ok_def)
qed

lemma serving_later:
  assumes "serving env w l R" "same_on {..<brk w} w w'" "brk w \<le> brk w'" "mem_ok w'" "oom w' = []"
    and "samples w' = samples w" "metrics w' = metrics w" "collectors w' = collectors w" "ppcs w' = ppcs w"
    "registries w' = registries w" "PROM_COLLECTOR_REGISTRY w' = PROM_COLLECTOR_REGISTRY w"
  shows "serving env w' l R" "kept l w w'"
  by (rule serving_change [OF assms(1-9) same_registry_eq [OF assms(10)] assms(11)])+

lemma serving_appended:
  fixes w w' :: "'z rworld"
  assumes "serving env w l R" "appended f w t f' w'"
  shows "serving env w' l R" "kept l w w'" "sys_of w' = sys_of w"
proof -
  note a = appended_world [OF assms(2)]
  have m: "mem_ok w" using assms(1) by (auto simp: serving_def library_ok_def registry_wf_def)
  have "brk w \<le> brk w'" using assms(2) by (auto simp: appended_def dest: grown_brk)
  moreover have "samples w' = samples w" using objects_more [OF a(2)] by (simp add: objects_def)
  moreover note more_data [OF a(2)] more_collectors [OF a(2)]
  ultimately show "serving env w' l R" "kept l w w'"
    using a(1,3,4) m by (auto intro!: serving_later [OF assms(1)] simp: same_on_def)
  show "sys_of w' = sys_of w" using more_cw [OF a(2)] by (simp add: beyond_def sys_of_def)
qed

lemma serving_skip:
  fixes w :: "'z rworld"
  assumes "serving env w l R"
  shows "serving env (w\<lparr>brk := Suc (Suc (brk w))\<rparr>) l R" "kept l w (w\<lparr>brk := Suc (Suc (brk w))\<rparr>)"
    "sys_of (w\<lparr>brk := Suc (Suc (brk w))\<rparr>) = sys_of w"
proof -
  have "mem_ok w" "oom w = []" using assms by (auto simp: serving_def library_ok_def registry_wf_def)
  then show "serving env (w\<lparr>brk := Suc (Suc (brk w))\<rparr>) l R" "kept l w (w\<lparr>brk := Suc (Suc (brk w))\<rparr>)"
    by (auto intro!: serving_later [OF assms] simp: same_on_def mem_ok_brk)
qed (simp add: sys_of_def)

lemma serving_sys:
  fixes w :: "'z rworld"
  assumes "serving env w l R" shows "serving env (sys_upd t w) l R" "kept l w (sys_upd t w)"
proof -
  have "mem_ok w" "oom w = []" using assms by (auto simp: serving_def library_ok_def registry_wf_def)
  moreover have "registries (sys_upd t w) = registries w" "PROM_COLLECTOR_REGISTRY (sys_upd t w) = PROM_COLLECTOR_REGISTRY w"
    by (cases t; simp)+
  ultimately show "serving env (sys_upd t w) l R" "kept l w (sys_upd t w)"
    by (auto intro!: serving_later [OF assms] simp: same_on_def)
qed

section \<open>Loading the collectors\<close>

definition entries_text :: "'z mworld \<Rightarrow> library \<Rightarrow> (addr \<Rightarrow> double option) \<Rightarrow> addr list \<Rightarrow> string" where
  "entries_text w l R gs = concat (map (metric_entry (Some ''libprom_'') False w (labels l) R) gs)"

definition entries_size :: "'z mworld \<Rightarrow> library \<Rightarrow> (addr \<Rightarrow> double option) \<Rightarrow> addr set \<Rightarrow> nat" where
  "entries_size w l R G = (\<Sum>g \<in> G. length (metric_entry (Some ''libprom_'') False w (labels l) R g))"

lemma entries_length: "distinct gs \<Longrightarrow> length (entries_text w l R gs) = entries_size w l R (set gs)"
  by (simp add: entries_text_def entries_size_def length_concat comp_def sum_list_distinct_conv_sum_set)

lemma entries_kept:
  assumes "kept l w w'" "set gs \<subseteq> all_metrics l" "\<forall>g \<in> set gs. R' g = R g" shows "entries_text w' l R' gs = entries_text w l R gs"
proof -
  have "metric_entry p c w' (labels l) R' g = metric_entry p c w (labels l) R g" if "g \<in> set gs" for p c g
    using assms that by (intro entry_same [of "all_metrics l"]) (auto simp: kept_def)
  then show ?thesis by (simp add: entries_text_def cong: map_cong)
qed

lemma entries_size_kept:
  assumes "kept l w w'" "G \<subseteq> all_metrics l" "\<forall>g \<in> G. R' g = R g" shows "entries_size w' l R' G = entries_size w l R G"
  using entry_same [of "all_metrics l" w w' _ R' R] assms by (auto simp: entries_size_def kept_def intro!: sum.cong)

lemma load_map_ok:
  fixes w :: "'z rworld"
  assumes "singles w (labels l) G R" "map_ok ms w" "keys_ok ms" "lists w ms G" "psb_ok (string_builder f)" "mem_ok w" "oom w = []"
    and "length (content (string_builder f)) + entries_size w l R G < psb_limit"
  obtains gs f' w' where "distinct gs" "set gs = G" "appended f w (entries_text w l R gs) f' w'"
    "load_metric_keys (Some f) ms (Some ''libprom_'') False r (keys ms) w = Some (r, Some f', w')"
proof -
  obtain gs where gs: "distinct gs" "set gs = G"
    "list_all2 (catalog_shows w ms) (keys ms) (map (\<lambda>g. (the (metrics w g), samples_at w (labels l) R g)) gs)"
    by (rule lists_shows [OF assms(1-4)])
  have t: "metrics_text (Some ''libprom_'') False (map (\<lambda>g. (the (metrics w g), samples_at w (labels l) R g)) gs) = entries_text w l R gs"
    by (simp add: metrics_text_def entries_text_def metric_entry_def [abs_def] comp_def)
  have room: "room_for f (entries_text w l R gs)" using assms(8) entries_length [OF gs(1), of w l R] gs(2) by (simp add: room_for_def)
  from load_metric_keys_ok [OF assms(5-7,2) gs(3), of "Some ''libprom_''" False r] room t show thesis
    using that [OF gs(1,2)] by auto
qed

lemma user_singles: "serving env w l R \<Longrightarrow> singles w (labels l) (user_metrics l) R"
  unfolding serving_def metrics_ok_def by (auto intro: singles_subset simp: all_metrics_def)

lemma own_singles: "serving env w l R \<Longrightarrow> singles w (labels l) (set (own_metrics l)) R"
  unfolding serving_def metrics_ok_def by (auto intro: singles_subset simp: all_metrics_def)

lemma own_lists:
  assumes "serving env w l R" shows "lists w (process_map l) (set (own_metrics l))"
proof -
  have "list_all2 (\<lambda>k g. name_at w g = fst k \<and> mtype (the (metrics w g)) = snd k) ppc_kinds (own_metrics l)"
    using assms by (simp add: serving_def metrics_ok_def kinds_at_def)
  then have n: "map (name_at w) (own_metrics l) = ppc_names"
    unfolding ppc_names_def by (induction rule: list_all2_induct) auto
  have "lookup_map w (process_map l) = map_of (zip ppc_names (own_metrics l))"
    using assms by (auto simp: serving_def library_ok_def process_at_def)
  then show ?thesis using n ppc_names_distinct by (intro lists_zip) (simp_all add: catalog_def)
qed

lemma load_default:
  fixes w :: "'z rworld"
  assumes S: "serving env w l R" and f: "psb_ok (string_builder f)" and k: "strs w k = Some ''default''"
    and room: "length (content (string_builder f)) + entries_size w l R (user_metrics l) < psb_limit"
  obtains gs f' w' where "distinct gs" "set gs = user_metrics l"
    "load_collectors env (Some f) (colls l) NULL (Some ''libprom_'') False r (k # ks) w =
     load_collectors env (Some f') (colls l) NULL (Some ''libprom_'') False r ks w'"
    "psb_ok (string_builder f')" "content (string_builder f') = content (string_builder f) @ entries_text w l R gs"
    "serving env w' l R" "kept l w w'" "sys_of w' = sys_of w"
proof -
  obtain p c where r: "registry_wf w (self_at l) p (colls l) (default_at l) c (default_map l)" "collect c = Prom_Collector_Metrics_Get"
    using S by (auto simp: serving_def library_ok_def)
  have m: "mem_ok w" "oom w = []" "map_ok (colls l) w" "lookup_map w (colls l) ''default'' = Some (default_at l)" "default_at l \<noteq> NULL"
    "collectors w (default_at l) = Some c" "cmetrics c = Some (default_map l)" using r(1) by (simp_all add: registry_wf_def)
  define w1 where "w1 = w\<lparr>brk := Suc (Suc (brk w))\<rparr>"
  note s1 = serving_skip [OF S, folded w1_def]
  have g: "prom_map_get run_registry (colls l) (Some ''default'') w = Some (default_at l, w1)"
    using get_map_ok [OF m(3,1,2), of run_registry "''default''"] m(4) by (simp add: w1_def)
  have cc: "call_collect env (default_at l) w1 = Some (Some (default_map l), w1)"
    using m(6,7) r(2) by (simp add: call_collect_def prom_collector_metrics_get_def w1_def)
  have w1: "map_ok (default_map l) w1" "keys_ok (default_map l)" "lists w1 (default_map l) (user_metrics l)" "mem_ok w1" "oom w1 = []"
    using s1(1) by (auto simp: serving_def library_ok_def registry_wf_def metrics_ok_def)
  have u: "user_metrics l \<subseteq> all_metrics l" by (auto simp: all_metrics_def)
  have "length (content (string_builder f)) + entries_size w1 l R (user_metrics l) < psb_limit"
    using room entries_size_kept [OF s1(2) u, of R R] by simp
  then obtain gs f' w' where 2: "distinct gs" "set gs = user_metrics l" "appended f w1 (entries_text w1 l R gs) f' w'"
    "load_metric_keys (Some f) (default_map l) (Some ''libprom_'') False r (keys (default_map l)) w1 = Some (r, Some f', w')"
    by (rule load_map_ok [OF user_singles [OF s1(1)] w1(1-3) f w1(4,5)])
  note s2 = serving_appended [OF s1(1) 2(3)]
  have "load_collectors env (Some f) (colls l) NULL (Some ''libprom_'') False r (k # ks) w =
     load_collectors env (Some f') (colls l) NULL (Some ''libprom_'') False r ks w'"
    using k g cc 2(4) m(5) by (simp add: load_str_def mem_ok_live [OF m(1)])
  moreover have "entries_text w1 l R gs = entries_text w l R gs" using entries_kept [OF s1(2)] 2(2) u by simp
  ultimately show thesis using 2(1-3) s2 kept_trans [OF s1(2) s2(2)] s1(3)
    by (intro that [of gs f' w']) (simp_all add: appended_def del: load_collectors.simps)
qed

text \<open>The numbers stay doubles.\<close>

lemma store_values_at: "store_values gs vs R g = Some v \<Longrightarrow> R g = Some v \<or> (\<exists>what counter. (what, counter, v) \<in> set vs)"
proof (induction vs arbitrary: R)
  case (Cons x vs)
  obtain what counter y where x: "x = (what, counter, y)" by (cases x)
  have "store_values gs (x # vs) R = store_values gs vs (R(gs ! pm_index what \<mapsto> y))" by (simp add: store_values_def x)
  then have "store_values gs vs (R(gs ! pm_index what \<mapsto> y)) g = Some v" using Cons.prems by simp
  from Cons.IH [OF this] show ?case using x by (auto split: if_splits)
qed (simp add: store_values_def)

lemma stored_numbers:
  assumes "numbers_ok l R" "process_stats env w = Some (s, ws)"
  shows "numbers_ok l (store_values (own_metrics l) (process_values env s) R)"
  using assms(1) store_values_at process_values_valid [OF assms(2)] unfolding numbers_ok_def by metis

lemma load_process:
  fixes w :: "'z rworld"
  assumes S: "serving env w l R" and f: "psb_ok (string_builder f)" and k: "strs w k = Some ''process''"
    and st: "process_stats env w = Some (s, ws)" "list_all (\<lambda>(what, counter, v). counter \<longrightarrow> \<not> dlt v dzero) (process_values env s)"
    and R': "R' = store_values (own_metrics l) (process_values env s) R"
    and room: "length (content (string_builder f)) + entries_size w l R' (set (own_metrics l)) < psb_limit"
  obtains gs f' w' where "distinct gs" "set gs = set (own_metrics l)"
    "load_collectors env (Some f) (colls l) NULL (Some ''libprom_'') False r (k # ks) w =
     load_collectors env (Some f') (colls l) NULL (Some ''libprom_'') False r ks w'"
    "psb_ok (string_builder f')" "content (string_builder f') = content (string_builder f) @ entries_text w l R' gs"
    "serving env w' l R'" "kept l w w'"
proof -
  obtain p c where r: "registry_wf w (self_at l) p (colls l) (default_at l) c (default_map l)"
    using S by (auto simp: serving_def library_ok_def)
  have m: "mem_ok w" "oom w = []" "map_ok (colls l) w" using r by (simp_all add: registry_wf_def)
  have lk: "lookup_map w (colls l) ''process'' = Some (process_addr l)" using S by (simp add: serving_def library_ok_def)
  define w1 where "w1 = w\<lparr>brk := Suc (Suc (brk w))\<rparr>"
  note s1 = serving_skip [OF S, folded w1_def]
  have g: "prom_map_get run_registry (colls l) (Some ''process'') w = Some (process_addr l, w1)"
    using get_map_ok [OF m(3,1,2), of run_registry "''process''"] lk by (simp add: w1_def)
  have x: "process_at env w1 (process_addr l) (process_map l) (dir_at l) (own_metrics l)" "singles w1 (labels l) (all_metrics l) R"
    "kinds_at w1 (own_metrics l)" "scrape_at l \<notin> set (own_metrics l)"
    using s1(1) by (simp_all add: serving_def library_ok_def metrics_ok_def)
  obtain xc where xc: "process_addr l \<noteq> NULL" "collectors w1 (process_addr l) = Some xc" "collect xc = Ppc_Collect" "keys_ok (process_map l)"
    using x(1) by (auto simp: process_at_def collector_at_def)
  have own: "set (own_metrics l) \<subseteq> all_metrics l" "\<forall>g \<in> set (own_metrics l). labels l g = ([], [])"
    using x(4) by (auto simp: all_metrics_def labels_def)
  obtain w2 where 2: "ppc_collect env (process_addr l) w1 = Some (Some (process_map l), w2)" "singles w2 (labels l) (all_metrics l) R'"
    "metrics_only (all_metrics l) (sys_upd (sys_of (sys_upd (sys_of ws) w1)) w1) w2"
    using ppc_collect_ok [OF x(1,2) own(1) x(3) own(2) process_stats_later [OF st(1) s1(3)] st(2)] R' by blast
  have up: "metrics_only (all_metrics l) (sys_upd (sys_of ws) w1) w2" using 2(3) by simp
  note sy = serving_sys [OF s1(1), of "sys_of ws"]
  have "numbers_ok l R'" using S R' stored_numbers [OF _ st(1)] by (simp add: serving_def metrics_ok_def)
  note s2 = serving_metrics [OF sy(1) up 2(2) this]
  note k2 = kept_trans [OF s1(2) kept_trans [OF sy(2) s2(2)]]
  have cc: "call_collect env (process_addr l) w1 = Some (Some (process_map l), w2)"
    using xc(2,3) 2(1) by (simp add: call_collect_def)
  have w2: "map_ok (process_map l) w2" "mem_ok w2" "oom w2 = []"
    using s2(1) by (auto simp: serving_def library_ok_def registry_wf_def process_at_def collector_at_def)
  have "length (content (string_builder f)) + entries_size w2 l R' (set (own_metrics l)) < psb_limit"
    using room entries_size_kept [OF k2 own(1), of R' R'] by simp
  then obtain gs f' w' where 3: "distinct gs" "set gs = set (own_metrics l)" "appended f w2 (entries_text w2 l R' gs) f' w'"
    "load_metric_keys (Some f) (process_map l) (Some ''libprom_'') False r (keys (process_map l)) w2 = Some (r, Some f', w')"
    by (rule load_map_ok [OF own_singles [OF s2(1)] w2(1) xc(4) own_lists [OF s2(1)] f w2(2,3)])
  note s3 = serving_appended [OF s2(1) 3(3)]
  have "load_collectors env (Some f) (colls l) NULL (Some ''libprom_'') False r (k # ks) w =
     load_collectors env (Some f') (colls l) NULL (Some ''libprom_'') False r ks w'"
    using k g cc 3(4) xc(1) by (simp add: load_str_def mem_ok_live [OF m(1)])
  moreover have "entries_text w2 l R' gs = entries_text w l R' gs" using entries_kept [OF k2] 3(2) own(1) by simp
  ultimately show thesis using 3(1-3) s3 kept_trans [OF k2 s3(2)]
    by (intro that [of gs f' w']) (simp_all add: appended_def del: load_collectors.simps)
qed

text \<open>Both collectors, in whatever order the map lists them.\<close>

definition scrape_order :: "library \<Rightarrow> addr list \<Rightarrow> bool" where
  "scrape_order l gs \<longleftrightarrow> (\<exists>us ps. distinct us \<and> set us = user_metrics l \<and> distinct ps \<and> set ps = set (own_metrics l) \<and>
     (gs = us @ ps \<or> gs = ps @ us))"

lemma two_keys:
  assumes "library_ok env w l"
  obtains j k where "keys (colls l) = [j, k]" "(strs w j = Some ''default'' \<and> strs w k = Some ''process'') \<or>
      (strs w j = Some ''process'' \<and> strs w k = Some ''default'')" "j \<in> lib_strs l" "k \<in> lib_strs l"
proof -
  have m: "map_ok (colls l) w" "keys_ok (colls l)" "lookup_map w (colls l) = [''default'' \<mapsto> default_at l, ''process'' \<mapsto> process_addr l]"
    using assms by (auto simp: library_ok_def registry_wf_def)
  obtain names where n: "list_all2 (\<lambda>k s. strs w k = Some s) (keys (colls l)) names" "distinct names" "set names = dom (lookup_map w (colls l))"
    by (rule map_keys [OF m(1,2)])
  have s: "set names = {''default'', ''process''}" using n(3) m(3) by auto
  then have "card (set names) = 2" by simp
  then have "length names = 2" using distinct_card [OF n(2)] by simp
  then obtain a b where ab: "names = [a, b]" by (auto simp: length_Suc_conv eval_nat_numeral)
  then obtain j k where jk: "keys (colls l) = [j, k]" "strs w j = Some a" "strs w k = Some b"
    using n(1) by (auto simp: list_all2_Cons2)
  have o: "set (keys (colls l)) = owned (colls l)"
    using m(2) unfolding keys_ok_def owned_def by (metis set_map set_mset_mset)
  have "a = ''default'' \<and> b = ''process'' \<or> a = ''process'' \<and> b = ''default''" using s ab n(2) by (auto simp: doubleton_eq_iff)
  then show thesis using jk o by (intro that [of j k]) (auto simp: lib_strs_def)
qed

lemma load_both:
  fixes w :: "'z rworld"
  assumes S: "serving env w l R" and f: "psb_ok (string_builder f)" "content (string_builder f) = []"
    and st: "process_stats env w = Some (s, ws)" "list_all (\<lambda>(what, counter, v). counter \<longrightarrow> \<not> dlt v dzero) (process_values env s)"
    and R': "R' = store_values (own_metrics l) (process_values env s) R" "\<forall>g \<in> user_metrics l. R' g = R g"
    and room: "entries_size w l R' (user_metrics l) + entries_size w l R' (set (own_metrics l)) < psb_limit"
  obtains gs f' w' where "scrape_order l gs"
    "load_collectors env (Some f) (colls l) NULL (Some ''libprom_'') False 0 (keys (colls l)) w = Some (0, Some f', w')"
    "psb_ok (string_builder f')" "content (string_builder f') = entries_text w l R' gs" "serving env w' l R'" "kept l w w'"
proof -
  have lib: "library_ok env w l" using S by (simp add: serving_def)
  obtain j k where jk: "keys (colls l) = [j, k]" "(strs w j = Some ''default'' \<and> strs w k = Some ''process'') \<or>
      (strs w j = Some ''process'' \<and> strs w k = Some ''default'')" "j \<in> lib_strs l" "k \<in> lib_strs l"
    by (rule two_keys [OF lib])
  have u: "user_metrics l \<subseteq> all_metrics l" "set (own_metrics l) \<subseteq> all_metrics l" by (auto simp: all_metrics_def)
  have eu: "metric_entry p c w L R g = metric_entry p c w L R' g" if "g \<in> user_metrics l" for g p c L
    using R'(2) that by (intro entry_reading) simp
  then have su: "entries_size w l R (user_metrics l) = entries_size w l R' (user_metrics l)" by (simp add: entries_size_def)
  have same: "strs w' k = strs w k" if "kept l w w'" for w' using that jk(4) by (simp add: kept_def same_on_def)
  from jk(2) show thesis
  proof
    assume d: "strs w j = Some ''default'' \<and> strs w k = Some ''process''"
    have "length (content (string_builder f)) + entries_size w l R (user_metrics l) < psb_limit" using room f(2) su by simp
    then obtain us f1 w1 where 1: "distinct us" "set us = user_metrics l"
      "load_collectors env (Some f) (colls l) NULL (Some ''libprom_'') False 0 [j, k] w =
       load_collectors env (Some f1) (colls l) NULL (Some ''libprom_'') False 0 [k] w1"
      "psb_ok (string_builder f1)" "content (string_builder f1) = content (string_builder f) @ entries_text w l R us"
      "serving env w1 l R" "kept l w w1" "sys_of w1 = sys_of w"
      by (rule load_default [OF S f(1) conjunct1 [OF d]])
    have t1: "entries_text w l R us = entries_text w l R' us"
      unfolding entries_text_def by (rule arg_cong [where f = concat], rule map_cong [OF refl], rule eu) (simp add: 1(2))
    have k1: "strs w1 k = Some ''process''" using same [OF 1(7)] d by simp
    have st1: "process_stats env w1 = Some (s, sys_upd (sys_of ws) w1)" by (rule process_stats_later [OF st(1) 1(8)])
    have "length (content (string_builder f1)) + entries_size w1 l R' (set (own_metrics l)) < psb_limit"
      using room f(2) 1(5) t1 entries_length [OF 1(1), of w l R'] 1(2) entries_size_kept [OF 1(7) u(2), of R' R'] by simp
    then obtain ps f2 w2 where 2: "distinct ps" "set ps = set (own_metrics l)"
      "load_collectors env (Some f1) (colls l) NULL (Some ''libprom_'') False 0 [k] w1 =
       load_collectors env (Some f2) (colls l) NULL (Some ''libprom_'') False 0 [] w2"
      "psb_ok (string_builder f2)" "content (string_builder f2) = content (string_builder f1) @ entries_text w1 l R' ps"
      "serving env w2 l R'" "kept l w1 w2"
      by (rule load_process [OF 1(6,4) k1 st1 st(2) R'(1)])
    have t2: "entries_text w1 l R' ps = entries_text w l R' ps" using entries_kept [OF 1(7)] 2(2) u(2) by simp
    have "scrape_order l (us @ ps)" using 1(1,2) 2(1,2) unfolding scrape_order_def by blast
    moreover have "load_collectors env (Some f) (colls l) NULL (Some ''libprom_'') False 0 (keys (colls l)) w = Some (0, Some f2, w2)"
      unfolding jk(1) 1(3) 2(3) by simp
    moreover have "content (string_builder f2) = entries_text w l R' (us @ ps)"
      using 1(5) 2(5) f(2) t1 t2 by (simp add: entries_text_def)
    ultimately show thesis using 2(4,6) kept_trans [OF 1(7) 2(7)] by (intro that [of "us @ ps" f2 w2])
  next
    assume d: "strs w j = Some ''process'' \<and> strs w k = Some ''default''"
    have "length (content (string_builder f)) + entries_size w l R' (set (own_metrics l)) < psb_limit" using room f(2) by simp
    then obtain ps f1 w1 where 1: "distinct ps" "set ps = set (own_metrics l)"
      "load_collectors env (Some f) (colls l) NULL (Some ''libprom_'') False 0 [j, k] w =
       load_collectors env (Some f1) (colls l) NULL (Some ''libprom_'') False 0 [k] w1"
      "psb_ok (string_builder f1)" "content (string_builder f1) = content (string_builder f) @ entries_text w l R' ps"
      "serving env w1 l R'" "kept l w w1"
      by (rule load_process [OF S f(1) conjunct1 [OF d] st R'(1)])
    have k1: "strs w1 k = Some ''default''" using same [OF 1(7)] d by simp
    have "length (content (string_builder f1)) + entries_size w1 l R' (user_metrics l) < psb_limit"
      using room f(2) 1(5) entries_length [OF 1(1), of w l R'] 1(2) entries_size_kept [OF 1(7) u(1), of R' R'] by simp
    then obtain us f2 w2 where 2: "distinct us" "set us = user_metrics l"
      "load_collectors env (Some f1) (colls l) NULL (Some ''libprom_'') False 0 [k] w1 =
       load_collectors env (Some f2) (colls l) NULL (Some ''libprom_'') False 0 [] w2"
      "psb_ok (string_builder f2)" "content (string_builder f2) = content (string_builder f1) @ entries_text w1 l R' us"
      "serving env w2 l R'" "kept l w1 w2" "sys_of w2 = sys_of w1"
      by (rule load_default [OF 1(6,4) k1])
    have t2: "entries_text w1 l R' us = entries_text w l R' us" using entries_kept [OF 1(7)] 2(2) u(1) by simp
    have "scrape_order l (ps @ us)" using 1(1,2) 2(1,2) unfolding scrape_order_def by blast
    moreover have "load_collectors env (Some f) (colls l) NULL (Some ''libprom_'') False 0 (keys (colls l)) w = Some (0, Some f2, w2)"
      unfolding jk(1) 1(3) 2(3) by simp
    moreover have "content (string_builder f2) = entries_text w l R' (ps @ us)"
      using 1(5) 2(5) f(2) t2 by (simp add: entries_text_def)
    ultimately show thesis using 2(4,6) kept_trans [OF 1(7) 2(7)] by (intro that [of "ps @ us" f2 w2])
  qed
qed

section \<open>The scrape\<close>

lemma scrape_seconds_defined:
  assumes "start \<noteq> None" obtains d where "scrape_seconds start finish = Some d" "dvalid d"
proof -
  obtain s0 n0 where start: "start = Some (s0, n0)" using assms by auto
  show thesis
  proof (cases finish)
    case None
    then show ?thesis using that [OF _ dadd_valid] by (simp add: scrape_seconds_def)
  next
    case (Some y)
    then show ?thesis using that [OF _ dadd_valid] start by (cases y) (simp add: scrape_seconds_def)
  qed
qed

lemma serving_ticks:
  fixes w :: "'z rworld"
  assumes "serving env w l R" shows "serving env (w\<lparr>ticks := n\<rparr>) l R" "kept l w (w\<lparr>ticks := n\<rparr>)"
proof -
  have "mem_ok w" "oom w = []" using assms by (auto simp: serving_def library_ok_def registry_wf_def)
  then show "serving env (w\<lparr>ticks := n\<rparr>) l R" "kept l w (w\<lparr>ticks := n\<rparr>)"
    by (auto intro!: serving_later [OF assms] simp: same_on_def mem_ok_def)
qed

text \<open>The gauge of the scrape times is set.\<close>

lemma time_scrape_ok:
  fixes w :: "'z rworld"
  assumes S: "serving env w l R" and d: "scrape_seconds start (os_clock env (ticks w)) = Some d" "dvalid d"
  shows "\<exists>w'. time_scrape env (scrape_at l) ''libprom'' start w = Some w' \<and> serving env w' l (R(scrape_at l \<mapsto> d)) \<and> kept l w w'"
proof -
  define w1 where "w1 = w\<lparr>ticks := Suc (ticks w)\<rparr>"
  note s1 = serving_ticks [OF S, of "Suc (ticks w)", folded w1_def]
  have m: "singles w1 (labels l) (all_metrics l) R" "mtype (the (metrics w1 (scrape_at l))) = PROM_GAUGE"
    using s1(1) by (simp_all add: serving_def metrics_ok_def)
  have a: "scrape_at l \<in> all_metrics l" by (simp add: all_metrics_def)
  have lb: "labels l (scrape_at l) = ([''collector''], [''libprom''])" by (simp add: labels_def)
  obtain w2 where 2: "prom_gauge_set (logging env) (scrape_at l) d [Some ''libprom''] w1 = Some (0, w2)"
    "singles w2 (labels l) (all_metrics l) (R(scrape_at l \<mapsto> d))" "metrics_only (all_metrics l) w1 w2"
    using singles_gauge_set [OF m(1) a m(2) lb, of "logging env" d] by auto
  have "numbers_ok l (R(scrape_at l \<mapsto> d))" using S d(2) by (simp add: serving_def metrics_ok_def numbers_ok_def)
  note s2 = serving_metrics [OF s1(1) 2(3,2) this]
  have "time_scrape env (scrape_at l) ''libprom'' start w = Some w2"
    using d(1) 2(1) by (simp add: time_scrape_def clock_gettime_def w1_def)
  then show ?thesis using s2(1) kept_trans [OF s1(2) s2(2)] by blast
qed

lemma serving_formatter:
  fixes w :: "'z rworld"
  assumes "serving env w l R" "pcr_ok l p" "rcollectors p = Some (colls l)" "psb_ok (string_builder f)"
  shows "serving env (put_registry (self_at l) (p\<lparr>metric_formatter := Some f\<rparr>) w) l R"
proof -
  let ?w = "put_registry (self_at l) (p\<lparr>metric_formatter := Some f\<rparr>) w"
  obtain q c where q: "registry_wf w (self_at l) q (colls l) (default_at l) c (default_map l)" using assms(1) by (auto simp: serving_def library_ok_def)
  then have m: "mem_ok w" "oom w = []" "registries w (self_at l) = Some q" "rcollectors q = Some (colls l)" by (simp_all add: registry_wf_def)
  have "same_registry l w ?w" using assms(2-4) m(3,4) by (simp add: same_registry_def pcr_ok_def)
  then show ?thesis using m(1,2)
    by (intro serving_change(1) [OF assms(1)]) (simp_all add: same_on_def put_registry_samples, simp_all add: put_registry_def)
qed

lemma store_values_other: "\<forall>v \<in> set vs. gs ! pm_index (fst v) \<noteq> g \<Longrightarrow> store_values gs vs R g = R g"
  unfolding store_values_def by (induction vs arbitrary: R) auto

lemma store_values_user:
  assumes "metrics_ok w l R" "g \<notin> set (own_metrics l)"
  shows "store_values (own_metrics l) (process_values env s) R g = R g"
proof (rule store_values_other, rule ballI)
  fix v assume v: "v \<in> set (process_values env s)"
  obtain what counter x where e: "v = (what, counter, x)" by (cases v)
  have "kinds_at w (own_metrics l)" using assms(1) by (simp add: metrics_ok_def)
  from kinds_at_index(1) [OF this process_values_kinds(1) [OF v [unfolded e]]]
  show "own_metrics l ! pm_index (fst v) \<noteq> g" using assms(2) e by auto
qed

lemma serving_finite:
  fixes w :: "'z rworld"
  assumes "serving env w l R" shows "finite (user_metrics l)"
proof -
  have m: "map_ok (default_map l) w" "keys_ok (default_map l)" "lists w (default_map l) (user_metrics l)"
    using assms by (auto simp: serving_def library_ok_def registry_wf_def metrics_ok_def)
  obtain gs where "set gs = user_metrics l" by (rule lists_shows [OF user_singles [OF assms] m])
  then show ?thesis by (metis List.finite_set)
qed

lemma page_split:
  assumes "serving env w l R"
  shows "entries_size w l Q (all_metrics l) =
    entries_size w l Q (user_metrics l) + entries_size w l Q (set (own_metrics l)) + entries_size w l Q {scrape_at l}"
proof -
  have "finite (user_metrics l)" "user_metrics l \<inter> set (own_metrics l) = {}" "scrape_at l \<notin> user_metrics l \<union> set (own_metrics l)"
    using serving_finite [OF assms] assms by (simp_all add: serving_def metrics_ok_def)
  then show ?thesis by (simp add: entries_size_def all_metrics_def sum.union_disjoint)
qed

lemma entries_reading: "\<forall>g \<in> G. R' g = R g \<Longrightarrow> entries_size w l R' G = entries_size w l R G"
  unfolding entries_size_def by (intro sum.cong refl arg_cong [where f = length] entry_reading) simp

text \<open>A page stays far below the limit of a string builder.\<close>

lemma entry_length:
  assumes "short (the (metrics w g))" "\<And>v. R g = Some v \<Longrightarrow> dvalid v"
  shows "length (metric_entry (Some ''libprom_'') False w (labels l) R g) \<le> 1000"
proof -
  let ?m = "the (metrics w g)"
  have n: "length (mname ?m) \<le> 100" "mhelp ?m = Some h \<Longrightarrow> length h \<le> 100" for h using assms(1) by (auto simp: short_def)
  have "length (prom_metric_type_map t) \<le> 10" for t by (cases t) simp_all
  from this [of "mtype ?m"] have h: "length (metric_head (Some ''libprom_'') ?m) \<le> 500"
    using n by (cases "mhelp ?m") (fastforce simp: metric_head_def help_text_def type_text_def opt_str_def)+
  have "length (l_text (mname ?m) None (fst (labels l g)) (snd (labels l g))) \<le> 130"
    using n(1) by (auto simp: labels_def l_value_text_def head_text_def labels_text_def label_text_def opt_str_def)
  then have "length (samples_text (Some ''libprom_'') (samples_at w (labels l) R g)) \<le> 200"
    using length_fmt_g17 [OF assms(2)]
    by (auto simp: samples_text_def samples_at_def sample_text_def opt_str_def name_at_def split: option.split)
  then show ?thesis using h by (simp add: metric_entry_def metric_text_def)
qed

lemma serving_room:
  fixes w :: "'z rworld"
  assumes "serving env w l R" "numbers_ok l R'" shows "entries_size w l R' (all_metrics l) < psb_limit"
proof -
  have m: "metrics_ok w l R" using assms(1) by (simp add: serving_def)
  have "length (metric_entry (Some ''libprom_'') False w (labels l) R' g) \<le> 1000" if "g \<in> all_metrics l" for g
    using m assms(2) that by (intro entry_length) (auto simp: metrics_ok_def numbers_ok_def)
  from sum_bounded_above [OF this] have "entries_size w l R' (all_metrics l) \<le> card (all_metrics l) * 1000"
    by (simp add: entries_size_def)
  moreover have "card (all_metrics l) \<le> card (user_metrics l) + card (set (own_metrics l)) + card {scrape_at l}"
    unfolding all_metrics_def by (meson card_Un_le add_le_mono1 order_trans)
  moreover have "length ppc_kinds = length (own_metrics l)"
    using m unfolding metrics_ok_def kinds_at_def by (elim conjE list_all2_lengthD)
  then have "length (own_metrics l) = 17" by (simp add: ppc_kinds_def stats_metrics_def)
  then have "card (set (own_metrics l)) \<le> 17" using card_length [of "own_metrics l"] by simp
  moreover have "card (user_metrics l) \<le> 100" using m by (simp add: metrics_ok_def)
  ultimately have "entries_size w l R' (all_metrics l) \<le> 118 * 1000" by simp
  then show ?thesis by (simp add: psb_limit_def)
qed

text \<open>The gauge of the scrape times is loaded.\<close>

lemma load_scrape_ok:
  fixes w :: "'z rworld"
  assumes S: "serving env w l R" and f: "psb_ok (string_builder f)"
    and room: "length (content (string_builder f)) + entries_size w l R {scrape_at l} < psb_limit"
  shows "\<exists>f' w'. pmf_load_metric (Some f) (scrape_at l) (Some ''libprom_'') False w = Some (0, Some f', w') \<and>
    appended f w (entries_text w l R [scrape_at l]) f' w'"
proof -
  have m: "mem_ok w" "oom w = []" using S by (auto simp: serving_def library_ok_def registry_wf_def)
  have "singles w (labels l) (all_metrics l) R" "scrape_at l \<in> all_metrics l" using S by (simp_all add: serving_def metrics_ok_def all_metrics_def)
  note sg = singlesD [OF this]
  have sh: "metric_shows w (the (metrics w (scrape_at l))) (samples_at w (labels l) R (scrape_at l))"
    using single_shows [OF sg(1) prod.collapse [symmetric]] by (simp add: samples_at_def name_at_def cong: option.case_cong)
  have t: "entries_text w l R [scrape_at l] =
      metric_text (Some ''libprom_'') False (the (metrics w (scrape_at l))) (samples_at w (labels l) R (scrape_at l))"
    by (simp add: entries_text_def metric_entry_def)
  have "room_for f (entries_text w l R [scrape_at l])" using room by (simp add: room_for_def entries_text_def entries_size_def)
  then show ?thesis using load_metric_ok [OF f m sg(3) sh] unfolding t by simp
qed

lemma pcr_bridge_served:
  fixes w :: "'z rworld"
  assumes S: "serving env w l R" and clock: "os_clock env (ticks w) \<noteq> None"
    and st: "process_stats env w = Some (s, ws)" "list_all (\<lambda>(what, counter, v). counter \<longrightarrow> \<not> dlt v dzero) (process_values env s)"
    and R': "R' = store_values (own_metrics l) (process_values env s) R"
  obtains a w' gs d where "pcr_bridge env (self_at l) w = Some (a, w')" "a \<noteq> NULL" "scrape_order l gs" "dvalid d"
    "strs w' a = Some (entries_text w l (R'(scrape_at l \<mapsto> d)) (gs @ [scrape_at l]))" "serving env w' l (R'(scrape_at l \<mapsto> d))"
    "serving env (w'\<lparr>strs := (strs w')(a := None)\<rparr>) l (R'(scrape_at l \<mapsto> d))"
proof -
  have mo: "metrics_ok w l R" using S by (simp add: serving_def)
  obtain p c where r: "registry_wf w (self_at l) p (colls l) (default_at l) c (default_map l)" "pcr_ok l p"
    using S by (auto simp: serving_def library_ok_def)
  have pre: "prefix_at l \<noteq> NULL" "strs w (prefix_at l) = Some ''libprom_''" "prefix_at l \<in> lib_strs l"
    using S by (simp_all add: serving_def library_ok_def lib_strs_def)
  have sn: "scrape_at l \<noteq> NULL" using singlesD(4) [of w "labels l" "all_metrics l" R "scrape_at l"] mo by (simp add: metrics_ok_def all_metrics_def)
  have p: "self_at l \<noteq> NULL" "registries w (self_at l) = Some p" "rcollectors p = Some (colls l)" "mprefix p = prefix_at l"
    "scrape_duration p = scrape_at l" "features p = or PROM_PROCESS PROM_SCRAPETIME"
    using r by (simp_all add: registry_wf_def pcr_ok_def)
  obtain f where f: "metric_formatter p = Some f" "psb_ok (string_builder f)" using r(2) by (auto simp: pcr_ok_def)
  define w1 where "w1 = w\<lparr>ticks := Suc (ticks w)\<rparr>"
  note s1 = serving_ticks [OF S, of "Suc (ticks w)", folded w1_def]
  have w1: "mem_ok w1" "oom w1 = []" using s1(1) by (auto simp: serving_def library_ok_def registry_wf_def)
  have "init_size (string_builder f) = 128" using f(2) by (elim psb_okE) simp
  from psb_clear_ok [OF this w1(2,1)] obtain b w2 where
    2: "psb_clear (string_builder f) w1 = (0, b, w2)" "grown w1 w2" "oom w2 = []" "psb_ok b" "content b = []" by blast
  define f2 where "f2 = f\<lparr>string_builder := b\<rparr>"
  have cl: "pmf_clear f w1 = (0, f2, w2)" using 2(1) by (simp add: pmf_clear_def f2_def)
  have f2: "psb_ok (string_builder f2)" "content (string_builder f2) = []" using 2(4,5) by (simp_all add: f2_def)
  have "appended f2 w1 [] f2 w2" using 2(2,3) f2 by (simp add: appended_def)
  note s2 = serving_appended [OF s1(1) this]
  note k2 = kept_trans [OF s1(2) s2(2)]
  have m2: "mem_ok w2" "oom w2 = []" "strs w2 (prefix_at l) = Some ''libprom_''"
    using s2(1) by (auto simp: serving_def library_ok_def registry_wf_def)
  have mo2: "metrics_ok w2 l R" using s2(1) by (simp add: serving_def)
  have u: "\<forall>g \<in> user_metrics l. R' g = R g"
  proof
    fix g assume "g \<in> user_metrics l"
    then have "g \<notin> set (own_metrics l)" using mo by (auto simp: metrics_ok_def)
    then show "R' g = R g" unfolding R' by (rule store_values_user [OF mo])
  qed
  have a: "user_metrics l \<subseteq> all_metrics l" "set (own_metrics l) \<subseteq> all_metrics l" "{scrape_at l} \<subseteq> all_metrics l" "scrape_at l \<notin> user_metrics l"
    "scrape_at l \<notin> set (own_metrics l)" using mo by (auto simp: all_metrics_def metrics_ok_def)
  have sz: "entries_size w l R' (user_metrics l) + entries_size w l R' (set (own_metrics l)) +
      entries_size w l (R'(scrape_at l \<mapsto> d)) {scrape_at l} < psb_limit" if "dvalid d" for d
  proof -
    have "entries_size w l (R'(scrape_at l \<mapsto> d)) (user_metrics l) = entries_size w l R' (user_metrics l)"
      "entries_size w l (R'(scrape_at l \<mapsto> d)) (set (own_metrics l)) = entries_size w l R' (set (own_metrics l))"
      using a(4,5) by (intro entries_reading ballI; auto)+
    moreover have "numbers_ok l (R'(scrape_at l \<mapsto> d))"
      using stored_numbers [OF _ st(1), of l R] mo R' that by (simp add: metrics_ok_def numbers_ok_def)
    ultimately show ?thesis using serving_room [OF S, of "R'(scrape_at l \<mapsto> d)"] unfolding page_split [OF S] by simp
  qed
  have st2: "process_stats env w2 = Some (s, sys_upd (sys_of ws) w2)"
    using s2(3) by (intro process_stats_later [OF st(1)]) (simp add: w1_def sys_of_def)
  have "entries_size w2 l R' (user_metrics l) + entries_size w2 l R' (set (own_metrics l)) < psb_limit"
    using sz [OF dadd_valid [of dzero dzero]] entries_size_kept [OF k2 a(1), of R' R'] entries_size_kept [OF k2 a(2), of R' R'] by simp
  then obtain gs f3 w3 where 3: "scrape_order l gs"
    "load_collectors env (Some f2) (colls l) NULL (Some ''libprom_'') False 0 (keys (colls l)) w2 = Some (0, Some f3, w3)"
    "psb_ok (string_builder f3)" "content (string_builder f3) = entries_text w2 l R' gs" "serving env w3 l R'" "kept l w2 w3"
    by (rule load_both [OF s2(1) f2 st2 st(2) R' u])
  have gs: "set gs = user_metrics l \<union> set (own_metrics l)" "distinct gs"
    using 3(1) mo by (auto simp: scrape_order_def metrics_ok_def)
  obtain d where d: "scrape_seconds (os_clock env (ticks w)) (os_clock env (ticks w3)) = Some d" "dvalid d"
    by (rule scrape_seconds_defined [OF clock])
  let ?R = "R'(scrape_at l \<mapsto> d)"
  obtain w4 where 4: "time_scrape env (scrape_at l) ''libprom'' (os_clock env (ticks w)) w3 = Some w4" "serving env w4 l ?R" "kept l w3 w4"
    using time_scrape_ok [OF 3(5) d] by blast
  note k4 = kept_trans [OF k2 kept_trans [OF 3(6) 4(3)]]
  have c3: "content (string_builder f3) = entries_text w l ?R gs"
    using 3(4) entries_kept [OF k2, of gs R' ?R] gs(1) a by auto
  have "length (content (string_builder f3)) + entries_size w4 l ?R {scrape_at l} < psb_limit"
  proof -
    have "entries_size w4 l ?R {scrape_at l} = entries_size w l ?R {scrape_at l}" by (rule entries_size_kept [OF k4 a(3)]) simp
    moreover have "length (entries_text w l ?R gs) = entries_size w l R' (user_metrics l) + entries_size w l R' (set (own_metrics l))"
    proof -
      have "entries_size w l ?R (set gs) = entries_size w l R' (set gs)" using a(4,5) gs(1) by (intro entries_reading ballI) auto
      also have "\<dots> = entries_size w l R' (user_metrics l) + entries_size w l R' (set (own_metrics l))"
        unfolding gs(1) entries_size_def using serving_finite [OF S] mo by (intro sum.union_disjoint) (simp_all add: metrics_ok_def)
      finally show ?thesis using entries_length [OF gs(2), of w l ?R] by simp
    qed
    ultimately show ?thesis using sz [OF d(2)] c3 by simp
  qed
  then obtain f5 w5 where 5: "pmf_load_metric (Some f3) (scrape_at l) (Some ''libprom_'') False w4 = Some (0, Some f5, w5)"
    "appended f3 w4 (entries_text w4 l ?R [scrape_at l]) f5 w5"
    using load_scrape_ok [OF 4(2) 3(3)] by blast
  note s5 = serving_appended [OF 4(2) 5(2)]
  have t5: "content (string_builder f5) = entries_text w l ?R (gs @ [scrape_at l])"
  proof -
    have "entries_text w4 l ?R [scrape_at l] = entries_text w l ?R [scrape_at l]" by (rule entries_kept [OF k4]) (use a(3) in simp_all)
    then show ?thesis using 5(2) c3 by (simp add: appended_def entries_text_def)
  qed
  have m5: "mem_ok w5" "oom w5 = []" "psb_ok (string_builder f5)"
    using s5(1) appended_world(5) [OF 5(2)] by (auto simp: serving_def library_ok_def registry_wf_def)
  obtain b' where b': "psb_ok b'" "pmf_dump (Some f5) w5 = Some (brk w5, Some (f5\<lparr>string_builder := b'\<rparr>),
      w5\<lparr>brk := Suc (Suc (brk w5)), strs := (strs w5)(brk w5 \<mapsto> content (string_builder f5))\<rparr>)"
    using pmf_dump_ok [OF m5(3,2,1)] by blast
  define w6 where "w6 = w5\<lparr>brk := Suc (Suc (brk w5)), strs := (strs w5)(brk w5 \<mapsto> content (string_builder f5))\<rparr>"
  define w7 where "w7 = put_registry (self_at l) (p\<lparr>metric_formatter := Some (f5\<lparr>string_builder := b'\<rparr>)\<rparr>) w6"
  have fresh: "brk w5 \<noteq> NULL" "strs w5 (brk w5) = None" using mem_ok_brk_pos [OF m5(1)] mem_ok_fresh [OF m5(1)] by simp_all
  define w8 where "w8 = w5\<lparr>brk := Suc (Suc (brk w5))\<rparr>"
  have s6: "serving env w6 l ?R"
    using m5(1,2) by (intro serving_later(1) [OF s5(1)]) (auto simp: w6_def same_on_def mem_ok_store)
  have f7: "psb_ok (string_builder (f5\<lparr>string_builder := b'\<rparr>))" using b'(1) by simp
  have s7: "serving env w7 l ?R" unfolding w7_def by (rule serving_formatter [OF s6 r(2) p(3) f7])
  have s8: "serving env (put_registry (self_at l) (p\<lparr>metric_formatter := Some (f5\<lparr>string_builder := b'\<rparr>)\<rparr>) w8) l ?R"
    unfolding w8_def by (rule serving_formatter [OF serving_skip(1) [OF s5(1)] r(2) p(3) f7])
  have free: "w7\<lparr>strs := (strs w7)(brk w5 := None)\<rparr> =
      put_registry (self_at l) (p\<lparr>metric_formatter := Some (f5\<lparr>string_builder := b'\<rparr>)\<rparr>) w8"
    using fresh(2) by (simp add: w7_def w6_def w8_def put_registry_def fun_upd_idem)
  have "load_opt (mprefix p) w2 = Some (Some ''libprom_'')" using m2(3) pre(1) p(4) by (simp add: load_opt_def load_str_def)
  moreover have "has (features p) PROM_SCRAPETIME" "\<not> has (features p) PROM_SCRAPETIME_ALL" "\<not> has (features p) PROM_COMPACT"
    using default_features p(6) by simp_all
  moreover have "clock_gettime env w = (os_clock env (ticks w), w1)" by (simp add: clock_gettime_def w1_def)
  ultimately have run: "pcr_bridge env (self_at l) w = Some (brk w5, w7)"
    using p(1-3,5) f(1) cl 3(2) 4(1) 5(1) b'(2) sn
    by (simp add: pcr_bridge_def pmf_load_metrics_def w7_def w6_def)
  moreover have "strs w7 (brk w5) = Some (entries_text w l ?R (gs @ [scrape_at l]))" using t5 by (simp add: w7_def w6_def)
  ultimately show thesis using fresh(1) 3(1) d(2) s7 s8 [folded free] by (intro that)
qed

section \<open>The answer\<close>

text \<open>A GET of the metrics is answered with the text of the scrape, and the string is freed.\<close>

lemma handler_served:
  fixes h :: "'h http_scheme"
  assumes S: "serving env (prom h) l R" "PROM_ACTIVE_REGISTRY h = self_at l" and clock: "os_clock env (ticks (prom h)) \<noteq> None"
    and st: "process_stats env (prom h) = Some (s, ws)" "list_all (\<lambda>(what, counter, v). counter \<longrightarrow> \<not> dlt v dzero) (process_values env s)"
  obtains w d gs page where "promhttp_handler env m ''/metrics'' ''GET'' h =
      Some (fst (replied m 200 page), snd (replied m 200 page), h\<lparr>prom := w\<rparr>)" "scrape_order l gs" "dvalid d"
    "page = entries_text (prom h) l ((store_values (own_metrics l) (process_values env s) R)(scrape_at l \<mapsto> d)) (gs @ [scrape_at l])"
    "serving env w l ((store_values (own_metrics l) (process_values env s) R)(scrape_at l \<mapsto> d))"
proof -
  let ?R = "\<lambda>d. (store_values (own_metrics l) (process_values env s) R)(scrape_at l \<mapsto> d)"
  obtain a w' gs d where 1: "pcr_bridge env (self_at l) (prom h) = Some (a, w')" "a \<noteq> NULL" "scrape_order l gs" "dvalid d"
    "strs w' a = Some (entries_text (prom h) l (?R d) (gs @ [scrape_at l]))" "serving env w' l (?R d)"
    "serving env (w'\<lparr>strs := (strs w')(a := None)\<rparr>) l (?R d)"
    by (rule pcr_bridge_served [OF S(1) clock st refl])
  have "promhttp_handler env m ''/metrics'' ''GET'' h = (let page = entries_text (prom h) l (?R d) (gs @ [scrape_at l]) in
      Some (fst (replied m 200 page), snd (replied m 200 page), h\<lparr>prom := w'\<lparr>strs := (strs w')(a := None)\<rparr>\<rparr>))"
    using 1(1,2,5) S(2) by (simp add: promhttp_handler_def choose_body_def replied_def mhd_defs load_str_def free_str_def Let_def)
  then show thesis using 1(3,4,7) by (intro that) (simp_all add: Let_def)
qed

end
