(* ===== verification/RegistryServing.thy ===== *)
theory RegistryServing
  imports RegistryScrape MetricUse
begin

text \<open>
  A registry comes to be served: once \<open>pcr_default_init\<close> has set it up, and whatever gauges
  without labels are entered in its default collector.
\<close>

section \<open>Labels\<close>

lemma single_labels: "L' x = L x \<Longrightarrow> single_at w L' x m r = single_at w L x m r"
  by (simp add: single_at_def)

lemma singles_labels: "\<forall>x \<in> A. L' x = L x \<Longrightarrow> singles w L' A R = singles w L A R"
  unfolding singles_def by (intro arg_cong2 [where f = "(\<and>)"] ball_cong refl single_labels) simp

lemma user_labels:
  assumes "scrape_at l \<notin> G" shows "singles w (labels l) G R = singles w no_labels G R"
  using assms by (intro singles_labels) (auto simp: labels_def no_labels_def)

section \<open>Metrics that were never set\<close>

lemma none_owns:
  assumes "single_at w L x m None"
  shows "owned (msamples m) = {}" "slots_of w m = {}" "texts_of w m = {}"
proof -
  obtain ks where "metric_wf x w m ks" "map_count (msamples m) = 0"
    using assms by (auto simp: single_at_def split: prod.splits)
  then have m: "map_ok (msamples m) w" "keys_ok (msamples m)" "map_count (msamples m) = 0" by (simp_all add: metric_wf_def)
  show "owned (msamples m) = {}" by (rule empty_map(1) [OF m])
  show "slots_of w m = {}" using empty_map(2) [OF m] by (simp add: slots_of_def)
  then show "texts_of w m = {}" by (simp add: texts_of_def)
qed

lemma singles_none:
  assumes "\<forall>x \<in> A. single_at w L x (the (metrics w x)) None"
  shows "singles w L A Map.empty" "metric_strs w A = {}"
proof -
  note o = none_owns [OF bspec [OF assms]]
  then show "metric_strs w A = {}" by (simp add: metric_strs_def)
  show "singles w L A Map.empty" using assms o unfolding singles_def by (simp add: apart_def)
qed

lemma short_fits: "short m \<Longrightarrow> fits (mname m) None [] []" "short m \<Longrightarrow> fits (mname m) None [''collector''] [''libprom'']"
  by (simp_all add: short_def fits_def head_text_def labels_text_def label_text_def opt_str_def psb_limit_def)

lemma unset_single:
  assumes "metric_wf x w m ks" "map_count (msamples m) = 0" "mtype m \<noteq> PROM_HISTOGRAM" "x \<noteq> NULL" "x < brk w" "short m"
    and "L x = (ks, vs)" "label_set ks vs" "fits (mname m) None ks vs"
  shows "single_at w L x m None"
proof -
  have "map_ok (msamples m) w" "keys_ok (msamples m)" "metrics w x = Some m" using assms(1) by (simp_all add: metric_wf_def)
  then have "metric_reading w x ks vs = None" using empty_map(2) [of "msamples m" w] assms(2) by (simp add: metric_reading_def metric_slot_def)
  then show ?thesis using assms by (simp add: single_at_def)
qed

lemma made_single:
  assumes "made b w k g" "snd k \<noteq> PROM_HISTOGRAM" "L g = ([], [])"
  shows "single_at w L g (the (metrics w g)) None" "short (the (metrics w g))" "name_at w g = fst k" "mtype (the (metrics w g)) = snd k"
proof -
  obtain m where m: "g \<noteq> NULL" "g < brk w" "metrics w g = Some m" "mname m = fst k" "mtype m = snd k" "bare w g m" "short m"
    using assms(1) by (auto simp: made_def)
  show "single_at w L g (the (metrics w g)) None"
    using m assms(2,3) short_fits(1) [OF m(7)] by (auto intro: unset_single simp: bare_def)
  show "short (the (metrics w g))" "name_at w g = fst k" "mtype (the (metrics w g)) = snd k"
    using m by (simp_all add: name_at_def)
qed

lemma scrape_made_single:
  assumes "scrape_made b w g" "L g = ([''collector''], [''libprom''])"
  shows "single_at w L g (the (metrics w g)) None" "short (the (metrics w g))" "mtype (the (metrics w g)) = PROM_GAUGE"
proof -
  obtain m where m: "g \<noteq> NULL" "g < brk w" "metrics w g = Some m" "mtype m = PROM_GAUGE" "metric_wf g w m [''collector'']"
    "map_count (msamples m) = 0" "short m"
    using assms(1) by (auto simp: scrape_made_def)
  have "label_set [''collector''] [''libprom'']" by (simp add: label_set_def unquoted_def quote_def)
  then show "single_at w L g (the (metrics w g)) None"
    using m assms(2) short_fits(2) [OF m(7)] by (auto intro: unset_single)
  show "short (the (metrics w g))" "mtype (the (metrics w g)) = PROM_GAUGE" using m by simp_all
qed

section \<open>The default registry\<close>

text \<open>The default registry with the gauges \<open>G\<close> entered in it.\<close>

lemma registry_serves:
  fixes w w' :: "'z rworld"
  assumes D: "default_registry env w b self p cs d c ms" and e: "extends w w'" and r: "registry_wf w' self p cs d c' ms'" "keys_ok ms'"
    and c: "collect c' = collect c" "\<forall>y. y \<noteq> d \<longrightarrow> collectors w' y = collectors w y" "ppcs w' = ppcs w"
    and G: "gauges_ok w' G Map.empty" "G \<subseteq> {brk w..}" "lists w' ms' G" "\<forall>g \<in> G. short (the (metrics w' g))" "card G \<le> 100"
  obtains l where "serving env w' l Map.empty" "user_metrics l = G" "self_at l = self"
proof -
  obtain x gs where x: "lookup_map w cs = [''default'' \<mapsto> d, ''process'' \<mapsto> x]" "process_collector env w b x gs" "scrape_duration p \<notin> set gs"
    using D by (auto simp: default_registry_def)
  have p: "registry_wf w self p cs d c ms" "fresh_collector c ms w" "keys_ok cs" "load_opt (mprefix p) w = Some (Some ''libprom_'')"
    "scrape_made b w (scrape_duration p)" "features p = or PROM_PROCESS PROM_SCRAPETIME" "\<exists>f. metric_formatter p = Some f \<and> idle f"
    using D by (simp_all add: default_registry_def)
  obtain xms dir where xd: "process_at env w x xms dir gs" "list_all2 (made b w) ppc_kinds gs"
    by (rule process_collector_at [OF x(2)])
  have cc: "collect c = Prom_Collector_Metrics_Get" "collectors w d = Some c" "mem_ok w" "map_ok cs w"
    using p(1,2) by (simp_all add: fresh_collector_def registry_wf_def)
  obtain xc where xc: "collectors w x = Some xc" "collect xc = Ppc_Collect" "map_ok xms w" "dir \<noteq> NULL" "strs w dir = Some (fd_path env)"
    using xd(1) by (auto simp: process_at_def collector_at_def)
  then have "x \<noteq> d" using cc(1,2) by auto
  have same: "same_on A w w'" if "A \<subseteq> {..<brk w}" for A using extendsD(4) [OF e] that by (auto simp: same_on_def)
  have dir: "dir < brk w" using mem_ok_live [OF cc(3) xc(5)] by simp
  have pre: "mprefix p \<noteq> NULL" "strs w (mprefix p) = Some ''libprom_''" using p(4) by (auto simp: load_opt_def load_str_def split: if_splits)
  then have pb: "mprefix p < brk w" using mem_ok_live [OF cc(3)] by simp
  let ?l = "\<lparr>self_at = self, colls = cs, default_at = d, default_map = ms', process_addr = x, process_map = xms, dir_at = dir,
    prefix_at = mprefix p, user_metrics = G, own_metrics = gs, scrape_at = scrape_duration p\<rparr>"
  have so: "same_on (owned xms \<union> {dir}) w w'" using owned_old [OF xc(3) cc(3)] dir by (intro same) auto
  have xat: "process_at env w' x xms dir gs" using c(2,3) \<open>x \<noteq> d\<close> by (intro process_at_cong [OF xd(1) so]) simp_all
  have lcs: "lookup_map w' cs = [''default'' \<mapsto> d, ''process'' \<mapsto> x]"
    using x(1) lookup_map_cong [OF same [of "owned cs"]] owned_old [OF cc(4,3)] by auto
  have "pcr_ok ?l p" using p(6,7) by (auto simp: pcr_ok_def idle_def)
  then have lib: "library_ok env w' ?l"
    using r p(3) cc(1) c(1) lcs xat pre extendsD(4) [OF e] pb by (auto simp: library_ok_def same_on_def)
  have own: "list_all2 (made b w') ppc_kinds gs"
    using made_later [OF _ e] by (intro list.rel_mono_strong [OF xd(2)]) blast
  have sm: "scrape_made b w' (scrape_duration p)" by (rule scrape_made_later [OF p(5) e order_refl])
  have scr: "scrape_duration p < brk w" using p(5) by (simp add: scrape_made_def)
  have old: "g < brk w" if "g \<in> set gs" for g using process_members [OF x(2) that] by simp
  have L: "labels ?l g = ([], [])" if "g \<in> G \<union> set gs" for g using that scr G(2) x(3) by (fastforce simp: labels_def)
  have kinds: "snd k \<noteq> PROM_HISTOGRAM" if "k \<in> set ppc_kinds" for k
    using that by (auto simp: ppc_kinds_def kind_of_def split: prod.splits if_splits)
  have mk: "\<exists>k \<in> set ppc_kinds. made b w' k g" if "g \<in> set gs" for g
    using own that by (metis in_set_conv_nth list_all2_conv_all_nth)
  have user: "single_at w' (labels ?l) g (the (metrics w' g)) None" "mtype (the (metrics w' g)) = PROM_GAUGE" if "g \<in> G" for g
    using G(1) that single_labels [of "labels ?l" g no_labels w'] L [of g] by (simp_all add: gauges_ok_def gauge_single no_labels_def)
  have mine: "single_at w' (labels ?l) g (the (metrics w' g)) None" "short (the (metrics w' g))" if "g \<in> set gs" for g
    using made_single(1,2) [OF _ kinds, of b w' _ g "labels ?l"] mk [OF that] L [of g] that by blast+
  note scrape = scrape_made_single [OF sm, of "labels ?l"]
  have sl: "labels ?l (scrape_duration p) = ([''collector''], [''libprom''])" by (simp add: labels_def)
  have all: "\<forall>g \<in> all_metrics ?l. single_at w' (labels ?l) g (the (metrics w' g)) None \<and> short (the (metrics w' g))"
    using user(1) mine scrape(1,2) [OF sl] G(4) by (auto simp: all_metrics_def)
  then have one: "\<forall>g \<in> all_metrics ?l. single_at w' (labels ?l) g (the (metrics w' g)) None" by blast
  have k: "kinds_at w' gs" unfolding kinds_at_def
  proof (rule list.rel_mono_strong [OF own])
    fix k g assume "k \<in> set ppc_kinds" "g \<in> set gs" "made b w' k g"
    then show "name_at w' g = fst k \<and> mtype (the (metrics w' g)) = snd k"
      using made_single(3,4) [OF _ kinds, of b w' k g "labels ?l"] L [of g] by simp
  qed
  have dis: "G \<inter> set gs = {}" "scrape_duration p \<notin> G" using old scr G(2) by fastforce+
  have "metrics_ok w' ?l Map.empty"
    unfolding metrics_ok_def
    using singles_none [OF one] k dis x(3) G(3,5) all user(2) scrape(3) [OF sl] by (simp add: numbers_ok_def)
  then show thesis using lib by (intro that [of ?l]) (simp_all add: serving_def)
qed

section \<open>Collecting\<close>

text \<open>C4. A collection of the process collector stores in each of its 17 metrics the number read for it,
  and leaves every other metric of the registry, and all that is needed to serve it, as it was.\<close>

theorem ppc_collect_stores:
  fixes w :: "'z rworld"
  assumes "serving env w l R" "process_stats env w = Some (s, ws)"
    and "list_all (\<lambda>(what, counter, v). counter \<longrightarrow> \<not> dlt v dzero) (process_values env s)"
  shows "\<exists>w'. ppc_collect env (process_addr l) w = Some (Some (process_map l), w') \<and>
    serving env w' l (store_values (own_metrics l) (process_values env s) R)"
proof -
  have x: "process_at env w (process_addr l) (process_map l) (dir_at l) (own_metrics l)" "singles w (labels l) (all_metrics l) R"
    "kinds_at w (own_metrics l)" "scrape_at l \<notin> set (own_metrics l)" "numbers_ok l R"
    using assms(1) by (simp_all add: serving_def library_ok_def metrics_ok_def)
  have own: "set (own_metrics l) \<subseteq> all_metrics l" "\<forall>g \<in> set (own_metrics l). labels l g = ([], [])"
    using x(4) by (auto simp: all_metrics_def labels_def)
  obtain w' where 1: "ppc_collect env (process_addr l) w = Some (Some (process_map l), w')"
    "singles w' (labels l) (all_metrics l) (store_values (own_metrics l) (process_values env s) R)"
    "metrics_only (all_metrics l) (sys_upd (sys_of ws) w) w'"
    using ppc_collect_ok [OF x(1,2) own(1) x(3) own(2) assms(2,3)] by blast
  have "numbers_ok l (store_values (own_metrics l) (process_values env s) R)" by (rule stored_numbers [OF x(5) assms(2)])
  from serving_metrics(1) [OF serving_sys(1) [OF assms(1)] 1(3,2) this] 1(1) show ?thesis by blast
qed

text \<open>A system on which the files of the process open and read as empty, and whose clock stands still.\<close>

definition quiet_os :: "os \<Rightarrow> os" where
  "quiet_os env = env\<lparr>os_open := \<lambda>_. 3, os_pread := \<lambda>_. Some [], os_clock := \<lambda>_. Some (0, 0)\<rparr>"

lemma quiet_stats:
  obtains ws where "process_stats (quiet_os env) w = Some (None, ws)"
    "list_all (\<lambda>(what, counter, v). counter \<longrightarrow> \<not> dlt v dzero) (process_values (quiet_os env) None)"
proof -
  have "sscanf [] stat_format = Some (-1, [])" by code_simp
  then have "process_stats (quiet_os env) w = Some (None, sys_conf (quiet_os env) w)"
    by (simp add: process_stats_def fill_stats_def quiet_os_def comm_fits_def)
  moreover have "list_all (\<lambda>(what, counter, v). counter \<longrightarrow> \<not> dlt v dzero) (process_values (quiet_os env) None)"
    by (auto simp: process_values_def no_stats_values_def list_all_iff)
  ultimately show thesis by (rule that)
qed

theorem ppc_collect_stores_witness:
  "\<forall>env. \<exists>l w w'. pcr_default_init (quiet_os env) gauge_rworld = Some (0, w) \<and>
    ppc_collect (quiet_os env) (process_addr l) w = Some (Some (process_map l), w') \<and> length (own_metrics l) = 17 \<and>
    serving (quiet_os env) w' l (store_values (own_metrics l) (process_values (quiet_os env) None) Map.empty)"
proof
  fix env
  let ?env = "quiet_os env"
  have "os_open ?env (stat_path ?env) \<noteq> -1" by (simp add: quiet_os_def)
  then obtain self p cs d c ms and w :: rmem where 1: "pcr_default_init ?env gauge_rworld = Some (0, w)"
    "default_registry ?env w (brk gauge_rworld) self p cs d c ms"
    by (rule pcr_default_init_ok [OF gauge_rworld_ok(1-3)])
  have r: "registry_wf w self p cs d c ms" "keys_ok ms" "lookup_map w ms = Map.empty" "mem_ok w" "oom w = []"
    using 1(2) by (simp_all add: default_registry_def fresh_collector_def registry_wf_def)
  have g: "gauges_ok w {} Map.empty" "lists w ms {}" using r(3) by (simp_all add: gauges_ok_def lists_def catalog_def)
  obtain l where l: "serving ?env w l Map.empty"
    by (rule registry_serves [OF 1(2) extends_refl [OF r(4,5)] r(1,2) refl _ refl g(1) _ g(2)]) auto
  obtain ws where "process_stats ?env w = Some (None, ws)"
    "list_all (\<lambda>(what, counter, v). counter \<longrightarrow> \<not> dlt v dzero) (process_values ?env None)" by (rule quiet_stats)
  note c = ppc_collect_stores [OF l this]
  have "list_all2 (\<lambda>k g. name_at w g = fst k \<and> mtype (the (metrics w g)) = snd k) ppc_kinds (own_metrics l)"
    using l by (simp add: serving_def metrics_ok_def kinds_at_def)
  from list_all2_lengthD [OF this] have "length (own_metrics l) = 17" by (simp add: ppc_kinds_def stats_metrics_def)
  then show "\<exists>l w w'. pcr_default_init ?env gauge_rworld = Some (0, w) \<and>
    ppc_collect ?env (process_addr l) w = Some (Some (process_map l), w') \<and> length (own_metrics l) = 17 \<and>
    serving ?env w' l (store_values (own_metrics l) (process_values ?env None) Map.empty)"
    using 1(1) c by blast
qed

end
