(* ===== verification/MonitorScrape.thy ===== *)
theory MonitorScrape
  imports MonitorUse RegistryServing
begin

text \<open>
  The monitor and its library together: \<open>init_metrics\<close> registers the gauges it made with the
  default registry, the rounds keep that registry fit to be served, and a GET of the metrics is
  answered with the numbers of the last round.
\<close>

section \<open>Rounds leave the registry serving\<close>

text \<open>A monitor whose required gauges are the metrics of the default collector.\<close>

definition monitor_serving :: "os \<Rightarrow> monitor \<Rightarrow> library \<Rightarrow> (addr \<Rightarrow> double option) \<Rightarrow> bool" where
  "monitor_serving env h l R \<longleftrightarrow> monitor_ok h R \<and> serving env (prom h) l R \<and> user_metrics l = set (required_metrics h) \<and>
     PROM_ACTIVE_REGISTRY h = self_at l"

lemma cpu_valid: "get_cpu_usage f t = Some (u, t') \<Longrightarrow> dvalid u"
proof -
  assume u: "get_cpu_usage f t = Some (u, t')"
  have m: "dvalid minus_one" by (simp add: minus_one_def d_one_def)
  have p: "dvalid v" if "cpu_percent t x = Some v" for x v
    using that by (auto simp: cpu_percent_def Let_def valid_ops split: if_splits)
  show ?thesis
  proof (cases "u = minus_one")
    case False
    then obtain x where "cpu_percent t x = Some u"
      using u unfolding get_cpu_usage_def by (fastforce simp: bind_Some_iff split: option.splits prod.splits)
    then show ?thesis by (rule p)
  qed (simp add: m)
qed

text \<open>What the readers return are doubles, for gauges that are required.\<close>

lemma readers_valid:
  "get_cpu_usage f t = Some (u, t') \<Longrightarrow> dvalid u"
  "get_memory_usage f = Some (Some us) \<Longrightarrow> u \<in> set us \<Longrightarrow> dvalid u"
  "get_disk_usage f = Some (Some us) \<Longrightarrow> u \<in> set us \<Longrightarrow> dvalid u"
  "get_network_usage f = Some (Some us) \<Longrightarrow> u \<in> set us \<Longrightarrow> dvalid u"
  "get_processes_usage e tmp = Some (Some us, tmp') \<Longrightarrow> u \<in> set us \<Longrightarrow> dvalid u"
proof -
  show "get_cpu_usage f t = Some (u, t') \<Longrightarrow> dvalid u"
    by (rule cpu_valid)
  show "get_memory_usage f = Some (Some us) \<Longrightarrow> u \<in> set us \<Longrightarrow> dvalid u"
    by (auto simp: get_memory_usage_def Let_def bind_Some_iff valid_ops split: option.splits if_splits)
  show "get_disk_usage f = Some (Some us) \<Longrightarrow> u \<in> set us \<Longrightarrow> dvalid u"
    by (auto simp: get_disk_usage_def Let_def bind_Some_iff valid_ops split: option.splits if_splits)
  show "get_network_usage f = Some (Some us) \<Longrightarrow> u \<in> set us \<Longrightarrow> dvalid u"
    by (auto simp: get_network_usage_def Let_def bind_Some_iff valid_ops split: option.splits if_splits)
  show "get_processes_usage e tmp = Some (Some us, tmp') \<Longrightarrow> u \<in> set us \<Longrightarrow> dvalid u"
    by (auto simp: get_processes_usage_def Let_def bind_Some_iff valid_ops split: option.splits if_splits prod.splits)
qed

lemma group_readings_in:
  assumes "(g, v) \<in> set (group_readings gs usage)" obtains us where "usage = Some (Some us)" "v \<in> set us" "g \<in> set gs"
  using assms that by (auto simp: group_readings_def split: option.splits dest: set_zip_leftD set_zip_rightD)

lemma round_readings_in:
  assumes "(g, v) \<in> set (round_readings mach h)" shows "dvalid v" "g \<in> set (required_metrics h)"
proof -
  have c: "dvalid v \<and> g = cpu_usage_metric h" if "(g, v) \<in> set (cpu_readings mach h)"
    using that cpu_valid [of "stat_file mach" "prev_times h" v] by (auto simp: cpu_readings_def eq_commute [of "Some _"] split: option.splits if_splits)
  have "dvalid v \<and> g \<in> set (required_metrics h)"
    using assms required_group [of h] c
    by (auto simp: round_readings_def elim!: group_readings_in intro: readers_valid split: if_splits)
  then show "dvalid v" "g \<in> set (required_metrics h)" by simp_all
qed

section \<open>A round\<close>

lemma all_split: "all_metrics l = user_metrics l \<union> (set (own_metrics l) \<union> {scrape_at l})"
  by (auto simp: all_metrics_def)

lemma round_serves:
  assumes S: "monitor_serving env h l R" and up: "update_round env mach h = Some h'" "same_setup h h'"
    and ok: "monitor_ok h' (R ++ map_of (rev (round_readings mach h)))"
  shows "monitor_serving env h' l (R ++ map_of (rev (round_readings mach h)))" "kept l (prom h) (prom h')" "sys_of (prom h') = sys_of (prom h)"
proof -
  let ?R = "R ++ map_of (rev (round_readings mach h))" and ?U = "user_metrics l"
  let ?S = "set (own_metrics l) \<union> {scrape_at l}"
  have s: "serving env (prom h) l R" "?U = set (required_metrics h)" using S by (simp_all add: monitor_serving_def)
  then have mo: "metrics_ok (prom h) l R" by (simp add: serving_def)
  have d: "?U \<inter> ?S = {}" "scrape_at l \<notin> ?U" using mo by (auto simp: metrics_ok_def)
  have f: "metrics_only ?U (prom h) (prom h')" "required_metrics h' = required_metrics h" "PROM_ACTIVE_REGISTRY h' = PROM_ACTIVE_REGISTRY h"
    using up(2) s(2) by (simp_all add: same_setup_def)
  have all: "singles (prom h) (labels l) (?U \<union> ?S) R" using mo by (simp add: metrics_ok_def all_split)
  have m: "mem_ok (prom h)" "oom (prom h) = []" using s(1) by (auto simp: serving_def library_ok_def registry_wf_def)
  then have m': "mem_ok (prom h')" "oom (prom h') = []" using f(1) by (simp_all add: metrics_only_def)
  have G: "singles (prom h') (labels l) ?U ?R"
    using ok d(2) s(2) f(2) by (simp add: monitor_ok_def gauges_singles user_labels)
  note fr = singles_frame_rule [OF all d(1) f(1) G m']
  have out: "map_of (rev (round_readings mach h)) x = None" if "x \<notin> ?U" for x
    using that round_readings_in(2) s(2) by (auto simp: map_of_eq_None_iff)
  have R: "singles (prom h') (labels l) (all_metrics l) ?R"
    unfolding all_split using out by (intro singles_cong [OF fr(1)]) (auto simp: map_add_def)
  have "numbers_ok l ?R"
    using mo round_readings_in(1) by (fastforce simp: numbers_ok_def metrics_ok_def map_add_Some_iff dest: map_of_SomeD)
  note k = serving_metrics [OF s(1) fr(2) [folded all_split] R this]
  show "monitor_serving env h' l ?R" using k(1) ok s(2) f(2,3) S by (simp add: monitor_serving_def)
  show "kept l (prom h) (prom h')" by (rule k(2))
  show "sys_of (prom h') = sys_of (prom h)" by (rule metrics_only_more(3) [OF f(1)])
qed

text \<open>The gauges of a state that serves.\<close>

lemma served_gauges:
  assumes "serving env w l R" shows "gauges_ok w (user_metrics l) R"
proof -
  have "metrics_ok w l R" using assms by (simp add: serving_def)
  then show ?thesis using user_singles [OF assms] user_labels [of l "user_metrics l" w R]
    by (simp add: gauges_singles metrics_ok_def)
qed

lemma scrape_serves:
  assumes S: "monitor_serving env h l R" and clock: "os_clock env (ticks (prom h)) \<noteq> None"
    and st: "process_stats env (prom h) = Some (s, ws)" "list_all (\<lambda>(what, counter, v). counter \<longrightarrow> \<not> dlt v dzero) (process_values env s)"
  obtains w d gs page where "promhttp_handler env m ''/metrics'' ''GET'' h =
      Some (fst (replied m 200 page), snd (replied m 200 page), h\<lparr>prom := w\<rparr>)" "scrape_order l gs" "dvalid d"
    "page = entries_text (prom h) l ((store_values (own_metrics l) (process_values env s) R)(scrape_at l \<mapsto> d)) (gs @ [scrape_at l])"
    "monitor_serving env (h\<lparr>prom := w\<rparr>) l ((store_values (own_metrics l) (process_values env s) R)(scrape_at l \<mapsto> d))"
proof -
  have s: "serving env (prom h) l R" "PROM_ACTIVE_REGISTRY h = self_at l" "user_metrics l = set (required_metrics h)" "monitor_ok h R"
    using S by (simp_all add: monitor_serving_def)
  obtain w d gs page where 1: "promhttp_handler env m ''/metrics'' ''GET'' h =
      Some (fst (replied m 200 page), snd (replied m 200 page), h\<lparr>prom := w\<rparr>)" "scrape_order l gs" "dvalid d"
    "page = entries_text (prom h) l ((store_values (own_metrics l) (process_values env s) R)(scrape_at l \<mapsto> d)) (gs @ [scrape_at l])"
    "serving env w l ((store_values (own_metrics l) (process_values env s) R)(scrape_at l \<mapsto> d))"
    by (rule handler_served [OF s(1,2) clock st])
  have "monitor_serving env (h\<lparr>prom := w\<rparr>) l ((store_values (own_metrics l) (process_values env s) R)(scrape_at l \<mapsto> d))"
    using 1(5) s served_gauges [OF 1(5)] by (simp add: monitor_serving_def monitor_ok_def)
  then show thesis by (rule that [OF 1(1-4)])
qed

text \<open>The numbers after a scrape: those of the process, and the time the scrape took.\<close>

definition scraped :: "library \<Rightarrow> (proc_metric \<times> bool \<times> double) list \<Rightarrow> double \<Rightarrow> (addr \<Rightarrow> double option) \<Rightarrow> addr \<Rightarrow> double option" where
  "scraped l vs d R = (store_values (own_metrics l) vs R)(scrape_at l \<mapsto> d)"

text \<open>C2. After a round, a GET of the metrics is answered with status 200 and a page that shows each required
  gauge with the number the round read for it (the number of an earlier round, or no sample, where the reader failed),
  each of the 17 metrics of the process with the number collected for this scrape, and the time of the scrape, every metric once;
  afterwards the monitor is as ready for the next round and the next scrape as before.\<close>

theorem round_served:
  assumes "monitor_serving env h l R" "readable mach h" "process_readable env (prom h)" "\<forall>n. os_clock env n \<noteq> None"
  shows "\<exists>h' w s t d gs page. let R' = scraped l (process_values env s) d (R ++ map_of (rev (round_readings mach h))) in
    update_round env mach h = Some h' \<and> process_stats env (prom h) = Some (s, t) \<and> scrape_order l gs \<and>
    page = entries_text (prom h) l R' (gs @ [scrape_at l]) \<and>
    promhttp_handler env m ''/metrics'' ''GET'' h' = Some (fst (replied m 200 page), snd (replied m 200 page), h'\<lparr>prom := w\<rparr>) \<and>
    monitor_serving env (h'\<lparr>prom := w\<rparr>) l R'"
proof -
  let ?R = "R ++ map_of (rev (round_readings mach h))"
  have ok: "monitor_ok h R" using assms(1) by (simp add: monitor_serving_def)
  obtain h' where 1: "update_round env mach h = Some h'" "same_setup h h'" "monitor_ok h' ?R"
    using update_round_ok [OF ok assms(2), of env] by (auto simp: updates_to_def)
  note k = round_serves [OF assms(1) 1]
  obtain s t where s: "process_stats env (prom h) = Some (s, t)"
    "list_all (\<lambda>(what, counter, v). counter \<longrightarrow> \<not> dlt v dzero) (process_values env s)"
    using assms(3) by (auto simp: process_readable_def)
  note s' = process_stats_later [OF s(1) k(3)]
  obtain w d gs page where 2: "promhttp_handler env m ''/metrics'' ''GET'' h' =
      Some (fst (replied m 200 page), snd (replied m 200 page), h'\<lparr>prom := w\<rparr>)" "scrape_order l gs"
    "page = entries_text (prom h') l ((store_values (own_metrics l) (process_values env s) ?R)(scrape_at l \<mapsto> d)) (gs @ [scrape_at l])"
    "monitor_serving env (h'\<lparr>prom := w\<rparr>) l ((store_values (own_metrics l) (process_values env s) ?R)(scrape_at l \<mapsto> d))"
    by (rule scrape_serves [OF k(1) spec [OF assms(4)] s' s(2)])
  have "set (gs @ [scrape_at l]) \<subseteq> all_metrics l" using 2(2) by (auto simp: scrape_order_def all_metrics_def)
  then have "page = entries_text (prom h) l (scraped l (process_values env s) d ?R) (gs @ [scrape_at l])"
    unfolding 2(3) scraped_def by (intro entries_kept [OF k(2)]) simp_all
  then show ?thesis using 1(1) s(1) 2(1,2) 2(4) [folded scraped_def] unfolding Let_def by blast
qed

section \<open>Registering the gauges\<close>

text \<open>What entering metrics in the default collector at \<open>d\<close> leaves alone.\<close>

definition entered :: "addr \<Rightarrow> pmap \<Rightarrow> 'z rworld \<Rightarrow> pmap \<Rightarrow> 'z rworld \<Rightarrow> bool" where
  "entered d ms w ms' w' \<longleftrightarrow> map_frame ms w ms' w' \<and> objects w' = objects w \<and>
     (\<forall>y. y \<noteq> d \<longrightarrow> collectors w' y = collectors w y) \<and> ppcs w' = ppcs w"

lemma entered_trans: "entered d ms u ms1 v \<Longrightarrow> entered d ms1 v ms2 w \<Longrightarrow> entered d ms u ms2 w"
  unfolding entered_def using map_frame_trans [of ms u ms1 v ms2 w] by simp

lemma register_gauge:
  fixes w :: "'z rworld"
  assumes reg: "registry_wf w self p cs d c ms" "keys_ok ms" and g: "metrics w g = Some m" "g \<noteq> NULL"
    and room: "map_count ms < map_limit" and new: "catalog w ms (name_at w g) = None"
  obtains w' c' ms' where "pcr_must_register_metric g w = Some (Return g, w')" "registry_wf w' self p cs d c' ms'" "keys_ok ms'"
    "entered d ms w ms' w'" "catalog w' ms' = (catalog w ms)(name_at w g \<mapsto> g)" "map_count ms' \<le> map_count ms + 1" "collect c' = collect c"
proof -
  have n: "mname m \<notin> dom (catalog w ms)" "name_at w g = mname m" using new g(1) by (auto simp: name_at_def)
  obtain w' c' ms' where 1: "pcr_register_metric g w = Some (if mname m \<in> dom (catalog w ms) then 1 else 0, w')"
    "registry_wf w' self p cs d c' ms'" "objects w' = objects w"
    "catalog w' ms' = (if mname m \<in> dom (catalog w ms) then catalog w ms else (catalog w ms)(mname m \<mapsto> g))"
    "map_frame ms w ms' w'" "map_count ms' \<le> map_count ms + 1" "keys_ok ms \<longrightarrow> keys_ok ms'" "collect c' = collect c"
    "\<forall>y. y \<noteq> d \<longrightarrow> collectors w' y = collectors w y" "ppcs w' = ppcs w"
    by (rule register_metric_ok [OF reg(1) g room])
  have "pcr_must_register_metric g w = Some (Return g, w')" using 1(1) n(1) by (simp add: pcr_must_register_metric_def)
  moreover have "entered d ms w ms' w'" using 1(3,5,9,10) by (simp add: entered_def)
  ultimately show thesis using 1(2,4,6-8) reg(2) n by (intro that [of w' c' ms']) simp_all
qed

lemma register_all_ok:
  fixes w :: rmem
  assumes "registry_wf w self p cs d c ms" "keys_ok ms" "\<forall>g \<in> set gs. g \<noteq> NULL \<and> metrics w g \<noteq> None"
    "map_count ms + length gs \<le> map_limit" "distinct (map (name_at w) gs)" "\<forall>g \<in> set gs. catalog w ms (name_at w g) = None"
  shows "\<exists>w' c' ms'. register_all gs w = Some (Return EXIT_SUCCESS, w') \<and> registry_wf w' self p cs d c' ms' \<and> keys_ok ms' \<and>
    entered d ms w ms' w' \<and> collect c' = collect c \<and> catalog w' ms' = catalog w ms ++ map_of (zip (map (name_at w) gs) gs)"
  using assms
proof (induction gs arbitrary: w c ms)
  case Nil
  then have "entered d ms w ms w" by (simp add: entered_def map_frame_def registry_wf_def)
  then show ?case using Nil by auto
next
  case (Cons g gs)
  obtain m where m: "metrics w g = Some m" "g \<noteq> NULL" using Cons.prems(3) by auto
  have room: "map_count ms < map_limit" and new: "catalog w ms (name_at w g) = None"
    using Cons.prems(4,6) by simp_all
  obtain w1 c1 ms1 where 1: "pcr_must_register_metric g w = Some (Return g, w1)" "registry_wf w1 self p cs d c1 ms1" "keys_ok ms1"
    "entered d ms w ms1 w1" "catalog w1 ms1 = (catalog w ms)(name_at w g \<mapsto> g)" "map_count ms1 \<le> map_count ms + 1" "collect c1 = collect c"
    by (rule register_gauge [OF Cons.prems(1,2) m room new])
  have o: "metrics w1 = metrics w" using objectsD [of w1 w] 1(4) by (simp add: entered_def)
  then have n: "name_at w1 = name_at w" by (simp add: name_at_def fun_eq_iff)
  have "\<forall>g \<in> set gs. g \<noteq> NULL \<and> metrics w1 g \<noteq> None" "map_count ms1 + length gs \<le> map_limit" "distinct (map (name_at w1) gs)"
    "\<forall>x \<in> set gs. catalog w1 ms1 (name_at w1 x) = None"
    using Cons.prems(3-6) 1(5,6) n o by (auto simp: image_iff)
  from Cons.IH [OF 1(2,3) this] obtain w' c' ms' where 2: "register_all gs w1 = Some (Return EXIT_SUCCESS, w')"
    "registry_wf w' self p cs d c' ms'" "keys_ok ms'" "entered d ms1 w1 ms' w'"
    "collect c' = collect c1" "catalog w' ms' = catalog w1 ms1 ++ map_of (zip (map (name_at w1) gs) gs)" by blast
  have run: "register_all (g # gs) w = Some (Return EXIT_SUCCESS, w')" using 1(1) 2(1) m(2) by simp
  have "name_at w g \<notin> dom (map_of (zip (map (name_at w) gs) gs))"
    using Cons.prems(5) by (simp add: dom_map_of_zip)
  then have cat: "catalog w' ms' = catalog w ms ++ map_of (zip (map (name_at w) (g # gs)) (g # gs))"
    using 2(6) 1(5) n by (simp add: map_add_upd_left)
  have e: "entered d ms w ms' w'" "collect c' = collect c" using entered_trans [OF 1(4) 2(4)] 2(5) 1(7) by simp_all
  show ?case by (intro exI conjI) (rule run, rule 2(2), rule 2(3), rule e(1), rule e(2), rule cat)
qed

section \<open>Initialisation\<close>

lemma required_names: "distinct (map fst (required_gauges h))" "length (required_gauges h) \<le> map_limit"
proof -
  have all: "map fst (required_gauges h) = (if required 1 h then [''cpu_usage_percentage''] else []) @
    (if required 2 h then map fst memory_gauges else []) @ (if required 3 h then map fst disk_gauges else []) @
    (if required 4 h then map fst network_gauges else []) @ (if required 5 h then map fst processes_gauges else [])"
    by (simp add: required_gauges_def groups_def)
  have "distinct (''cpu_usage_percentage'' # map fst memory_gauges @ map fst disk_gauges @ map fst network_gauges @ map fst processes_gauges)"
    by (simp add: memory_gauges_def disk_gauges_def network_gauges_def processes_gauges_def)
  then show "distinct (map fst (required_gauges h))" unfolding all by auto
  have "length (map fst (required_gauges h)) \<le> 15"
    unfolding all by (simp add: memory_gauges_def disk_gauges_def network_gauges_def processes_gauges_def)
  then show "length (required_gauges h) \<le> map_limit" by (simp add: map_limit_def)
qed

lemma required_short: "list_all (\<lambda>d. length (fst d) \<le> 100 \<and> length (snd d) \<le> 100) (required_gauges h)"
  by (simp add: required_gauges_def groups_def memory_gauges_def disk_gauges_def network_gauges_def processes_gauges_def)

lemma required_few: "length (required_gauges h) \<le> 15"
  by (simp add: required_gauges_def groups_def memory_gauges_def disk_gauges_def network_gauges_def processes_gauges_def)

lemma named_at: "list_all2 (gauge_named w) gs ds \<Longrightarrow> map (name_at w) gs = map fst ds"
  by (induction rule: list_all2_induct) (auto simp: gauge_named_def name_at_def)

lemma named_short:
  assumes "list_all2 (gauge_named w) gs ds" "list_all (\<lambda>d. length (fst d) \<le> 100 \<and> length (snd d) \<le> 100) ds" "g \<in> set gs"
  shows "short (the (metrics w g))"
  using assms by (induction rule: list_all2_induct) (auto simp: gauge_named_def short_def)

lemma adds_extends: "adds w w' \<Longrightarrow> extends w w'"
  by (simp add: adds_def extends_def)

lemma adds_registry:
  fixes w w' :: "'z rworld"
  assumes "adds w w'" "registry_wf w self p cs d c ms" shows "registry_wf w' self p cs d c ms"
proof -
  have r: "mem_ok w" "map_ok cs w" "map_ok ms w" using assms(2) by (simp_all add: registry_wf_def)
  have a: "mem_ok w'" "oom w' = []" "\<forall>a < brk w. strs w' a = strs w a" "mmem.more w' = mmem.more w" using assms(1) by (simp_all add: adds_def)
  have k: "map_ok m w' \<and> lookup_map w' m = lookup_map w m" if "map_ok m w" for m
  proof -
    have "same_on (owned m) w w'" using owned_old [OF that r(1)] a(3) by (auto simp: same_on_def)
    then show ?thesis using map_ok_cong [OF that] lookup_map_cong by blast
  qed
  have "collectors w' = collectors w" "registries w' = registries w" "PROM_COLLECTOR_REGISTRY w' = PROM_COLLECTOR_REGISTRY w"
    using a(4) by (cases w; cases w'; simp)+
  then show ?thesis using assms(2) k [OF r(2)] k [OF r(3)] a(1,2) by (simp add: registry_wf_def)
qed

text \<open>The monitor as the program starts it.\<close>

definition unset :: "os \<Rightarrow> monitor \<Rightarrow> bool" where
  "unset env h \<longleftrightarrow> mem_ok (prom h) \<and> oom (prom h) = [] \<and> PROM_COLLECTOR_REGISTRY (prom h) = NULL \<and>
     length (g_status h) = G_STATUS_N_METRICS_TRACKED \<and> os_open env (stat_path env) \<noteq> -1"

lemma init_metrics_ok:
  assumes "unset env h"
  obtains h' l where "init_metrics env True h = Some (Return EXIT_SUCCESS, h')"
    "monitor_serving env (promhttp_set_active_collector_registry NULL h') l Map.empty" "config h' = config h"
    "prev_times h' = prev_times h" "temp_file h' = temp_file h" "map (name_at (prom h')) (required_metrics h') = map fst (required_gauges h)"
proof -
  have u: "mem_ok (prom h)" "oom (prom h) = []" "PROM_COLLECTOR_REGISTRY (prom h) = NULL" "length (g_status h) = G_STATUS_N_METRICS_TRACKED"
    "os_open env (stat_path env) \<noteq> -1" using assms by (simp_all add: unset_def)
  obtain self p cs d c ms w where 1: "pcr_default_init env (prom h) = Some (0, w)" "default_registry env w (brk (prom h)) self p cs d c ms"
    by (rule pcr_default_init_ok [OF u(1-3,5)])
  have reg: "registry_wf w self p cs d c ms" "fresh_collector c ms w" using 1(2) by (simp_all add: default_registry_def)
  define h1 where "h1 = h\<lparr>lock := Free, prom := w\<rparr>"
  have s1: "set_up h1" using reg(1) u(4) by (simp add: set_up_def h1_def registry_wf_def)
  obtain h2 where 2: "make_groups groups h1 = Some (True, h2)" "monitor_ok h2 Map.empty" "config h2 = config h1"
    "prev_times h2 = prev_times h1" "temp_file h2 = temp_file h1"
    "adds (prom h1) (prom h2)" "fresh_gauges (prom h2) (brk (prom h1)) (required_metrics h2) (required_gauges h1)"
    using make_groups_ok [OF s1] by blast
  let ?gs = "required_metrics h2"
  have a: "adds w (prom h2)" using 2(6) by (simp add: h1_def)
  have r2: "registry_wf (prom h2) self p cs d c ms" by (rule adds_registry [OF a reg(1)])
  have f2: "fresh_collector c ms (prom h2)" using reg(2) by (rule fresh_anywhere)
  then have ms: "keys_ok ms" "map_count ms = 0" "catalog (prom h2) ms = Map.empty" "owned ms = {}"
    by (simp_all add: fresh_collector_def catalog_def)
  have G: "gauges_ok (prom h2) (set ?gs) Map.empty" using 2(2) by (simp add: monitor_ok_def)
  then have nn: "\<forall>g \<in> set ?gs. g \<noteq> NULL \<and> metrics (prom h2) g \<noteq> None" by (auto simp: gauges_ok_def gauge_at_def metric_wf_def)
  have named: "list_all2 (gauge_named (prom h2)) ?gs (required_gauges h1)" "set ?gs \<subseteq> {brk w..<brk (prom h2)}"
    using 2(7) by (simp_all add: fresh_gauges_def h1_def)
  have n: "map (name_at (prom h2)) ?gs = map fst (required_gauges h1)" by (rule named_at [OF named(1)])
  have len: "length ?gs \<le> 15" using list_all2_lengthD [OF named(1)] required_few by simp
  have d: "distinct (map (name_at (prom h2)) ?gs)" unfolding n by (rule required_names(1))
  have "map_count ms + length ?gs \<le> map_limit" using ms(2) len by (simp add: map_limit_def)
  then obtain w3 c3 ms3 where 3: "register_all ?gs (prom h2) = Some (Return EXIT_SUCCESS, w3)" "registry_wf w3 self p cs d c3 ms3"
    "keys_ok ms3" "entered d ms (prom h2) ms3 w3" "collect c3 = collect c"
    "catalog w3 ms3 = catalog (prom h2) ms ++ map_of (zip (map (name_at (prom h2)) ?gs) ?gs)"
    using register_all_ok [OF r2 ms(1) nn _ d] ms(3) by auto
  have e3: "extends (prom h2) w3" "objects w3 = objects (prom h2)"
    using extends_frame [of ms "prom h2" ms3 w3] 3(4) ms(4) by (simp_all add: entered_def)
  have e: "extends w w3" by (rule extends_trans [OF adds_extends [OF a] e3(1)])
  have o: "name_at w3 = name_at (prom h2)" "metrics w3 = metrics (prom h2)" "samples w3 = samples (prom h2)"
    using objectsD [OF e3(2)] by (simp_all add: name_at_def fun_eq_iff)
  have data: "collectors (prom h2) = collectors w" "ppcs (prom h2) = ppcs w"
    using a beyond_more [of "prom h2" w] by (simp_all add: adds_def beyond_def)
  have G3: "gauges_ok w3 (set ?gs) Map.empty"
    using extendsD(1-4) [OF e3(1)] o by (intro gauges_ok_later [OF G]) (auto simp: same_on_def)
  have "lists w3 ms3 (set ?gs)" using 3(6) ms(3) d by (intro lists_zip) (simp_all add: o)
  moreover have "\<forall>g \<in> set ?gs. short (the (metrics w3 g))" using named_short [OF named(1) required_short] o(2) by simp
  moreover have "card (set ?gs) \<le> 100" using card_length [of ?gs] len by simp
  moreover have "set ?gs \<subseteq> {brk w..}" using named(2) by auto
  moreover have "\<forall>y. y \<noteq> d \<longrightarrow> collectors w3 y = collectors w y" "ppcs w3 = ppcs w" using 3(4) data by (simp_all add: entered_def)
  ultimately obtain l where l: "serving env w3 l Map.empty" "user_metrics l = set ?gs" "self_at l = self"
    using registry_serves [OF 1(2) e 3(2,3,5) _ _ G3] by blast
  define h3 where "h3 = h2\<lparr>prom := w3\<rparr>"
  have rm: "required_metrics h3 = ?gs" by (simp add: h3_def)
  have run: "init_metrics env True h = Some (Return EXIT_SUCCESS, h3)"
    using 1(1) 2(1) 3(1) by (simp add: init_metrics_def h1_def h3_def)
  have "monitor_ok h3 Map.empty" using 2(2) G3 rm by (simp add: monitor_ok_def h3_def)
  moreover have "PROM_COLLECTOR_REGISTRY w3 = self" using 3(2) by (simp add: registry_wf_def)
  ultimately have ok: "monitor_serving env (promhttp_set_active_collector_registry NULL h3) l Map.empty"
    using l rm by (simp add: monitor_serving_def monitor_ok_def promhttp_set_active_collector_registry_def h3_def
        required_metrics_def required_def)
  have "required_gauges h1 = required_gauges h" by (simp add: required_gauges_def required_def h1_def)
  then show thesis using run ok 2(3-5) n o(1) rm by (intro that [of h3 l]) (simp_all add: h1_def h3_def)
qed

text \<open>C3. Setting up the monitor, while memory is available and the statistics of the process can be opened,
  yields a registry that can be served, whose default collector holds exactly the required gauges, each under its name and
  without a sample, and a monitor ready for its rounds.\<close>

theorem init_metrics_serves:
  assumes "unset env h"
  shows "\<exists>h' l. init_metrics env True h = Some (Return EXIT_SUCCESS, h') \<and>
    monitor_serving env (promhttp_set_active_collector_registry NULL h') l Map.empty \<and> config h' = config h \<and>
    map (name_at (prom h')) (required_metrics h') = map fst (required_gauges h)"
  using init_metrics_ok [OF assms] by metis

section \<open>Witnesses\<close>

lemma bare_unset: "unset (quiet_os env) (bare_monitor cfg)"
  using gauge_rworld_ok by (simp add: unset_def bare_monitor_simps quiet_os_def)

theorem init_metrics_serves_witness:
  "\<forall>env. \<exists>h' l. init_metrics (quiet_os env) True (bare_monitor JSON_ENTRIES_DEF_VAL) = Some (Return EXIT_SUCCESS, h') \<and>
    monitor_serving (quiet_os env) (promhttp_set_active_collector_registry NULL h') l Map.empty \<and> length (required_metrics h') = 15"
proof
  fix env
  have "length (required_gauges (bare_monitor JSON_ENTRIES_DEF_VAL)) = 15"
    by (simp add: required_gauges_def groups_def required_def bare_monitor_simps JSON_ENTRIES_DEF_VAL_def memory_gauges_def
        disk_gauges_def network_gauges_def processes_gauges_def)
  then show "\<exists>h' l. init_metrics (quiet_os env) True (bare_monitor JSON_ENTRIES_DEF_VAL) = Some (Return EXIT_SUCCESS, h') \<and>
    monitor_serving (quiet_os env) (promhttp_set_active_collector_registry NULL h') l Map.empty \<and> length (required_metrics h') = 15"
    using init_metrics_serves [OF bare_unset, of env JSON_ENTRIES_DEF_VAL] by (metis length_map)
qed

text \<open>A monitor of the memory is set up, reads it once, and is scraped.\<close>

theorem round_served_witness:
  "\<forall>env. \<exists>h h' w l gs d page p. init_metrics (quiet_os env) True (bare_monitor [1, 0, 1, 0, 0, 0]) = Some (Return EXIT_SUCCESS, h) \<and>
    update_round (quiet_os env) idle_machine (promhttp_set_active_collector_registry NULL h) = Some h' \<and>
    promhttp_handler (quiet_os env) willing ''/metrics'' ''GET'' h' = Some (1, Some (200, page), h'\<lparr>prom := w\<rparr>) \<and>
    scrape_order l gs \<and> user_metrics l = set (memory_metrics h) \<and>
    page = entries_text (prom h) l (scraped l (process_values (quiet_os env) None) d
      (map_of (rev (zip (memory_metrics h) [d_of_nat 8000, d_of_nat 2000, d_of_nat 6000, p])))) (gs @ [scrape_at l])"
proof
  fix env0 :: os
  let ?env = "quiet_os env0"
  obtain h l where h: "init_metrics ?env True (bare_monitor [1, 0, 1, 0, 0, 0]) = Some (Return EXIT_SUCCESS, h)"
    "monitor_serving ?env (promhttp_set_active_collector_registry NULL h) l Map.empty" "config h = config (bare_monitor [1, 0, 1, 0, 0, 0])"
    "prev_times h = prev_times (bare_monitor [1, 0, 1, 0, 0, 0])" "temp_file h = temp_file (bare_monitor [1, 0, 1, 0, 0, 0])"
    by (rule init_metrics_ok [OF bare_unset])
  let ?h = "promhttp_set_active_collector_registry NULL h"
  have same: "prom ?h = prom h" "memory_metrics ?h = memory_metrics h" "config ?h = config h" "temp_file ?h = temp_file h"
    by (simp_all add: promhttp_set_active_collector_registry_def)
  obtain p where p: "get_memory_usage (Some meminfo) = Some (Some [d_of_nat 8000, d_of_nat 2000, d_of_nat 6000, p])"
    "is_fin p" "0 \<le> dval p" "dval p \<le> 100" by (rule meminfo_reads)
  have r: "required 2 ?h" "\<not> required 1 ?h" "\<not> required 3 ?h" "\<not> required 4 ?h" "\<not> required 5 ?h"
    using h(3) same by (simp_all add: required_def bare_monitor_simps)
  obtain b where "d_to_uchar p = Some b" by (rule percent_byte [OF p(2-4)])
  then have rd: "readable idle_machine ?h" using r p(1) by (simp add: readable_def idle_machine_def)
  let ?vs = "[d_of_nat 8000, d_of_nat 2000, d_of_nat 6000, p]"
  have rr: "round_readings idle_machine ?h = zip (memory_metrics h) ?vs"
    using r p(1) same by (simp add: round_readings_def group_readings_def idle_machine_def)
  have rm: "required_metrics ?h = memory_metrics h" using r same by (simp add: required_metrics_def)
  obtain ws where s: "process_stats ?env (prom ?h) = Some (None, ws)"
    "list_all (\<lambda>(what, counter, v). counter \<longrightarrow> \<not> dlt v dzero) (process_values ?env None)" by (rule quiet_stats)
  then have pr: "process_readable ?env (prom ?h)" by (auto simp: process_readable_def)
  have "\<forall>n. os_clock ?env n \<noteq> None" by (simp add: quiet_os_def)
  from round_served [OF h(2) rd pr this, of willing] obtain h' w d gs page where
    1: "update_round ?env idle_machine ?h = Some h'" "scrape_order l gs"
    "page = entries_text (prom h) l (scraped l (process_values ?env None) d (map_of (rev (zip (memory_metrics h) ?vs)))) (gs @ [scrape_at l])"
    "promhttp_handler ?env willing ''/metrics'' ''GET'' h' = Some (fst (replied willing 200 page), snd (replied willing 200 page), h'\<lparr>prom := w\<rparr>)"
    using s(1) by (auto simp: Let_def rr same)
  have "replied willing 200 page = (1, Some (200, page))" by (simp add: replied_def willing_def mhd_defs)
  moreover have "user_metrics l = set (memory_metrics h)" using h(2) rm by (simp add: monitor_serving_def)
  ultimately show "\<exists>h h' w l gs d page p. init_metrics ?env True (bare_monitor [1, 0, 1, 0, 0, 0]) = Some (Return EXIT_SUCCESS, h) \<and>
    update_round ?env idle_machine (promhttp_set_active_collector_registry NULL h) = Some h' \<and>
    promhttp_handler ?env willing ''/metrics'' ''GET'' h' = Some (1, Some (200, page), h'\<lparr>prom := w\<rparr>) \<and>
    scrape_order l gs \<and> user_metrics l = set (memory_metrics h) \<and>
    page = entries_text (prom h) l (scraped l (process_values ?env None) d
      (map_of (rev (zip (memory_metrics h) [d_of_nat 8000, d_of_nat 2000, d_of_nat 6000, p])))) (gs @ [scrape_at l])"
    using h(1) 1 by auto
qed

end
