(* ===== verification/Log.thy ===== *)
theory Log
  imports CMem
begin

text \<open>
  \<open>lib/prom/src/prom_log.c\<close>: the level below which messages are dropped, the stream they go
  to, and the line that is written. The streams and descriptors of \<open>stdio\<close> are the record
  \<open>stdio\<close>, what its calls return. A message is given as the text its format expands to.
\<close>

section \<open>Levels\<close>

datatype log_level = PLL_NONE | PLL_DBG | PLL_INFO | PLL_WARN | PLL_ERR | PLL_FATAL

fun level_index :: "log_level \<Rightarrow> int" where
  "level_index PLL_NONE = 0" | "level_index PLL_DBG = 1" | "level_index PLL_INFO = 2" | "level_index PLL_WARN = 3"
| "level_index PLL_ERR = 4" | "level_index PLL_FATAL = 5"

definition PLL_COUNT :: int where
  "PLL_COUNT = 6"

lemma level_index_inj [simp]: "level_index l = level_index k \<longleftrightarrow> l = k"
  by (cases l; cases k) simp_all

text \<open>Levels are compared by their numbers.\<close>

instantiation log_level :: linorder
begin

definition less_eq_log_level :: "log_level \<Rightarrow> log_level \<Rightarrow> bool" where
  "less_eq_log_level l k \<longleftrightarrow> level_index l \<le> level_index k"

definition less_log_level :: "log_level \<Rightarrow> log_level \<Rightarrow> bool" where
  "less_log_level l k \<longleftrightarrow> level_index l < level_index k"

instance
  by standard (auto simp: less_eq_log_level_def less_log_level_def simp flip: level_index_inj)

end

lemmas level_order = less_eq_log_level_def less_log_level_def

text \<open>The conversion of an \<open>int\<close> from 0 to 5 to the enumeration.\<close>

definition level_of :: "int \<Rightarrow> log_level" where
  "level_of c = (if c = 1 then PLL_DBG else if c = 2 then PLL_INFO else if c = 3 then PLL_WARN
     else if c = 4 then PLL_ERR else if c = 5 then PLL_FATAL else PLL_NONE)"

fun LVL_TXT :: "log_level \<Rightarrow> string" where
  "LVL_TXT PLL_NONE = ''''" | "LVL_TXT PLL_DBG = ''DEBUG''" | "LVL_TXT PLL_INFO = ''INFO''" | "LVL_TXT PLL_WARN = ''WARN''"
| "LVL_TXT PLL_ERR = ''ERROR''" | "LVL_TXT PLL_FATAL = ''FATAL''"

text \<open>\<open>strncmp\<close> of two terminated strings.\<close>

definition strncmp :: "string \<Rightarrow> string \<Rightarrow> nat \<Rightarrow> int" where
  "strncmp s t n = strcmp (take n s) (take n t)"

definition prom_log_level_parse :: "string option \<Rightarrow> log_level" where
  "prom_log_level_parse level = (case level of None \<Rightarrow> PLL_NONE
     | Some level \<Rightarrow>
         if length level = 1 then let c = of_char (level ! 0) - 48 in
           if 0 < c \<and> c < PLL_COUNT then level_of c else PLL_NONE
         else if strncmp ''DEBUG'' level 6 = 0 then PLL_DBG
         else if strncmp ''INFO'' level 5 = 0 then PLL_INFO
         else if strncmp ''WARN'' level 5 = 0 then PLL_WARN
         else if strncmp ''ERROR'' level 6 = 0 then PLL_ERR
         else if strncmp ''FATAL'' level 6 = 0 then PLL_FATAL
         else PLL_NONE)"

section \<open>State\<close>

text \<open>The static variables, what has been written to which stream, and the descriptors closed.\<close>

record log =
  stream :: addr
  stream_fd :: int
  lvl :: log_level
  written :: "(addr \<times> string) list"
  closed :: "int list"

record stdio =
  stderr_file :: addr
  fileno :: "addr \<Rightarrow> int"
  dup :: "int \<Rightarrow> int"
  fdopen :: "int \<Rightarrow> addr"

definition log_start :: log where
  "log_start = \<lparr>stream = NULL, stream_fd = -1, lvl = PLL_NONE, written = [], closed = []\<rparr>"

definition prom_log_level :: "log_level \<Rightarrow> log \<Rightarrow> log_level \<times> log" where
  "prom_log_level level l = (if level = PLL_NONE then (lvl l, l) else (lvl l, l\<lparr>lvl := level\<rparr>))"

definition prom_log_use :: "stdio \<Rightarrow> addr \<Rightarrow> log \<Rightarrow> addr \<times> log" where
  "prom_log_use io dst l = (if dst = NULL then (NULL, l)
     else let fdold = fileno io dst in
     if fdold = -1 then (NULL, l)
     else let fdnew = dup io fdold in
     if fdnew = -1 then (NULL, l)
     else let fnew = fdopen io fdnew in
     if fnew = NULL then (NULL, l\<lparr>closed := closed l @ [fdnew]\<rparr>)
     else (stream l, l\<lparr>stream := fnew, stream_fd := fdnew\<rparr>))"

section \<open>A message\<close>

definition MAX_MSG_LEN :: nat where
  "MAX_MSG_LEN = 1024"

text \<open>
  The bytes the two calls of \<open>snprintf\<close> put into the buffer, the terminator included. The
  second gets what the first left of \<open>MAX_MSG_LEN - 2\<close>.
\<close>

definition log_bytes :: "string \<Rightarrow> string \<Rightarrow> string" where
  "log_bytes level_text msg = level_text @ take (MAX_MSG_LEN - 2 - length level_text - 1) msg @ [CHR 0x00]"

text \<open>\<open>fwrite\<close> of \<open>slen\<close> bytes; None when it reads bytes that were never set.\<close>

definition log_write :: "nat \<Rightarrow> string \<Rightarrow> log \<Rightarrow> log option" where
  "log_write slen buf l = (if slen \<le> length buf
     then Some (l\<lparr>written := written l @ [(stream l, take slen buf @ [CHR 0x0A])]\<rparr>) else None)"

definition first_level :: "string option \<Rightarrow> log_level" where
  "first_level PROM_LOG_LEVEL = (let p = prom_log_level_parse PROM_LOG_LEVEL in if p = PLL_NONE then PLL_INFO else p)"

text \<open>
  \<open>snprintf\<close> returns the length of the whole text, whether it fits or not, and \<open>slen\<close> is the
  sum of two such results.
\<close>

definition prom_log :: "stdio \<Rightarrow> string option \<Rightarrow> log_level \<Rightarrow> string \<Rightarrow> log \<Rightarrow> log option" where
  "prom_log io PROM_LOG_LEVEL level msg l = (let
       l = (if lvl l = PLL_NONE then l\<lparr>lvl := first_level PROM_LOG_LEVEL\<rparr> else l) in
     if level < lvl l then Some l
     else let l = (if stream l = NULL then l\<lparr>stream := stderr_file io\<rparr> else l);
       level_text = LVL_TXT level @ '': '' in
       log_write (length level_text + length msg) (log_bytes level_text msg) l)"

section \<open>What is logged\<close>

lemma strncmp_iff: "length s < n \<Longrightarrow> strncmp s t n = 0 \<longleftrightarrow> s = t"
  by (cases "length t < n") (auto simp: strncmp_def)

lemma level_of_char: "(of_char c - 48 :: int) = k \<longleftrightarrow> c = char_of (k + 48)" if "0 \<le> k" "k < 6"
proof -
  have "(of_char (char_of (k + 48) :: char) :: int) = k + 48" using that by (simp add: of_char_of)
  then show ?thesis using char_of_char [of c] by (metis add_diff_cancel_right' diff_add_cancel)
qed

text \<open>A level is read from exactly its name or its number: every other text gives no level.\<close>

theorem log_level_parse_iff:
  "prom_log_level_parse (Some s) = l \<and> l \<noteq> PLL_NONE \<longleftrightarrow>
     l \<noteq> PLL_NONE \<and> (s = LVL_TXT l \<or> s = [char_of (level_index l + 48)])"
proof (cases "length s = 1")
  case True
  then obtain c where c: "s = [c]" by (cases s) auto
  show ?thesis using level_of_char [of 1 c] level_of_char [of 2 c] level_of_char [of 3 c]
      level_of_char [of 4 c] level_of_char [of 5 c]
    by (cases l) (auto simp: c prom_log_level_parse_def level_of_def PLL_COUNT_def Let_def)
next
  case False
  then show ?thesis by (cases l) (auto simp: prom_log_level_parse_def strncmp_iff)
qed

definition threshold :: "string option \<Rightarrow> log \<Rightarrow> log_level" where
  "threshold PROM_LOG_LEVEL l = (if lvl l = PLL_NONE then first_level PROM_LOG_LEVEL else lvl l)"

lemma first_level_set: "first_level e \<noteq> PLL_NONE"
  by (simp add: first_level_def Let_def)

text \<open>A message is written iff its level reaches the threshold, as one line on the stream in use;
  whatever happens, the threshold is the same for the next message.\<close>

theorem prom_log_line:
  assumes "length (LVL_TXT level) + length msg \<le> 1019"
  shows "\<exists>l'. prom_log io e level msg l = Some l' \<and> lvl l' = threshold e l \<and> threshold e' l' = threshold e l \<and>
    written l' = written l @ (if level < threshold e l then []
      else [(if stream l = NULL then stderr_file io else stream l, LVL_TXT level @ '': '' @ msg @ [CHR 0x0A])])"
  using assms first_level_set [of e]
  by (auto simp: prom_log_def threshold_def log_write_def log_bytes_def MAX_MSG_LEN_def Let_def)

theorem prom_log_line_witness:
  "\<exists>l'. prom_log \<lparr>stderr_file = 2, fileno = (\<lambda>f. 2), dup = (\<lambda>f. 3), fdopen = (\<lambda>f. 9)\<rparr> (Some ''3'') PLL_ERR ''disk'' log_start = Some l' \<and>
    lvl l' = PLL_WARN \<and> written l' = [(2, ''ERROR: disk'' @ [CHR 0x0A])]"
  using prom_log_line [of PLL_ERR "''disk''" "\<lparr>stderr_file = 2, fileno = (\<lambda>f. 2), dup = (\<lambda>f. 3), fdopen = (\<lambda>f. 9)\<rparr>" "Some ''3''" log_start None]
  by (auto simp: threshold_def first_level_def prom_log_level_parse_def PLL_COUNT_def level_of_def log_start_def level_order)

text \<open>C40. Logging is undefined for a long message that is not dropped: the length taken for the line
  is that of the untruncated text, and more bytes are written than the buffer was given.\<close>

theorem prom_log_defined_iff:
  "prom_log io e level msg l \<noteq> None \<longleftrightarrow> level < threshold e l \<or> length (LVL_TXT level) + length msg \<le> 1020"
proof -
  have "length (LVL_TXT level) \<le> 5" by (cases level) simp_all
  then show ?thesis
    by (auto simp: prom_log_def threshold_def log_write_def log_bytes_def MAX_MSG_LEN_def Let_def)
qed

end
