(* ===== verification/SampleThreads.thy ===== *)
theory SampleThreads
  imports MetricSample
begin

text \<open>
  \<open>lib/prom/src/prom_metric_sample.c\<close>, concurrently: \<open>pms_add\<close>, \<open>pms_sub\<close> and
  \<open>pms_set\<close> are called without a lock by any number of threads on one sample. Here each call
  takes its atomic steps, with those of the other calls in between, on the heap of
  \<open>MetricSample\<close>; the properties relate the interleavings to the sequential operations.
\<close>

section \<open>The steps of a call\<close>

text \<open>
  A call is about to start, is inside the loop of \<open>pms_add\<close> or \<open>pms_sub\<close> with its local
  \<open>old\<close>, or has returned a code.
\<close>

datatype pms_call = Pms_Add double | Pms_Sub double | Pms_Set double

datatype pms_thread = Called pms_call | Looping pms_call double | Returned int

definition put_value :: "addr \<Rightarrow> pms \<Rightarrow> double \<Rightarrow> smem \<Rightarrow> smem" where
  "put_value self s v w = w\<lparr>samples := (samples w)(self \<mapsto> s\<lparr>r_value := v\<rparr>)\<rparr>"

text \<open>
  One step: the tests of the arguments up to and with the \<open>atomic_load\<close> or
  \<open>atomic_store\<close>, or one \<open>atomic_compare_exchange_weak\<close>, which compares representations,
  may fail without a reason (\<open>spurious\<close>), and loads the current value into \<open>old\<close> when it
  fails. \<open>None\<close>: the call has returned, or it prints its warning, which is undefined.
\<close>

fun pms_step :: "bool \<Rightarrow> addr \<Rightarrow> bool \<Rightarrow> pms_thread \<Rightarrow> smem \<Rightarrow> (pms_thread \<times> smem) option" where
  "pms_step warn self spurious (Called (Pms_Add r)) w = do {
     s \<leftarrow> samples w self;
     if dlt r dzero then Some (Returned 1, w)
     else Some (Looping (Pms_Add r) (r_value s), w) }"
| "pms_step warn self spurious (Called (Pms_Sub r)) w = do {
     s \<leftarrow> samples w self;
     if stype s \<noteq> PROM_GAUGE then (if warn then None else Some (Returned 1, w))
     else Some (Looping (Pms_Sub r) (r_value s), w) }"
| "pms_step warn self spurious (Called (Pms_Set r)) w = do {
     s \<leftarrow> samples w self;
     if stype s \<noteq> PROM_GAUGE \<and> (stype s \<noteq> PROM_COUNTER \<or> dlt r dzero)
     then (if warn then None else Some (Returned 1, w))
     else Some (Returned 0, put_value self s r w) }"
| "pms_step warn self spurious (Looping (Pms_Add r) old) w = do {
     s \<leftarrow> samples w self;
     if spurious \<or> r_value s \<noteq> old then Some (Looping (Pms_Add r) (r_value s), w)
     else Some (Returned 0, put_value self s (dadd old r) w) }"
| "pms_step warn self spurious (Looping (Pms_Sub r) old) w = do {
     s \<leftarrow> samples w self;
     if spurious \<or> r_value s \<noteq> old then Some (Looping (Pms_Sub r) (r_value s), w)
     else Some (Returned 0, put_value self s (dsub old r) w) }"
| "pms_step warn self spurious (Looping (Pms_Set r) old) w = None"
| "pms_step warn self spurious (Returned e) w = None"

section \<open>Interleavings\<close>

text \<open>
  The calls are numbered; a thread that makes several calls makes them under several numbers.
  \<open>order\<close> is a ghost: the calls in the order in which they returned.
\<close>

record calls_state =
  heap :: smem
  threads :: "nat \<Rightarrow> pms_thread"
  order :: "nat list"

fun returned :: "pms_thread \<Rightarrow> bool" where
  "returned (Returned e) = True"
| "returned _ = False"

inductive cas_step :: "bool \<Rightarrow> addr \<Rightarrow> nat \<Rightarrow> bool \<Rightarrow> calls_state \<Rightarrow> calls_state \<Rightarrow> bool" for warn self where
  cas_stepI: "pms_step warn self spurious (threads c t) (heap c) = Some (th, w) \<Longrightarrow>
    cas_step warn self t spurious c \<lparr>heap = w, threads = (threads c)(t := th),
      order = order c @ (if returned th then [t] else [])\<rparr>"

inductive_cases cas_stepE: "cas_step warn self t spurious c c'"

inductive cas_run :: "bool \<Rightarrow> addr \<Rightarrow> calls_state \<Rightarrow> calls_state \<Rightarrow> bool" for warn self c where
  run_refl: "cas_run warn self c c"
| run_step: "cas_run warn self c c1 \<Longrightarrow> cas_step warn self t spurious c1 c2 \<Longrightarrow> cas_run warn self c c2"

text \<open>\<open>n\<close> steps of calls of \<open>T\<close> in which no exchange fails without a reason.\<close>

inductive cas_quiet :: "bool \<Rightarrow> addr \<Rightarrow> nat set \<Rightarrow> nat \<Rightarrow> calls_state \<Rightarrow> calls_state \<Rightarrow> bool" for warn self T where
  quiet_refl: "cas_quiet warn self T 0 c c"
| quiet_step: "cas_quiet warn self T n c c1 \<Longrightarrow> t \<in> T \<Longrightarrow> cas_step warn self t False c1 c2 \<Longrightarrow>
    cas_quiet warn self T (Suc n) c c2"

definition calls_start :: "(nat \<Rightarrow> pms_call) \<Rightarrow> smem \<Rightarrow> calls_state" where
  "calls_start prog w = \<lparr>heap = w, threads = (\<lambda>t. Called (prog t)), order = []\<rparr>"

text \<open>The sequential operations, one after the other, with the codes they return.\<close>

fun pms_do :: "bool \<Rightarrow> addr \<Rightarrow> pms_call \<Rightarrow> smem \<Rightarrow> (int \<times> smem) option" where
  "pms_do warn self (Pms_Add r) w = pms_add self r w"
| "pms_do warn self (Pms_Sub r) w = pms_sub warn self r w"
| "pms_do warn self (Pms_Set r) w = pms_set warn self r w"

fun pms_do_all :: "bool \<Rightarrow> addr \<Rightarrow> pms_call list \<Rightarrow> smem \<Rightarrow> (int list \<times> smem) option" where
  "pms_do_all warn self [] w = Some ([], w)"
| "pms_do_all warn self (op # ops) w = do {
     (e, w) \<leftarrow> pms_do warn self op w;
     (es, w) \<leftarrow> pms_do_all warn self ops w;
     Some (e # es, w) }"

lemma pms_do_all_snoc:
  "pms_do_all warn self (ops @ [op]) w = do {
     (es, w) \<leftarrow> pms_do_all warn self ops w;
     (e, w) \<leftarrow> pms_do warn self op w;
     Some (es @ [e], w) }"
  by (induction ops arbitrary: w) (auto split: Option.bind_splits)

section \<open>Each interleaving is a sequence of the sequential operations\<close>

text \<open>A step that does not return leaves the heap; one that returns does the whole operation.\<close>

fun call_of :: "pms_thread \<Rightarrow> pms_call option" where
  "call_of (Called op) = Some op"
| "call_of (Looping op old) = (case op of Pms_Set _ \<Rightarrow> None | _ \<Rightarrow> Some op)"
| "call_of (Returned e) = None"

text \<open>A call that entered its loop has passed the tests of its arguments.\<close>

fun passed :: "pms \<Rightarrow> pms_thread \<Rightarrow> bool" where
  "passed s (Looping (Pms_Add r) old) = (\<not> dlt r dzero)"
| "passed s (Looping (Pms_Sub r) old) = (stype s = PROM_GAUGE)"
| "passed s (Looping (Pms_Set r) old) = False"
| "passed s _ = True"

lemma pms_step_cases:
  assumes "pms_step warn self spurious th w = Some (th', w')" "samples w self = Some s" "passed s th"
  obtains (loop) op where "call_of th = Some op" "th' = Looping op (r_value s)" "w' = w" "passed s th'"
      "call_of th' = Some op"
    | (ret) op e where "call_of th = Some op" "th' = Returned e" "pms_do warn self op w = Some (e, w')"
  using assms
  by (cases "(warn, self, spurious, th, w)" rule: pms_step.cases)
    (auto simp: pms_add_def pms_sub_def pms_set_def put_value_def split: if_splits)

lemma pms_do_sample:
  assumes "pms_do warn self op w = Some (e, w')" "samples w self = Some s"
  shows "\<exists>s'. samples w' self = Some s' \<and> stype s' = stype s"
  using assms by (cases op) (auto simp: pms_add_def pms_sub_def pms_set_def split: if_splits)

lemma passed_stype: "passed s th \<Longrightarrow> stype s' = stype s \<Longrightarrow> passed s' th"
  by (cases "(s, th)" rule: passed.cases) auto

text \<open>The invariant: the heap and the codes are those of the sequential operations in the order
  of the returns.\<close>

definition calls_inv :: "bool \<Rightarrow> addr \<Rightarrow> (nat \<Rightarrow> pms_call) \<Rightarrow> smem \<Rightarrow> calls_state \<Rightarrow> bool" where
  "calls_inv warn self prog w c \<longleftrightarrow>
     (\<exists>s. samples (heap c) self = Some s \<and> (\<forall>t. passed s (threads c t))) \<and>
     (\<exists>es. pms_do_all warn self (map prog (order c)) w = Some (es, heap c) \<and>
        list_all2 (\<lambda>t e. threads c t = Returned e) (order c) es) \<and>
     distinct (order c) \<and> (\<forall>t. returned (threads c t) \<longleftrightarrow> t \<in> set (order c)) \<and>
     (\<forall>t op. call_of (threads c t) = Some op \<longrightarrow> op = prog t)"

lemma calls_inv_start: "samples w self \<noteq> None \<Longrightarrow> calls_inv warn self prog w (calls_start prog w)"
  by (auto simp: calls_inv_def calls_start_def)

lemma call_of_not_returned: "call_of th = Some op \<Longrightarrow> \<not> returned th"
  by (cases th) auto

lemma calls_inv_step:
  assumes "calls_inv warn self prog w c" "cas_step warn self t spurious c c'"
  shows "calls_inv warn self prog w c'"
proof -
  obtain s es where s: "samples (heap c) self = Some s" "\<And>t. passed s (threads c t)"
    and es: "pms_do_all warn self (map prog (order c)) w = Some (es, heap c)"
      "list_all2 (\<lambda>t e. threads c t = Returned e) (order c) es"
    and d: "distinct (order c)" "\<And>t. returned (threads c t) \<longleftrightarrow> t \<in> set (order c)"
    and prog: "\<And>t op. call_of (threads c t) = Some op \<Longrightarrow> op = prog t"
    using assms(1) unfolding calls_inv_def by blast
  obtain th w' where st: "pms_step warn self spurious (threads c t) (heap c) = Some (th, w')"
    and c': "c' = \<lparr>heap = w', threads = (threads c)(t := th), order = order c @ (if returned th then [t] else [])\<rparr>"
    using assms(2) by (elim cas_stepE)
  have others: "list_all2 (\<lambda>u e. ((threads c)(t := th)) u = Returned e) (order c) es" if "t \<notin> set (order c)"
    using es(2) that by (auto simp: list_all2_conv_all_nth in_set_conv_nth)
  from st s(1) s(2) [of t] show ?thesis
  proof (cases rule: pms_step_cases)
    case (loop op)
    then have "t \<notin> set (order c)" using d(2) call_of_not_returned by blast
    then show ?thesis using loop s es d prog others
      by (auto simp: calls_inv_def c')
  next
    case (ret op e)
    then have new: "t \<notin> set (order c)" and op: "op = prog t" using d(2) prog call_of_not_returned by blast+
    obtain s' where "samples w' self = Some s'" "stype s' = stype s" using pms_do_sample [OF ret(3) s(1)] by blast
    moreover have "pms_do_all warn self (map prog (order c @ [t])) w = Some (es @ [e], w')"
      using es(1) ret(3) op by (simp add: pms_do_all_snoc)
    moreover have "list_all2 (\<lambda>u e. ((threads c)(t := th)) u = Returned e) (order c @ [t]) (es @ [e])"
      using others [OF new] ret(2) by (intro list_all2_appendI) auto
    moreover have "passed s' (threads c u)" for u
      using passed_stype [OF s(2)] \<open>stype s' = stype s\<close> .
    ultimately show ?thesis using ret new s d prog
      by (auto simp: calls_inv_def c')
  qed
qed

lemma calls_inv_run:
  "cas_run warn self c c' \<Longrightarrow> calls_inv warn self prog w c \<Longrightarrow> calls_inv warn self prog w c'"
  by (induction rule: cas_run.induct) (auto intro: calls_inv_step)

lemma order_grows: "cas_run warn self c c' \<Longrightarrow> \<exists>later. order c' = order c @ later"
proof (induction rule: cas_run.induct)
  case (run_step c1 t spurious c2)
  from run_step.hyps(2) show ?case using run_step.IH by (elim cas_stepE) auto
qed simp

lemma quiet_run: "cas_quiet warn self T n c c' \<Longrightarrow> cas_run warn self c c'"
  by (induction rule: cas_quiet.induct) (auto intro: cas_run.intros)

text \<open>Non-negative amounts: the interleaving is the sequence of additions.\<close>

lemma pms_do_all_adds:
  assumes "\<forall>t \<in> set ts. \<not> dlt (r t) dzero" "samples w self \<noteq> None"
    and "pms_do_all warn self (map (\<lambda>t. Pms_Add (r t)) ts) w = Some (es, w')"
  shows "es = replicate (length ts) 0 \<and> add_each self (map r ts) w = Some w'"
  using assms
proof (induction ts arbitrary: w es)
  case (Cons t ts)
  then obtain e w1 es' where 1: "pms_add self (r t) w = Some (e, w1)" "es = e # es'"
      "pms_do_all warn self (map (\<lambda>t. Pms_Add (r t)) ts) w1 = Some (es', w')"
    by (auto split: Option.bind_splits)
  have 2: "e = 0" "samples w1 self \<noteq> None"
    using 1(1) Cons.prems(1) by (auto simp: pms_add_def split: Option.bind_splits)
  have "es' = replicate (length ts) 0 \<and> add_each self (map r ts) w1 = Some w'"
    using Cons.IH [OF _ 2(2) 1(3)] Cons.prems(1) by simp
  then show ?case using 1(1,2) 2(1) by simp
qed simp

section \<open>Without spurious failures every call returns\<close>

text \<open>
  The steps a call still needs if no other call changes the value \<open>v\<close>; each change costs
  every other pending call at most one more.
\<close>

fun owed :: "double \<Rightarrow> pms_thread \<Rightarrow> nat" where
  "owed v (Called op) = 2"
| "owed v (Looping op old) = (if old = v then 1 else 2)"
| "owed v (Returned e) = 0"

definition pending :: "nat set \<Rightarrow> calls_state \<Rightarrow> nat set" where
  "pending T c = {t \<in> T. \<not> returned (threads c t)}"

definition effort :: "addr \<Rightarrow> nat set \<Rightarrow> calls_state \<Rightarrow> nat" where
  "effort self T c = (\<Sum>t \<in> T. owed (value_of (heap c) self) (threads c t)) + (card (pending T c) choose 2)"

lemma pms_step_owed:
  assumes "pms_step warn self False th w = Some (th', w')"
  shows "\<not> returned th \<and> owed (value_of w self) th \<ge> 1 \<and> (\<not> returned th' \<longrightarrow> w' = w \<and>
    owed (value_of w self) th = 2 \<and> owed (value_of w self) th' = 1)"
  using assms
  by (cases "(warn, self, False, th, w)" rule: pms_step.cases)
    (auto simp: value_of_def split: Option.bind_splits if_splits)

lemma owed_other: "owed v' th \<le> owed v th + (if returned th then 0 else 1)"
  by (cases th) auto

lemma choose_2_Suc: "Suc m choose 2 = m + (m choose 2)"
  by (simp add: numeral_2_eq_2)

lemma effort_return:
  assumes "finite T" "t \<in> T" "pms_step warn self False (threads c t) (heap c) = Some (th, w')" "returned th"
  shows "effort self T \<lparr>heap = w', threads = (threads c)(t := th), order = os\<rparr> < effort self T c"
proof -
  let ?c = "\<lparr>heap = w', threads = (threads c)(t := th), order = os\<rparr>"
  let ?v = "value_of (heap c) self" and ?v' = "value_of w' self"
  have t: "\<not> returned (threads c t)" "owed ?v (threads c t) \<ge> 1" using pms_step_owed [OF assms(3)] by auto
  have zero: "owed ?v' th = 0" using assms(4) by (cases th) auto
  have pend: "pending T c = insert t (pending T ?c)" "t \<notin> pending T ?c" "finite (pending T ?c)"
    using assms(1,2,4) t(1) by (auto simp: pending_def)
  have "(\<Sum>u \<in> T - {t}. owed ?v' (threads c u)) \<le>
      (\<Sum>u \<in> T - {t}. owed ?v (threads c u) + (if returned (threads c u) then 0 else 1))"
    by (intro sum_mono owed_other)
  also have "\<dots> = (\<Sum>u \<in> T - {t}. owed ?v (threads c u)) + card (pending T ?c)"
  proof -
    have "(\<Sum>u \<in> T - {t}. if returned (threads c u) then 0 else 1 :: nat) =
        card {u \<in> T - {t}. \<not> returned (threads c u)}"
      using assms(1) by (simp add: sum.If_cases Int_def)
    moreover have "{u \<in> T - {t}. \<not> returned (threads c u)} = pending T ?c"
      using assms(4) by (auto simp: pending_def)
    ultimately show ?thesis by (simp add: sum.distrib)
  qed
  finally have le: "(\<Sum>u \<in> T - {t}. owed ?v' (threads c u)) \<le>
      (\<Sum>u \<in> T - {t}. owed ?v (threads c u)) + card (pending T ?c)" .
  have "effort self T ?c = (\<Sum>u \<in> T - {t}. owed ?v' (threads c u)) + (card (pending T ?c) choose 2)"
    using assms(1,2) zero by (simp add: effort_def sum.remove [of T t])
  moreover have "effort self T c = owed ?v (threads c t) + (\<Sum>u \<in> T - {t}. owed ?v (threads c u)) +
      (card (pending T ?c) + (card (pending T ?c) choose 2))"
    using assms(1,2) pend by (simp add: effort_def sum.remove [of T t] choose_2_Suc)
  ultimately show ?thesis using le t(2) by simp
qed

lemma effort_loop:
  assumes "finite T" "t \<in> T" "pms_step warn self False (threads c t) (heap c) = Some (th, w')" "\<not> returned th"
  shows "effort self T \<lparr>heap = w', threads = (threads c)(t := th), order = os\<rparr> < effort self T c"
proof -
  have t: "\<not> returned (threads c t)" "w' = heap c" "owed (value_of (heap c) self) (threads c t) = 2"
      "owed (value_of (heap c) self) th = 1"
    using pms_step_owed [OF assms(3)] assms(4) by auto
  moreover from this have "pending T \<lparr>heap = w', threads = (threads c)(t := th), order = os\<rparr> = pending T c"
    using assms(4) by (auto simp: pending_def)
  ultimately show ?thesis using assms(1,2) by (simp add: effort_def sum.remove [of T t])
qed

lemma quiet_effort:
  "cas_quiet warn self T n c c' \<Longrightarrow> finite T \<Longrightarrow> n + effort self T c' \<le> effort self T c"
proof (induction rule: cas_quiet.induct)
  case (quiet_step n c c1 t c2)
  then have "effort self T c2 < effort self T c1"
    by (elim cas_stepE) (metis effort_return effort_loop)
  then show ?case using quiet_step by simp
qed simp

text \<open>A pending call whose operation is defined has a step.\<close>

lemma pms_step_defined:
  assumes "samples w self = Some s" "passed s th" "\<not> returned th"
    and "\<And>op. call_of th = Some op \<Longrightarrow> pms_do warn self op w0 \<noteq> None"
    and "samples w0 self = Some s0" "stype s0 = stype s"
  shows "pms_step warn self spurious th w \<noteq> None"
  using assms
  by (cases "(warn, self, spurious, th, w)" rule: pms_step.cases)
    (auto simp: pms_add_def pms_sub_def pms_set_def split: if_splits)

lemma pms_do_all_sample:
  "pms_do_all warn self ops w = Some (es, w') \<Longrightarrow> samples w self = Some s \<Longrightarrow>
     \<exists>s'. samples w' self = Some s' \<and> stype s' = stype s"
proof (induction ops arbitrary: w es s)
  case (Cons op ops)
  then show ?case using pms_do_sample by (fastforce split: Option.bind_splits)
qed simp

lemma calls_inv_enabled:
  assumes "calls_inv warn self prog w c" "samples w self = Some s0" "pms_do warn self (prog t) w \<noteq> None"
    and "\<not> returned (threads c t)"
  shows "\<exists>c'. cas_step warn self t spurious c c'"
proof -
  obtain s es where s: "samples (heap c) self = Some s" "passed s (threads c t)"
    and es: "pms_do_all warn self (map prog (order c)) w = Some (es, heap c)"
    and prog: "\<And>op. call_of (threads c t) = Some op \<Longrightarrow> op = prog t"
    using assms(1) unfolding calls_inv_def by blast
  have "stype s0 = stype s" using pms_do_all_sample [OF es assms(2)] s(1) by auto
  then have "pms_step warn self spurious (threads c t) (heap c) \<noteq> None"
    using pms_step_defined [OF s assms(4) _ assms(2)] prog assms(3) by blast
  then obtain th w' where "pms_step warn self spurious (threads c t) (heap c) = Some (th, w')" by auto
  then show ?thesis by (blast intro: cas_stepI)
qed

section \<open>Two increments, interleaved\<close>

definition two_adds :: "nat \<Rightarrow> pms_call" where
  "two_adds t = Pms_Add d_one"

text \<open>Both calls load the same value; the second exchange fails and is repeated.\<close>

lemma two_adds_run:
  "\<exists>c. cas_quiet False 2 {0, 1} 5 (calls_start two_adds (one_sample dzero)) c \<and> order c = [1, 0] \<and>
     threads c = (\<lambda>t. Called (Pms_Add d_one))(0 := Returned 0, 1 := Returned 0)"
proof -
  let ?Q = "cas_quiet False 2 {0, 1}" and ?c0 = "calls_start two_adds (one_sample dzero)"
  let ?w = "one_sample dzero" and ?w1 = "one_sample (dadd dzero d_one)"
  let ?f0 = "\<lambda>t. Called (Pms_Add d_one)"
  let ?f1 = "?f0(0 := Looping (Pms_Add d_one) dzero)"
  let ?f2 = "?f1(1 := Looping (Pms_Add d_one) dzero)"
  let ?f3 = "?f2(1 := Returned 0)"
  let ?f4 = "?f3(0 := Looping (Pms_Add d_one) (dadd dzero d_one))"
  let ?f5 = "?f4(0 := Returned 0)"
  have "dval (dadd dzero d_one) = 1" using dadd_exact_nat [of dzero d_one 1] by simp
  then have ok: "\<not> dlt d_one dzero" "dadd dzero d_one \<noteq> dzero" by auto
  have s: "cas_step False 2 t False \<lparr>heap = w, threads = f, order = os\<rparr>
      \<lparr>heap = w', threads = f(t := th), order = os @ (if returned th then [t] else [])\<rparr>"
    if "pms_step False 2 False (f t) w = Some (th, w')" for t w f os th w'
    using cas_stepI [of False 2 False "\<lparr>heap = w, threads = f, order = os\<rparr>" t th w'] that by simp
  have q0: "?Q 0 ?c0 \<lparr>heap = ?w, threads = ?f0, order = []\<rparr>"
    using quiet_refl [of False 2 "{0, 1}" ?c0] by (simp add: calls_start_def two_adds_def)
  have q1: "?Q 1 ?c0 \<lparr>heap = ?w, threads = ?f1, order = []\<rparr>"
    using quiet_step [OF q0 _ s [of _ 0 ?w "Looping (Pms_Add d_one) dzero" ?w]] ok by (simp add: one_sample_def)
  have q2: "?Q 2 ?c0 \<lparr>heap = ?w, threads = ?f2, order = []\<rparr>"
    using quiet_step [OF q1 _ s [of _ 1 ?w "Looping (Pms_Add d_one) dzero" ?w]] ok
    by (simp add: one_sample_def numeral_2_eq_2)
  have q3: "?Q 3 ?c0 \<lparr>heap = ?w1, threads = ?f3, order = [1]\<rparr>"
    using quiet_step [OF q2 _ s [of _ 1 ?w "Returned 0" ?w1]] ok
    by (simp add: one_sample_def put_value_def numeral_3_eq_3 numeral_2_eq_2)
  have q4: "?Q 4 ?c0 \<lparr>heap = ?w1, threads = ?f4, order = [1]\<rparr>"
    using quiet_step [OF q3 _ s [of _ 0 ?w1 "Looping (Pms_Add d_one) (dadd dzero d_one)" ?w1]] ok
    by (simp add: one_sample_def)
  let ?w2 = "one_sample (dadd (dadd dzero d_one) d_one)"
  have q5: "?Q 5 ?c0 \<lparr>heap = ?w2, threads = ?f5, order = [1, 0]\<rparr>"
    using quiet_step [OF q4 _ s [of _ 0 ?w1 "Returned 0" ?w2]] ok
    by (simp add: one_sample_def put_value_def)
  then show ?thesis by (intro exI conjI) (assumption | force)+
qed

section \<open>Properties\<close>

text \<open>C33. However the calls of \<open>pms_add\<close>, \<open>pms_sub\<close> and \<open>pms_set\<close> on one sample interleave, and
  however often an exchange fails, the memory is that after the sequential operations on the calls that
  have returned, one after the other in the order of the returns, and each has returned the code of its
  sequential operation, refused calls included. What is returned later comes later in that order. A call
  that would print its warning is undefined and takes no step.\<close>

theorem pms_updates_linearizable:
  assumes "samples w self \<noteq> None" "cas_run warn self (calls_start prog w) c" "cas_run warn self c c'"
  shows "(\<exists>es. pms_do_all warn self (map prog (order c')) w = Some (es, heap c') \<and>
      list_all2 (\<lambda>t e. threads c' t = Returned e) (order c') es) \<and>
    distinct (order c') \<and> (\<forall>t. (\<exists>e. threads c' t = Returned e) \<longleftrightarrow> t \<in> set (order c')) \<and>
    (\<exists>later. order c' = order c @ later)"
proof -
  have "calls_inv warn self prog w c'"
    using calls_inv_run [OF assms(3) calls_inv_run [OF assms(2) calls_inv_start]] assms(1) by blast
  moreover have "returned th \<longleftrightarrow> (\<exists>e. th = Returned e)" for th by (cases th) auto
  ultimately show ?thesis using order_grows [OF assms(3)] unfolding calls_inv_def by blast
qed

theorem pms_updates_linearizable_witness:
  "\<exists>c w es. cas_run False 2 (calls_start two_adds (one_sample dzero)) c \<and> heap c = w \<and>
    pms_do_all False 2 [Pms_Add d_one, Pms_Add d_one] (one_sample dzero) = Some (es, w) \<and> order c = [1, 0]"
proof -
  obtain c where c: "cas_run False 2 (calls_start two_adds (one_sample dzero)) c" "order c = [1, 0]"
    using two_adds_run quiet_run by blast
  have "samples (one_sample dzero) 2 \<noteq> None" by (simp add: one_sample_def)
  from pms_updates_linearizable [OF this c(1) run_refl] c show ?thesis
    by (fastforce simp: two_adds_def)
qed

text \<open>C34. No increment is lost: when the calls \<open>T\<close>, each an addition of 1.0 to a counter that stood at
  the integer \<open>k\<close>, have returned, in whatever interleaving, each has returned 0, the memory is that
  after as many sequential calls of \<open>pms_add\<close>, and the counter stands at exactly \<open>k\<close> plus their
  number, up to \<open>2^53\<close>.\<close>

theorem pms_add_no_lost_update:
  assumes "samples w self = Some s" "is_fin (r_value s)" "dval (r_value s) = real k"
    and "cas_run warn self (calls_start (\<lambda>_. Pms_Add d_one) w) c"
    and "finite T" "\<forall>t. (\<exists>e. threads c t = Returned e) \<longleftrightarrow> t \<in> T" "k + card T \<le> 2 ^ 53"
  shows "(\<forall>t \<in> T. threads c t = Returned 0) \<and>
    add_each self (replicate (card T) d_one) w = Some (heap c) \<and>
    is_fin (value_of (heap c) self) \<and> dval (value_of (heap c) self) = real (k + card T)"
proof -
  have inv: "calls_inv warn self (\<lambda>_. Pms_Add d_one) w c"
    using calls_inv_run [OF assms(4) calls_inv_start] assms(1) by blast
  obtain es where es: "pms_do_all warn self (map (\<lambda>t. Pms_Add d_one) (order c)) w = Some (es, heap c)"
      "list_all2 (\<lambda>t e. threads c t = Returned e) (order c) es"
    using inv unfolding calls_inv_def by blast
  have "returned th \<longleftrightarrow> (\<exists>e. th = Returned e)" for th by (cases th) auto
  then have T: "set (order c) = T" "distinct (order c)" using inv assms(6) by (auto simp: calls_inv_def)
  then have n: "length (order c) = card T" using distinct_card by fastforce
  have pos: "\<not> dlt d_one dzero" by simp
  have seq: "es = replicate (card T) 0" "add_each self (replicate (card T) d_one) w = Some (heap c)"
    using pms_do_all_adds [of "order c" "\<lambda>_. d_one" w self warn es "heap c"] es(1) pos assms(1) n
    by (simp_all add: map_replicate_const)
  have "\<forall>t \<in> T. threads c t = Returned 0"
    using es(2) seq(1) T(1) n by (auto simp: list_all2_conv_all_nth in_set_conv_nth)
  moreover have "value_of (heap c) self = foldl dadd (r_value s) (replicate (card T) d_one)"
    using add_each_value [OF assms(1), of "replicate (card T) d_one"] seq(2) pos by (auto simp: value_of_def)
  ultimately show ?thesis using seq(2) foldl_ones [OF assms(2,3,7)] by simp
qed

theorem pms_add_no_lost_update_witness:
  "\<exists>c. cas_run False 2 (calls_start (\<lambda>_. Pms_Add d_one) (one_sample dzero)) c \<and>
    dval (value_of (heap c) 2) = 2"
proof -
  have two: "two_adds = (\<lambda>_. Pms_Add d_one)" by (simp add: two_adds_def fun_eq_iff)
  obtain c where c: "cas_run False 2 (calls_start (\<lambda>_. Pms_Add d_one) (one_sample dzero)) c"
      "threads c = (\<lambda>t. Called (Pms_Add d_one))(0 := Returned 0, 1 := Returned 0)"
    using two_adds_run quiet_run two by metis
  have "samples (one_sample dzero) 2 = Some \<lparr>stype = PROM_COUNTER, l_value = 1, r_value = dzero\<rparr>"
    by (simp add: one_sample_def)
  from pms_add_no_lost_update [OF this _ _ c(1), of 0 "{0, 1}"] c show ?thesis by auto
qed

text \<open>C35. Where the weak exchange only fails when the value has changed, as on x86, the loops of
  \<open>pms_add\<close> and \<open>pms_sub\<close> end: whatever the interleaving, \<open>n\<close> concurrent calls on a sample take
  at most \<open>2 n + n (n - 1) / 2\<close> steps together, a call alone at most two, and as long as one has not
  returned it can take a step. The calls are defined, that is none prints its warning.\<close>

theorem pms_calls_return:
  assumes "samples w self \<noteq> None" "finite T" "\<forall>t \<in> T. pms_do warn self (prog t) w \<noteq> None"
    and "cas_quiet warn self T n (calls_start prog w) c"
  shows "n \<le> 2 * card T + (card T choose 2) \<and>
    (\<forall>t \<in> T. (\<exists>e. threads c t = Returned e) \<or> (\<exists>c'. cas_quiet warn self T (Suc n) (calls_start prog w) c' \<and>
       cas_step warn self t False c c'))"
proof -
  have inv: "calls_inv warn self prog w c"
    using calls_inv_run [OF quiet_run [OF assms(4)] calls_inv_start] assms(1) by blast
  have "effort self T (calls_start prog w) = 2 * card T + (card T choose 2)"
    by (simp add: effort_def pending_def calls_start_def)
  moreover have "n + effort self T c \<le> effort self T (calls_start prog w)"
    using quiet_effort [OF assms(4,2)] .
  moreover have "\<exists>c'. cas_step warn self t False c c'" if "t \<in> T" "\<nexists>e. threads c t = Returned e" for t
    using calls_inv_enabled [OF inv _ _ ] assms(1,3) that by (metis not_None_eq returned.elims(2))
  ultimately show ?thesis using quiet_step [OF assms(4)] by (metis le_trans le_add1)
qed

theorem pms_calls_return_witness:
  "\<exists>c. cas_quiet False 2 {0, 1} 5 (calls_start two_adds (one_sample dzero)) c \<and>
    (5::nat) \<le> 2 * card {0, 1::nat} + (card {0, 1::nat} choose 2)"
proof -
  obtain c where c: "cas_quiet False 2 {0, 1} 5 (calls_start two_adds (one_sample dzero)) c"
    using two_adds_run by blast
  have "samples (one_sample dzero) 2 \<noteq> None" "\<forall>t \<in> {0, 1}. pms_do False 2 (two_adds t) (one_sample dzero) \<noteq> None"
    by (simp_all add: one_sample_def two_adds_def pms_add_def)
  from pms_calls_return [OF this(1) _ this(2) c] c show ?thesis by blast
qed

end
