(* ===== verification/Spec2Isabelle.thy ===== *)
theory Spec2Isabelle
  imports MonitorRun MonitorScrape Log SampleThreads
begin

text \<open>
  A verification development for a system monitor that exports metrics of the machine it
  runs on in the Prometheus text format, and for the C client library it is built on.

  \<^bold>\<open>The program.\<close> The monitor (\<open>src/main.c\<close>, \<open>src/expose_metrics.c\<close>, \<open>src/metrics.c\<close>) has two
  threads. The main thread reads a configuration file, makes a gauge for each number it will
  export, registers the gauges, and then goes round: each round reads files of \<open>/proc\<close> and the
  output of \<open>top\<close> and sets the gauges. The other thread runs an HTTP server
  (\<open>lib/promhttp\<close>) that answers \<open>GET /metrics\<close> with the text of all registered metrics. A signal
  asks the main thread for a status word. The client library (\<open>lib/prom\<close>) provides metrics with
  label sets, the collectors and registries they are kept in, and the text of a scrape.

  \<^bold>\<open>How C is modelled.\<close> An operation is a function from a state to \<open>(result \<times> state) option\<close>.
  \<open>None\<close> is undefined behaviour: a dead or NULL pointer is used, a block is overrun, a cast or a
  scanned number does not fit, or a loop does not end. NULL is address 0; error codes and NULL
  results are ordinary values. The heap is one record, extended by each layer by the objects it
  has: strings and the allocator (\<open>mem\<close> in \<open>CMem\<close>, where \<open>oom\<close> says which of the next allocations
  fail), samples, buckets, histograms, metrics (\<open>mmem\<close>), collectors (\<open>cmem\<close>), registries (\<open>rmem\<close>),
  the server and the monitor (\<open>http\<close>, \<open>monitor\<close>). Sizes are 64-bit words where they can wrap;
  \<open>double\<close> is IEEE arithmetic on natural numbers that the kernel evaluates (\<open>CDouble\<close>). The system
  is a parameter: what system calls return to the process collector (record \<open>os\<close>), what the files
  of the machine hold (\<open>machine\<close>), what libmicrohttpd does (\<open>mhd\<close>), and \<open>stdio\<close> for logging.

  \<^bold>\<open>Theories, from the bottom up.\<close>
    \<^item> \<open>Prelude\<close>, \<open>CMem\<close>, \<open>CDouble\<close>, \<open>CFormat\<close>, \<open>CScan\<close>: shared facts, the string heap, doubles with
      the bounds of rounding, \<open>printf\<close> and \<open>scanf\<close> as far as the program uses them.
    \<^item> \<open>StringBuilder\<close> (\<open>prom_string_builder.c\<close>): \<open>psb_ok\<close>, safety for every allocator, the doubling
      loop as a partial function with the exact condition under which it returns; the locale
      \<open>char_sink\<close> is what the formatter relies on.
    \<^item> \<open>LinkedList\<close> (\<open>prom_linked_list.c\<close>): nodes on a heap, refined to sequences of items.
    \<^item> \<open>PromMap\<close>, \<open>MapUse\<close> (\<open>prom_map.c\<close>): the hash map; \<open>map_ok\<close>, refinement to a finite map from
      strings to addresses, growth, ownership of keys; the locale \<open>string_map\<close> is its contract.
    \<^item> \<open>MetricSample\<close>, \<open>SampleThreads\<close> (\<open>prom_metric_sample.c\<close>): one number, and its operations as
      atomic steps (\<open>pms_step\<close>: load, compare-and-exchange, store) of any number of concurrent calls; each
      interleaving has the memory and the codes of the sequential operations in the order of the
      returns, and the retry loops end.
    \<^item> \<open>MetricFormatter\<close>, \<open>Exposition\<close> (\<open>prom_metric_formatter.c\<close>): the lines of the text format and
      the text of a metric.
    \<^item> \<open>HistogramBuckets\<close>, \<open>SampleHistogram\<close>, \<open>HistogramNew\<close> (\<open>prom_histogram_buckets.c\<close>,
      \<open>prom_metric_sample_histogram.c\<close>): a histogram counts what it observes, from its creation on.
    \<^item> \<open>Metric\<close>, \<open>MetricSet\<close>, \<open>MetricUse\<close> (\<open>prom_metric.c\<close>, \<open>prom_counter.c\<close>, \<open>prom_gauge.c\<close>,
      \<open>prom_histogram.c\<close>): a metric refines a finite map from label values to numbers (locale
      \<open>sample_op\<close>, interpreted for each counter and gauge operation); several metrics in one state are
      independent: \<open>singles\<close> says that each has at most one sample and reads the number \<open>R\<close> gives it,
      \<open>metrics_only\<close> that a step touches nothing else, with a frame rule for part of the metrics.
    \<^item> \<open>Collector\<close>, \<open>ProcessCollector\<close>, \<open>ProcessScrape\<close> (\<open>prom_collector.c\<close>, \<open>prom_process_*.c\<close> as
      compiled on Linux): a collection stores each number that was read in its metric.
    \<^item> \<open>Registry\<close>, \<open>RegistryUse\<close>, \<open>RegistryInit\<close> (\<open>prom_collector_registry.c\<close>, with \<open>pmf_load_metrics\<close>):
      registration refines a finite map from names to metrics, a scrape prints every metric, and
      \<open>pcr_default_init\<close> makes the default collector, the process collector and the gauge of the
      scrape times.
    \<^item> \<open>Log\<close> (\<open>prom_log.c\<close>), \<open>PromHttp\<close> (\<open>promhttp.c\<close>).
    \<^item> \<open>RegistryScrape\<close>, \<open>RegistryServing\<close>: a scrape of the default registry with everything
      \<open>pcr_default_init\<close> enables. The record \<open>library\<close> says what such a registry is made of,
      \<open>serving\<close> that it is fit for a scrape in which the metrics show the numbers \<open>R\<close>; a scrape
      collects the process metrics, prints both collectors, times itself, and keeps \<open>serving\<close>.
    \<^item> \<open>ProcReaders\<close> (\<open>metrics.c\<close>): what the readers make of the files.
    \<^item> \<open>ExposeMetrics\<close>, \<open>MonitorMain\<close> (\<open>expose_metrics.c\<close>, \<open>main.c\<close>): set-up, updates, configuration,
      signals, and the two threads as a step relation on the state of the process.
    \<^item> \<open>MonitorUse\<close>, \<open>MonitorScrape\<close>, \<open>MonitorRun\<close>: what the monitor promises. A round refines the
      update of a finite map from gauges to numbers (\<open>monitor_ok\<close>); the set-up leads to a monitor
      whose registry can be served (\<open>monitor_serving\<close>), and a round followed by \<open>GET /metrics\<close> answers
      with the page of the numbers just read and leads back to such a monitor; invariants of all
      reachable states of the process; what happens when the server starts before the registry is there, and when
      the set-up fails.

  \<^bold>\<open>Bounds.\<close> There is no fuel. Loops over lists and strings are structural recursions; the
  doubling loop, the traversals of linked lists and the line loops are partial functions or have
  termination proofs. The side conditions of the text properties bound the text by \<open>psb_limit\<close>
  (\<open>2 ^ 63\<close>, beyond which the doubling loop diverges) and the entries of a map by \<open>map_limit\<close>
  (\<open>2 ^ 28\<close>, the table then holds at most \<open>2 ^ 29\<close> buckets and its index fits).

  \<^bold>\<open>Not modelled.\<close> The bit patterns of NaN and the text of its sign; hexadecimal numbers, infinity
  and NaN as input of \<open>%lf\<close> (the scanner is undefined there); a failing \<open>pthread_rwlock_init\<close> (that of
  glibc returns 0), so that the \<open>_new\<close> functions only fail for want of memory; the Solaris branches of the process
  collector; what is logged by the library in the course of its operations and the messages of the
  monitor on \<open>stderr\<close>; collect functions supplied by a user of the library; the server inside
  libmicrohttpd. Concurrency is modelled for the atomic updates of samples and for the order of the
  steps of the two threads, where the set-up and one round are single steps; a scrape that overlaps
  a round, or a signal handler that interrupts one, is not. The headers under \<open>lib/prom/include\<close>
  hold declarations and documentation only.
\<close>

end
